(* ===== verification/Prelude.thy ===== *)
theory Prelude
  imports Main "HOL-Library.Word"
begin

text \<open>
  The vocabulary shared by every component of the NTux-OS development: the kernel's
  integer types as words, byte buffers as lists, little-endian fields inside packed
  structures, C string literals, and the collections of rewrite rules that the component
  proofs use.  Nothing in this theory models a file of the kernel by itself; it supplies
  the meaning of C's \<^verbatim>\<open>uint8_t\<close> \ldots \<^verbatim>\<open>uint64_t\<close>, of \<^verbatim>\<open>packed\<close> field access
  on a little-endian machine and of copying a block of bytes into an array.
\<close>

unbundle bit_operations_syntax

section \<open>Machine integers and byte strings\<close>

type_synonym u8 = "8 word"
type_synonym u16 = "16 word"
type_synonym u32 = "32 word"
type_synonym u64 = "64 word"

text \<open>Rules about reading a buffer after writing it, and about lengths of buffers.\<close>

named_theorems buf_simps
named_theorems len_simps

text \<open>The bytes of a string literal, without the terminating NUL.\<close>

definition bytes :: "string \<Rightarrow> u8 list" where
  "bytes s = map of_char s"

lemma length_bytes [len_simps, simp]: "length (bytes s) = length s"
  by (simp add: bytes_def)

lemma bytes_Nil [simp]: "bytes [] = []"
  by (simp add: bytes_def)

lemma bytes_Cons: "bytes (c # s) = of_char c # bytes s"
  by (simp add: bytes_def)

lemma unat_of_nat_small: "n < 2 ^ LENGTH('a) \<Longrightarrow> unat (of_nat n :: 'a::len word) = n"
  by (simp add: unat_of_nat)

lemma unat_less_pow: "unat x < 2 ^ LENGTH('a)" for x :: "'a::len word"
  by (rule unsigned_less)

lemma unat_plus_small: "unat a + unat b < 2 ^ LENGTH('a) \<Longrightarrow> unat (a + b) = unat a + unat b"
  for a b :: "'a::len word"
  by (rule unat_add_lem [THEN iffD1])

lemma sint_eq_iff [simp]: "sint a = sint b \<longleftrightarrow> a = b" for a b :: "'a::len word"
  by (auto intro: signed_word_eqI)

lemma sint_eq_0_iff [simp]: "sint a = 0 \<longleftrightarrow> a = 0" for a :: "'a::len word"
  using sint_eq_iff [of a 0] by simp

lemma all_upto_step: "i < n \<Longrightarrow>
    (\<forall>j. i \<le> j \<and> j < n \<longrightarrow> P j) \<longleftrightarrow> P i \<and> (\<forall>j. i + 1 \<le> j \<and> j < n \<longrightarrow> P j)" for i n :: nat
  by (auto simp: Suc_le_eq) (metis le_neq_implies_less)

section \<open>Little-endian fields\<close>

text \<open>
  A packed structure laid over a byte array: the 16- and 32-bit field at byte offset
  \<^term>\<open>i\<close>, read and written least significant byte first.
\<close>

definition le16 :: "u8 list \<Rightarrow> nat \<Rightarrow> u16" where
  "le16 b i = (ucast (b ! i) :: u16) OR push_bit 8 (ucast (b ! (i + 1)))"

definition le32 :: "u8 list \<Rightarrow> nat \<Rightarrow> u32" where
  "le32 b i = (ucast (b ! i) :: u32) OR push_bit 8 (ucast (b ! (i + 1)))
     OR push_bit 16 (ucast (b ! (i + 2))) OR push_bit 24 (ucast (b ! (i + 3)))"

definition le64 :: "u8 list \<Rightarrow> nat \<Rightarrow> u64" where
  "le64 b i = ucast (le32 b i) OR push_bit 32 (ucast (le32 b (i + 4)))"

definition put16 :: "u8 list \<Rightarrow> nat \<Rightarrow> u16 \<Rightarrow> u8 list" where
  "put16 b i v = b[i := ucast v, i + 1 := ucast (drop_bit 8 v)]"

definition put32 :: "u8 list \<Rightarrow> nat \<Rightarrow> u32 \<Rightarrow> u8 list" where
  "put32 b i v = b[i := ucast v, i + 1 := ucast (drop_bit 8 v),
     i + 2 := ucast (drop_bit 16 v), i + 3 := ucast (drop_bit 24 v)]"

lemma length_put16 [len_simps, simp]: "length (put16 b i v) = length b"
  by (simp add: put16_def)

lemma length_put32 [len_simps, simp]: "length (put32 b i v) = length b"
  by (simp add: put32_def)

lemma bytes_join16:
  "(ucast (ucast v :: u8) :: u16) OR push_bit 8 (ucast (ucast (drop_bit 8 v) :: u8)) = v"
  by (rule bit_word_eqI) (auto simp: bit_simps)

lemma bytes_join32:
  "(ucast (ucast v :: u8) :: u32) OR push_bit 8 (ucast (ucast (drop_bit 8 v) :: u8))
     OR push_bit 16 (ucast (ucast (drop_bit 16 v) :: u8))
     OR push_bit 24 (ucast (ucast (drop_bit 24 v) :: u8)) = v"
proof (rule bit_word_eqI)
  fix n
  assume "n < LENGTH(32)"
  then show "bit ((ucast (ucast v :: u8) :: u32) OR push_bit 8 (ucast (ucast (drop_bit 8 v) :: u8))
     OR push_bit 16 (ucast (ucast (drop_bit 16 v) :: u8))
     OR push_bit 24 (ucast (ucast (drop_bit 24 v) :: u8))) n = bit v n"
    by (cases "n < 16"; cases "n < 24") (auto simp: bit_simps)
qed

lemma le16_put16 [buf_simps]: "i + 1 < length b \<Longrightarrow> le16 (put16 b i v) i = v"
  by (simp add: le16_def put16_def bytes_join16)

lemma le32_put32 [buf_simps]: "i + 3 < length b \<Longrightarrow> le32 (put32 b i v) i = v"
  by (simp add: le32_def put32_def bytes_join32)

lemma nth_put32_other [buf_simps]: "j < i \<or> i + 4 \<le> j \<Longrightarrow> put32 b i v ! j = b ! j"
  by (auto simp: put32_def nth_list_update)

lemma nth_put16_other [buf_simps]: "j < i \<or> i + 2 \<le> j \<Longrightarrow> put16 b i v ! j = b ! j"
  by (auto simp: put16_def nth_list_update)

lemma le32_put32_other [buf_simps]:
  "j + 4 \<le> i \<or> i + 4 \<le> j \<Longrightarrow> le32 (put32 b i v) j = le32 b j"
  by (auto simp: le32_def nth_put32_other)

section \<open>Copying into an array\<close>

text \<open>\<^verbatim>\<open>memcpy(b + off, src, n)\<close> where \<^term>\<open>n = length src\<close> and the target range is inside
  the array.\<close>

definition overwrite :: "u8 list \<Rightarrow> nat \<Rightarrow> u8 list \<Rightarrow> u8 list" where
  "overwrite b off src = take off b @ src @ drop (off + length src) b"

lemma length_overwrite [len_simps, simp]:
  "off + length src \<le> length b \<Longrightarrow> length (overwrite b off src) = length b"
  by (simp add: overwrite_def)

lemma take_overwrite [buf_simps]:
  "off + length src \<le> length b \<Longrightarrow> take off (overwrite b off src) = take off b"
  by (simp add: overwrite_def)

lemma slice_overwrite [buf_simps]:
  "off + length src \<le> length b \<Longrightarrow> take (length src) (drop off (overwrite b off src)) = src"
  by (simp add: overwrite_def)

section \<open>Array-filling loops\<close>

text \<open>Intervals of known size stay folded: the kernel's tables have hundreds of entries.\<close>

declare upt_rec_numeral [simp del]

lemma length_fold_update [len_simps, simp]:
  "length (fold (\<lambda>i es. es[i := f i]) is es) = length es"
  by (induction "is" arbitrary: es) auto

lemma fold_update_upto:
  "n \<le> length es \<Longrightarrow> fold (\<lambda>i es. es[i := f i]) [0..<n] es = map f [0..<n] @ drop n es"
proof (induction n)
  case (Suc n)
  then have "fold (\<lambda>i es. es[i := f i]) [0..<Suc n] es = (map f [0..<n] @ drop n es)[n := f n]"
    by simp
  also have "drop n es = es ! n # drop (Suc n) es" using Suc.prems by (simp add: Cons_nth_drop_Suc)
  finally show ?case by (simp add: list_update_append)
qed simp

section \<open>Linked lists\<close>

text \<open>\<^term>\<open>flist nx p bs\<close>: following \<^term>\<open>nx\<close> from \<^term>\<open>p\<close> visits the nodes \<^term>\<open>bs\<close> and ends
  in NULL.\<close>

primrec flist :: "(u64 \<Rightarrow> u64) \<Rightarrow> u64 \<Rightarrow> u64 list \<Rightarrow> bool" where
  "flist nx p [] \<longleftrightarrow> p = 0"
| "flist nx p (b # bs) \<longleftrightarrow> p = b \<and> b \<noteq> 0 \<and> flist nx (nx b) bs"

lemma flist_upd [simp]: "a \<notin> set bs \<Longrightarrow> flist (nx(a := v)) p bs = flist nx p bs"
  by (induction bs arbitrary: p) auto

lemma flist_unlink:
  "flist nx p (xs @ a # b # ys) \<Longrightarrow> distinct (xs @ a # b # ys) \<Longrightarrow>
     flist (nx(a := nx b)) p (xs @ a # ys)"
  by (induction xs arbitrary: p) auto

text \<open>Widening a 32-bit number to 64 bits keeps its value.\<close>

lemma unat_ucast_32_64: "unat (ucast n :: u64) = unat n" for n :: u32
proof -
  have "unat n < 2 ^ 64" using unat_less_pow [of n] by simp
  then show ?thesis unfolding unsigned_ucast_eq by (simp add: take_bit_nat_eq_self)
qed

end
