(* ===== verification/Pmm.thy ===== *)
theory Pmm
  imports Prelude
begin

text \<open>
  The physical page allocator, \<^verbatim>\<open>kernel/src/mem/pmm.c\<close>: one bit per 4 KiB page in a bitmap
  that is placed at the start of the first usable memory-map entry large enough to hold it.
  The file's static variables are the record \<^verbatim>\<open>pmm\<close>; an access outside the bitmap, through a
  NULL bitmap, or a marking loop that never ends is \<^const>\<open>None\<close>.
  The memory map comes from the Limine boot protocol; its entries are a record and the numeric code
  of a usable entry (\<^verbatim>\<open>LIMINE_MEMMAP_USABLE\<close>, from \<^verbatim>\<open>limine.h\<close>) is a parameter.
  Page numbers and bit indices are \<^typ>\<open>nat\<close>: they are quotients of 64-bit addresses by 4096.
  The bytes of the bitmap are part of the record, not of the memory the pages stand for: a client that writes to a page on which
  the bitmap lies, which the allocator may hand out (see below), destroys the bitmap in the code and not here.

  Shown: allocation hands out the lowest free page and only that page, freeing undoes it, the
  counter \<^verbatim>\<open>free_pages\<close> always equals the number of clear bits, and where initialisation leaves
  the page that holds the end of the bitmap itself marked as free.
\<close>

section \<open>State\<close>

record memmap_entry =
  me_base :: u64
  me_length :: u64
  me_type :: u64

record pmm =
  bitmap_ptr :: u64
  bitmap :: "u8 list"
  bitmap_size :: u64
  total_pages :: u64
  free_pages :: u64
  memory_start :: u64

abbreviation (input) PAGE_SIZE :: u64 where
  "PAGE_SIZE \<equiv> 4096"

text \<open>The static variables before \<^verbatim>\<open>pmm_init\<close>.\<close>

definition pmm_reset :: pmm where
  "pmm_reset = \<lparr>bitmap_ptr = 0, bitmap = [], bitmap_size = 0, total_pages = 0, free_pages = 0,
     memory_start = 0\<rparr>"

section \<open>Bit operations\<close>

definition pmm_set_bit :: "u8 list \<Rightarrow> nat \<Rightarrow> u8 list option" where
  "pmm_set_bit bm b =
     (if b div 8 < length bm
      then Some (bm[b div 8 := bm ! (b div 8) OR push_bit (b mod 8) 1]) else None)"

definition pmm_clear_bit :: "u8 list \<Rightarrow> nat \<Rightarrow> u8 list option" where
  "pmm_clear_bit bm b =
     (if b div 8 < length bm
      then Some (bm[b div 8 := bm ! (b div 8) AND NOT (push_bit (b mod 8) 1)]) else None)"

definition pmm_test_bit :: "u8 list \<Rightarrow> nat \<Rightarrow> bool option" where
  "pmm_test_bit bm b =
     (if b div 8 < length bm
      then Some (drop_bit (b mod 8) (bm ! (b div 8)) AND 1 \<noteq> 0) else None)"

section \<open>Initialisation\<close>

text \<open>First loop: the highest end address of any entry.\<close>

definition highest_addr :: "memmap_entry list \<Rightarrow> u64" where
  "highest_addr mm =
     fold (\<lambda>e h. if h < me_base e + me_length e then me_base e + me_length e else h) mm 0"

text \<open>Second loop: the bitmap goes to the start of the first usable entry that can hold it, and the
  entry shrinks by the bitmap's size.\<close>

fun place_bitmap ::
  "u64 \<Rightarrow> u64 \<Rightarrow> u64 \<Rightarrow> memmap_entry list \<Rightarrow> u64 \<times> memmap_entry list" where
  "place_bitmap usable bsize ptr [] = (ptr, [])"
| "place_bitmap usable bsize ptr (e # mm) =
     (if me_type e = usable \<and> bsize \<le> me_length e
      then (me_base e, e\<lparr>me_base := me_base e + bsize, me_length := me_length e - bsize\<rparr> # mm)
      else (let (p, mm') = place_bitmap usable bsize ptr mm in (p, e # mm')))"

text \<open>Fourth loop, body for one entry: every whole page from \<^verbatim>\<open>addr\<close> up to the entry's end.\<close>

partial_function (option) mark_free ::
  "u64 \<Rightarrow> u64 \<Rightarrow> u8 list \<Rightarrow> u64 \<Rightarrow> (u8 list \<times> u64) option" where
  "mark_free addr limit bm fp =
     (if addr + PAGE_SIZE \<le> limit
      then (case pmm_clear_bit bm (unat (addr div PAGE_SIZE)) of
              None \<Rightarrow> None
            | Some bm' \<Rightarrow> mark_free (addr + PAGE_SIZE) limit bm' (fp + 1))
      else Some (bm, fp))"

fun mark_usable ::
  "u64 \<Rightarrow> memmap_entry list \<Rightarrow> u8 list \<Rightarrow> u64 \<Rightarrow> (u8 list \<times> u64) option" where
  "mark_usable usable [] bm fp = Some (bm, fp)"
| "mark_usable usable (e # mm) bm fp =
     (if me_type e = usable
      then (case mark_free (me_base e) (me_base e + me_length e) bm fp of
              None \<Rightarrow> None
            | Some (bm', fp') \<Rightarrow> mark_usable usable mm bm' fp')
      else mark_usable usable mm bm fp)"

definition pmm_init :: "u64 \<Rightarrow> memmap_entry list \<Rightarrow> pmm \<Rightarrow> (memmap_entry list \<times> pmm) option" where
  "pmm_init usable mm p =
     (let total = highest_addr mm div PAGE_SIZE;
          bsize = total div 8 + 1;
          (ptr, mm') = place_bitmap usable bsize (bitmap_ptr p) mm
      in if ptr = 0 then None
         else (case mark_usable usable mm' (replicate (unat bsize) 0xFF) (free_pages p) of
                 None \<Rightarrow> None
               | Some (bm, fp) \<Rightarrow>
                   Some (mm', \<lparr>bitmap_ptr = ptr, bitmap = bm, bitmap_size = bsize,
                     total_pages = total, free_pages = fp, memory_start = ptr + bsize\<rparr>)))"

section \<open>Allocation and release\<close>

function pmm_alloc_loop :: "nat \<Rightarrow> pmm \<Rightarrow> (u64 \<times> pmm) option" where
  "pmm_alloc_loop i p =
     (if i < unat (total_pages p)
      then (case pmm_test_bit (bitmap p) i of
              None \<Rightarrow> None
            | Some True \<Rightarrow> pmm_alloc_loop (i + 1) p
            | Some False \<Rightarrow>
                (case pmm_set_bit (bitmap p) i of
                   None \<Rightarrow> None
                 | Some bm \<Rightarrow>
                     Some (of_nat i * PAGE_SIZE,
                           p\<lparr>bitmap := bm, free_pages := free_pages p - 1\<rparr>)))
      else Some (0, p))"
  by pat_completeness auto
termination
  by (relation "measure (\<lambda>(i, p). unat (total_pages p) - i)") auto

declare pmm_alloc_loop.simps [simp del]

definition pmm_alloc_page :: "pmm \<Rightarrow> (u64 \<times> pmm) option" where
  "pmm_alloc_page p = pmm_alloc_loop 0 p"

definition pmm_free_page :: "u64 \<Rightarrow> pmm \<Rightarrow> pmm option" where
  "pmm_free_page addr p =
     (let page = unat (addr div PAGE_SIZE)
      in case pmm_test_bit (bitmap p) page of
           None \<Rightarrow> None
         | Some used \<Rightarrow>
             if used
             then (case pmm_clear_bit (bitmap p) page of
                     None \<Rightarrow> None
                   | Some bm \<Rightarrow> Some (p\<lparr>bitmap := bm, free_pages := free_pages p + 1\<rparr>))
             else Some p)"

definition pmm_get_free_memory :: "pmm \<Rightarrow> u64" where
  "pmm_get_free_memory p = free_pages p * PAGE_SIZE"

definition pmm_get_total_memory_32 :: "u64 \<Rightarrow> memmap_entry list \<Rightarrow> u32" where
  "pmm_get_total_memory_32 usable mm =
     ucast (fold (\<lambda>e total. if me_type e = usable then total + me_length e else total) mm 0)"

section \<open>Bits of the bitmap\<close>

text \<open>The abstract view of a bitmap: bit \<^term>\<open>b\<close> of the array.\<close>

definition bm_bit :: "u8 list \<Rightarrow> nat \<Rightarrow> bool" where
  "bm_bit bm b = bit (bm ! (b div 8)) (b mod 8)"

lemma odd_drop_bit_u8: "(drop_bit n x AND 1 \<noteq> 0) = bit x n" for x :: u8
  by (simp add: and_one_eq bit_iff_odd_drop_bit odd_iff_mod_2_eq_one)

lemma pmm_test_bit_eq: "b < 8 * length bm \<Longrightarrow> pmm_test_bit bm b = Some (bm_bit bm b)"
  by (auto simp: pmm_test_bit_def bm_bit_def odd_drop_bit_u8)

lemma pmm_set_bit_Some: "b < 8 * length bm \<Longrightarrow> \<exists>bm'. pmm_set_bit bm b = Some bm'"
  by (auto simp: pmm_set_bit_def)

lemma pmm_clear_bit_Some: "b < 8 * length bm \<Longrightarrow> \<exists>bm'. pmm_clear_bit bm b = Some bm'"
  by (auto simp: pmm_clear_bit_def)

lemma pmm_set_bit_length: "pmm_set_bit bm b = Some bm' \<Longrightarrow> length bm' = length bm"
  by (auto simp: pmm_set_bit_def split: if_splits)

lemma pmm_clear_bit_length: "pmm_clear_bit bm b = Some bm' \<Longrightarrow> length bm' = length bm"
  by (auto simp: pmm_clear_bit_def split: if_splits)

lemma same_bit_iff: "(c div 8 = b div 8 \<and> c mod 8 = b mod 8) \<longleftrightarrow> c = b" for b c :: nat
  by (metis div_mult_mod_eq)

lemma bm_bit_set:
  assumes "pmm_set_bit bm b = Some bm'" and "c < 8 * length bm"
  shows "bm_bit bm' c \<longleftrightarrow> c = b \<or> bm_bit bm c"
  using assms same_bit_iff [of c b]
  by (auto simp: pmm_set_bit_def bm_bit_def nth_list_update bit_simps split: if_splits)

lemma bm_bit_clear:
  assumes "pmm_clear_bit bm b = Some bm'" and "c < 8 * length bm"
  shows "bm_bit bm' c \<longleftrightarrow> c \<noteq> b \<and> bm_bit bm c"
  using assms same_bit_iff [of c b]
  by (auto simp: pmm_clear_bit_def bm_bit_def nth_list_update bit_simps split: if_splits)

lemma bitmap_eqI:
  assumes "length bm = length bm'" and "\<And>b. b < 8 * length bm \<Longrightarrow> bm_bit bm b = bm_bit bm' b"
  shows "bm = bm'"
proof (rule nth_equalityI)
  fix i
  assume i: "i < length bm"
  show "bm ! i = bm' ! i"
  proof (rule bit_word_eqI)
    fix n
    assume "n < LENGTH(8)"
    then have "8 * i + n < 8 * length bm" and "(8 * i + n) div 8 = i" and "(8 * i + n) mod 8 = n"
      using i by auto
    then show "bit (bm ! i) n = bit (bm' ! i) n"
      using assms(2) [of "8 * i + n"] by (simp add: bm_bit_def)
  qed
qed (rule assms(1))

section \<open>The page allocator's contract\<close>

definition free_set :: "pmm \<Rightarrow> nat set" where
  "free_set p = {i. i < unat (total_pages p) \<and> \<not> bm_bit (bitmap p) i}"

definition pmm_inv :: "pmm \<Rightarrow> bool" where
  "pmm_inv p \<longleftrightarrow> unat (total_pages p) < 8 * length (bitmap p) \<and> unat (total_pages p) \<le> 2 ^ 52
     \<and> free_pages p = of_nat (card (free_set p))"

lemma finite_free_set [simp]: "finite (free_set p)"
  by (simp add: free_set_def)

lemma free_set_less: "i \<in> free_set p \<Longrightarrow> i < unat (total_pages p)"
  by (simp add: free_set_def)

text \<open>\<^verbatim>\<open>alloc_pages alloc n\<close>: \<^term>\<open>n\<close> successive allocations and the addresses they return.\<close>

fun alloc_pages :: "('p \<Rightarrow> (u64 \<times> 'p) option) \<Rightarrow> nat \<Rightarrow> 'p \<Rightarrow> (u64 list \<times> 'p) option" where
  "alloc_pages alloc 0 p = Some ([], p)"
| "alloc_pages alloc (Suc n) p =
     (case alloc p of None \<Rightarrow> None
      | Some (a, p') \<Rightarrow>
          (case alloc_pages alloc n p' of None \<Rightarrow> None | Some (as, p'') \<Rightarrow> Some (a # as, p'')))"

definition page_addr :: "nat \<Rightarrow> u64" where
  "page_addr i = of_nat i * PAGE_SIZE"

text \<open>
  What the virtual memory manager, the heaps and the ELF loader rely on: an invariant, the set of
  free page numbers below a bound, an allocator that takes the least free page, and a release that
  puts a page back and that exactly undoes an allocation.
\<close>

locale page_allocator =
  fixes inv :: "'p \<Rightarrow> bool"
    and frees :: "'p \<Rightarrow> nat set"
    and npages :: "'p \<Rightarrow> nat"
    and alloc :: "'p \<Rightarrow> (u64 \<times> 'p) option"
    and release :: "u64 \<Rightarrow> 'p \<Rightarrow> 'p option"
  assumes finite_frees: "inv p \<Longrightarrow> finite (frees p)"
    and frees_bound: "inv p \<Longrightarrow> frees p \<subseteq> {..<npages p}"
    and npages_bound: "inv p \<Longrightarrow> npages p \<le> 2 ^ 52"
    and alloc_full: "inv p \<Longrightarrow> frees p = {} \<Longrightarrow> alloc p = Some (0, p)"
    and alloc_least: "inv p \<Longrightarrow> frees p \<noteq> {} \<Longrightarrow>
      \<exists>p'. alloc p = Some (page_addr (Min (frees p)), p') \<and> inv p' \<and> npages p' = npages p
        \<and> frees p' = frees p - {Min (frees p)}"
    and release_page: "inv p \<Longrightarrow> i < npages p \<Longrightarrow>
      \<exists>p'. release (page_addr i) p = Some p' \<and> inv p' \<and> npages p' = npages p
        \<and> frees p' = insert i (frees p)"
    and release_alloc: "inv p \<Longrightarrow> frees p \<noteq> {} \<Longrightarrow> alloc p = Some (a, p') \<Longrightarrow> release a p' = Some p"
begin

lemma alloc_cases:
  assumes "inv p"
  obtains "frees p = {}" "alloc p = Some (0, p)"
  | p' where "frees p \<noteq> {}" "alloc p = Some (page_addr (Min (frees p)), p')" "inv p'"
      "npages p' = npages p" "frees p' = frees p - {Min (frees p)}"
  using assms alloc_full alloc_least by blast

lemma alloc_pages_fresh:
  assumes "inv p" and "n \<le> card (frees p)"
  shows "\<exists>ks p'. alloc_pages alloc n p = Some (map page_addr ks, p') \<and> length ks = n \<and> distinct ks
    \<and> set ks \<subseteq> frees p \<and> inv p' \<and> npages p' = npages p \<and> frees p' = frees p - set ks"
  using assms
proof (induction n arbitrary: p)
  case 0
  then show ?case by simp
next
  case (Suc n)
  let ?m = "Min (frees p)"
  have ne: "frees p \<noteq> {}" using Suc.prems by auto
  with Suc.prems obtain p1 where p1: "alloc p = Some (page_addr ?m, p1)" "inv p1"
      "npages p1 = npages p" "frees p1 = frees p - {?m}"
    using alloc_least by blast
  have m: "?m \<in> frees p" using ne finite_frees Suc.prems(1) by simp
  have "n \<le> card (frees p1)"
    using Suc.prems p1 m finite_frees by (simp add: card_Diff_singleton)
  from Suc.IH [OF p1(2) this] obtain ks p' where ks:
      "alloc_pages alloc n p1 = Some (map page_addr ks, p')" "length ks = n" "distinct ks"
      "set ks \<subseteq> frees p1" "inv p'" "npages p' = npages p1" "frees p' = frees p1 - set ks"
    by blast
  have "alloc_pages alloc (Suc n) p = Some (map page_addr (?m # ks), p')"
    using p1(1) ks(1) by simp
  moreover have "distinct (?m # ks)" using ks p1 by auto
  moreover have "set (?m # ks) \<subseteq> frees p" using ks p1 m by auto
  moreover have "frees p' = frees p - set (?m # ks)" using ks p1 by auto
  ultimately show ?case using ks p1 by (metis length_Cons)
qed

end

section \<open>The bitmap implements the contract\<close>

lemma unat_page_addr: "i < 2 ^ 52 \<Longrightarrow> unat (page_addr i div PAGE_SIZE) = i"
proof -
  assume i: "i < 2 ^ 52"
  then have "unat (of_nat i * 4096 :: u64) = i * 4096"
    by (simp add: unat_word_ariths unat_of_nat take_bit_nat_eq_self)
  then show ?thesis by (simp add: page_addr_def unat_div)
qed

lemma page_addr_eq_0_iff: "i < 2 ^ 52 \<Longrightarrow> page_addr i = 0 \<longleftrightarrow> i = 0"
  using unat_page_addr [of i] by (auto simp: page_addr_def)

lemma free_set_set_bit:
  assumes "pmm_inv p" and "pmm_set_bit (bitmap p) k = Some bm"
  shows "free_set (p\<lparr>bitmap := bm, free_pages := f\<rparr>) = free_set p - {k}"
  using assms by (auto simp: free_set_def pmm_inv_def bm_bit_set)

lemma free_set_clear_bit:
  assumes "pmm_inv p" and "pmm_clear_bit (bitmap p) k = Some bm" and "k < unat (total_pages p)"
  shows "free_set (p\<lparr>bitmap := bm, free_pages := f\<rparr>) = insert k (free_set p)"
  using assms by (auto simp: free_set_def pmm_inv_def bm_bit_clear)

lemma pmm_alloc_loop_skip:
  assumes "pmm_inv p" and "i \<le> k" and "k \<le> unat (total_pages p)"
    and "\<forall>j. i \<le> j \<and> j < k \<longrightarrow> j \<notin> free_set p"
  shows "pmm_alloc_loop i p = pmm_alloc_loop k p"
  using assms(2,4)
proof (induction "k - i" arbitrary: i)
  case 0
  then show ?case by simp
next
  case (Suc n)
  then have "i < unat (total_pages p)" and "i \<notin> free_set p" using assms(3) by auto
  then have "pmm_test_bit (bitmap p) i = Some True"
    using assms(1) by (simp add: free_set_def pmm_inv_def pmm_test_bit_eq)
  then have "pmm_alloc_loop i p = pmm_alloc_loop (i + 1) p"
    using \<open>i < unat (total_pages p)\<close> by (subst pmm_alloc_loop.simps) simp
  also have "\<dots> = pmm_alloc_loop k p" using Suc by simp
  finally show ?case .
qed

lemma pmm_alloc_full:
  assumes "pmm_inv p" and "free_set p = {}"
  shows "pmm_alloc_page p = Some (0, p)"
proof -
  have "pmm_alloc_page p = pmm_alloc_loop (unat (total_pages p)) p"
    unfolding pmm_alloc_page_def using assms by (intro pmm_alloc_loop_skip) auto
  then show ?thesis by (simp add: pmm_alloc_loop.simps [of "unat (total_pages p)"])
qed

lemma pmm_alloc_first:
  assumes "pmm_inv p" and "free_set p \<noteq> {}"
  shows "\<exists>bm. pmm_set_bit (bitmap p) (Min (free_set p)) = Some bm \<and>
    pmm_alloc_page p = Some (page_addr (Min (free_set p)),
      p\<lparr>bitmap := bm, free_pages := free_pages p - 1\<rparr>)"
proof -
  let ?k = "Min (free_set p)"
  have k: "?k \<in> free_set p" using assms(2) by simp
  then have kt: "?k < unat (total_pages p)" by (rule free_set_less)
  then have kl: "?k < 8 * length (bitmap p)" using assms(1) by (simp add: pmm_inv_def)
  have "\<forall>j. 0 \<le> j \<and> j < ?k \<longrightarrow> j \<notin> free_set p"
    by (meson finite_free_set Min_le not_le)
  then have "pmm_alloc_page p = pmm_alloc_loop ?k p"
    unfolding pmm_alloc_page_def using assms(1) kt by (intro pmm_alloc_loop_skip) auto
  moreover have "pmm_test_bit (bitmap p) ?k = Some False"
    using k kl by (simp add: pmm_test_bit_eq free_set_def)
  moreover obtain bm where "pmm_set_bit (bitmap p) ?k = Some bm"
    using pmm_set_bit_Some [OF kl] by blast
  ultimately show ?thesis
    using kt by (simp add: pmm_alloc_loop.simps [of ?k] page_addr_def)
qed

lemma pmm_inv_alloc:
  assumes "pmm_inv p" and "k \<in> free_set p" and "pmm_set_bit (bitmap p) k = Some bm"
  shows "pmm_inv (p\<lparr>bitmap := bm, free_pages := free_pages p - 1\<rparr>)"
proof -
  have "card (free_set p - {k}) = card (free_set p) - 1" and "0 < card (free_set p)"
    using assms(2) by (auto simp: card_gt_0_iff)
  then show ?thesis
    using assms by (auto simp: pmm_inv_def free_set_set_bit [OF assms(1,3)] pmm_set_bit_length)
qed

lemma pmm_free_used:
  assumes "pmm_inv p" and "i < unat (total_pages p)" and "i \<notin> free_set p"
  shows "\<exists>bm. pmm_clear_bit (bitmap p) i = Some bm \<and>
    pmm_free_page (page_addr i) p = Some (p\<lparr>bitmap := bm, free_pages := free_pages p + 1\<rparr>)"
proof -
  have i: "i < 2 ^ 52" "i < 8 * length (bitmap p)" using assms by (auto simp: pmm_inv_def)
  obtain bm where "pmm_clear_bit (bitmap p) i = Some bm" using pmm_clear_bit_Some [OF i(2)] by blast
  moreover have "pmm_test_bit (bitmap p) i = Some True"
    using assms i by (simp add: pmm_test_bit_eq free_set_def)
  ultimately show ?thesis
    using i by (simp add: pmm_free_page_def unat_page_addr)
qed

lemma pmm_free_unused:
  assumes "pmm_inv p" and "i \<in> free_set p"
  shows "pmm_free_page (page_addr i) p = Some p"
  using assms free_set_less [OF assms(2)]
  by (simp add: pmm_free_page_def unat_page_addr pmm_inv_def pmm_test_bit_eq free_set_def)

lemma pmm_inv_free:
  assumes "pmm_inv p" and "i < unat (total_pages p)" and "i \<notin> free_set p"
    and "pmm_clear_bit (bitmap p) i = Some bm"
  shows "pmm_inv (p\<lparr>bitmap := bm, free_pages := free_pages p + 1\<rparr>)"
  using assms by (auto simp: pmm_inv_def free_set_clear_bit [OF assms(1,4,2)] pmm_clear_bit_length)

lemma set_then_clear:
  assumes "\<not> bm_bit bm k" and "k < 8 * length bm" and "pmm_set_bit bm k = Some bm'"
  shows "pmm_clear_bit bm' k = Some bm"
proof -
  have len: "length bm' = length bm" using assms(3) by (rule pmm_set_bit_length)
  then obtain bm'' where bm'': "pmm_clear_bit bm' k = Some bm''"
    using pmm_clear_bit_Some assms(2) by metis
  then have "bm'' = bm"
    using assms len by (intro bitmap_eqI) (auto simp: bm_bit_clear bm_bit_set pmm_clear_bit_length)
  with bm'' show ?thesis by simp
qed

lemma pmm_release_alloc:
  assumes "pmm_inv p" and "free_set p \<noteq> {}" and "pmm_alloc_page p = Some (a, p')"
  shows "pmm_free_page a p' = Some p"
proof -
  let ?k = "Min (free_set p)"
  have k: "?k \<in> free_set p" using assms(2) by simp
  obtain bm where bm: "pmm_set_bit (bitmap p) ?k = Some bm"
      and a: "a = page_addr ?k" and p': "p' = p\<lparr>bitmap := bm, free_pages := free_pages p - 1\<rparr>"
    using pmm_alloc_first [OF assms(1,2)] assms(3) by auto
  have kl: "?k < 8 * length (bitmap p)" "\<not> bm_bit (bitmap p) ?k" "?k < unat (total_pages p)"
    using k assms(1) by (auto simp: free_set_def pmm_inv_def)
  have "pmm_inv p'" unfolding p' using assms(1) k bm by (rule pmm_inv_alloc)
  moreover have "?k \<notin> free_set p'"
    using free_set_set_bit [OF assms(1) bm] by (simp add: p')
  ultimately obtain bm2 where "pmm_clear_bit (bitmap p') ?k = Some bm2"
      "pmm_free_page a p' = Some (p'\<lparr>bitmap := bm2, free_pages := free_pages p' + 1\<rparr>)"
    using pmm_free_used [of p' ?k] kl(3) a p' by auto
  moreover have "pmm_clear_bit bm ?k = Some (bitmap p)"
    using set_then_clear kl bm by blast
  ultimately show ?thesis by (simp add: p')
qed

interpretation pm: page_allocator pmm_inv free_set "\<lambda>p. unat (total_pages p)" pmm_alloc_page
  pmm_free_page
proof unfold_locales
  fix p assume "pmm_inv p"
  then show "unat (total_pages p) \<le> 2 ^ 52" by (simp add: pmm_inv_def)
next
  fix p assume "pmm_inv p" and "free_set p = {}"
  then show "pmm_alloc_page p = Some (0, p)" by (rule pmm_alloc_full)
next
  fix p assume inv: "pmm_inv p" and ne: "free_set p \<noteq> {}"
  then obtain bm where bm: "pmm_set_bit (bitmap p) (Min (free_set p)) = Some bm"
    "pmm_alloc_page p = Some (page_addr (Min (free_set p)),
      p\<lparr>bitmap := bm, free_pages := free_pages p - 1\<rparr>)"
    using pmm_alloc_first by blast
  then show "\<exists>p'. pmm_alloc_page p = Some (page_addr (Min (free_set p)), p') \<and> pmm_inv p'
      \<and> unat (total_pages p') = unat (total_pages p) \<and> free_set p' = free_set p - {Min (free_set p)}"
    using inv ne pmm_inv_alloc [OF inv _ bm(1)] free_set_set_bit [OF inv bm(1)] by simp
next
  fix p i assume inv: "pmm_inv p" and i: "i < unat (total_pages p)"
  show "\<exists>p'. pmm_free_page (page_addr i) p = Some p' \<and> pmm_inv p'
      \<and> unat (total_pages p') = unat (total_pages p) \<and> free_set p' = insert i (free_set p)"
  proof (cases "i \<in> free_set p")
    case True
    with inv show ?thesis by (auto simp: pmm_free_unused)
  next
    case False
    then obtain bm where bm: "pmm_clear_bit (bitmap p) i = Some bm"
      "pmm_free_page (page_addr i) p = Some (p\<lparr>bitmap := bm, free_pages := free_pages p + 1\<rparr>)"
      using pmm_free_used [OF inv i] by blast
    then show ?thesis
      using pmm_inv_free [OF inv i False bm(1)] free_set_clear_bit [OF inv bm(1) i] by simp
  qed
next
  fix p a p' assume "pmm_inv p" and "free_set p \<noteq> {}" and "pmm_alloc_page p = Some (a, p')"
  then show "pmm_free_page a p' = Some p" by (rule pmm_release_alloc)
qed (auto dest: free_set_less)

section \<open>Initialisation: theorems\<close>

text \<open>The pages a usable entry contributes: the code starts at the page that contains the entry's
  first byte and takes as many pages as fit into the entry's length.\<close>

definition entry_pages :: "memmap_entry \<Rightarrow> nat set" where
  "entry_pages e = {unat (me_base e) div 4096 ..< unat (me_base e) div 4096 + unat (me_length e) div 4096}"

definition entry_ok :: "memmap_entry \<Rightarrow> bool" where
  "entry_ok e \<longleftrightarrow> unat (me_base e) + unat (me_length e) + 4096 < 2 ^ 64"

lemma mark_free_spec:
  assumes "(unat limit - unat addr) div 4096 = k" and "unat addr \<le> unat limit"
    and "unat limit + 4096 < 2 ^ 64" and "unat limit div 4096 \<le> 8 * length bm"
  shows "\<exists>bm'. mark_free addr limit bm fp = Some (bm', fp + of_nat k) \<and> length bm' = length bm
    \<and> (\<forall>b < 8 * length bm. bm_bit bm' b \<longleftrightarrow>
         bm_bit bm b \<and> b \<notin> {unat addr div 4096 ..< unat addr div 4096 + k})"
  using assms
proof (induction k arbitrary: addr bm fp)
  case 0
  then have "unat (addr + 4096) = unat addr + 4096"
    by (intro unat_add_lem [THEN iffD1, of addr 4096, simplified]) simp
  with 0 have "\<not> addr + 4096 \<le> limit" by (simp add: word_le_nat_alt)
  then show ?case by (subst mark_free.simps) simp
next
  case (Suc k)
  have nxt: "unat (addr + 4096) = unat addr + 4096"
    using Suc.prems by (intro unat_add_lem [THEN iffD1, of addr 4096, simplified]) simp
  have fits: "unat addr + 4096 \<le> unat limit"
    using Suc.prems(1) by (cases "unat limit - unat addr < 4096") auto
  have pg: "unat (addr div 4096) = unat addr div 4096" by (simp add: unat_div)
  have "(unat addr + 4096) div 4096 \<le> unat limit div 4096" using fits by (rule div_le_mono)
  then have "unat addr div 4096 < 8 * length bm" using Suc.prems(4) by simp
  then obtain bm1 where bm1: "pmm_clear_bit bm (unat addr div 4096) = Some bm1"
    using pmm_clear_bit_Some by blast
  have len1: "length bm1 = length bm" using bm1 by (rule pmm_clear_bit_length)
  have "(unat limit - unat (addr + 4096)) div 4096 = k"
  proof -
    have "unat limit - unat addr = (unat limit - unat (addr + 4096)) + 4096" using fits nxt by simp
    with Suc.prems(1) show ?thesis by simp
  qed
  from Suc.IH [OF this, of bm1 "fp + 1"] obtain bm' where bm':
      "mark_free (addr + 4096) limit bm1 (fp + 1) = Some (bm', fp + 1 + of_nat k)"
      "length bm' = length bm1"
      "\<forall>b < 8 * length bm1. bm_bit bm' b \<longleftrightarrow>
         bm_bit bm1 b \<and> b \<notin> {unat (addr + 4096) div 4096 ..< unat (addr + 4096) div 4096 + k}"
    using Suc.prems fits nxt len1 by auto
  have "addr + 4096 \<le> limit" using fits nxt by (simp add: word_le_nat_alt)
  then have "mark_free addr limit bm fp = Some (bm', fp + of_nat (Suc k))"
    using bm1 bm'(1) pg by (subst mark_free.simps) (simp add: algebra_simps)
  moreover have "bm_bit bm' b \<longleftrightarrow>
      bm_bit bm b \<and> b \<notin> {unat addr div 4096 ..< unat addr div 4096 + Suc k}"
    if "b < 8 * length bm" for b
    using that bm'(3) len1 nxt bm_bit_clear [OF bm1 that] by auto
  ultimately show ?case using bm'(2) len1 by auto
qed

lemma mark_usable_spec:
  assumes "\<forall>e \<in> set mm. entry_ok e \<and> (unat (me_base e) + unat (me_length e)) div 4096 \<le> 8 * length bm"
  shows "\<exists>bm'. mark_usable usable mm bm fp =
      Some (bm', fp + of_nat (\<Sum>e\<leftarrow>filter (\<lambda>e. me_type e = usable) mm. unat (me_length e) div 4096))
    \<and> length bm' = length bm
    \<and> (\<forall>b < 8 * length bm. bm_bit bm' b \<longleftrightarrow>
         bm_bit bm b \<and> (\<forall>e \<in> set mm. me_type e = usable \<longrightarrow> b \<notin> entry_pages e))"
  using assms
proof (induction mm arbitrary: bm fp)
  case Nil
  then show ?case by simp
next
  case (Cons e mm)
  show ?case
  proof (cases "me_type e = usable")
    case False
    then show ?thesis using Cons.IH [of bm fp] Cons.prems by simp
  next
    case True
    have lim: "unat (me_base e + me_length e) = unat (me_base e) + unat (me_length e)"
      using Cons.prems by (intro unat_add_lem [THEN iffD1]) (simp add: entry_ok_def)
    obtain bm1 where bm1: "mark_free (me_base e) (me_base e + me_length e) bm fp
          = Some (bm1, fp + of_nat (unat (me_length e) div 4096))" "length bm1 = length bm"
        "\<forall>b < 8 * length bm. bm_bit bm1 b \<longleftrightarrow> bm_bit bm b \<and> b \<notin> entry_pages e"
      using mark_free_spec [of "me_base e + me_length e" "me_base e" _ bm fp] Cons.prems
      by (auto simp: lim entry_ok_def entry_pages_def)
    obtain bm' where "mark_usable usable mm bm1 (fp + of_nat (unat (me_length e) div 4096)) =
          Some (bm', fp + of_nat (unat (me_length e) div 4096) +
            of_nat (\<Sum>e\<leftarrow>filter (\<lambda>e. me_type e = usable) mm. unat (me_length e) div 4096))"
        "length bm' = length bm1"
        "\<forall>b < 8 * length bm1. bm_bit bm' b \<longleftrightarrow>
           bm_bit bm1 b \<and> (\<forall>e \<in> set mm. me_type e = usable \<longrightarrow> b \<notin> entry_pages e)"
      using Cons.IH [of bm1 "fp + of_nat (unat (me_length e) div 4096)"] Cons.prems bm1(2) by auto
    with bm1 True show ?thesis by (auto simp: algebra_simps)
  qed
qed

lemma highest_addr_ge: "e \<in> set mm \<Longrightarrow> me_base e + me_length e \<le> highest_addr mm"
proof -
  have mono: "h \<le> fold (\<lambda>e h. if h < me_base e + me_length e then me_base e + me_length e else h) mm h"
    for h mm
  proof (induction mm arbitrary: h)
    case (Cons a mm)
    then show ?case by (auto intro: order_trans less_imp_le)
  qed simp
  have "e \<in> set mm \<Longrightarrow> me_base e + me_length e
      \<le> fold (\<lambda>e h. if h < me_base e + me_length e then me_base e + me_length e else h) mm h" for h
  proof (induction mm arbitrary: h)
    case (Cons a mm)
    then show ?case
      using mono [of "me_base e + me_length e" mm] mono [of h mm]
      by (auto intro: order_trans)
  qed simp
  then show "e \<in> set mm \<Longrightarrow> me_base e + me_length e \<le> highest_addr mm"
    by (simp add: highest_addr_def)
qed

fun disjoint_entries :: "memmap_entry list \<Rightarrow> bool" where
  "disjoint_entries [] = True"
| "disjoint_entries (e # es) =
     ((\<forall>f \<in> set es. entry_pages e \<inter> entry_pages f = {}) \<and> disjoint_entries es)"

lemma card_entry_pages:
  "disjoint_entries es \<Longrightarrow>
     card (\<Union>e\<in>set es. entry_pages e) = (\<Sum>e\<leftarrow>es. unat (me_length e) div 4096)"
proof (induction es)
  case (Cons e es)
  have "card (\<Union>f\<in>set (e # es). entry_pages f)
      = card (entry_pages e) + card (\<Union>f\<in>set es. entry_pages f)"
    using Cons.prems by (simp add: entry_pages_def) (subst card_Un_disjoint; auto)
  with Cons show ?case by (simp add: entry_pages_def)
qed simp

lemma place_bitmap_entries:
  assumes "place_bitmap usable bsize ptr mm = (q, mm')" and "\<forall>e \<in> set mm. entry_ok e"
    and "e' \<in> set mm'"
  shows "entry_ok e' \<and> (\<exists>e \<in> set mm.
    unat (me_base e') + unat (me_length e') = unat (me_base e) + unat (me_length e))"
  using assms
proof (induction mm arbitrary: mm')
  case Nil
  then show ?case by simp
next
  case (Cons e mm)
  show ?case
  proof (cases "me_type e = usable \<and> bsize \<le> me_length e")
    case True
    have "unat (me_base e + bsize) = unat (me_base e) + unat bsize"
      using True Cons.prems(2)
      by (intro unat_add_lem [THEN iffD1]) (auto simp: entry_ok_def word_le_nat_alt)
    moreover have "unat (me_length e - bsize) = unat (me_length e) - unat bsize"
      using True by (simp add: unat_sub)
    ultimately show ?thesis
      using True Cons.prems by (auto simp: entry_ok_def word_le_nat_alt)
  next
    case False
    then show ?thesis using Cons by (auto split: prod.splits)
  qed
qed

lemma bitmap_all_set: "b < 8 * n \<Longrightarrow> bm_bit (replicate n 0xFF) b"
proof -
  assume "b < 8 * n"
  moreover have "(0xFF :: u8) = mask 8" by (simp add: mask_eq_exp_minus_1)
  then have "bit (0xFF :: u8) (b mod 8)" by (simp only: bit_mask_iff) simp
  ultimately show ?thesis by (simp add: bm_bit_def)
qed

lemma pmm_init_spec:
  assumes "\<forall>e \<in> set mm. entry_ok e" and "free_pages p = 0"
    and "place_bitmap usable (highest_addr mm div 4096 div 8 + 1) (bitmap_ptr p) mm = (ptr, mm')"
    and "ptr \<noteq> 0" and "disjoint_entries (filter (\<lambda>e. me_type e = usable) mm')"
  shows "\<exists>q. pmm_init usable mm p = Some (mm', q) \<and> pmm_inv q \<and> bitmap_ptr q = ptr
    \<and> bitmap_size q = highest_addr mm div 4096 div 8 + 1
    \<and> free_set q = (\<Union>e\<in>set (filter (\<lambda>e. me_type e = usable) mm'). entry_pages e)"
proof -
  let ?h = "highest_addr mm" and ?us = "filter (\<lambda>e. me_type e = usable) mm'"
  define bsize where "bsize = ?h div 4096 div 8 + 1"
  define tot where "tot = ?h div 4096"
  have tot: "unat tot = unat ?h div 4096" by (simp add: tot_def unat_div)
  then have tot52: "unat tot < 2 ^ 52" using unat_less_pow [of ?h] by (simp add: less_mult_imp_div_less)
  have "unat (?h div 4096 div 8) = unat ?h div 4096 div 8" by (simp add: unat_div)
  then have bs: "unat bsize = unat tot div 8 + 1"
    unfolding bsize_def using tot52 tot by (subst unat_plus_small) auto
  have ends: "entry_ok e \<and> (unat (me_base e) + unat (me_length e)) div 4096 \<le> unat tot"
    if "e \<in> set mm'" for e
  proof -
    obtain e0 where e0: "e0 \<in> set mm" "entry_ok e"
        "unat (me_base e) + unat (me_length e) = unat (me_base e0) + unat (me_length e0)"
      using place_bitmap_entries [OF assms(3,1) \<open>e \<in> set mm'\<close>] by blast
    have "unat (me_base e0 + me_length e0) = unat (me_base e0) + unat (me_length e0)"
      using assms(1) e0(1) by (intro unat_add_lem [THEN iffD1]) (auto simp: entry_ok_def)
    moreover have "unat (me_base e0 + me_length e0) \<le> unat ?h"
      using highest_addr_ge [OF e0(1)] by (simp add: word_le_nat_alt)
    ultimately show ?thesis using e0 tot by (simp add: div_le_mono)
  qed
  let ?bm0 = "replicate (unat bsize) (0xFF :: u8)"
  have "\<forall>e \<in> set mm'. entry_ok e \<and> (unat (me_base e) + unat (me_length e)) div 4096 \<le> 8 * length ?bm0"
    using ends bs by fastforce
  from mark_usable_spec [OF this, of usable 0] obtain bm where bm:
      "mark_usable usable mm' ?bm0 0 = Some (bm, of_nat (\<Sum>e\<leftarrow>?us. unat (me_length e) div 4096))"
      "length bm = unat bsize"
      "\<forall>b < 8 * unat bsize. bm_bit bm b \<longleftrightarrow> (\<forall>e \<in> set mm'. me_type e = usable \<longrightarrow> b \<notin> entry_pages e)"
    by (auto simp: bitmap_all_set)
  let ?q = "\<lparr>bitmap_ptr = ptr, bitmap = bm, bitmap_size = bsize, total_pages = tot,
    free_pages = of_nat (\<Sum>e\<leftarrow>?us. unat (me_length e) div 4096), memory_start = ptr + bsize\<rparr>"
  have init: "pmm_init usable mm p = Some (mm', ?q)"
    using assms(2-4) bm(1) by (simp add: pmm_init_def Let_def bsize_def tot_def)
  have inside: "entry_pages e \<subseteq> {..<unat tot}" if "e \<in> set mm'" for e
    using ends [OF that] by (auto simp: entry_pages_def div_add1_eq [of "unat (me_base e)"])
  have bits: "\<not> bm_bit bm b \<longleftrightarrow> (\<exists>e \<in> set ?us. b \<in> entry_pages e)" if "b < unat tot" for b
  proof -
    have "b < 8 * unat bsize" using that bs by simp
    with bm(3) show ?thesis by auto
  qed
  have fs: "free_set ?q = (\<Union>e\<in>set ?us. entry_pages e)"
  proof (rule set_eqI)
    fix b
    have "b \<in> free_set ?q \<longleftrightarrow> b < unat tot \<and> \<not> bm_bit bm b" by (simp add: free_set_def)
    then show "b \<in> free_set ?q \<longleftrightarrow> b \<in> (\<Union>e\<in>set ?us. entry_pages e)"
      using bits [of b] inside by auto
  qed
  have "pmm_inv ?q"
    using fs card_entry_pages [OF assms(5)] bm(2) bs tot52 by (simp add: pmm_inv_def)
  with init fs show ?thesis by (auto simp: bsize_def)
qed

section \<open>Properties\<close>

text \<open>
  C24: from any consistent state, \<^term>\<open>n\<close> successive calls of \<^verbatim>\<open>pmm_alloc_page\<close> return the
  addresses of \<^term>\<open>n\<close> different pages that were free, mark exactly those as used and keep the
  allocator consistent, as long as \<^term>\<open>n\<close> pages are free.
\<close>

theorem pmm_alloc_many_distinct:
  assumes "pmm_inv p" and "n \<le> card (free_set p)"
  shows "\<exists>ks p'. alloc_pages pmm_alloc_page n p = Some (map page_addr ks, p') \<and> length ks = n
    \<and> distinct ks \<and> set ks \<subseteq> free_set p \<and> pmm_inv p' \<and> free_set p' = free_set p - set ks"
  using pm.alloc_pages_fresh [OF assms] by blast

text \<open>A four-page allocator state with pages 1 and 2 free, for the witnesses.\<close>

definition pmm_small :: pmm where
  "pmm_small = \<lparr>bitmap_ptr = 0x1000, bitmap = [0xF9], bitmap_size = 1, total_pages = 4,
     free_pages = 2, memory_start = 0x1001\<rparr>"

lemma upto4: "(i::nat) < 4 \<longleftrightarrow> i = 0 \<or> i = 1 \<or> i = 2 \<or> i = 3"
  by auto

lemma free_set_small: "free_set pmm_small = {1, 2}"
  by (auto simp: free_set_def pmm_small_def bm_bit_def upto4 bit_numeral_rec)

lemma pmm_inv_small: "pmm_inv pmm_small"
  unfolding pmm_inv_def free_set_small by (simp add: pmm_small_def)

theorem pmm_alloc_many_distinct_witness:
  "\<exists>ks p'. alloc_pages pmm_alloc_page 2 pmm_small = Some (map page_addr ks, p') \<and> length ks = 2
    \<and> distinct ks \<and> set ks \<subseteq> {1, 2} \<and> pmm_inv p' \<and> free_set p' = {1, 2} - set ks"
  using pmm_alloc_many_distinct [OF pmm_inv_small, of 2] by (simp add: free_set_small)

text \<open>
  an allocation with a free page available takes the lowest one, and releasing the returned
  address restores the allocator's state exactly, bitmap and counter included.
\<close>

theorem pmm_alloc_release_roundtrip:
  assumes "pmm_inv p" and "free_set p \<noteq> {}"
  shows "\<exists>p'. pmm_alloc_page p = Some (page_addr (Min (free_set p)), p') \<and> pmm_inv p'
    \<and> free_set p' = free_set p - {Min (free_set p)} \<and> free_pages p' = free_pages p - 1
    \<and> pmm_free_page (page_addr (Min (free_set p))) p' = Some p"
proof -
  obtain bm where "pmm_set_bit (bitmap p) (Min (free_set p)) = Some bm" and alloc:
      "pmm_alloc_page p = Some (page_addr (Min (free_set p)),
         p\<lparr>bitmap := bm, free_pages := free_pages p - 1\<rparr>)"
    using pmm_alloc_first [OF assms] by blast
  with pm.alloc_least [OF assms] pm.release_alloc [OF assms alloc] show ?thesis by auto
qed

theorem pmm_alloc_release_roundtrip_witness:
  "\<exists>p'. pmm_alloc_page pmm_small = Some (0x1000, p') \<and> free_set p' = {2}
    \<and> pmm_free_page 0x1000 p' = Some pmm_small"
proof -
  have "free_set pmm_small \<noteq> {}" by (simp add: free_set_small)
  moreover have "page_addr 1 = 0x1000" by (simp add: page_addr_def)
  moreover have "{1, 2 :: nat} - {1} = {2}" by auto
  ultimately show ?thesis
    using pmm_alloc_release_roundtrip [OF pmm_inv_small] by (auto simp: free_set_small)
qed

text \<open>
  C30: \<^verbatim>\<open>pmm_init\<close> on a memory map without address overflow, whose usable entries cover different
  pages, returns (no access leaves the bitmap, every loop ends), sets \<^verbatim>\<open>free_pages\<close> to the number
  of clear bits and leaves exactly the pages of usable entries free.
\<close>

theorem pmm_init_counts:
  assumes "\<forall>e \<in> set mm. entry_ok e" and "free_pages p = 0"
    and "place_bitmap usable (highest_addr mm div 4096 div 8 + 1) (bitmap_ptr p) mm = (ptr, mm')"
    and "ptr \<noteq> 0" and "disjoint_entries (filter (\<lambda>e. me_type e = usable) mm')"
  shows "\<exists>q. pmm_init usable mm p = Some (mm', q) \<and> pmm_inv q
    \<and> free_set q = (\<Union>e\<in>set (filter (\<lambda>e. me_type e = usable) mm'). entry_pages e)"
  using pmm_init_spec [OF assms] by blast

text \<open>A memory map with one usable entry of 64 pages at 0x1000 and a reserved one above.\<close>

definition memmap_small :: "memmap_entry list" where
  "memmap_small = [\<lparr>me_base = 0x1000, me_length = 0x40000, me_type = 0\<rparr>,
     \<lparr>me_base = 0x80000, me_length = 0x1000, me_type = 1\<rparr>]"

definition memmap_small' :: "memmap_entry list" where
  "memmap_small' = [\<lparr>me_base = 0x1011, me_length = 0x3FFEF, me_type = 0\<rparr>,
     \<lparr>me_base = 0x80000, me_length = 0x1000, me_type = 1\<rparr>]"

lemma place_small:
  "place_bitmap 0 (highest_addr memmap_small div 4096 div 8 + 1) (bitmap_ptr pmm_reset) memmap_small
     = (0x1000, memmap_small')"
  by (simp add: memmap_small_def memmap_small'_def highest_addr_def)

lemma memmap_small_ok: "\<forall>e \<in> set memmap_small. entry_ok e"
  by (simp add: memmap_small_def entry_ok_def)

lemma memmap_small_disjoint: "disjoint_entries (filter (\<lambda>e. me_type e = 0) memmap_small')"
  by (simp add: memmap_small'_def)

theorem pmm_init_counts_witness:
  "\<exists>q. pmm_init 0 memmap_small pmm_reset = Some (memmap_small', q) \<and> pmm_inv q
    \<and> free_set q = {1..<64}"
proof -
  have "free_pages pmm_reset = 0" by (simp add: pmm_reset_def)
  from pmm_init_counts [OF memmap_small_ok this place_small _ memmap_small_disjoint]
  show ?thesis by (simp add: memmap_small'_def entry_pages_def)
qed

text \<open>
  the page that holds the last byte of the bitmap is left \<^emph>\<open>free\<close> by \<^verbatim>\<open>pmm_init\<close> whenever
  the bitmap does not end on a page boundary and the rest of its entry holds a page: the entry's
  base is advanced by the bitmap's size without rounding up, and its first page number is rounded
  down.  A later allocation can therefore hand out the memory of the bitmap.
\<close>

theorem pmm_init_frees_bitmap_page:
  assumes "\<forall>e \<in> set mm. entry_ok e" and "free_pages p = 0"
    and "place_bitmap usable (highest_addr mm div 4096 div 8 + 1) (bitmap_ptr p) mm = (ptr, mm')"
    and "ptr \<noteq> 0" and "disjoint_entries (filter (\<lambda>e. me_type e = usable) mm')"
    and "pmm_init usable mm p = Some (mm', q)"
    and "e \<in> set mm'" and "me_type e = usable" and "unat (me_base e) = unat ptr + unat (bitmap_size q)"
    and "4096 \<le> unat (me_length e)" and "(unat ptr + unat (bitmap_size q)) mod 4096 \<noteq> 0"
  shows "(unat ptr + unat (bitmap_size q) - 1) div 4096 \<in> free_set q"
proof -
  have fs: "free_set q = (\<Union>e\<in>set (filter (\<lambda>e. me_type e = usable) mm'). entry_pages e)"
    using pmm_init_spec [OF assms(1-5)] assms(6) by auto
  have "(n - 1) div 4096 = n div 4096" if "n mod 4096 \<noteq> 0" for n :: nat
    using that by (metis Suc_pred' div_Suc mod_0 neq0_conv diff_Suc_1)
  then have "(unat ptr + unat (bitmap_size q) - 1) div 4096 = unat (me_base e) div 4096"
    using assms(9,11) by simp
  moreover have "unat (me_base e) div 4096 \<in> entry_pages e"
    using assms(10) by (simp add: entry_pages_def div_greater_zero_iff)
  ultimately show ?thesis using fs assms(7,8) by auto
qed

theorem pmm_init_frees_bitmap_page_witness:
  "\<exists>q. pmm_init 0 memmap_small pmm_reset = Some (memmap_small', q) \<and> bitmap_ptr q = 0x1000
    \<and> bitmap_size q = 17 \<and> (0x1000 + 17 - 1) div 4096 \<in> free_set q"
proof -
  have f: "free_pages pmm_reset = 0" by (simp add: pmm_reset_def)
  have h: "highest_addr memmap_small div 4096 div 8 + 1 = 17"
    by (simp add: memmap_small_def highest_addr_def)
  obtain q where q: "pmm_init 0 memmap_small pmm_reset = Some (memmap_small', q)"
      "bitmap_ptr q = 0x1000" "bitmap_size q = 17"
    using pmm_init_spec [OF memmap_small_ok f place_small _ memmap_small_disjoint] h by auto
  moreover have "hd memmap_small' \<in> set memmap_small'" by (simp add: memmap_small'_def)
  ultimately have "(0x1000 + 17 - 1) div 4096 \<in> free_set q"
    using pmm_init_frees_bitmap_page [OF memmap_small_ok f place_small _ memmap_small_disjoint q(1),
      of "hd memmap_small'"] by (simp add: memmap_small'_def)
  with q show ?thesis by blast
qed

end
