(* ===== verification/Libc_String.thy ===== *)
theory Libc_String
  imports Prelude
begin

text \<open>
  The kernel's own C library: \<^verbatim>\<open>libc/string.c\<close> and \<^verbatim>\<open>libc/ctype.c\<close>.
  The block operations work on a memory \<^typ>\<open>u64 \<Rightarrow> u8\<close>, because the assembly of
  \<^verbatim>\<open>memcpy\<close> moves 8, 4, 2 or 1 bytes at a time and overlapping operands matter
  (\<^verbatim>\<open>vec_erase\<close> in \<^verbatim>\<open>kernel_lib/vector.h\<close> relies on it).
  The string operations work on one array each, a byte list; reading or writing outside the
  array is \<^const>\<open>None\<close>.  A \<^verbatim>\<open>char\<close> is signed on the target, so differences and
  comparisons of characters use \<^const>\<open>sint\<close>.

  Shown: \<^verbatim>\<open>memcpy\<close> copies whole blocks whenever the destination does not start inside
  the source; \<^verbatim>\<open>memcmp\<close> answers \<^emph>\<open>true\<close> for equal blocks; the string functions
  behave as list operations on NUL-terminated arrays.
\<close>

type_synonym mem = "u64 \<Rightarrow> u8"

section \<open>Block operations\<close>

definition load_bytes :: "mem \<Rightarrow> u64 \<Rightarrow> nat \<Rightarrow> u8 list" where
  "load_bytes m a n = map (\<lambda>i. m (a + of_nat i)) [0..<n]"

definition store_bytes :: "mem \<Rightarrow> u64 \<Rightarrow> u8 list \<Rightarrow> mem" where
  "store_bytes m a bs = (\<lambda>x. if unat (x - a) < length bs then bs ! unat (x - a) else m x)"

text \<open>The x86 \<^verbatim>\<open>rep movs\<close> instruction with units of \<^term>\<open>w\<close> bytes and count \<^term>\<open>n\<close>.\<close>

fun rep_movs :: "nat \<Rightarrow> nat \<Rightarrow> u64 \<Rightarrow> u64 \<Rightarrow> mem \<Rightarrow> mem" where
  "rep_movs w 0 rdi rsi m = m"
| "rep_movs w (Suc n) rdi rsi m =
     rep_movs w n (rdi + of_nat w) (rsi + of_nat w) (store_bytes m rdi (load_bytes m rsi w))"

definition memcpy :: "u64 \<Rightarrow> u64 \<Rightarrow> u64 \<Rightarrow> mem \<Rightarrow> mem \<times> u64" where
  "memcpy dest src len m =
     (if len mod 8 = 0 then (rep_movs 8 (unat (len div 8)) dest src m, dest)
      else if len mod 4 = 0 then (rep_movs 4 (unat (len div 4)) dest src m, dest)
      else if len mod 2 = 0 then (rep_movs 2 (unat (len div 2)) dest src m, dest)
      else (rep_movs 1 (unat len) dest src m, dest))"

definition memset :: "u64 \<Rightarrow> u8 \<Rightarrow> u64 \<Rightarrow> mem \<Rightarrow> mem" where
  "memset addr val len m = fold (\<lambda>i m. m(addr + of_nat i := val)) [0..<unat len] m"

text \<open>\<^verbatim>\<open>memcmp\<close> over two arrays of at least \<^term>\<open>len\<close> bytes.\<close>

function memcmp_loop :: "u8 list \<Rightarrow> u8 list \<Rightarrow> nat \<Rightarrow> nat \<Rightarrow> bool" where
  "memcmp_loop s1 s2 len i =
     (if i < len then (if s1 ! i \<noteq> s2 ! i then False else memcmp_loop s1 s2 len (i + 1))
      else True)"
  by pat_completeness auto
termination
  by (relation "measure (\<lambda>(s1, s2, len, i). len - i)") auto

declare memcmp_loop.simps [simp del]

definition memcmp :: "u8 list \<Rightarrow> u8 list \<Rightarrow> nat \<Rightarrow> bool" where
  "memcmp s1 s2 len = memcmp_loop s1 s2 len 0"

section \<open>NUL-terminated strings\<close>

definition rd :: "u8 list \<Rightarrow> nat \<Rightarrow> u8 option" where
  "rd s i = (if i < length s then Some (s ! i) else None)"

definition wr :: "u8 list \<Rightarrow> nat \<Rightarrow> u8 \<Rightarrow> u8 list option" where
  "wr s i c = (if i < length s then Some (s[i := c]) else None)"

function strlen_loop :: "u8 list \<Rightarrow> nat \<Rightarrow> nat option" where
  "strlen_loop s len =
     (case rd s len of None \<Rightarrow> None
      | Some c \<Rightarrow> if c \<noteq> 0 then strlen_loop s (len + 1) else Some len)"
  by pat_completeness auto
termination
  by (relation "measure (\<lambda>(s, len). length s - len)") (auto simp: rd_def split: if_splits)

definition strlen :: "u8 list \<Rightarrow> nat option" where
  "strlen s = strlen_loop s 0"

function strcmp_loop :: "u8 list \<Rightarrow> u8 list \<Rightarrow> nat \<Rightarrow> int option" where
  "strcmp_loop a b i =
     (case (rd a i, rd b i) of
        (Some x, Some y) \<Rightarrow>
          if x \<noteq> y \<or> x = 0 \<or> y = 0 then Some (sint x - sint y) else strcmp_loop a b (i + 1)
      | _ \<Rightarrow> None)"
  by pat_completeness auto
termination
  by (relation "measure (\<lambda>(a, b, i). length a - i)") (auto simp: rd_def split: if_splits)

definition strcmp :: "u8 list \<Rightarrow> u8 list \<Rightarrow> int option" where
  "strcmp a b = strcmp_loop a b 0"

function strncmp_loop :: "u8 list \<Rightarrow> u8 list \<Rightarrow> nat \<Rightarrow> nat \<Rightarrow> int option" where
  "strncmp_loop a b len i =
     (if i < len then
        (case (rd a i, rd b i) of
           (Some x, Some y) \<Rightarrow>
             if x \<noteq> y \<or> x = 0 \<or> y = 0 then Some (sint x - sint y)
             else strncmp_loop a b len (i + 1)
         | _ \<Rightarrow> None)
      else Some 0)"
  by pat_completeness auto
termination
  by (relation "measure (\<lambda>(a, b, len, i). len - i)") auto

definition strncmp :: "u8 list \<Rightarrow> u8 list \<Rightarrow> nat \<Rightarrow> int option" where
  "strncmp a b len = strncmp_loop a b len 0"

text \<open>The copying functions return the new destination array and the returned pointer's offset
  from \<^verbatim>\<open>dest\<close>.\<close>

function strcpy_loop :: "u8 list \<Rightarrow> u8 list \<Rightarrow> nat \<Rightarrow> (u8 list \<times> nat) option" where
  "strcpy_loop dest src i =
     (case rd src i of None \<Rightarrow> None
      | Some c \<Rightarrow>
          (case wr dest i c of None \<Rightarrow> None
           | Some dest' \<Rightarrow> if c = 0 then Some (dest', i) else strcpy_loop dest' src (i + 1)))"
  by pat_completeness auto
termination
  by (relation "measure (\<lambda>(dest, src, i). length src - i)") (auto simp: rd_def split: if_splits)

definition strcpy :: "u8 list \<Rightarrow> u8 list \<Rightarrow> (u8 list \<times> nat) option" where
  "strcpy dest src = strcpy_loop dest src 0"

function strncpy_loop ::
  "u8 list \<Rightarrow> u8 list \<Rightarrow> nat \<Rightarrow> nat \<Rightarrow> (u8 list \<times> nat) option" where
  "strncpy_loop dest src len i =
     (if i < len then
        (case rd src i of None \<Rightarrow> None
         | Some c \<Rightarrow>
             (case wr dest i c of None \<Rightarrow> None
              | Some dest' \<Rightarrow>
                  if c = 0 then Some (dest', i) else strncpy_loop dest' src len (i + 1)))
      else Some (dest, i))"
  by pat_completeness auto
termination
  by (relation "measure (\<lambda>(dest, src, len, i). len - i)") auto

definition strncpy :: "u8 list \<Rightarrow> u8 list \<Rightarrow> nat \<Rightarrow> (u8 list \<times> nat) option" where
  "strncpy dest src len = strncpy_loop dest src len 0"

function strcat_loop :: "u8 list \<Rightarrow> u8 list \<Rightarrow> nat \<Rightarrow> nat \<Rightarrow> (u8 list \<times> nat) option" where
  "strcat_loop dest src dest_len i =
     (case rd src (i - dest_len) of None \<Rightarrow> None
      | Some c \<Rightarrow>
          (case wr dest i c of None \<Rightarrow> None
           | Some dest' \<Rightarrow> if c = 0 then Some (dest', i) else strcat_loop dest' src dest_len (i + 1)))"
  by pat_completeness auto
termination
  by (relation "measure (\<lambda>(dest, src, dest_len, i). length dest - i)")
    (auto simp: rd_def wr_def split: if_splits)

definition strcat :: "u8 list \<Rightarrow> u8 list \<Rightarrow> (u8 list \<times> nat) option" where
  "strcat dest src =
     (case strlen dest of None \<Rightarrow> None | Some n \<Rightarrow> strcat_loop dest src n n)"

text \<open>\<^verbatim>\<open>dest_size - 1\<close> is computed in \<^verbatim>\<open>uint64_t\<close>: for size 0 it wraps to the largest value.\<close>

function strncat_loop ::
  "u8 list \<Rightarrow> u8 list \<Rightarrow> u64 \<Rightarrow> nat \<Rightarrow> nat \<Rightarrow> (u8 list \<times> nat) option" where
  "strncat_loop dest src dest_size dest_len i =
     (case rd src (i - dest_len) of None \<Rightarrow> None
      | Some c \<Rightarrow>
          (case wr dest i c of None \<Rightarrow> None
           | Some dest' \<Rightarrow>
               if c = 0 then Some (dest', i)
               else if unat (dest_size - 1) \<le> i then Some (dest', i)
               else strncat_loop dest' src dest_size dest_len (i + 1)))"
  by pat_completeness auto
termination
  by (relation "measure (\<lambda>(dest, src, dest_size, dest_len, i). length dest - i)")
    (auto simp: rd_def wr_def split: if_splits)

definition strncat :: "u8 list \<Rightarrow> u8 list \<Rightarrow> u64 \<Rightarrow> (u8 list \<times> nat) option" where
  "strncat dest src dest_size =
     (case strlen dest of None \<Rightarrow> None
      | Some n \<Rightarrow>
          (case strncat_loop dest src dest_size n n of None \<Rightarrow> None
           | Some (dest', i) \<Rightarrow>
               (case wr dest' i 0 of None \<Rightarrow> None | Some dest'' \<Rightarrow> Some (dest'', i))))"

datatype num_sys_t = OCT | DEC

definition strtol :: "u8 list \<Rightarrow> num_sys_t \<Rightarrow> u64 option" where
  "strtol s type =
     (case strlen s of None \<Rightarrow> None
      | Some len \<Rightarrow>
          (let max_single_num = (if type = OCT then 7 else 9)
           in Some (fold (\<lambda>i val.
                if 48 \<le> sint (s ! i) \<and> sint (s ! i) \<le> 48 + max_single_num
                then val * of_int (max_single_num + 1) + of_int (sint (s ! i)) - 48
                else val) [0..<len] 0)))"

text \<open>\<^verbatim>\<open>strchr\<close>: \<^term>\<open>Some None\<close> is the NULL pointer, \<^term>\<open>Some (Some i)\<close> the pointer
  \<^verbatim>\<open>s + i\<close>.\<close>

function strchr_loop :: "u8 list \<Rightarrow> int \<Rightarrow> nat \<Rightarrow> nat option option" where
  "strchr_loop s c i =
     (case rd s i of None \<Rightarrow> None
      | Some x \<Rightarrow>
          if x = 0 then Some None
          else if sint x = c then Some (Some i)
          else strchr_loop s c (i + 1))"
  by pat_completeness auto
termination
  by (relation "measure (\<lambda>(s, c, i). length s - i)") (auto simp: rd_def split: if_splits)

definition strchr :: "u8 list \<Rightarrow> int \<Rightarrow> nat option option" where
  "strchr s c = strchr_loop s c 0"

definition strlwr :: "u8 list \<Rightarrow> u8 list option" where
  "strlwr s =
     (case strlen s of None \<Rightarrow> None
      | Some len \<Rightarrow>
          Some (fold (\<lambda>i s. if 65 \<le> sint (s ! i) \<and> sint (s ! i) \<le> 90
                            then s[i := s ! i - 65 + 97] else s) [0..<len] s))"

definition strupr :: "u8 list \<Rightarrow> u8 list option" where
  "strupr s =
     (case strlen s of None \<Rightarrow> None
      | Some len \<Rightarrow>
          Some (fold (\<lambda>i s. if 97 \<le> sint (s ! i) \<and> sint (s ! i) \<le> 122
                            then s[i := s ! i - 97 + 65] else s) [0..<len] s))"

declare strlen_loop.simps [simp del] strcmp_loop.simps [simp del] strncmp_loop.simps [simp del]
  strcpy_loop.simps [simp del] strncpy_loop.simps [simp del] strcat_loop.simps [simp del]
  strncat_loop.simps [simp del] strchr_loop.simps [simp del]

section \<open>Character classes\<close>

definition isdigit :: "int \<Rightarrow> bool" where "isdigit c = (48 \<le> c \<and> c \<le> 57)"

definition isalpha :: "int \<Rightarrow> bool" where
  "isalpha c = ((65 \<le> c \<and> c \<le> 90) \<or> (97 \<le> c \<and> c \<le> 122))"

definition isalnum :: "int \<Rightarrow> bool" where "isalnum c = (isalpha c \<or> isdigit c)"

definition isblank :: "int \<Rightarrow> bool" where "isblank c = (c = 32 \<or> c = 9)"

definition iscntrl :: "int \<Rightarrow> bool" where "iscntrl c = (0 \<le> c \<and> c \<le> 31)"

definition isgraph :: "int \<Rightarrow> bool" where "isgraph c = (33 \<le> c \<and> c \<le> 126)"

definition islower :: "int \<Rightarrow> bool" where "islower c = (97 \<le> c \<and> c \<le> 122)"

definition isprint :: "int \<Rightarrow> bool" where "isprint c = (32 \<le> c \<and> c \<le> 126)"

definition ispunct :: "int \<Rightarrow> bool" where
  "ispunct c = ((33 \<le> c \<and> c \<le> 47) \<or> (58 \<le> c \<and> c \<le> 64) \<or> (91 \<le> c \<and> c \<le> 96)
     \<or> (123 \<le> c \<and> c \<le> 126))"

definition isspace :: "int \<Rightarrow> bool" where "isspace c = (c = 32 \<or> (9 \<le> c \<and> c \<le> 13))"

definition isupper :: "int \<Rightarrow> bool" where "isupper c = (65 \<le> c \<and> c \<le> 90)"

definition isxdigit :: "int \<Rightarrow> bool" where
  "isxdigit c = (isdigit c \<or> (97 \<le> c \<and> c \<le> 102) \<or> (65 \<le> c \<and> c \<le> 70))"

definition tolower :: "int \<Rightarrow> int" where
  "tolower c = (if \<not> isalpha c \<or> islower c then c else c + 32)"

definition toupper :: "int \<Rightarrow> int" where
  "toupper c = (if \<not> isalpha c \<or> isupper c then c else c - 32)"

lemmas ctype_defs = isalnum_def isalpha_def isblank_def iscntrl_def isdigit_def isgraph_def
  islower_def isprint_def ispunct_def isspace_def isupper_def isxdigit_def tolower_def toupper_def

section \<open>Block operations: theorems\<close>

lemma length_load_bytes [len_simps, simp]: "length (load_bytes m a n) = n"
  by (simp add: load_bytes_def)

lemma nth_load_bytes [buf_simps]: "i < n \<Longrightarrow> load_bytes m a n ! i = m (a + of_nat i)"
  by (simp add: load_bytes_def)

lemma store_bytes_Nil [simp]: "store_bytes m a [] = m"
  by (simp add: store_bytes_def fun_eq_iff)

lemma store_bytes_append:
  assumes "length xs + length ys \<le> 2 ^ 64"
  shows "store_bytes (store_bytes m a xs) (a + of_nat (length xs)) ys = store_bytes m a (xs @ ys)"
proof (rule ext)
  fix x :: u64
  let ?n = "length xs"
  have split: "x - (a + of_nat ?n) = (x - a) - of_nat ?n" by (simp only: diff_diff_add)
  show "store_bytes (store_bytes m a xs) (a + of_nat ?n) ys x = store_bytes m a (xs @ ys) x"
  proof (cases "ys = []")
    case True
    then show ?thesis by simp
  next
    case False
    then have n: "?n < 2 ^ 64" using assms by (cases ys) auto
    then have un: "unat (of_nat ?n :: u64) = ?n" by (simp add: unat_of_nat_small)
    show ?thesis
    proof (cases "unat (x - a) < ?n")
      case True
      then have "unat (x - (a + of_nat ?n)) = 2 ^ 64 + unat (x - a) - ?n"
        using un unat_sub_if' [of "x - a" "of_nat ?n :: u64"] by (simp add: split)
      then have "\<not> unat (x - (a + of_nat ?n)) < length ys"
        using assms n by simp
      with True show ?thesis by (simp add: store_bytes_def nth_append)
    next
      case False
      then have "unat (x - (a + of_nat ?n)) = unat (x - a) - ?n"
        using un unat_sub_if' [of "x - a" "of_nat ?n :: u64"] by (simp add: split)
      with False show ?thesis by (auto simp: store_bytes_def nth_append)
    qed
  qed
qed

lemma load_store_ahead:
  assumes "unat (s - d) + w + n \<le> 2 ^ 64" and "length bs = w"
  shows "load_bytes (store_bytes m d bs) (s + of_nat w) n = load_bytes m (s + of_nat w) n"
proof (rule nth_equalityI)
  fix i
  assume "i < length (load_bytes (store_bytes m d bs) (s + of_nat w) n)"
  then have i: "i < n" by simp
  then have small: "w + i < 2 ^ 64" using assms by linarith
  have "s + of_nat w + of_nat i - d = (s - d) + of_nat (w + i)" by simp
  moreover have "unat ((s - d) + of_nat (w + i)) = unat (s - d) + (w + i)"
    using assms i small by (simp add: unat_word_ariths unat_of_nat_small take_bit_nat_eq_self)
  ultimately have "unat (s + of_nat w + of_nat i - d) \<ge> w" by presburger
  with i assms show "load_bytes (store_bytes m d bs) (s + of_nat w) n ! i
      = load_bytes m (s + of_nat w) n ! i"
    by (simp add: buf_simps store_bytes_def)
qed simp

lemma load_bytes_add:
  "load_bytes m a (w + n) = load_bytes m a w @ load_bytes m (a + of_nat w) n"
  by (rule nth_equalityI) (auto simp: buf_simps nth_append)

lemma rep_movs_block:
  "unat (rsi - rdi) + w * n \<le> 2 ^ 64 \<Longrightarrow>
     rep_movs w n rdi rsi m = store_bytes m rdi (load_bytes m rsi (w * n))"
proof (induction n arbitrary: rdi rsi m)
  case 0
  then show ?case by (simp add: load_bytes_def)
next
  case (Suc n)
  let ?m = "store_bytes m rdi (load_bytes m rsi w)"
  have "rsi + of_nat w - (rdi + of_nat w) = rsi - rdi" by simp
  then have "rep_movs w n (rdi + of_nat w) (rsi + of_nat w) ?m
      = store_bytes ?m (rdi + of_nat w) (load_bytes ?m (rsi + of_nat w) (w * n))"
    using Suc.IH Suc.prems by simp
  also have "load_bytes ?m (rsi + of_nat w) (w * n) = load_bytes m (rsi + of_nat w) (w * n)"
    using Suc.prems by (simp add: load_store_ahead)
  also have "store_bytes ?m (rdi + of_nat w) (load_bytes m (rsi + of_nat w) (w * n))
      = store_bytes m rdi (load_bytes m rsi w @ load_bytes m (rsi + of_nat w) (w * n))"
    using store_bytes_append [of "load_bytes m rsi w" "load_bytes m (rsi + of_nat w) (w * n)" m rdi]
      Suc.prems by simp
  finally show ?case by (simp add: load_bytes_add [symmetric])
qed

lemma unat_div_mult: "len mod of_nat w = 0 \<Longrightarrow> 0 < w \<Longrightarrow> w < 2 ^ 64 \<Longrightarrow>
    w * unat (len div of_nat w :: u64) = unat len"
proof -
  assume a: "len mod of_nat w = 0" "0 < w" "w < 2 ^ 64"
  then have "unat len mod w = 0"
    using unat_mod [of len "of_nat w"] by (simp add: unat_of_nat_small)
  with a show ?thesis by (auto simp: unat_div unat_of_nat_small)
qed

text \<open>
  \<^verbatim>\<open>memcpy\<close> with its four unit sizes is the block copy whenever the destination does
  not start strictly inside the source range.  Disjoint operands and moves towards lower
  addresses satisfy the condition.
\<close>

theorem memcpy_block_copy:
  assumes "unat (src - dest) + unat len \<le> 2 ^ 64"
  shows "memcpy dest src len m = (store_bytes m dest (load_bytes m src (unat len)), dest)"
proof -
  have 8: "8 * unat (len div 8) = unat len" if "len mod 8 = 0"
    using unat_div_mult [of len 8] that by simp
  have 4: "4 * unat (len div 4) = unat len" if "len mod 4 = 0"
    using unat_div_mult [of len 4] that by simp
  have 2: "2 * unat (len div 2) = unat len" if "len mod 2 = 0"
    using unat_div_mult [of len 2] that by simp
  show ?thesis
    using assms 8 4 2 by (simp add: memcpy_def rep_movs_block)
qed

lemma memset_fold:
  "n < 2 ^ 64 \<Longrightarrow> fold (\<lambda>i m. m(addr + of_nat i := val)) [0..<n] m
     = store_bytes m addr (replicate n val)"
proof (induction n)
  case 0
  then show ?case by simp
next
  case (Suc n)
  then have "fold (\<lambda>i m. m(addr + of_nat i := val)) [0..<Suc n] m
      = (store_bytes m addr (replicate n val))(addr + of_nat n := val)"
    by (simp del: fun_upd_apply)
  also have "\<dots> = store_bytes (store_bytes m addr (replicate n val)) (addr + of_nat n) [val]"
    by (auto simp: store_bytes_def fun_eq_iff unat_eq_0)
  also have "\<dots> = store_bytes m addr (replicate n val @ [val])"
    using store_bytes_append [of "replicate n val" "[val]" m addr] Suc.prems by simp
  finally show ?case by (simp only: replicate_append_same replicate_Suc)
qed

lemma memset_block: "memset addr val len m = store_bytes m addr (replicate (unat len) val)"
  using memset_fold [of "unat len"] unsigned_less [of len] by (simp add: memset_def)

lemma memcmp_loop_iff:
  "i \<le> len \<Longrightarrow> memcmp_loop s1 s2 len i \<longleftrightarrow> (\<forall>j. i \<le> j \<and> j < len \<longrightarrow> s1 ! j = s2 ! j)"
proof (induction s1 s2 len i rule: memcmp_loop.induct)
  case (1 s1 s2 len i)
  show ?case
  proof (cases "i < len")
    case True
    with "1" show ?thesis
      by (simp add: memcmp_loop.simps [of s1 s2 len i] all_upto_step)
  next
    case False
    with "1.prems" show ?thesis by (subst memcmp_loop.simps) auto
  qed
qed

lemma memcmp_iff_take:
  assumes "len \<le> length s1" and "len \<le> length s2"
  shows "memcmp s1 s2 len \<longleftrightarrow> take len s1 = take len s2"
  using assms by (auto simp: memcmp_def memcmp_loop_iff list_eq_iff_nth_eq)

lemma memcmp_iff_eq: "memcmp s1 s2 (length s1) \<longleftrightarrow> s1 = s2" if "length s1 = length s2"
  using that by (simp add: memcmp_iff_take)

section \<open>Strings: theorems\<close>

text \<open>Each scanning loop started one element further on is the loop on the tail.\<close>

lemma rd_Cons_Suc [simp]: "rd (x # s) (Suc i) = rd s i"
  by (simp add: rd_def)

lemma rd_Cons_0 [simp]: "rd (x # s) 0 = Some x"
  by (simp add: rd_def)

lemma strlen_loop_Suc: "strlen_loop (x # s) (Suc i) = map_option Suc (strlen_loop s i)"
proof (induction s i rule: strlen_loop.induct)
  case (1 s i)
  then show ?case
    by (simp add: strlen_loop.simps [of "x # s" "Suc i"] strlen_loop.simps [of s i]
        split: option.split)
qed

lemma strcmp_loop_Suc: "strcmp_loop (x # a) (y # b) (Suc i) = strcmp_loop a b i"
proof (induction a b i rule: strcmp_loop.induct)
  case (1 a b i)
  then show ?case
    by (simp add: strcmp_loop.simps [of "x # a" "y # b" "Suc i"] strcmp_loop.simps [of a b i]
        split: option.split)
qed

lemma strncmp_loop_Suc: "strncmp_loop (x # a) (y # b) (Suc n) (Suc i) = strncmp_loop a b n i"
proof (induction a b n i rule: strncmp_loop.induct)
  case (1 a b n i)
  then show ?case
    by (simp add: strncmp_loop.simps [of "x # a" "y # b" "Suc n" "Suc i"]
        strncmp_loop.simps [of a b n i] split: option.split)
qed

lemma strchr_loop_Suc:
  "strchr_loop (x # s) c (Suc i) = map_option (map_option Suc) (strchr_loop s c i)"
proof (induction s c i rule: strchr_loop.induct)
  case (1 s c i)
  then show ?case
    by (simp add: strchr_loop.simps [of "x # s" c "Suc i"] strchr_loop.simps [of s c i]
        split: option.split)
qed

lemma strlen_Cons: "strlen (x # s) = (if x = 0 then Some 0 else map_option Suc (strlen s))"
  by (simp add: strlen_def strlen_loop.simps [of "x # s" 0] strlen_loop_Suc)

lemma strcmp_Cons: "strcmp (x # a) (y # b) =
    (if x \<noteq> y \<or> x = 0 then Some (sint x - sint y) else strcmp a b)"
  by (simp add: strcmp_def strcmp_loop.simps [of "x # a" "y # b" 0] strcmp_loop_Suc)

lemma strchr_Cons: "strchr (x # s) c =
    (if x = 0 then Some None else if sint x = c then Some (Some 0)
     else map_option (map_option Suc) (strchr s c))"
  by (simp add: strchr_def strchr_loop.simps [of "x # s" c 0] strchr_loop_Suc)

lemma strncmp_0 [simp]: "strncmp a b 0 = Some 0"
  by (simp add: strncmp_def strncmp_loop.simps [of a b 0 0])

lemma strncmp_Cons: "strncmp (x # a) (y # b) (Suc n) =
    (if x \<noteq> y \<or> x = 0 then Some (sint x - sint y) else strncmp a b n)"
  by (simp add: strncmp_def strncmp_loop.simps [of "x # a" "y # b" "Suc n" 0] strncmp_loop_Suc)

lemmas cstr_Cons = strlen_Cons strcmp_Cons strchr_Cons strncmp_Cons

lemma strlen_cstr: "0 \<notin> set s \<Longrightarrow> strlen (s @ 0 # rest) = Some (length s)"
  by (induction s) (auto simp: cstr_Cons)

lemma strlen_Some_iff: "strlen s = Some n \<longleftrightarrow> n < length s \<and> s ! n = 0 \<and> 0 \<notin> set (take n s)"
proof (induction s arbitrary: n)
  case Nil
  then show ?case by (simp add: strlen_def strlen_loop.simps [of "[]" 0] rd_def)
next
  case (Cons x s)
  then show ?case by (cases n) (auto simp: cstr_Cons)
qed

lemma strcmp_cstr:
  assumes "0 \<notin> set a" and "0 \<notin> set b"
  shows "\<exists>d. strcmp (a @ 0 # r) (b @ 0 # q) = Some d \<and> (d = 0 \<longleftrightarrow> a = b)"
  using assms
proof (induction a arbitrary: b)
  case Nil
  then show ?case by (cases b) (auto simp: cstr_Cons)
next
  case (Cons x a)
  then show ?case by (cases b) (auto simp: cstr_Cons)
qed

lemma strncmp_prefix:
  assumes "0 \<notin> set p" and "0 \<notin> set s"
  shows "\<exists>d. strncmp (s @ 0 # r) (p @ 0 # q) (length p) = Some d \<and> (d = 0 \<longleftrightarrow> take (length p) s = p)"
  using assms
proof (induction p arbitrary: s)
  case Nil
  then show ?case by simp
next
  case (Cons y p)
  then show ?case by (cases s) (auto simp: cstr_Cons)
qed

lemma strchr_cstr:
  assumes "0 \<notin> set s"
  shows "strchr (s @ 0 # r) (sint c) =
    Some (if c \<in> set s then Some (length (takeWhile (\<lambda>x. x \<noteq> c) s)) else None)"
  using assms by (induction s) (auto simp: cstr_Cons)

text \<open>
  the comparison loops decide equality of NUL-terminated strings.  \<^verbatim>\<open>strcmp\<close> returns
  0 exactly for equal strings whatever follows the terminators, and \<^verbatim>\<open>strncmp\<close> with the
  length of a prefix returns 0 exactly when the string starts with it.
\<close>

theorem strcmp_strncmp_decide:
  assumes "0 \<notin> set a" and "0 \<notin> set b"
  shows "(\<exists>d. strcmp (a @ 0 # r) (b @ 0 # q) = Some d \<and> (d = 0 \<longleftrightarrow> a = b))
    \<and> (\<exists>d. strncmp (a @ 0 # r) (b @ 0 # q) (length b) = Some d \<and> (d = 0 \<longleftrightarrow> take (length b) a = b))"
  using strcmp_cstr [OF assms] strncmp_prefix [OF assms(2,1)] by blast

lemma wr_prefix:
  assumes "i < length dest" and "i < length s"
  shows "wr (take i s @ drop i dest) i (s ! i) = Some (take (Suc i) s @ drop (Suc i) dest)"
proof -
  have "drop i dest = dest ! i # drop (Suc i) dest" using assms by (simp add: Cons_nth_drop_Suc)
  with assms show ?thesis by (simp add: wr_def list_update_append take_Suc_conv_app_nth)
qed

lemma strncpy_loop_cstr:
  assumes "0 \<notin> set s" and "len \<le> length dest" and "i \<le> length s" and "i \<le> len"
  shows "strncpy_loop (take i s @ drop i dest) (s @ 0 # r) len i =
    Some (if length s < len then (s @ 0 # drop (Suc (length s)) dest, length s)
          else (take len s @ drop len dest, len))"
  using assms(3,4)
proof (induction "len - i" arbitrary: i)
  case 0
  then show ?case by (subst strncpy_loop.simps) auto
next
  case (Suc k)
  then have il: "i < len" by simp
  show ?case
  proof (cases "i < length s")
    case True
    then have "rd (s @ 0 # r) i = Some (s ! i)" by (simp add: rd_def nth_append)
    moreover have "s ! i \<noteq> 0" using True assms(1) by (metis nth_mem)
    moreover have "wr (take i s @ drop i dest) i (s ! i) = Some (take (Suc i) s @ drop (Suc i) dest)"
      using True il assms(2) by (intro wr_prefix) auto
    moreover have "strncpy_loop (take (Suc i) s @ drop (Suc i) dest) (s @ 0 # r) len (Suc i) =
        Some (if length s < len then (s @ 0 # drop (Suc (length s)) dest, length s)
          else (take len s @ drop len dest, len))"
      using Suc True by simp
    ultimately show ?thesis
      using il by (subst strncpy_loop.simps) simp
  next
    case False
    then have i: "i = length s" using Suc.prems by simp
    have "drop i dest = dest ! i # drop (Suc i) dest"
      using il assms(2) by (simp add: Cons_nth_drop_Suc)
    then show ?thesis
      using i il assms(2) by (subst strncpy_loop.simps) (simp add: rd_def wr_def list_update_append)
  qed
qed

text \<open>
  \<^verbatim>\<open>strncpy\<close> copies the string with its terminator when it is shorter than
  \<^verbatim>\<open>len\<close> and leaves the rest of the array alone (no padding); otherwise it copies
  \<^verbatim>\<open>len\<close> bytes and writes no terminator.
\<close>

theorem strncpy_effect:
  assumes "0 \<notin> set s" and "len \<le> length dest"
  shows "strncpy dest (s @ 0 # r) len =
    Some (if length s < len then (s @ 0 # drop (Suc (length s)) dest, length s)
          else (take len s @ drop len dest, len))"
  using strncpy_loop_cstr [OF assms, of 0] by (simp add: strncpy_def)

end
