(* ===== verification/Vmm.thy ===== *)
theory Vmm
  imports Pmm Libc_String "HOL-Library.Monad_Syntax"
begin

text \<open>
  The virtual memory manager, \<^verbatim>\<open>kernel/src/mem/vmm.c\<close>: one table of 512 entries allocated from
  the physical allocator and filled with an identity mapping, single-page mapping and release, and
  the page-wise allocators for user pages and stacks.  The record \<^verbatim>\<open>vmm\<close> holds the file's static
  variables, the table \<^verbatim>\<open>current_page_table->entries\<close> as a list, the state of \<^verbatim>\<open>pmm.c\<close> below it and
  the byte memory that \<^verbatim>\<open>my_memset\<close> writes.  A pointer is a 64-bit address with 0 for NULL;
  \<^const>\<open>None\<close> is a fault (a NULL table written through, or a fault inside \<^verbatim>\<open>pmm.c\<close>).

  Shown: page-table entries carry the page address and the flags without mixing them, mapping and
  releasing a page is consistent with the physical allocator, and the consequence of the table's
  size: every allocation from the virtual kernel heap fails, because its addresses lie above the
  2 MiB the single table covers.
\<close>

record vmm =
  pmm_st :: pmm
  current_page_table :: u64
  pt_entries :: u64
  entries :: "u64 list"
  kernel_heap_end :: u64
  phys_mem :: mem

definition VMM_KERNEL_HEAP_START :: u64 where
  "VMM_KERNEL_HEAP_START = 0xE0000000"

text \<open>\<^verbatim>\<open>PAGE_SIZE / sizeof(pte_t)\<close>\<close>

abbreviation (input) entries_per_table :: nat where
  "entries_per_table \<equiv> 512"

section \<open>Operations\<close>

fun my_memset_loop :: "u64 \<Rightarrow> u8 \<Rightarrow> nat \<Rightarrow> mem \<Rightarrow> mem" where
  "my_memset_loop p v 0 m = m"
| "my_memset_loop p v (Suc n) m = my_memset_loop (p + 1) v n (m(p := v))"

definition my_memset :: "u64 \<Rightarrow> int \<Rightarrow> u64 \<Rightarrow> mem \<Rightarrow> mem" where
  "my_memset ptr value num m = my_memset_loop ptr (of_int value) (unat num) m"

definition set_pte :: "u64 \<Rightarrow> u64 \<Rightarrow> u64" where
  "set_pte phys_addr flags = (phys_addr AND NOT 0xFFF) OR (flags AND 0xFFF)"

definition get_phys_addr_from_pte :: "u64 \<Rightarrow> u64" where
  "get_phys_addr_from_pte entry = entry AND NOT 0xFFF"

definition vmm_map_page :: "u64 \<Rightarrow> u64 \<Rightarrow> u64 \<Rightarrow> vmm \<Rightarrow> u64 \<times> vmm" where
  "vmm_map_page virt phys flags s =
     (if current_page_table s = 0 \<or> virt = 0 \<or> phys = 0 then (0, s)
      else let virt_page = unat (virt div PAGE_SIZE)
           in if entries_per_table \<le> virt_page then (0, s)
              else (virt, s\<lparr>entries := (entries s)[virt_page := set_pte phys flags]\<rparr>))"

definition vmm_unmap_page :: "u64 \<Rightarrow> vmm \<Rightarrow> vmm" where
  "vmm_unmap_page virt s =
     (if current_page_table s = 0 \<or> virt = 0 then s
      else let virt_page = unat (virt div PAGE_SIZE)
           in if entries_per_table \<le> virt_page then s
              else s\<lparr>entries := (entries s)[virt_page := set_pte 0 0]\<rparr>)"

definition vmm_free_page :: "u64 \<Rightarrow> vmm \<Rightarrow> vmm option" where
  "vmm_free_page addr s =
     (if current_page_table s = 0 \<or> addr = 0 then Some s
      else let virt_page = unat (addr div PAGE_SIZE)
           in if entries_per_table \<le> virt_page then Some s
              else let phys = get_phys_addr_from_pte (entries s ! virt_page)
                   in if phys = 0 then Some s
                      else do {
                        p \<leftarrow> pmm_free_page phys (pmm_st s);
                        Some (s\<lparr>entries := (entries s)[virt_page := set_pte 0 0], pmm_st := p\<rparr>)
                      })"

definition vmm_init :: "u64 \<Rightarrow> memmap_entry list \<Rightarrow> vmm \<Rightarrow> (memmap_entry list \<times> vmm) option" where
  "vmm_init usable memap s = do {
     (memap', p0) \<leftarrow> pmm_init usable memap (pmm_st s);
     (page1, p1) \<leftarrow> pmm_alloc_page p0;
     (page2, p2) \<leftarrow> pmm_alloc_page p1;
     p3 \<leftarrow> pmm_free_page page1 p2;
     (pt, p4) \<leftarrow> pmm_alloc_page p3;
     if pt = 0 then None
     else do {
       let m = my_memset pt 0 16 (phys_mem s);
       (ents, p5) \<leftarrow> pmm_alloc_page p4;
       if ents = 0 then None
       else Some (memap', s\<lparr>pmm_st := p5, current_page_table := pt, pt_entries := ents,
              entries := fold (\<lambda>i es. es[i := set_pte (of_nat i * PAGE_SIZE) 0x3])
                           [0..<entries_per_table] (replicate entries_per_table 0),
              phys_mem := my_memset ents 0 PAGE_SIZE m\<rparr>)
     }
   }"

definition vmm_alloc_page :: "vmm \<Rightarrow> (u64 \<times> vmm) option" where
  "vmm_alloc_page s =
     (if current_page_table s = 0 then Some (0, s)
      else do {
        (phys_addr, p) \<leftarrow> pmm_alloc_page (pmm_st s);
        if phys_addr = 0 then Some (0, s\<lparr>pmm_st := p\<rparr>)
        else let virt_addr = kernel_heap_end s;
                 s1 = s\<lparr>pmm_st := p, phys_mem := my_memset phys_addr 0 PAGE_SIZE (phys_mem s),
                        kernel_heap_end := kernel_heap_end s + PAGE_SIZE\<rparr>;
                 (r, s2) = vmm_map_page virt_addr phys_addr 0x3 s1
             in if r = 0
                then do { q \<leftarrow> pmm_free_page phys_addr (pmm_st s2); Some (0, s2\<lparr>pmm_st := q\<rparr>) }
                else Some (virt_addr, s2)
      })"

text \<open>\<^verbatim>\<open>for (j = 0; j < n; ++j) vmm_free_page(base + j * PAGE_SIZE)\<close>, the loop of
  \<^verbatim>\<open>vmm_free_pages_region\<close> and of both rollbacks.\<close>

definition vmm_free_each :: "u64 \<Rightarrow> nat \<Rightarrow> vmm \<Rightarrow> vmm option" where
  "vmm_free_each base n s =
     fold (\<lambda>j acc. do { t \<leftarrow> acc; vmm_free_page (base + of_nat j * PAGE_SIZE) t }) [0..<n] (Some s)"

fun vmm_alloc_user_loop :: "nat \<Rightarrow> nat \<Rightarrow> u64 \<Rightarrow> vmm \<Rightarrow> (u64 \<times> vmm) option" where
  "vmm_alloc_user_loop 0 i first_virt s = Some (first_virt, s)"
| "vmm_alloc_user_loop (Suc n) i first_virt s = do {
     (phys, p) \<leftarrow> pmm_alloc_page (pmm_st s);
     if phys = 0
     then if first_virt \<noteq> 0
          then do { t \<leftarrow> vmm_free_each first_virt i (s\<lparr>pmm_st := p\<rparr>); Some (0, t) }
          else Some (0, s\<lparr>pmm_st := p\<rparr>)
     else let virt = kernel_heap_end s;
              s1 = s\<lparr>pmm_st := p, phys_mem := my_memset phys 0 PAGE_SIZE (phys_mem s),
                     kernel_heap_end := kernel_heap_end s + PAGE_SIZE\<rparr>;
              (r, s2) = vmm_map_page virt phys 0x7 s1
          in if r = 0
             then do {
               q \<leftarrow> pmm_free_page phys (pmm_st s2);
               if first_virt \<noteq> 0
               then do { t \<leftarrow> vmm_free_each first_virt i (s2\<lparr>pmm_st := q\<rparr>); Some (0, t) }
               else Some (0, s2\<lparr>pmm_st := q\<rparr>)
             }
             else vmm_alloc_user_loop n (i + 1) (if first_virt = 0 then virt else first_virt) s2
   }"

definition vmm_alloc_user_pages :: "nat \<Rightarrow> vmm \<Rightarrow> (u64 \<times> vmm) option" where
  "vmm_alloc_user_pages count s =
     (if count = 0 \<or> current_page_table s = 0 then Some (0, s)
      else vmm_alloc_user_loop count 0 0 s)"

definition vmm_alloc_stack :: "nat \<Rightarrow> vmm \<Rightarrow> (u64 \<times> vmm) option" where
  "vmm_alloc_stack pages s =
     (if pages = 0 \<or> current_page_table s = 0 then Some (0, s)
      else let total = pages + 1
           in do {
             (base, s1) \<leftarrow> vmm_alloc_user_pages total s;
             if base = 0 then Some (0, s1)
             else Some (base + of_nat total * PAGE_SIZE, vmm_unmap_page base s1)
           })"

definition vmm_free_pages_region :: "u64 \<Rightarrow> nat \<Rightarrow> vmm \<Rightarrow> vmm option" where
  "vmm_free_pages_region base count s =
     (if base = 0 \<or> count = 0 \<or> current_page_table s = 0 then Some s
      else vmm_free_each base count s)"

section \<open>Page-table entries\<close>

lemma set_pte_parts:
  "get_phys_addr_from_pte (set_pte p f) = p AND NOT 0xFFF" "set_pte p f AND 0xFFF = f AND 0xFFF"
proof -
  have m: "(0xFFF :: u64) = mask 12" by (simp add: mask_eq_exp_minus_1)
  show "get_phys_addr_from_pte (set_pte p f) = p AND NOT 0xFFF"
    unfolding get_phys_addr_from_pte_def set_pte_def m by (rule bit_word_eqI) (auto simp: bit_simps)
  show "set_pte p f AND 0xFFF = f AND 0xFFF"
    unfolding set_pte_def m by (rule bit_word_eqI) (auto simp: bit_simps)
qed

lemma set_pte_0 [simp]: "set_pte 0 0 = 0"
  by (simp add: set_pte_def)

lemma page_addr_aligned: "page_addr i AND NOT 0xFFF = page_addr i"
proof -
  have m: "(0xFFF :: u64) = mask 12" by (simp add: mask_eq_exp_minus_1)
  have "page_addr i = push_bit 12 (of_nat i)" by (simp add: page_addr_def push_bit_eq_mult)
  then show ?thesis unfolding m by (simp only:) (rule bit_word_eqI, auto simp: bit_simps)
qed

lemmas page_addr_aligned' = page_addr_aligned [simplified]

section \<open>Mapping\<close>

definition vmm_inv :: "vmm \<Rightarrow> bool" where
  "vmm_inv s \<longleftrightarrow> pmm_inv (pmm_st s) \<and> length (entries s) = entries_per_table"

lemma vmm_map_page_beyond:
  "512 \<le> unat (virt div PAGE_SIZE) \<Longrightarrow> vmm_map_page virt phys flags s = (0, s)"
  by (simp add: vmm_map_page_def)

lemma vmm_map_page_inv: "vmm_inv s \<Longrightarrow> vmm_map_page v ph f s = (r, s') \<Longrightarrow> vmm_inv s'"
  by (auto simp: vmm_map_page_def vmm_inv_def Let_def split: if_splits)

lemma vmm_unmap_page_inv: "vmm_inv s \<Longrightarrow> vmm_inv (vmm_unmap_page v s)"
  by (auto simp: vmm_unmap_page_def vmm_inv_def Let_def)

section \<open>The heap of virtual pages\<close>

lemma vmm_page_fails:
  assumes "vmm_inv s" and "512 \<le> unat (kernel_heap_end s div PAGE_SIZE)" and "0 \<notin> free_set (pmm_st s)"
    and "free_set (pmm_st s) \<noteq> {}"
  shows "\<exists>a p. pmm_alloc_page (pmm_st s) = Some (a, p) \<and> a \<noteq> 0 \<and> pmm_free_page a p = Some (pmm_st s)"
proof -
  let ?P = "pmm_st s" and ?k = "Min (free_set (pmm_st s))"
  have inv: "pmm_inv ?P" using assms(1) by (simp add: vmm_inv_def)
  have k: "?k \<in> free_set ?P" using assms(4) by simp
  then have "?k \<noteq> 0" using assms(3) by metis
  moreover have "?k < 2 ^ 52" using free_set_less [OF k] inv by (simp add: pmm_inv_def)
  ultimately have "page_addr ?k \<noteq> 0" by (simp add: page_addr_eq_0_iff)
  moreover obtain p where a: "pmm_alloc_page ?P = Some (page_addr ?k, p)"
    using pm.alloc_least [OF inv assms(4)] by blast
  moreover have "pmm_free_page (page_addr ?k) p = Some ?P"
    using pm.release_alloc [OF inv assms(4) a] .
  ultimately show ?thesis by blast
qed

text \<open>What the failing allocators leave behind: everything but the heap break and the cleared
  page contents.\<close>

definition vmm_unchanged :: "vmm \<Rightarrow> vmm \<Rightarrow> bool" where
  "vmm_unchanged s t \<longleftrightarrow> pmm_st t = pmm_st s \<and> entries t = entries s \<and> pt_entries t = pt_entries s
     \<and> current_page_table t = current_page_table s
     \<and> (kernel_heap_end t = kernel_heap_end s \<or> kernel_heap_end t = kernel_heap_end s + PAGE_SIZE)"

lemma pmm_alloc_page_full:
  "vmm_inv s \<Longrightarrow> free_set (pmm_st s) = {} \<Longrightarrow> pmm_alloc_page (pmm_st s) = Some (0, pmm_st s)"
  by (simp add: pm.alloc_full vmm_inv_def)

lemma vmm_alloc_page_fails:
  assumes "vmm_inv s" and "512 \<le> unat (kernel_heap_end s div PAGE_SIZE)" and "0 \<notin> free_set (pmm_st s)"
  shows "\<exists>t. vmm_alloc_page s = Some (0, t) \<and> vmm_unchanged s t"
proof (cases "free_set (pmm_st s) = {}")
  case True
  with assms(1) show ?thesis
    by (simp add: vmm_alloc_page_def pmm_alloc_page_full vmm_unchanged_def)
next
  case False
  with vmm_page_fails [OF assms] show ?thesis
    using assms(2) by (auto simp: vmm_alloc_page_def vmm_map_page_beyond vmm_unchanged_def Let_def)
qed

lemma vmm_alloc_user_pages_fails:
  assumes "vmm_inv s" and "512 \<le> unat (kernel_heap_end s div PAGE_SIZE)" and "0 \<notin> free_set (pmm_st s)"
  shows "\<exists>t. vmm_alloc_user_pages count s = Some (0, t) \<and> vmm_unchanged s t"
proof (cases count)
  case 0
  then show ?thesis by (simp add: vmm_alloc_user_pages_def vmm_unchanged_def)
next
  case (Suc n)
  show ?thesis
  proof (cases "free_set (pmm_st s) = {}")
    case True
    with Suc assms(1) show ?thesis
      by (simp add: vmm_alloc_user_pages_def pmm_alloc_page_full vmm_unchanged_def)
  next
    case False
    with Suc vmm_page_fails [OF assms] show ?thesis
      using assms(2)
      by (auto simp: vmm_alloc_user_pages_def vmm_map_page_beyond vmm_unchanged_def Let_def)
  qed
qed

lemma vmm_alloc_stack_fails:
  assumes "vmm_inv s" and "512 \<le> unat (kernel_heap_end s div PAGE_SIZE)" and "0 \<notin> free_set (pmm_st s)"
  shows "\<exists>t. vmm_alloc_stack pages s = Some (0, t) \<and> vmm_unchanged s t"
  using vmm_alloc_user_pages_fails [OF assms, of "pages + 1"]
  by (auto simp: vmm_alloc_stack_def vmm_unchanged_def)

lemma vmm_alloc_many_fail:
  assumes "vmm_inv s" and "0xE0000000 \<le> unat (kernel_heap_end s)" and "0 \<notin> free_set (pmm_st s)"
    and "unat (kernel_heap_end s) + n * 4096 < 2 ^ 64"
  shows "\<exists>t. alloc_pages vmm_alloc_page n s = Some (replicate n 0, t) \<and> pmm_st t = pmm_st s
    \<and> entries t = entries s"
  using assms
proof (induction n arbitrary: s)
  case 0
  then show ?case by simp
next
  case (Suc n)
  have "0xE0000000 div 4096 \<le> unat (kernel_heap_end s) div 4096" using Suc.prems(2) by (rule div_le_mono)
  then have "512 \<le> unat (kernel_heap_end s div PAGE_SIZE)" by (simp add: unat_div)
  then obtain t where t: "vmm_alloc_page s = Some (0, t)" "vmm_unchanged s t"
    using vmm_alloc_page_fails Suc.prems(1,3) by blast
  have "unat (kernel_heap_end s + PAGE_SIZE) = unat (kernel_heap_end s) + 4096"
    using Suc.prems(4) by (subst unat_plus_small) auto
  then have "unat (kernel_heap_end s) \<le> unat (kernel_heap_end t)"
      "unat (kernel_heap_end t) \<le> unat (kernel_heap_end s) + 4096"
    using t(2) by (auto simp: vmm_unchanged_def)
  moreover have "vmm_inv t" "pmm_st t = pmm_st s" "entries t = entries s"
    using t(2) Suc.prems(1) by (auto simp: vmm_unchanged_def vmm_inv_def)
  ultimately show ?case using Suc.IH [of t] Suc.prems t(1) by auto
qed

section \<open>Properties\<close>

text \<open>
  a page-table entry keeps the page address and the flag bits apart: reading the address back
  gives the physical address with its low 12 bits cleared, whatever the flags, and the low 12 bits
  are exactly the flags; for page-aligned addresses nothing is lost.
\<close>

theorem pte_roundtrip:
  "get_phys_addr_from_pte (set_pte p f) = p AND NOT 0xFFF \<and> set_pte p f AND 0xFFF = f AND 0xFFF
    \<and> get_phys_addr_from_pte (set_pte (page_addr i) f) = page_addr i"
  by (simp add: set_pte_parts page_addr_aligned')

text \<open>
  C34: mapping a used physical page \<^term>\<open>i\<close> (other than page 0) at an address inside the first
  2 MiB returns that address, and \<^verbatim>\<open>vmm_free_page\<close> on it then clears the entry and returns the
  page to the physical allocator.
\<close>

theorem vmm_map_then_free:
  assumes "vmm_inv s" and "current_page_table s \<noteq> 0" and "virt \<noteq> 0"
    and "unat (virt div PAGE_SIZE) < 512" and "0 < i" and "i < unat (total_pages (pmm_st s))"
  shows "\<exists>s1 s2. vmm_map_page virt (page_addr i) flags s = (virt, s1)
    \<and> vmm_free_page virt s1 = Some s2 \<and> vmm_inv s2
    \<and> free_set (pmm_st s2) = insert i (free_set (pmm_st s))
    \<and> entries s2 = (entries s)[unat (virt div PAGE_SIZE) := 0]"
proof -
  let ?v = "unat (virt div PAGE_SIZE)"
  have inv: "pmm_inv (pmm_st s)" and len: "length (entries s) = 512"
    using assms(1) by (auto simp: vmm_inv_def)
  then have "page_addr i \<noteq> 0" using assms(5,6) by (simp add: page_addr_eq_0_iff pmm_inv_def)
  then have "vmm_map_page virt (page_addr i) flags s =
      (virt, s\<lparr>entries := (entries s)[?v := set_pte (page_addr i) flags]\<rparr>)"
    using assms(2-4) by (simp add: vmm_map_page_def Let_def)
  moreover obtain p where "pmm_free_page (page_addr i) (pmm_st s) = Some p" "pmm_inv p"
      "free_set p = insert i (free_set (pmm_st s))"
    using pm.release_page [OF inv assms(6)] by blast
  moreover have "get_phys_addr_from_pte (set_pte (page_addr i) flags) = page_addr i"
    by (simp add: set_pte_parts page_addr_aligned')
  ultimately show ?thesis
    using assms(2-4) len \<open>page_addr i \<noteq> 0\<close> by (simp add: vmm_free_page_def Let_def vmm_inv_def)
qed

definition vmm_small :: vmm where
  "vmm_small = \<lparr>pmm_st = pmm_small, current_page_table = 0x3000, pt_entries = 0x3000,
     entries = replicate 512 0, kernel_heap_end = VMM_KERNEL_HEAP_START, phys_mem = (\<lambda>_. 0)\<rparr>"

lemma vmm_inv_small: "vmm_inv vmm_small"
  by (simp add: vmm_inv_def vmm_small_def pmm_inv_small)

theorem vmm_map_then_free_witness:
  "\<exists>s1 s2. vmm_map_page 0x5000 (page_addr 3) 7 vmm_small = (0x5000, s1)
    \<and> vmm_free_page 0x5000 s1 = Some s2 \<and> free_set (pmm_st s2) = {1, 2, 3}"
proof -
  have "current_page_table vmm_small \<noteq> 0" "unat (total_pages (pmm_st vmm_small)) = 4"
      "pmm_st vmm_small = pmm_small"
    by (simp_all add: vmm_small_def pmm_small_def)
  moreover have "insert 3 {1, 2} = {1, 2, 3 :: nat}" by auto
  ultimately show ?thesis
    using vmm_map_then_free [OF vmm_inv_small, of "0x5000" 3 7] by (simp add: free_set_small) blast
qed

text \<open>
  allocations of virtual kernel pages never succeed.  The heap break starts at 0xE0000000 while
  the page table maps 512 pages from address 0, so \<^verbatim>\<open>vmm_map_page\<close> refuses every page:
  \<^term>\<open>n\<close> calls of \<^verbatim>\<open>vmm_alloc_page\<close> all return NULL and give their physical page back, and
  so do \<^verbatim>\<open>vmm_alloc_user_pages\<close> and \<^verbatim>\<open>vmm_alloc_stack\<close>, for as long as the break does not
  wrap around the address space.
\<close>

theorem vmm_heap_always_fails:
  assumes "vmm_inv s" and "VMM_KERNEL_HEAP_START \<le> kernel_heap_end s" and "0 \<notin> free_set (pmm_st s)"
    and "unat (kernel_heap_end s) + n * 4096 < 2 ^ 64"
  shows "(\<exists>t. alloc_pages vmm_alloc_page n s = Some (replicate n 0, t) \<and> pmm_st t = pmm_st s
      \<and> entries t = entries s)
    \<and> (\<exists>t. vmm_alloc_user_pages c s = Some (0, t) \<and> pmm_st t = pmm_st s \<and> entries t = entries s)
    \<and> (\<exists>t. vmm_alloc_stack c s = Some (0, t) \<and> pmm_st t = pmm_st s \<and> entries t = entries s)"
proof -
  have h: "0xE0000000 \<le> unat (kernel_heap_end s)"
    using assms(2) by (simp add: VMM_KERNEL_HEAP_START_def word_le_nat_alt)
  then have "0xE0000000 div 4096 \<le> unat (kernel_heap_end s) div 4096" by (rule div_le_mono)
  then have "512 \<le> unat (kernel_heap_end s div PAGE_SIZE)" by (simp add: unat_div)
  then show ?thesis
    using vmm_alloc_many_fail [OF assms(1) h assms(3,4)] assms(1,3)
      vmm_alloc_user_pages_fails [of s c] vmm_alloc_stack_fails [of s c]
    by (auto simp: vmm_unchanged_def)
qed

theorem vmm_heap_always_fails_witness:
  "\<exists>t. alloc_pages vmm_alloc_page 1000 vmm_small = Some (replicate 1000 0, t) \<and> pmm_st t = pmm_small"
proof -
  have "VMM_KERNEL_HEAP_START \<le> kernel_heap_end vmm_small" by (simp add: vmm_small_def)
  moreover have "0 \<notin> free_set (pmm_st vmm_small)" by (simp add: vmm_small_def free_set_small)
  moreover have "unat (kernel_heap_end vmm_small) + 1000 * 4096 < 2 ^ 64"
    by (simp add: vmm_small_def VMM_KERNEL_HEAP_START_def)
  ultimately show ?thesis
    using vmm_heap_always_fails [OF vmm_inv_small, of 1000] by (auto simp: vmm_small_def)
qed

lemma pmm_alloc_Some:
  assumes "pmm_inv p" and "free_set p \<noteq> {}" and "0 \<notin> free_set p"
  shows "\<exists>p'. pmm_alloc_page p = Some (page_addr (Min (free_set p)), p') \<and> pmm_inv p'
    \<and> unat (total_pages p') = unat (total_pages p)
    \<and> free_set p' = free_set p - {Min (free_set p)} \<and> page_addr (Min (free_set p)) \<noteq> 0"
proof -
  have k: "Min (free_set p) \<in> free_set p" using assms(2) by simp
  then have "Min (free_set p) \<noteq> 0" using assms(3) by metis
  moreover have "Min (free_set p) < 2 ^ 52" using free_set_less [OF k] assms(1) by (simp add: pmm_inv_def)
  ultimately have "page_addr (Min (free_set p)) \<noteq> 0" by (simp add: page_addr_eq_0_iff)
  then show ?thesis using pm.alloc_least [OF assms(1,2)] by auto
qed

lemma Min_remove_larger: "finite F \<Longrightarrow> Min F \<in> F \<Longrightarrow> x \<noteq> Min F \<Longrightarrow> Min (F - {x}) = Min F" for x :: nat
  by (rule Min_eqI) auto

lemma vmm_init_pages:
  assumes "pmm_init usable mm (pmm_st s) = Some (mm', q)" and "pmm_inv q"
    and "3 \<le> card (free_set q)" and "0 \<notin> free_set q"
  obtains t a b c where "vmm_init usable mm s = Some (mm', t)" "card {a, b, c} = 3"
    "current_page_table t = page_addr a" "pt_entries t = page_addr c" "pmm_inv (pmm_st t)"
    "free_set (pmm_st t) = free_set q - {a, b, c}"
    "entries t = map (\<lambda>i. set_pte (page_addr i) 0x3) [0..<512]"
proof -
  define F where "F = free_set q"
  define a where "a = Min F"
  define b where "b = Min (F - {a})"
  define c where "c = Min (F - {a, b})"
  have F: "finite F" "3 \<le> card F" "0 \<notin> F" using assms(3,4) by (auto simp: F_def)
  then have ne1: "F \<noteq> {}" by auto
  then have a: "a \<in> F" using F(1) by (simp add: a_def)
  have "card (F - {a}) = card F - 1" using a F(1) by (simp add: card_Diff_singleton)
  then have "0 < card (F - {a})" using F(2) by simp
  then have ne2: "F - {a} \<noteq> {}" by (simp only: card_gt_0_iff simp_thms)
  then have b: "b \<in> F" "b \<noteq> a" using Min_in [of "F - {a}"] F(1) by (auto simp: b_def)
  have "card (F - {a, b}) = card F - 2" using a b F(1) by (simp add: card_Diff_subset)
  then have "0 < card (F - {a, b})" using F(2) by simp
  then have ne3: "F - {a, b} \<noteq> {}" by (simp only: card_gt_0_iff simp_thms)
  then have c: "c \<noteq> a" "c \<noteq> b" using Min_in [of "F - {a, b}"] F(1) by (auto simp: c_def)
  obtain p1 where p1: "pmm_alloc_page q = Some (page_addr a, p1)" "pmm_inv p1"
      "unat (total_pages p1) = unat (total_pages q)" "free_set p1 = F - {a}" "page_addr a \<noteq> 0"
    using pmm_alloc_Some [OF assms(2)] ne1 F(3) by (simp add: a_def F_def) blast
  obtain p2 where p2: "pmm_alloc_page p1 = Some (page_addr b, p2)" "pmm_inv p2"
      "unat (total_pages p2) = unat (total_pages q)" "free_set p2 = F - {a} - {b}"
    using pmm_alloc_Some [OF p1(2)] ne2 F(3) p1(3,4) by (simp add: b_def) blast
  have "a < unat (total_pages p2)" using a free_set_less p2(3) by (simp add: F_def)
  then obtain p3 where p3: "pmm_free_page (page_addr a) p2 = Some p3" "pmm_inv p3"
      "free_set p3 = insert a (F - {a} - {b})"
    using pm.release_page [OF p2(2), of a] p2(4) by (simp) blast
  have f3: "free_set p3 = F - {b}" using p3(3) a b by auto
  have m3: "Min (F - {b}) = a" using Min_remove_larger [OF F(1), of b] a b by (simp add: a_def)
  have "F - {b} \<noteq> {}" "0 \<notin> F - {b}" using a b F(3) by auto
  then obtain p4 where p4: "pmm_alloc_page p3 = Some (page_addr a, p4)" "pmm_inv p4"
      "free_set p4 = F - {b} - {a}"
    using pmm_alloc_Some [OF p3(2), unfolded f3 m3] by blast
  have "F - {b} - {a} = F - {a, b}" by auto
  then obtain p5 where p5: "pmm_alloc_page p4 = Some (page_addr c, p5)" "pmm_inv p5"
      "free_set p5 = F - {a, b} - {c}" "page_addr c \<noteq> 0"
    using pmm_alloc_Some [OF p4(2)] p4(3) ne3 F(3) by (simp add: c_def) blast
  define t where "t = s\<lparr>pmm_st := p5, current_page_table := page_addr a,
      pt_entries := page_addr c, entries := map (\<lambda>i. set_pte (page_addr i) 0x3) [0..<512],
      phys_mem := my_memset (page_addr c) 0 4096 (my_memset (page_addr a) 0 16 (phys_mem s))\<rparr>"
  have "vmm_init usable mm s = Some (mm', t)"
    using assms(1) p1(1,5) p2(1) p3(1) p4(1) p5(1,4)
    by (simp add: vmm_init_def fold_update_upto t_def flip: page_addr_def)
  moreover have "card {a, b, c} = 3" using b c by simp
  moreover have "free_set p5 = free_set q - {a, b, c}" using p5(3) by (auto simp: F_def)
  ultimately show thesis using p5(2) by (intro that [of t a b c]) (simp_all add: t_def)
qed

text \<open>
  \<^verbatim>\<open>vmm_init\<close> succeeds when the physical allocator starts with at least three free pages (page
  0 excluded).  The table then maps the first 2 MiB onto themselves, present and writable, and
  exactly three pages are gone: the table structure, its entries, and the second test page, which is
  allocated and never freed.
\<close>

theorem vmm_init_identity_map:
  assumes "pmm_init usable mm (pmm_st s) = Some (mm', q)" and "pmm_inv q"
    and "3 \<le> card (free_set q)" and "0 \<notin> free_set q"
  shows "\<exists>t a b c. vmm_init usable mm s = Some (mm', t) \<and> card {a, b, c} = 3
    \<and> current_page_table t = page_addr a \<and> pt_entries t = page_addr c
    \<and> free_set (pmm_st t) = free_set q - {a, b, c} \<and> vmm_inv t
    \<and> (\<forall>i < 512. get_phys_addr_from_pte (entries t ! i) = page_addr i \<and> entries t ! i AND 0xFFF = 3)"
proof -
  obtain t a b c where t: "vmm_init usable mm s = Some (mm', t)" "card {a, b, c} = 3"
      "current_page_table t = page_addr a" "pt_entries t = page_addr c" "pmm_inv (pmm_st t)"
      "free_set (pmm_st t) = free_set q - {a, b, c}"
      "entries t = map (\<lambda>i. set_pte (page_addr i) 0x3) [0..<512]"
    by (rule vmm_init_pages [OF assms])
  have "entries t ! i = set_pte (page_addr i) 3" if "i < 512" for i
    using that t(7) by simp
  then have "get_phys_addr_from_pte (entries t ! i) = page_addr i \<and> entries t ! i AND 0xFFF = 3"
    if "i < 512" for i
    using that by (simp add: set_pte_parts page_addr_aligned')
  then have "\<forall>i < 512. get_phys_addr_from_pte (entries t ! i) = page_addr i \<and> entries t ! i AND 0xFFF = 3"
    by blast
  moreover have "vmm_inv t" using t(5,7) by (simp add: vmm_inv_def)
  ultimately show ?thesis
    by (intro exI [of _ t] exI [of _ a] exI [of _ b] exI [of _ c] conjI t)
qed

definition vmm_reset :: vmm where
  "vmm_reset = \<lparr>pmm_st = pmm_reset, current_page_table = 0, pt_entries = 0, entries = [],
     kernel_heap_end = VMM_KERNEL_HEAP_START, phys_mem = (\<lambda>_. 0)\<rparr>"

theorem vmm_init_identity_map_witness:
  "\<exists>t. vmm_init 0 memmap_small vmm_reset = Some (memmap_small', t) \<and> vmm_inv t
    \<and> get_phys_addr_from_pte (entries t ! 511) = 0x1FF000"
proof -
  have f: "free_pages pmm_reset = 0" by (simp add: pmm_reset_def)
  obtain q where q: "pmm_init 0 memmap_small pmm_reset = Some (memmap_small', q)" "pmm_inv q"
      "free_set q = {1..<64}"
    using pmm_init_spec [OF memmap_small_ok f place_small _ memmap_small_disjoint]
    by (auto simp: memmap_small'_def entry_pages_def)
  have "page_addr 511 = 0x1FF000" by (simp add: page_addr_def)
  then show ?thesis
    using vmm_init_identity_map [of 0 memmap_small vmm_reset memmap_small' q] q
    by (auto simp: vmm_reset_def)
qed

end
