(* ===== verification/Heap.thy ===== *)
theory Heap
  imports Vmm
begin

text \<open>
  The two heaps, \<^verbatim>\<open>kernel/src/mem/kmalloc.c\<close> and \<^verbatim>\<open>kernel/src/mem/umalloc.c\<close>: a bump pointer with a
  first-fit list of freed blocks.  Each file's static variables are one record \<^verbatim>\<open>heap\<close>; the
  16-byte block headers (\<^verbatim>\<open>size\<close>, \<^verbatim>\<open>next\<close>) are two functions of the header's address, so that
  the free list is the linked list of the code, reached through \<^verbatim>\<open>free_list\<close> and \<^verbatim>\<open>next\<close>.
  The search loop is the same text in both files and is one definition here; so is the loop of
  \<^verbatim>\<open>expand_heap\<close> and \<^verbatim>\<open>expand_user_heap\<close>, which differ in the page flags.
  \<^const>\<open>None\<close> is a search that never ends (a cyclic list) or a fault below.

  The locale \<^verbatim>\<open>allocator\<close> is the contract the clients of a heap rely on (blocks are large enough,
  live blocks never overlap); both heaps are interpretations of it.  Shown besides: what happens when
  the bump pointer passes the heap limit, when physical memory runs out and after a double free.
\<close>

record heap =
  heap_start :: u64
  heap_end :: u64
  heap_max :: u64
  free_list :: u64
  blk_size :: "u64 \<Rightarrow> u64"
  blk_next :: "u64 \<Rightarrow> u64"

section \<open>Shared loops\<close>

text \<open>\<^verbatim>\<open>*prev = next\<close>: \<^const>\<open>None\<close> stands for \<^verbatim>\<open>&free_list\<close>, \<^term>\<open>Some b\<close> for \<^verbatim>\<open>&b->next\<close>.\<close>

definition unlink :: "u64 option \<Rightarrow> u64 \<Rightarrow> heap \<Rightarrow> heap" where
  "unlink prev nxt h =
     (case prev of None \<Rightarrow> h\<lparr>free_list := nxt\<rparr>
      | Some b \<Rightarrow> h\<lparr>blk_next := (blk_next h)(b := nxt)\<rparr>)"

partial_function (option) first_fit ::
  "u64 \<Rightarrow> u64 option \<Rightarrow> u64 \<Rightarrow> heap \<Rightarrow> (u64 option \<times> heap) option" where
  "first_fit n prev cur h =
     (if cur = 0 then Some (None, h)
      else if n \<le> blk_size h cur then Some (Some (cur + 16), unlink prev (blk_next h cur) h)
      else first_fit n (Some cur) (blk_next h cur) h)"

partial_function (option) grow_heap :: "u64 \<Rightarrow> u64 \<Rightarrow> heap \<Rightarrow> vmm \<Rightarrow> (heap \<times> vmm) option" where
  "grow_heap flags n h v =
     (if heap_max h < heap_end h + n
      then do {
        (phys, p) \<leftarrow> pmm_alloc_page (pmm_st v);
        if phys = 0 then Some (h, v\<lparr>pmm_st := p\<rparr>)
        else grow_heap flags n (h\<lparr>heap_end := heap_end h + PAGE_SIZE\<rparr>)
               (snd (vmm_map_page (heap_end h) phys flags (v\<lparr>pmm_st := p\<rparr>)))
      }
      else Some (h, v))"

section \<open>The kernel heap\<close>

definition KERNEL_HEAP_START :: u64 where "KERNEL_HEAP_START = 0xFFFF800001000000"
definition KERNEL_HEAP_INITIAL_SIZE :: u64 where "KERNEL_HEAP_INITIAL_SIZE = 0x100000"

definition align8 :: "u64 \<Rightarrow> u64" where
  "align8 n = (n + 7) AND NOT 7"

definition expand_heap :: "u64 \<Rightarrow> heap \<Rightarrow> vmm \<Rightarrow> (heap \<times> vmm) option" where
  "expand_heap n h v = grow_heap 0x3 n h v"

definition kmalloc_init :: "heap \<Rightarrow> heap" where
  "kmalloc_init h = h\<lparr>heap_start := KERNEL_HEAP_START, heap_end := KERNEL_HEAP_START,
     heap_max := KERNEL_HEAP_START + KERNEL_HEAP_INITIAL_SIZE, free_list := 0\<rparr>"

definition kmalloc :: "u64 \<Rightarrow> heap \<times> vmm \<Rightarrow> (u64 \<times> heap \<times> vmm) option" where
  "kmalloc n s =
     (case s of (h, v) \<Rightarrow>
        if n = 0 then Some (0, h, v)
        else let n = align8 n in do {
          (r, h1) \<leftarrow> first_fit n None (free_list h) h;
          case r of
            Some p \<Rightarrow> Some (p, h1, v)
          | None \<Rightarrow> do {
              (h2, v2) \<leftarrow> expand_heap (n + 16) h1 v;
              let block = heap_end h2;
              Some (block + 16, h2\<lparr>blk_size := (blk_size h2)(block := n),
                                   heap_end := heap_end h2 + (n + 16)\<rparr>, v2)
            }
        })"

definition kfree :: "u64 \<Rightarrow> heap \<times> vmm \<Rightarrow> heap \<times> vmm" where
  "kfree ptr s =
     (case s of (h, v) \<Rightarrow>
        if ptr = 0 then (h, v)
        else let block = ptr - 16
             in (h\<lparr>blk_next := (blk_next h)(block := free_list h), free_list := block\<rparr>, v))"

section \<open>The user heap\<close>

definition USER_HEAP_START :: u64 where "USER_HEAP_START = 0x00400000"
definition USER_HEAP_INITIAL_SIZE :: u64 where "USER_HEAP_INITIAL_SIZE = 0x1000000"

text \<open>\<^verbatim>\<open>umalloc.c\<close> has its own \<^verbatim>\<open>align8\<close>, with the mask \<^verbatim>\<open>-7\<close> instead of \<^verbatim>\<open>~7\<close>.\<close>

definition ualign8 :: "u64 \<Rightarrow> u64" where
  "ualign8 n = (n + 7) AND (- 7)"

definition expand_user_heap :: "u64 \<Rightarrow> heap \<Rightarrow> vmm \<Rightarrow> (heap \<times> vmm) option" where
  "expand_user_heap n h v = grow_heap 0x7 n h v"

definition umalloc_init :: "heap \<Rightarrow> heap" where
  "umalloc_init h = h\<lparr>heap_start := USER_HEAP_START, heap_end := USER_HEAP_START,
     heap_max := USER_HEAP_START + USER_HEAP_INITIAL_SIZE, free_list := 0\<rparr>"

definition umalloc :: "u64 \<Rightarrow> heap \<times> vmm \<Rightarrow> (u64 \<times> heap \<times> vmm) option" where
  "umalloc n s =
     (case s of (h, v) \<Rightarrow>
        if n = 0 then Some (0, h, v)
        else let n = ualign8 n in do {
          (r, h1) \<leftarrow> first_fit n None (free_list h) h;
          case r of
            Some p \<Rightarrow> Some (p, h1, v)
          | None \<Rightarrow> do {
              (h2, v2) \<leftarrow> expand_user_heap (n + 16) h1 v;
              let block = heap_end h2;
              Some (block + 16, h2\<lparr>blk_size := (blk_size h2)(block := n),
                                   heap_end := heap_end h2 + (n + 16)\<rparr>, v2)
            }
        })"

definition ufree :: "u64 \<Rightarrow> heap \<times> vmm \<Rightarrow> heap \<times> vmm" where
  "ufree ptr s =
     (case s of (h, v) \<Rightarrow>
        if ptr = 0 then (h, v)
        else let block = ptr - 16
             in (h\<lparr>blk_next := (blk_next h)(block := free_list h), free_list := block\<rparr>, v))"

section \<open>Rounding\<close>

lemma align8_spec:
  assumes "unat n + 7 < 2 ^ 64"
  shows "unat n \<le> unat (align8 n)" "unat (align8 n) < unat n + 8" "unat (align8 n) mod 8 = 0"
proof -
  have m: "(7 :: u64) = mask 3" by (simp add: mask_eq_exp_minus_1)
  have s: "unat (n + 7) = unat n + 7" using assms by (subst unat_plus_small) auto
  have "align8 n = push_bit 3 (drop_bit 3 (n + 7))"
    unfolding align8_def m by (rule bit_word_eqI) (auto simp: bit_simps)
  then have "unat (align8 n) = unat (n + 7) div 8 * 8 mod 2 ^ 64"
    by (simp add: push_bit_eq_mult drop_bit_eq_div unat_word_ariths unat_div mult.commute)
  then have u: "unat (align8 n) = (unat n + 7) div 8 * 8"
    using assms s by (metis div_times_less_eq_dividend le_less_trans mod_less)
  then show "unat n \<le> unat (align8 n)" "unat (align8 n) < unat n + 8" "unat (align8 n) mod 8 = 0"
    by (auto simp: algebra_simps)
qed

lemma ualign8_spec:
  assumes "unat n + 7 < 2 ^ 64"
  shows "unat n < unat (ualign8 n)" "unat (ualign8 n) \<le> unat n + 7"
proof -
  let ?x = "n + 7"
  have x: "unat ?x = unat n + 7" using assms by (subst unat_plus_small) auto
  have "(- 7 :: u64) = NOT 6" by (simp add: not_eq_complement)
  then have "ualign8 n = ?x AND NOT 6" by (simp add: ualign8_def)
  moreover have "(?x AND NOT 6) + (?x AND 6) = (?x AND NOT 6) OR (?x AND 6)"
    by (rule disjunctive_add) (auto simp: bit_simps)
  moreover have "(?x AND NOT 6) OR (?x AND 6) = ?x"
    by (rule bit_word_eqI) (auto simp: bit_simps)
  ultimately have u: "ualign8 n = ?x - (?x AND 6)" by (metis add_diff_cancel_right')
  have a6: "?x AND 6 \<le> 6" by (rule word_and_le1)
  then have 6: "unat (?x AND 6) \<le> 6" by (simp add: word_le_nat_alt)
  have "?x AND 6 \<le> ?x" by (rule word_and_le2)
  then have "unat (ualign8 n) = unat ?x - unat (?x AND 6)" unfolding u by (rule unat_sub)
  with 6 x show "unat n < unat (ualign8 n)" "unat (ualign8 n) \<le> unat n + 7" by auto
qed

section \<open>The free list\<close>

text \<open>Two heaps that differ only in the links.\<close>

definition same_blocks :: "heap \<Rightarrow> heap \<Rightarrow> bool" where
  "same_blocks h h' \<longleftrightarrow> heap_start h' = heap_start h \<and> heap_end h' = heap_end h
     \<and> heap_max h' = heap_max h \<and> blk_size h' = blk_size h"

lemma same_blocks_unlink: "same_blocks h (unlink prev nxt h)"
  by (simp add: same_blocks_def unlink_def split: option.split)

lemma first_fit_spec:
  assumes "flist (blk_next h) (free_list h) (as @ rest)" and "distinct (as @ rest)"
    and "flist (blk_next h) cur rest" and "prev = (if as = [] then None else Some (last as))"
  shows "(\<exists>xs b ys h'. rest = xs @ b # ys \<and> n \<le> blk_size h b
        \<and> first_fit n prev cur h = Some (Some (b + 16), h') \<and> same_blocks h h'
        \<and> flist (blk_next h') (free_list h') (as @ xs @ ys))
    \<or> first_fit n prev cur h = Some (None, h) \<and> (\<forall>b \<in> set rest. blk_size h b < n)"
  using assms
proof (induction rest arbitrary: as prev cur)
  case Nil
  then show ?case by (subst first_fit.simps) simp
next
  case (Cons b ys)
  then have cur: "cur = b" "b \<noteq> 0" "flist (blk_next h) (blk_next h b) ys" by auto
  show ?case
  proof (cases "n \<le> blk_size h b")
    case True
    let ?h = "unlink prev (blk_next h b) h"
    have "flist (blk_next ?h) (free_list ?h) (as @ ys)"
    proof (cases as rule: rev_cases)
      case Nil
      with Cons.prems cur show ?thesis by (simp add: unlink_def)
    next
      case (snoc as' a)
      with Cons.prems show ?thesis
        using flist_unlink [of "blk_next h" "free_list h" as' a b ys] by (simp add: unlink_def)
    qed
    moreover have "first_fit n prev cur h = Some (Some (b + 16), ?h)"
      using True cur by (subst first_fit.simps) simp
    ultimately show ?thesis using True same_blocks_unlink by (metis append_Nil)
  next
    case False
    have step: "first_fit n prev cur h = first_fit n (Some b) (blk_next h b) h"
      using False cur by (subst first_fit.simps) simp
    from Cons.IH [of "as @ [b]" "blk_next h b" "Some b"] Cons.prems cur
    consider xs c zs h' where "ys = xs @ c # zs" "n \<le> blk_size h c"
        "first_fit n (Some b) (blk_next h b) h = Some (Some (c + 16), h')" "same_blocks h h'"
        "flist (blk_next h') (free_list h') ((as @ [b]) @ xs @ zs)"
      | "first_fit n (Some b) (blk_next h b) h = Some (None, h)" "\<forall>b \<in> set ys. blk_size h b < n"
      by auto
    then show ?thesis
    proof cases
      case 1
      then have "b # ys = (b # xs) @ c # zs" "flist (blk_next h') (free_list h') (as @ (b # xs) @ zs)"
        by auto
      with 1 step show ?thesis by metis
    next
      case 2
      with False step show ?thesis by auto
    qed
  qed
qed

section \<open>The contract of a heap\<close>

text \<open>
  A client of a heap: it starts from \<^term>\<open>s0\<close> with nothing allocated, requests blocks while there is
  room and releases blocks it holds.  \<^term>\<open>live\<close> maps each pointer it holds to the size requested.
\<close>

inductive client ::
  "(u64 \<Rightarrow> 's \<Rightarrow> (u64 \<times> 's) option) \<Rightarrow> (u64 \<Rightarrow> 's \<Rightarrow> 's) \<Rightarrow> (u64 \<Rightarrow> 's \<Rightarrow> bool) \<Rightarrow> 's
     \<Rightarrow> (u64 \<rightharpoonup> u64) \<Rightarrow> 's \<Rightarrow> bool"
  for alloc release room s0 where
  start: "client alloc release room s0 Map.empty s0"
| request: "client alloc release room s0 live s \<Longrightarrow> n \<noteq> 0 \<Longrightarrow> room n s \<Longrightarrow> alloc n s = Some (p, s')
     \<Longrightarrow> client alloc release room s0 (live(p \<mapsto> n)) s'"
| giveback: "client alloc release room s0 live s \<Longrightarrow> live p = Some n
     \<Longrightarrow> client alloc release room s0 (live(p := None)) (release p s)"

locale allocator =
  fixes alloc :: "u64 \<Rightarrow> 's \<Rightarrow> (u64 \<times> 's) option"
    and release :: "u64 \<Rightarrow> 's \<Rightarrow> 's"
    and room :: "u64 \<Rightarrow> 's \<Rightarrow> bool"
    and inv :: "(u64 \<rightharpoonup> u64) \<Rightarrow> 's \<Rightarrow> bool"
  assumes alloc_block: "inv live s \<Longrightarrow> n \<noteq> 0 \<Longrightarrow> room n s \<Longrightarrow>
      \<exists>p sz s'. alloc n s = Some (p, s') \<and> live p = None \<and> n \<le> sz \<and> inv (live(p \<mapsto> sz)) s'"
    and release_block: "inv live s \<Longrightarrow> live p = Some sz \<Longrightarrow> inv (live(p := None)) (release p s)"
    and live_valid: "inv live s \<Longrightarrow> live p = Some sz \<Longrightarrow> p \<noteq> 0 \<and> unat p + unat sz < 2 ^ 64"
    and live_disjoint: "inv live s \<Longrightarrow> live p = Some m \<Longrightarrow> live q = Some k \<Longrightarrow> p \<noteq> q \<Longrightarrow>
      {unat p ..< unat p + unat m} \<inter> {unat q ..< unat q + unat k} = {}"
begin

lemma client_inv:
  assumes "client alloc release room s0 live s" and "inv Map.empty s0"
  shows "\<exists>blocks. inv blocks s \<and> dom blocks = dom live
    \<and> (\<forall>p n. live p = Some n \<longrightarrow> (\<exists>sz. blocks p = Some sz \<and> n \<le> sz))"
  using assms
proof (induction rule: client.induct)
  case start
  then show ?case by (intro exI [of _ Map.empty]) simp
next
  case (request live s n p s')
  then obtain blocks where b: "inv blocks s" "dom blocks = dom live"
      "\<forall>p n. live p = Some n \<longrightarrow> (\<exists>sz. blocks p = Some sz \<and> n \<le> sz)" by blast
  obtain sz where sz: "n \<le> sz" "inv (blocks(p \<mapsto> sz)) s'"
    using alloc_block [OF b(1) request.hyps(2,3)] request.hyps(4) by auto
  have "dom (blocks(p \<mapsto> sz)) = dom (live(p \<mapsto> n))" using b(2) by simp
  moreover have "\<forall>q m. (live(p \<mapsto> n)) q = Some m \<longrightarrow> (\<exists>sz'. (blocks(p \<mapsto> sz)) q = Some sz' \<and> m \<le> sz')"
    using b(3) sz(1) by simp
  ultimately show ?case using sz(2) by blast
next
  case (giveback live s p n)
  then obtain blocks where b: "inv blocks s" "dom blocks = dom live"
      "\<forall>p n. live p = Some n \<longrightarrow> (\<exists>sz. blocks p = Some sz \<and> n \<le> sz)" by blast
  then obtain sz where "blocks p = Some sz" using giveback.hyps(2) by blast
  then have "inv (blocks(p := None)) (release p s)" using b(1) by (intro release_block)
  moreover have "dom (blocks(p := None)) = dom (live(p := None))" using b(2) by simp
  moreover have "\<forall>q m. (live(p := None)) q = Some m \<longrightarrow> (\<exists>sz'. (blocks(p := None)) q = Some sz' \<and> m \<le> sz')"
    using b(3) by simp
  ultimately show ?case by blast
qed

lemma client_disjoint:
  assumes "client alloc release room s0 live s" and "inv Map.empty s0"
    and "live p = Some m" and "live q = Some k" and "p \<noteq> q"
  shows "{unat p ..< unat p + unat m} \<inter> {unat q ..< unat q + unat k} = {}"
proof -
  obtain blocks where "inv blocks s" and
      b: "\<forall>p n. live p = Some n \<longrightarrow> (\<exists>sz. blocks p = Some sz \<and> n \<le> sz)"
    using client_inv [OF assms(1,2)] by blast
  moreover obtain m' k' where "blocks p = Some m'" "m \<le> m'" "blocks q = Some k'" "k \<le> k'"
    using b assms(3,4) by meson
  ultimately show ?thesis
    using live_disjoint [of blocks s p m' q k'] assms(5) by (fastforce simp: word_le_nat_alt)
qed

lemma client_progress:
  assumes "client alloc release room s0 live s" and "inv Map.empty s0" and "n \<noteq> 0" and "room n s"
  shows "\<exists>p s'. alloc n s = Some (p, s') \<and> p \<noteq> 0 \<and> live p = None
    \<and> client alloc release room s0 (live(p \<mapsto> n)) s'"
proof -
  obtain blocks where b: "inv blocks s" "dom blocks = dom live"
    using client_inv [OF assms(1,2)] by blast
  then obtain p sz s' where a: "alloc n s = Some (p, s')" "blocks p = None" "inv (blocks(p \<mapsto> sz)) s'"
    using alloc_block [OF b(1) assms(3,4)] by blast
  then have "p \<noteq> 0" using live_valid [OF a(3), of p sz] by simp
  moreover have "live p = None" using a(2) b(2) by (metis domIff)
  ultimately show ?thesis using a(1) client.request [OF assms(1,3,4)] by blast
qed

end

section \<open>Both heaps implement the contract\<close>

definition region :: "heap \<Rightarrow> u64 \<Rightarrow> nat set" where
  "region h b = {unat b ..< unat b + 16 + unat (blk_size h b)}"

definition blocks_of :: "(u64 \<rightharpoonup> u64) \<Rightarrow> u64 list \<Rightarrow> u64 set" where
  "blocks_of live fl = set fl \<union> (\<lambda>p. p - 16) ` dom live"

text \<open>The heap's invariant for the live blocks and the free list: all blocks lie inside the used part
  of the heap, no two of them overlap, no block is both free and live.\<close>

definition heap_ok :: "(u64 \<rightharpoonup> u64) \<Rightarrow> u64 list \<Rightarrow> heap \<Rightarrow> bool" where
  "heap_ok live fl h \<longleftrightarrow>
     0 < unat (heap_start h) \<and> unat (heap_start h) \<le> unat (heap_end h)
   \<and> unat (heap_end h) \<le> unat (heap_max h)
   \<and> flist (blk_next h) (free_list h) fl \<and> distinct fl
   \<and> set fl \<inter> (\<lambda>p. p - 16) ` dom live = {}
   \<and> (\<forall>b \<in> blocks_of live fl. region h b \<subseteq> {unat (heap_start h) ..< unat (heap_end h)})
   \<and> (\<forall>b \<in> blocks_of live fl. \<forall>c \<in> blocks_of live fl. b \<noteq> c \<longrightarrow> region h b \<inter> region h c = {})
   \<and> (\<forall>p sz. live p = Some sz \<longrightarrow> blk_size h (p - 16) = sz)"

definition heap_inv :: "(u64 \<rightharpoonup> u64) \<Rightarrow> heap \<times> vmm \<Rightarrow> bool" where
  "heap_inv live s \<longleftrightarrow> (\<exists>fl. heap_ok live fl (fst s))"

definition heap_room :: "u64 \<Rightarrow> heap \<times> vmm \<Rightarrow> bool" where
  "heap_room n s \<longleftrightarrow> unat (heap_end (fst s)) + unat n + 23 \<le> unat (heap_max (fst s))"

lemma region_self: "unat b \<in> region h b"
  by (simp add: region_def)

lemma blocks_of_inside:
  assumes "heap_ok live fl h" and "b \<in> blocks_of live fl"
  shows "unat (heap_start h) \<le> unat b" "unat b + 16 + unat (blk_size h b) \<le> unat (heap_end h)"
proof -
  have sub: "region h b \<subseteq> {unat (heap_start h) ..< unat (heap_end h)}"
    using assms by (simp add: heap_ok_def)
  then show "unat (heap_start h) \<le> unat b" using region_self [of b h] by auto
  have "unat b + 15 + unat (blk_size h b) \<in> region h b" by (simp add: region_def)
  with sub show "unat b + 16 + unat (blk_size h b) \<le> unat (heap_end h)" by auto
qed

lemma heap_ok_take:
  assumes ok: "heap_ok live (xs @ b # ys) h" and same: "same_blocks h h'"
    and fl: "flist (blk_next h') (free_list h') (xs @ ys)"
  shows "heap_ok (live(b + 16 \<mapsto> blk_size h b)) (xs @ ys) h'" "live (b + 16) = None"
proof -
  have bl: "b \<notin> (\<lambda>p. p - 16) ` dom live" and d: "distinct (xs @ b # ys)"
    using ok by (auto simp: heap_ok_def)
  show "live (b + 16) = None"
  proof (rule ccontr)
    assume "live (b + 16) \<noteq> None"
    then have "b + 16 \<in> dom live" by auto
    then have "b + 16 - 16 \<in> (\<lambda>p. p - 16) ` dom live" by (rule imageI)
    with bl show False by simp
  qed
  have "blocks_of (live(b + 16 \<mapsto> blk_size h b)) (xs @ ys) = blocks_of live (xs @ b # ys)"
    by (auto simp: blocks_of_def)
  moreover have "region h' = region h" using same by (simp add: region_def same_blocks_def fun_eq_iff)
  moreover have "set (xs @ ys) \<inter> (\<lambda>p. p - 16) ` dom (live(b + 16 \<mapsto> blk_size h b)) = {}"
    using ok d by (auto simp: heap_ok_def)
  moreover have "\<forall>p sz. (live(b + 16 \<mapsto> blk_size h b)) p = Some sz \<longrightarrow> blk_size h (p - 16) = sz"
    using ok by (simp add: heap_ok_def)
  ultimately show "heap_ok (live(b + 16 \<mapsto> blk_size h b)) (xs @ ys) h'"
    using ok same fl d unfolding heap_ok_def same_blocks_def by simp
qed

lemma heap_ok_bump:
  assumes ok: "heap_ok live fl h" and fits: "unat (heap_end h) + 16 + unat n \<le> unat (heap_max h)"
  shows "heap_ok (live(heap_end h + 16 \<mapsto> n)) fl
      (h\<lparr>blk_size := (blk_size h)(heap_end h := n), heap_end := heap_end h + (n + 16)\<rparr>)"
    (is "heap_ok ?live fl ?h") and "live (heap_end h + 16) = None"
proof -
  let ?e = "heap_end h"
  have e: "unat (?e + (n + 16)) = unat ?e + 16 + unat n"
  proof -
    have "unat (n + 16) = unat n + 16"
      using fits unat_less_pow [of "heap_max h"] by (subst unat_plus_small) auto
    then show ?thesis using fits unat_less_pow [of "heap_max h"] by (subst unat_plus_small) auto
  qed
  have new: "b \<noteq> ?e" if "b \<in> blocks_of live fl" for b
    using blocks_of_inside [OF ok that] by auto
  show none: "live (?e + 16) = None"
  proof (rule ccontr)
    assume "live (?e + 16) \<noteq> None"
    then have "?e + 16 \<in> dom live" by auto
    then have "?e + 16 - 16 \<in> (\<lambda>p. p - 16) ` dom live" by (rule imageI)
    then have "?e \<in> blocks_of live fl" by (simp add: blocks_of_def)
    with new show False by blast
  qed
  have bo: "blocks_of ?live fl = insert ?e (blocks_of live fl)" by (auto simp: blocks_of_def)
  have ro: "region ?h b = region h b" if "b \<in> blocks_of live fl" for b
    using new [OF that] by (simp add: region_def)
  have rn: "region ?h ?e = {unat ?e ..< unat ?e + 16 + unat n}" by (simp add: region_def)
  have old: "region h b \<subseteq> {unat (heap_start h) ..< unat ?e}" if "b \<in> blocks_of live fl" for b
    using ok that by (simp add: heap_ok_def)
  have inside: "region ?h b \<subseteq> {unat (heap_start h) ..< unat ?e + 16 + unat n}"
    if "b \<in> blocks_of ?live fl" for b
    using that bo ro rn old ok by (fastforce simp: heap_ok_def)
  have disj: "region ?h b \<inter> region ?h c = {}"
    if "b \<in> blocks_of ?live fl" "c \<in> blocks_of ?live fl" "b \<noteq> c" for b c
  proof -
    have ed: "region ?h ?e \<inter> region ?h d = {}" if "d \<in> blocks_of live fl" for d
      using old [OF that] ro [OF that] rn by fastforce
    show ?thesis
    proof (cases "b = ?e \<or> c = ?e")
      case True
      then show ?thesis
        using that bo ed [of b] ed [of c] by (auto simp only: insert_iff Int_commute)
    next
      case False
      with that bo have "b \<in> blocks_of live fl" "c \<in> blocks_of live fl" by auto
      with ok that(3) ro show ?thesis by (simp add: heap_ok_def)
    qed
  qed
  have sizes: "\<forall>p sz. ?live p = Some sz \<longrightarrow> blk_size ?h (p - 16) = sz"
  proof (intro allI impI)
    fix p sz
    assume p: "?live p = Some sz"
    show "blk_size ?h (p - 16) = sz"
    proof (cases "p = ?e + 16")
      case True
      with p show ?thesis by simp
    next
      case False
      then have "p - 16 \<noteq> ?e" by (metis diff_add_cancel)
      with False p ok show ?thesis by (simp add: heap_ok_def)
    qed
  qed
  have "?e \<notin> set fl" using new by (auto simp: blocks_of_def)
  then have "set fl \<inter> (\<lambda>p. p - 16) ` dom ?live = {}" using ok by (auto simp: heap_ok_def)
  with ok inside disj sizes e fits show "heap_ok ?live fl ?h"
    unfolding heap_ok_def by simp
qed

lemma heap_ok_free:
  assumes ok: "heap_ok live fl h" and p: "live p = Some sz"
  shows "heap_ok (live(p := None)) ((p - 16) # fl)
      (h\<lparr>blk_next := (blk_next h)(p - 16 := free_list h), free_list := p - 16\<rparr>)"
    (is "heap_ok ?live ?fl ?h") and "p \<noteq> 0" and "unat p + unat sz < 2 ^ 64"
proof -
  let ?b = "p - 16"
  have im: "?b \<in> (\<lambda>p. p - 16) ` dom live" using p by blast
  then have bin: "?b \<in> blocks_of live fl" by (simp add: blocks_of_def)
  have sz: "blk_size h ?b = sz" using ok p by (simp add: heap_ok_def)
  note ins = blocks_of_inside [OF ok bin, unfolded sz]
  have b0: "?b \<noteq> 0" using ins(1) ok by (auto simp: heap_ok_def)
  have notin: "?b \<notin> set fl" using ok im by (auto simp: heap_ok_def)
  have lt: "unat ?b + 16 + unat sz < 2 ^ 64"
    using ins(2) unat_less_pow [of "heap_end h"] by simp
  then have "unat (?b + 16) = unat ?b + 16" by (subst unat_plus_small) auto
  then have up: "unat p = unat ?b + 16" by simp
  then show "p \<noteq> 0" by auto
  show "unat p + unat sz < 2 ^ 64" using up lt by simp
  have im2: "(\<lambda>p. p - 16) ` dom ?live = (\<lambda>p. p - 16) ` dom live - {?b}"
    by (auto simp: image_iff)
  then have bo: "blocks_of ?live ?fl = blocks_of live fl"
    using bin by (auto simp: blocks_of_def)
  have "set ?fl \<inter> (\<lambda>p. p - 16) ` dom ?live = {}" using ok im2 by (auto simp: heap_ok_def)
  moreover have "flist (blk_next ?h) (free_list ?h) ?fl"
    using ok notin b0 by (simp add: heap_ok_def)
  moreover have "region ?h = region h" by (simp add: region_def fun_eq_iff)
  moreover have "\<forall>q sz. ?live q = Some sz \<longrightarrow> blk_size h (q - 16) = sz" using ok by (simp add: heap_ok_def)
  ultimately show "heap_ok ?live ?fl ?h"
    using ok notin unfolding heap_ok_def bo by simp
qed

lemma grow_heap_fits:
  assumes "unat (heap_end h) + 16 + unat m \<le> unat (heap_max h)"
  shows "grow_heap f (m + 16) h v = Some (h, v)"
proof -
  have "unat (m + 16) = unat m + 16"
    using assms unat_less_pow [of "heap_max h"] by (subst unat_plus_small) auto
  then have "unat (heap_end h + (m + 16)) = unat (heap_end h) + 16 + unat m"
    using assms unat_less_pow [of "heap_max h"] by (subst unat_plus_small) auto
  then have "\<not> heap_max h < heap_end h + (m + 16)" using assms by (simp add: word_less_nat_alt)
  then show ?thesis by (subst grow_heap.simps) simp
qed

lemma fit_or_bump:
  assumes ok: "heap_ok live fl h" and fits: "unat (heap_end h) + 16 + unat m \<le> unat (heap_max h)"
  obtains (fit) p sz h' fl' where "first_fit m None (free_list h) h = Some (Some p, h')" "m \<le> sz"
      "live p = None" "heap_ok (live(p \<mapsto> sz)) fl' h'" "same_blocks h h'"
    | (bump) "first_fit m None (free_list h) h = Some (None, h)"
      "\<And>f v. grow_heap f (m + 16) h v = Some (h, v)"
proof -
  have fl: "flist (blk_next h) (free_list h) fl" "distinct fl" using ok by (auto simp: heap_ok_def)
  consider xs b ys h' where "fl = xs @ b # ys" "m \<le> blk_size h b"
      "first_fit m None (free_list h) h = Some (Some (b + 16), h')" "same_blocks h h'"
      "flist (blk_next h') (free_list h') (xs @ ys)"
    | "first_fit m None (free_list h) h = Some (None, h)"
    using first_fit_spec [of h "[]" fl "free_list h" None m] fl by auto
  then show thesis
  proof cases
    case 1
    with heap_ok_take [of live xs b ys h h'] ok show thesis by (intro fit) auto
  next
    case 2
    with grow_heap_fits [OF fits] show thesis by (intro bump)
  qed
qed

lemmas malloc_defs = kmalloc_def umalloc_def expand_heap_def expand_user_heap_def Let_def

lemma kmalloc_block:
  assumes "heap_inv live s" and "n \<noteq> 0" and "heap_room n s"
  shows "\<exists>p sz s'. kmalloc n s = Some (p, s') \<and> live p = None \<and> n \<le> sz \<and> heap_inv (live(p \<mapsto> sz)) s'"
proof -
  obtain h v where s: "s = (h, v)" by (cases s)
  obtain fl where ok: "heap_ok live fl h" using assms(1) s by (auto simp: heap_inv_def)
  have r: "unat (heap_end h) + unat n + 23 \<le> unat (heap_max h)" using assms(3) s by (simp add: heap_room_def)
  note a = align8_spec [of n]
  have n7: "unat n + 7 < 2 ^ 64" using r unat_less_pow [of "heap_max h"] by simp
  then have fits: "unat (heap_end h) + 16 + unat (align8 n) \<le> unat (heap_max h)" using r a by simp
  have le: "n \<le> align8 n" using a n7 by (simp add: word_le_nat_alt)
  show ?thesis
  proof (cases rule: fit_or_bump [OF ok fits])
    case (1 p sz h' fl')
    then have "kmalloc n s = Some (p, h', v)" using s assms(2) by (simp add: malloc_defs)
    moreover have "n \<le> sz" using le 1(2) by (rule order_trans)
    moreover have "heap_inv (live(p \<mapsto> sz)) (h', v)" using 1(4) by (auto simp: heap_inv_def)
    ultimately show ?thesis using 1(3) by blast
  next
    case 2
    with heap_ok_bump [OF ok fits] show ?thesis
      using s assms(2) le by (fastforce simp: malloc_defs heap_inv_def)
  qed
qed

text \<open>A request takes at most its size and 23 bytes from the unused part of the heap.\<close>

lemma kmalloc_end:
  assumes "heap_inv live s" and "n \<noteq> 0" and "heap_room n s" and "kmalloc n s = Some (p, s')"
  shows "unat (heap_end (fst s')) \<le> unat (heap_end (fst s)) + unat n + 23" "heap_max (fst s') = heap_max (fst s)"
proof -
  obtain h v where s: "s = (h, v)" by (cases s)
  obtain fl where ok: "heap_ok live fl h" using assms(1) s by (auto simp: heap_inv_def)
  have r: "unat (heap_end h) + unat n + 23 \<le> unat (heap_max h)" using assms(3) s by (simp add: heap_room_def)
  have "unat n + 7 < 2 ^ 64" using r unat_less_pow [of "heap_max h"] by simp
  note a = align8_spec [of n, OF this]
  have fits: "unat (heap_end h) + 16 + unat (align8 n) \<le> unat (heap_max h)" using r a by simp
  have "unat (heap_end (fst s')) \<le> unat (heap_end h) + unat n + 23 \<and> heap_max (fst s') = heap_max h"
  proof (cases rule: fit_or_bump [OF ok fits])
    case (1 q sz h' fl')
    then show ?thesis using s assms(2,4) by (auto simp: malloc_defs same_blocks_def)
  next
    case 2
    have "unat (heap_end h + (align8 n + 16)) \<le> unat (heap_end h) + (unat (align8 n) + 16)"
      using unat_word_ariths(1) [of "heap_end h"] unat_word_ariths(1) [of "align8 n" 16] by (simp add: mod_less_eq_dividend order_trans)
    then show ?thesis using 2 s assms(2,4) a by (auto simp: malloc_defs)
  qed
  then show "unat (heap_end (fst s')) \<le> unat (heap_end (fst s)) + unat n + 23" "heap_max (fst s') = heap_max (fst s)"
    using s by simp_all
qed

lemma umalloc_block:
  assumes "heap_inv live s" and "n \<noteq> 0" and "heap_room n s"
  shows "\<exists>p sz s'. umalloc n s = Some (p, s') \<and> live p = None \<and> n \<le> sz \<and> heap_inv (live(p \<mapsto> sz)) s'"
proof -
  obtain h v where s: "s = (h, v)" by (cases s)
  obtain fl where ok: "heap_ok live fl h" using assms(1) s by (auto simp: heap_inv_def)
  have r: "unat (heap_end h) + unat n + 23 \<le> unat (heap_max h)" using assms(3) s by (simp add: heap_room_def)
  note a = ualign8_spec [of n]
  have n7: "unat n + 7 < 2 ^ 64" using r unat_less_pow [of "heap_max h"] by simp
  then have fits: "unat (heap_end h) + 16 + unat (ualign8 n) \<le> unat (heap_max h)" using r a by simp
  have le: "n \<le> ualign8 n" using a n7 by (simp add: word_le_nat_alt)
  show ?thesis
  proof (cases rule: fit_or_bump [OF ok fits])
    case (1 p sz h' fl')
    then have "umalloc n s = Some (p, h', v)" using s assms(2) by (simp add: malloc_defs)
    moreover have "n \<le> sz" using le 1(2) by (rule order_trans)
    moreover have "heap_inv (live(p \<mapsto> sz)) (h', v)" using 1(4) by (auto simp: heap_inv_def)
    ultimately show ?thesis using 1(3) by blast
  next
    case 2
    with heap_ok_bump [OF ok fits] show ?thesis
      using s assms(2) le by (fastforce simp: malloc_defs heap_inv_def)
  qed
qed

lemma heap_inv_free:
  assumes "heap_inv live s" and "live p = Some sz"
  shows "heap_inv (live(p := None)) (kfree p s)" "heap_inv (live(p := None)) (ufree p s)"
    "p \<noteq> 0 \<and> unat p + unat sz < 2 ^ 64"
proof -
  obtain h v fl where s: "s = (h, v)" and ok: "heap_ok live fl h"
    using assms(1) by (cases s) (auto simp: heap_inv_def)
  note f = heap_ok_free [OF ok assms(2)]
  show "heap_inv (live(p := None)) (kfree p s)" "heap_inv (live(p := None)) (ufree p s)"
    using f s by (auto simp: kfree_def ufree_def heap_inv_def Let_def)
  show "p \<noteq> 0 \<and> unat p + unat sz < 2 ^ 64" using f by simp
qed

lemma heap_inv_disjoint:
  assumes "heap_inv live s" and "live p = Some m" and "live q = Some k" and "p \<noteq> q"
  shows "{unat p ..< unat p + unat m} \<inter> {unat q ..< unat q + unat k} = {}"
proof -
  obtain h v fl where s: "s = (h, v)" and ok: "heap_ok live fl h"
    using assms(1) by (cases s) (auto simp: heap_inv_def)
  have data: "{unat r ..< unat r + unat j} \<subseteq> region h (r - 16) \<and> r - 16 \<in> blocks_of live fl"
    if "live r = Some j" for r j
  proof -
    have b: "r - 16 \<in> blocks_of live fl" using that by (auto simp: blocks_of_def)
    have j: "blk_size h (r - 16) = j" using ok that by (simp add: heap_ok_def)
    have "unat (r - 16) + 16 < 2 ^ 64"
      using blocks_of_inside(2) [OF ok b] unat_less_pow [of "heap_end h"] by simp
    then have "unat (r - 16 + 16) = unat (r - 16) + 16" by (subst unat_plus_small) auto
    then show ?thesis using b j by (auto simp: region_def)
  qed
  have "p - 16 \<noteq> q - 16" using assms(4) by simp
  then have "region h (p - 16) \<inter> region h (q - 16) = {}"
    using ok data [OF assms(2)] data [OF assms(3)] unfolding heap_ok_def by blast
  with data [OF assms(2)] data [OF assms(3)] show ?thesis by blast
qed

interpretation kh: allocator kmalloc kfree heap_room heap_inv
  by unfold_locales (rule kmalloc_block heap_inv_free heap_inv_disjoint, assumption+)+

interpretation uh: allocator umalloc ufree heap_room heap_inv
  by unfold_locales (rule umalloc_block heap_inv_free heap_inv_disjoint, assumption+)+

lemma heap_inv_init:
  "heap_inv Map.empty (kmalloc_init h, v)" "heap_inv Map.empty (umalloc_init h, v)"
  by (auto simp: heap_inv_def heap_ok_def kmalloc_init_def umalloc_init_def KERNEL_HEAP_START_def
      KERNEL_HEAP_INITIAL_SIZE_def USER_HEAP_START_def USER_HEAP_INITIAL_SIZE_def blocks_of_def
      intro: exI [of _ "[]"])

section \<open>Properties\<close>

definition heap_zero :: heap where
  "heap_zero = \<lparr>heap_start = 0, heap_end = 0, heap_max = 0, free_list = 0, blk_size = (\<lambda>_. 0),
     blk_next = (\<lambda>_. 0)\<rparr>"

lemmas heap_consts = KERNEL_HEAP_START_def KERNEL_HEAP_INITIAL_SIZE_def USER_HEAP_START_def
  USER_HEAP_INITIAL_SIZE_def

text \<open>With an empty free list and room, a request takes the end of the used part.\<close>

lemma kmalloc_bump:
  "free_list h = 0 \<Longrightarrow> n \<noteq> 0 \<Longrightarrow> \<not> heap_max h < heap_end h + (align8 n + 16) \<Longrightarrow>
     kmalloc n (h, v) = Some (heap_end h + 16, h\<lparr>blk_size := (blk_size h)(heap_end h := align8 n),
       heap_end := heap_end h + (align8 n + 16)\<rparr>, v)"
  by (simp add: malloc_defs first_fit.simps grow_heap.simps)

lemma malloc_run:
  "kmalloc 100 (kmalloc_init heap_zero, vmm_small) =
     Some (0xFFFF800001000010, (kmalloc_init heap_zero)\<lparr>blk_size := (\<lambda>_. 0)(0xFFFF800001000000 := 104),
       heap_end := 0xFFFF800001000078\<rparr>, vmm_small)"
  "umalloc 100 (umalloc_init heap_zero, vmm_small) =
     Some (0x400010, (umalloc_init heap_zero)\<lparr>blk_size := (\<lambda>_. 0)(0x400000 := 105),
       heap_end := 0x400079\<rparr>, vmm_small)"
  by (simp_all add: malloc_defs heap_consts kmalloc_init_def umalloc_init_def heap_zero_def align8_def
      ualign8_def first_fit.simps grow_heap.simps del: fun_upd_apply)

text \<open>
  C1: A client that only releases blocks it holds never sees two live kernel heap blocks overlap, however
  its \<^verbatim>\<open>kmalloc\<close> and \<^verbatim>\<open>kfree\<close> calls interleave, and while the heap has room every request
  returns, with a non-NULL pointer that is not in use.
\<close>

theorem kmalloc_live_blocks:
  assumes "client kmalloc kfree heap_room (kmalloc_init h, v) live s"
  shows "(\<forall>p q m k. live p = Some m \<longrightarrow> live q = Some k \<longrightarrow> p \<noteq> q \<longrightarrow>
       {unat p ..< unat p + unat m} \<inter> {unat q ..< unat q + unat k} = {})
    \<and> (\<forall>n. n \<noteq> 0 \<longrightarrow> heap_room n s \<longrightarrow> (\<exists>p s'. kmalloc n s = Some (p, s') \<and> p \<noteq> 0 \<and> live p = None))"
  using kh.client_disjoint [OF assms heap_inv_init(1)] kh.client_progress [OF assms heap_inv_init(1)]
  by blast

theorem kmalloc_live_blocks_witness:
  "\<exists>live s p s'. client kmalloc kfree heap_room (kmalloc_init heap_zero, vmm_small) live s
     \<and> live 0xFFFF800001000010 = Some 100 \<and> kmalloc 24 s = Some (p, s') \<and> p \<noteq> 0 \<and> live p = None"
proof -
  let ?s = "((kmalloc_init heap_zero)\<lparr>blk_size := (\<lambda>_. 0)(0xFFFF800001000000 := 104),
       heap_end := 0xFFFF800001000078\<rparr>, vmm_small)"
  have c: "client kmalloc kfree heap_room (kmalloc_init heap_zero, vmm_small)
      (Map.empty(0xFFFF800001000010 \<mapsto> 100)) ?s"
    by (rule client.request [where live = Map.empty, OF client.start])
       (use malloc_run(1) in \<open>simp_all add: heap_room_def kmalloc_init_def heap_consts\<close>)
  moreover have "(24 :: u64) \<noteq> 0" by simp
  moreover have "heap_room 24 ?s" by (simp add: heap_room_def kmalloc_init_def heap_consts)
  ultimately obtain p s' where "kmalloc 24 ?s = Some (p, s')" "p \<noteq> 0"
      "(Map.empty(0xFFFF800001000010 \<mapsto> 100)) p = (None :: u64 option)"
    using kmalloc_live_blocks [OF c] by blast
  moreover have "(Map.empty(0xFFFF800001000010 \<mapsto> 100 :: u64)) 0xFFFF800001000010 = Some 100" by (simp only: fun_upd_same)
  ultimately show ?thesis using c by blast
qed

text \<open>
  The same for the user heap: live blocks of \<^verbatim>\<open>umalloc\<close> never overlap and requests succeed while
  there is room.
\<close>

theorem umalloc_live_blocks:
  assumes "client umalloc ufree heap_room (umalloc_init h, v) live s"
  shows "(\<forall>p q m k. live p = Some m \<longrightarrow> live q = Some k \<longrightarrow> p \<noteq> q \<longrightarrow>
       {unat p ..< unat p + unat m} \<inter> {unat q ..< unat q + unat k} = {})
    \<and> (\<forall>n. n \<noteq> 0 \<longrightarrow> heap_room n s \<longrightarrow> (\<exists>p s'. umalloc n s = Some (p, s') \<and> p \<noteq> 0 \<and> live p = None))"
  using uh.client_disjoint [OF assms heap_inv_init(2)] uh.client_progress [OF assms heap_inv_init(2)]
  by blast

theorem umalloc_live_blocks_witness:
  "\<exists>live s p s'. client umalloc ufree heap_room (umalloc_init heap_zero, vmm_small) live s
     \<and> live 0x400010 = Some 100 \<and> umalloc 24 s = Some (p, s') \<and> p \<noteq> 0 \<and> live p = None"
proof -
  let ?s = "((umalloc_init heap_zero)\<lparr>blk_size := (\<lambda>_. 0)(0x400000 := 105), heap_end := 0x400079\<rparr>,
    vmm_small)"
  have c: "client umalloc ufree heap_room (umalloc_init heap_zero, vmm_small)
      (Map.empty(0x400010 \<mapsto> 100)) ?s"
    by (rule client.request [where live = Map.empty, OF client.start])
       (use malloc_run(2) in \<open>simp_all add: heap_room_def umalloc_init_def heap_consts\<close>)
  moreover have "(24 :: u64) \<noteq> 0" by simp
  moreover have "heap_room 24 ?s" by (simp add: heap_room_def umalloc_init_def heap_consts)
  ultimately obtain p s' where "umalloc 24 ?s = Some (p, s')" "p \<noteq> 0"
      "(Map.empty(0x400010 \<mapsto> 100)) p = (None :: u64 option)"
    using umalloc_live_blocks [OF c] by blast
  moreover have "(Map.empty(0x400010 \<mapsto> 100 :: u64)) 0x400010 = Some 100" by (simp only: fun_upd_same)
  ultimately show ?thesis using c by blast
qed

lemma ualign8_odd: "even (unat n) \<Longrightarrow> odd (unat (ualign8 n))"
proof -
  have iff: "odd (unat w) \<longleftrightarrow> bit w 0" for w :: u64
  proof -
    have "unat w mod 2 = unat (w mod 2)" by (simp add: unat_mod)
    moreover have "w mod 2 = of_bool (bit w 0)" by (simp add: bit_0 mod_2_eq_odd)
    ultimately show ?thesis by (cases "bit w 0") (auto simp: odd_iff_mod_2_eq_one)
  qed
  assume "even (unat n)"
  then have "even n" using iff by (simp add: bit_0)
  then have "bit (n + 7) 0" by (simp add: bit_0)
  moreover have "bit (- 7 :: u64) 0" by (simp add: bit_0)
  ultimately have "bit (ualign8 n) 0" by (simp add: ualign8_def bit_and_iff)
  then show ?thesis using iff by blast
qed

text \<open>
  The two rounding functions named \<^verbatim>\<open>align8\<close> differ.  The kernel heap's yields the least multiple of
  8 that is at least the request.  The user heap's masks with \<^verbatim>\<open>-7\<close>: an even request is
  rounded to an odd size, so with an empty free list the second block handed out is misaligned.
\<close>

theorem align8_kernel_vs_user:
  assumes "unat n + 7 < 2 ^ 64"
  shows "unat n \<le> unat (align8 n) \<and> unat (align8 n) < unat n + 8 \<and> unat (align8 n) mod 8 = 0
    \<and> (even (unat n) \<longrightarrow> odd (unat (ualign8 n)))"
  using align8_spec [OF assms] ualign8_odd by blast

theorem align8_kernel_vs_user_witness:
  "unat (100 :: u64) + 7 < 2 ^ 64 \<and> unat (align8 100) mod 8 = 0 \<and> odd (unat (ualign8 100))"
  using align8_kernel_vs_user [of 100] by simp

lemma grow_heap_drains:
  assumes "card (free_set (pmm_st v)) = k" and "vmm_inv v" and "0 \<notin> free_set (pmm_st v)"
    and "0x200000 \<le> unat (heap_end h)" and "unat (heap_end h) + unat n + k * 4096 < 2 ^ 64"
    and "heap_max h < heap_end h + n"
  shows "\<exists>v'. grow_heap f n h v = Some (h\<lparr>heap_end := heap_end h + of_nat k * 4096\<rparr>, v')
    \<and> free_set (pmm_st v') = {} \<and> entries v' = entries v"
  using assms
proof (induction k arbitrary: h v)
  case 0
  then have "pmm_alloc_page (pmm_st v) = Some (0, pmm_st v)" by (intro pmm_alloc_page_full) auto
  moreover have "free_set (pmm_st v) = {}" using 0 by simp
  ultimately show ?case using 0 by (subst grow_heap.simps) simp
next
  case (Suc k)
  then have pi: "pmm_inv (pmm_st v)" and ne: "free_set (pmm_st v) \<noteq> {}" by (auto simp: vmm_inv_def)
  obtain p where p: "pmm_alloc_page (pmm_st v) = Some (page_addr (Min (free_set (pmm_st v))), p)"
      "pmm_inv p" "free_set p = free_set (pmm_st v) - {Min (free_set (pmm_st v))}"
    using pmm_alloc_Some [OF pi ne Suc.prems(3)] by blast
  let ?h = "h\<lparr>heap_end := heap_end h + 4096\<rparr>" and ?v = "v\<lparr>pmm_st := p\<rparr>"
  have mem: "Min (free_set (pmm_st v)) \<in> free_set (pmm_st v)" using ne by simp
  then have "Min (free_set (pmm_st v)) \<noteq> 0" using Suc.prems(3) by metis
  moreover have "Min (free_set (pmm_st v)) < 2 ^ 52"
    using free_set_less [OF mem] pi by (auto simp: pmm_inv_def)
  ultimately have nz: "page_addr (Min (free_set (pmm_st v))) \<noteq> 0" by (simp add: page_addr_eq_0_iff)
  have "512 \<le> unat (heap_end h div PAGE_SIZE)" using Suc.prems(4) by (simp add: unat_div)
  then have map: "snd (vmm_map_page (heap_end h) a f w) = w" for a w
    by (simp add: vmm_map_page_beyond)
  have e: "unat (heap_end ?h) = unat (heap_end h) + 4096"
    using Suc.prems(5) by (simp, subst unat_plus_small) auto
  have a: "unat (heap_end h + n) = unat (heap_end h) + unat n"
    using Suc.prems(5) by (subst unat_plus_small) auto
  have "unat (heap_end ?h + n) = unat (heap_end h) + 4096 + unat n"
    using Suc.prems(5) e by (subst unat_plus_small) auto
  then have over: "heap_max ?h < heap_end ?h + n"
    using Suc.prems(6) a by (simp add: word_less_nat_alt)
  have "card (free_set (pmm_st ?v)) = k" using Suc.prems(1) mem p(3) by simp
  from Suc.IH [OF this, of ?h] obtain v' where
      "grow_heap f n ?h ?v = Some (?h\<lparr>heap_end := heap_end ?h + of_nat k * 4096\<rparr>, v')"
      "free_set (pmm_st v') = {}" "entries v' = entries v"
    using Suc.prems p e over by (auto simp: vmm_inv_def)
  moreover have "grow_heap f n h v = grow_heap f n ?h ?v"
    using Suc.prems(6) p(1) nz map by (subst grow_heap.simps) simp
  ultimately show ?case by (simp add: algebra_simps)
qed

text \<open>
  C38: When a request passes the heap limit, \<^verbatim>\<open>expand_heap\<close> never makes room: the loop raises
  \<^verbatim>\<open>heap_end\<close> and compares it with the unchanged \<^verbatim>\<open>heap_max\<close>, so it takes every free
  physical page, maps none of them (the table has 512 entries), and \<^verbatim>\<open>kmalloc\<close> still returns a
  non-NULL pointer, beyond the limit.
\<close>

theorem kmalloc_past_limit:
  assumes "vmm_inv v" and "0 \<notin> free_set (pmm_st v)" and "free_list h = 0"
    and "0x200000 \<le> unat (heap_end h)" and "n \<noteq> 0"
    and "unat (heap_end h) + unat n + 24 + card (free_set (pmm_st v)) * 4096 < 2 ^ 64"
    and "unat (heap_max h) < unat (heap_end h) + 16 + unat (align8 n)"
  shows "\<exists>p h' v'. kmalloc n (h, v) = Some (p, h', v') \<and> p \<noteq> 0
    \<and> unat (heap_max h) < unat p + unat (align8 n) \<and> heap_max h' = heap_max h
    \<and> free_set (pmm_st v') = {} \<and> entries v' = entries v"
proof -
  let ?m = "align8 n" and ?k = "card (free_set (pmm_st v))"
  have a: "unat ?m < unat n + 8" using assms(6) by (intro align8_spec) auto
  have m16: "unat (?m + 16) = unat ?m + 16" using a assms(6) by (subst unat_plus_small) auto
  then have "unat (heap_end h + (?m + 16)) = unat (heap_end h) + unat ?m + 16"
    using a assms(6) by (subst unat_plus_small) auto
  then have "heap_max h < heap_end h + (?m + 16)" using assms(7) by (simp add: word_less_nat_alt)
  then obtain v' where g: "grow_heap 3 (?m + 16) h v = Some (h\<lparr>heap_end := heap_end h + of_nat ?k * 4096\<rparr>, v')"
      "free_set (pmm_st v') = {}" "entries v' = entries v"
    using grow_heap_drains [OF refl assms(1,2,4), of "?m + 16" 3] a m16 assms(6) by auto
  let ?e = "heap_end h + of_nat ?k * 4096"
  have "unat (of_nat ?k * 4096 :: u64) = ?k * 4096"
    using assms(6) unat_of_nat_small [where 'a = 64, of "?k * 4096"] by simp
  then have "unat ?e = unat (heap_end h) + ?k * 4096"
    using assms(6) by (subst unat_plus_small) auto
  then have e: "unat (?e + 16) = unat (heap_end h) + ?k * 4096 + 16"
    using assms(6) by (subst unat_plus_small) auto
  then have "?e + 16 \<noteq> 0" by (metis add_is_0 unat_0 zero_neq_numeral)
  moreover have "first_fit ?m None 0 h = Some (None, h)" by (subst first_fit.simps) simp
  ultimately show ?thesis
    using g e assms(3,5,7) by (simp add: malloc_defs)
qed

definition heap_full :: heap where
  "heap_full = heap_zero\<lparr>heap_end := 0xFFFF8000010FFFF0, heap_max := 0xFFFF800001100000\<rparr>"

theorem kmalloc_past_limit_witness:
  "\<exists>p h' v'. kmalloc 64 (heap_full, vmm_small) = Some (p, h', v') \<and> p \<noteq> 0 \<and> free_set (pmm_st v') = {}"
proof -
  have f: "free_set (pmm_st vmm_small) = {1, 2}" by (simp add: vmm_small_def free_set_small)
  then show ?thesis
    using kmalloc_past_limit [OF vmm_inv_small, of heap_full 64]
    by (simp add: heap_full_def heap_zero_def align8_def) blast
qed

lemma first_fit_cycle:
  assumes "blk_next h b = b" and "b \<noteq> 0" and "blk_size h b < n"
  shows "first_fit n prev b h = None"
proof -
  have "m = n \<longrightarrow> c = b \<longrightarrow> g = h \<longrightarrow> False" if "first_fit m pr c g = Some r" for m pr c g r
    using that
  proof (rule first_fit.raw_induct [rotated])
    fix f :: "u64 \<Rightarrow> u64 option \<Rightarrow> u64 \<Rightarrow> heap \<Rightarrow> (u64 option \<times> heap) option" and m pr c g r
    assume ih: "\<And>m pr c g r. f m pr c g = Some r \<Longrightarrow> m = n \<longrightarrow> c = b \<longrightarrow> g = h \<longrightarrow> False"
      and res: "(if c = 0 then Some (None, g)
            else if m \<le> blk_size g c then Some (Some (c + 16), unlink pr (blk_next g c) g)
            else f m (Some c) (blk_next g c) g) = Some r"
    show "m = n \<longrightarrow> c = b \<longrightarrow> g = h \<longrightarrow> False"
      using res ih [of n "Some b" b h r] assms by (auto simp: not_le [symmetric] split: if_splits)
  qed
  then show ?thesis by (metis not_None_eq)
qed

text \<open>
  After a double \<^verbatim>\<open>kfree\<close> the free list is a cycle: the next request larger than the doubly freed
  block never returns, in either heap.
\<close>

theorem double_free_hangs:
  assumes "p \<noteq> 0" and "p \<noteq> 16" and "n \<noteq> 0"
  shows "(blk_size (fst s) (p - 16) < align8 n \<longrightarrow> kmalloc n (kfree p (kfree p s)) = None)
    \<and> (blk_size (fst s) (p - 16) < ualign8 n \<longrightarrow> umalloc n (ufree p (ufree p s)) = None)"
proof -
  obtain h v where s: "s = (h, v)" by (cases s)
  let ?b = "p - 16"
  define g where "g = h\<lparr>blk_next := (blk_next h)(?b := ?b), free_list := ?b\<rparr>"
  have "kfree p (kfree p s) = (g, v)" "ufree p (ufree p s) = (g, v)"
    using assms(1) s by (simp_all add: kfree_def ufree_def g_def Let_def)
  moreover have "first_fit m None (free_list g) g = None" if "blk_size h ?b < m" for m
    using first_fit_cycle [of g ?b m] that assms(2) by (simp add: g_def)
  ultimately show ?thesis using s assms(3) by (simp add: malloc_defs)
qed

theorem double_free_hangs_witness:
  "kmalloc 8 (kfree 0x1010 (kfree 0x1010 (heap_zero, vmm_small))) = None"
  using double_free_hangs [of "0x1010" 8 "(heap_zero, vmm_small)"]
  by (simp add: heap_zero_def align8_def)

end
