(* ===== verification/Threads.thy ===== *)
theory Threads
  imports Heap
begin

text \<open>
  The cooperative threads of \<^verbatim>\<open>cpu/thread.c\<close> and the context switch of \<^verbatim>\<open>cpu/switch_context.asm\<close>.  The record
  \<^verbatim>\<open>threads\<close> holds the file's globals, the thread objects by their address, the kernel heap they are allocated
  from, the stack words and the two registers a switch changes.  A thread's own code is an arbitrary change of the
  stack words it owns, so that the relation \<^verbatim>\<open>kstep\<close> interleaves creating threads, yielding and running.

  Shown: one invariant of every reachable state (each thread is found under its id, at most the current one is
  running, stacks are disjoint live heap blocks), a thread that yields continues with its own stack pointer at its own
  return address whatever the others did meanwhile, and the scheduler is not the round robin its comment promises:
  threads 0 and 1 alternate and every other thread starves.
\<close>

section \<open>Threads\<close>

datatype thread_state_t = THREAD_RUNNING | THREAD_READY | THREAD_BLOCKED | THREAD_TERMINATED

record thread_t =
  stack :: u64
  rsp :: u64
  t_state :: thread_state_t
  id :: u64
  entry_point :: u64

record threads =
  thr :: "u64 \<Rightarrow> thread_t"
  thread_list :: "u64 list"
  current_thread_id :: int
  next_thread_id :: int
  heap_st :: "heap \<times> vmm"
  stack_word :: "u64 \<Rightarrow> u64"
  cpu_rsp :: u64
  cpu_rip :: u64

definition MAX_THREADS :: nat where "MAX_THREADS = 16"

definition thread_init :: "threads \<Rightarrow> threads" where
  "thread_init s = s\<lparr>thread_list := replicate MAX_THREADS 0\<rparr>"

definition upd_thr :: "u64 \<Rightarrow> (thread_t \<Rightarrow> thread_t) \<Rightarrow> threads \<Rightarrow> threads" where
  "upd_thr p f s = s\<lparr>thr := (thr s)(p := f (thr s p))\<rparr>"

text \<open>\<^verbatim>\<open>sizeof(thread_t)\<close> is 40; \<^const>\<open>None\<close> means that \<^verbatim>\<open>kmalloc\<close> does not return.\<close>

definition thread_create :: "u64 \<Rightarrow> threads \<Rightarrow> threads option" where
  "thread_create entry s =
     (if int MAX_THREADS \<le> next_thread_id s then Some s
      else do {
        (t, hs) \<leftarrow> kmalloc 40 (heap_st s);
        let s = s\<lparr>heap_st := hs\<rparr>;
        if t = 0 then Some s
        else do {
          let i = next_thread_id s;
          let s = upd_thr t (\<lambda>x. x\<lparr>id := of_int i, t_state := THREAD_READY, entry_point := entry\<rparr>)
                    (s\<lparr>next_thread_id := i + 1\<rparr>);
          (stk, hs) \<leftarrow> kmalloc 8192 (heap_st s);
          let s = upd_thr t (\<lambda>x. x\<lparr>stack := stk\<rparr>) (s\<lparr>heap_st := hs\<rparr>);
          if stk = 0 then Some (s\<lparr>heap_st := kfree t (heap_st s)\<rparr>)
          else do {
            let sp = stk + 8192 - 8;
            let s = upd_thr t (\<lambda>x. x\<lparr>rsp := sp\<rparr>) (s\<lparr>stack_word := (stack_word s)(sp := entry)\<rparr>);
            Some (s\<lparr>thread_list := (thread_list s)[nat i := t]\<rparr>)
          }
        }
      })"

section \<open>Switching\<close>

text \<open>
  The call of \<^verbatim>\<open>switch_context\<close> pushes its return address; the routine stores the stack pointer in the slot it is
  given (a thread's \<^verbatim>\<open>rsp\<close>, or a dummy), loads the new one and returns to the address found there.
\<close>

definition push_return :: "u64 \<Rightarrow> threads \<Rightarrow> threads" where
  "push_return ret s = s\<lparr>cpu_rsp := cpu_rsp s - 8, stack_word := (stack_word s)(cpu_rsp s - 8 := ret)\<rparr>"

definition switch_context :: "u64 option \<Rightarrow> u64 \<Rightarrow> threads \<Rightarrow> threads" where
  "switch_context old_rsp new_rsp s =
     (let s = (case old_rsp of Some p \<Rightarrow> upd_thr p (\<lambda>x. x\<lparr>rsp := cpu_rsp s\<rparr>) s | None \<Rightarrow> s);
          s = s\<lparr>cpu_rsp := new_rsp\<rparr>
      in s\<lparr>cpu_rip := stack_word s (cpu_rsp s), cpu_rsp := cpu_rsp s + 8\<rparr>)"

definition is_ready :: "threads \<Rightarrow> nat \<Rightarrow> bool" where
  "is_ready s i \<longleftrightarrow> thread_list s ! i \<noteq> 0 \<and> t_state (thr s (thread_list s ! i)) = THREAD_READY"

definition scheduler :: "u64 \<Rightarrow> threads \<Rightarrow> threads" where
  "scheduler ret s =
     (case find (is_ready s) [0..<MAX_THREADS] of
        None \<Rightarrow> s
      | Some i \<Rightarrow>
          if current_thread_id s = int i then s
          else
            let old = (if 0 \<le> current_thread_id s then thread_list s ! nat (current_thread_id s) else 0);
                new = thread_list s ! i;
                s = upd_thr new (\<lambda>x. x\<lparr>t_state := THREAD_RUNNING\<rparr>) s;
                s = s\<lparr>current_thread_id := int i\<rparr>
            in if old \<noteq> 0
               then let s = upd_thr old (\<lambda>x. x\<lparr>t_state := THREAD_READY\<rparr>) s
                    in switch_context (Some old) (rsp (thr s new)) (push_return ret s)
               else switch_context None (rsp (thr s new)) (push_return ret s))"

definition thread_yield :: "u64 \<Rightarrow> threads \<Rightarrow> threads" where
  "thread_yield ret s = scheduler ret s"

section \<open>Running threads\<close>

definition on_stack :: "thread_t \<Rightarrow> u64 \<Rightarrow> bool" where
  "on_stack t a \<longleftrightarrow> unat (stack t) \<le> unat a \<and> unat a + 8 \<le> unat (stack t) + 8192"

abbreviation nth_thread :: "threads \<Rightarrow> nat \<Rightarrow> thread_t" where
  "nth_thread s i \<equiv> thr s (thread_list s ! i)"

text \<open>The stack words the running code may change: those of the current thread, and before the first switch those
  outside all thread stacks.\<close>

definition may_write :: "threads \<Rightarrow> u64 \<Rightarrow> bool" where
  "may_write s a \<longleftrightarrow>
     (if 0 \<le> current_thread_id s then on_stack (nth_thread s (nat (current_thread_id s))) a
      else \<forall>i<MAX_THREADS. thread_list s ! i \<noteq> 0 \<longrightarrow> \<not> on_stack (nth_thread s i) a)"

definition room_for_thread :: "threads \<Rightarrow> bool" where
  "room_for_thread s \<longleftrightarrow> heap_room 40 (heap_st s)
     \<and> (case kmalloc 40 (heap_st s) of Some (p, hs) \<Rightarrow> heap_room 8192 hs | None \<Rightarrow> False)"

inductive kstep :: "threads \<Rightarrow> threads \<Rightarrow> bool" where
  create: "room_for_thread s \<Longrightarrow> thread_create entry s = Some s' \<Longrightarrow> kstep s s'"
| yield: "may_write s (cpu_rsp s - 8) \<Longrightarrow> kstep s (thread_yield ret s)"
| work: "\<forall>a. m a \<noteq> stack_word s a \<longrightarrow> may_write s a \<Longrightarrow>
    kstep s (s\<lparr>stack_word := m, cpu_rsp := sp, cpu_rip := ip\<rparr>)"

inductive_cases kstep_cases: "kstep s s'"

text \<open>Where a thread that is not running continues: the stack pointer and the address.\<close>

definition resume_of :: "threads \<Rightarrow> nat \<Rightarrow> u64 \<times> u64" where
  "resume_of s i = (rsp (nth_thread s i) + 8, stack_word s (rsp (nth_thread s i)))"

definition thread_ok :: "(u64 \<rightharpoonup> u64) \<Rightarrow> threads \<Rightarrow> nat \<Rightarrow> bool" where
  "thread_ok live s i \<longleftrightarrow>
     int i < next_thread_id s \<and> live (thread_list s ! i) \<noteq> None
   \<and> (\<exists>sz. live (stack (nth_thread s i)) = Some sz \<and> 8192 \<le> unat sz)
   \<and> id (nth_thread s i) = of_nat i
   \<and> t_state (nth_thread s i) = (if current_thread_id s = int i then THREAD_RUNNING else THREAD_READY)
   \<and> (current_thread_id s \<noteq> int i \<longrightarrow> on_stack (nth_thread s i) (rsp (nth_thread s i)))"

definition threads_inv :: "(u64 \<rightharpoonup> u64) \<Rightarrow> threads \<Rightarrow> bool" where
  "threads_inv live s \<longleftrightarrow>
     heap_inv live (heap_st s) \<and> length (thread_list s) = MAX_THREADS
   \<and> 0 \<le> next_thread_id s \<and> - 1 \<le> current_thread_id s \<and> current_thread_id s < int MAX_THREADS
   \<and> (0 \<le> current_thread_id s \<longrightarrow> thread_list s ! nat (current_thread_id s) \<noteq> 0)
   \<and> (\<forall>i<MAX_THREADS. thread_list s ! i \<noteq> 0 \<longrightarrow> thread_ok live s i)
   \<and> (\<forall>i<MAX_THREADS. \<forall>j<MAX_THREADS. i \<noteq> j \<longrightarrow> thread_list s ! i \<noteq> 0 \<longrightarrow> thread_list s ! j \<noteq> 0 \<longrightarrow>
        thread_list s ! i \<noteq> thread_list s ! j \<and> stack (nth_thread s i) \<noteq> stack (nth_thread s j))"

section \<open>The invariant\<close>

lemmas thread_defs = thread_create_def upd_thr_def push_return_def switch_context_def scheduler_def thread_yield_def

lemma live_stacks_apart:
  assumes "heap_inv live hs" "live p = Some m" "live q = Some k" "8192 \<le> unat m" "8192 \<le> unat k" "p \<noteq> q"
    and "unat p \<le> unat a" "unat a + 8 \<le> unat p + 8192" and "unat q \<le> unat a" "unat a + 8 \<le> unat q + 8192"
  shows False
proof -
  have "unat a \<in> {unat p ..< unat p + unat m} \<inter> {unat q ..< unat q + unat k}" using assms(4,5,7-10) by simp
  then show False using kh.live_disjoint [OF assms(1-3,6)] by blast
qed

lemma stacks_apart:
  assumes "threads_inv live s" and "i < MAX_THREADS" "j < MAX_THREADS" "i \<noteq> j"
    and "thread_list s ! i \<noteq> 0" "thread_list s ! j \<noteq> 0" and "on_stack (nth_thread s i) a"
  shows "\<not> on_stack (nth_thread s j) a"
proof
  assume j: "on_stack (nth_thread s j) a"
  have "thread_ok live s i" "thread_ok live s j" and ne: "stack (nth_thread s i) \<noteq> stack (nth_thread s j)"
    and h: "heap_inv live (heap_st s)"
    using assms by (auto simp: threads_inv_def)
  then obtain m k where "live (stack (nth_thread s i)) = Some m" "8192 \<le> unat m"
      "live (stack (nth_thread s j)) = Some k" "8192 \<le> unat k"
    unfolding thread_ok_def by blast
  then show False using live_stacks_apart [OF h] ne j assms(7) unfolding on_stack_def by blast
qed

lemma may_write_apart:
  assumes "threads_inv live s" and "may_write s a" and "i < MAX_THREADS" and "thread_list s ! i \<noteq> 0"
    and "current_thread_id s \<noteq> int i"
  shows "\<not> on_stack (nth_thread s i) a"
proof (cases "0 \<le> current_thread_id s")
  case True
  then have "nat (current_thread_id s) < MAX_THREADS" "thread_list s ! nat (current_thread_id s) \<noteq> 0"
      "nat (current_thread_id s) \<noteq> i" using assms by (auto simp: threads_inv_def)
  then show ?thesis using stacks_apart [OF assms(1), of "nat (current_thread_id s)" i a] assms True
    by (auto simp: may_write_def)
qed (use assms in \<open>simp add: may_write_def\<close>)

lemma kmalloc_fresh:
  assumes "heap_inv live hs" "n \<noteq> 0" "heap_room n hs"
  obtains p sz hs' where "kmalloc n hs = Some (p, hs')" "p \<noteq> 0" "live p = None" "n \<le> sz" "heap_inv (live(p \<mapsto> sz)) hs'"
  using kh.alloc_block [OF assms] kh.live_valid by (metis fun_upd_same)

text \<open>The outcome of a successful creation: two fresh heap blocks become the thread object and its stack.\<close>

definition fresh_blocks :: "(u64 \<rightharpoonup> u64) \<Rightarrow> u64 \<Rightarrow> u64 \<Rightarrow> u64 \<Rightarrow> u64 \<Rightarrow> heap \<times> vmm \<Rightarrow> bool" where
  "fresh_blocks live t m stk k hs \<longleftrightarrow> t \<noteq> 0 \<and> stk \<noteq> 0 \<and> live t = None \<and> live stk = None \<and> t \<noteq> stk
     \<and> 8192 \<le> unat k \<and> unat stk + 8192 < 2 ^ 64 \<and> heap_inv (live(t \<mapsto> m, stk \<mapsto> k)) hs"

definition with_thread :: "u64 \<Rightarrow> u64 \<Rightarrow> u64 \<Rightarrow> heap \<times> vmm \<Rightarrow> threads \<Rightarrow> threads" where
  "with_thread entry t stk hs s =
     s\<lparr>thr := (thr s)(t := \<lparr>stack = stk, rsp = stk + 8184, t_state = THREAD_READY,
              id = of_int (next_thread_id s), entry_point = entry\<rparr>),
       thread_list := (thread_list s)[nat (next_thread_id s) := t], next_thread_id := next_thread_id s + 1,
       heap_st := hs, stack_word := (stack_word s)(stk + 8184 := entry)\<rparr>"

lemma create_made:
  assumes inv: "threads_inv live s" and room: "room_for_thread s" and run: "thread_create entry s = Some s'"
    and few: "next_thread_id s < int MAX_THREADS"
  obtains t stk m k hs where "fresh_blocks live t m stk k hs" "s' = with_thread entry t stk hs s"
proof -
  obtain t m hs where t: "kmalloc 40 (heap_st s) = Some (t, hs)" "t \<noteq> 0" "live t = None" "heap_inv (live(t \<mapsto> m)) hs"
  proof (rule kmalloc_fresh)
    show "heap_inv live (heap_st s)" "heap_room 40 (heap_st s)" "(40 :: u64) \<noteq> 0"
      using inv room by (simp_all add: threads_inv_def room_for_thread_def)
  qed
  then have r: "heap_room 8192 hs" using room by (simp add: room_for_thread_def)
  obtain stk k hs' where k: "kmalloc 8192 hs = Some (stk, hs')" "stk \<noteq> 0" "(live(t \<mapsto> m)) stk = None" "8192 \<le> k"
      "heap_inv (live(t \<mapsto> m, stk \<mapsto> k)) hs'"
    by (rule kmalloc_fresh [OF t(4) _ r]) auto
  have k': "8192 \<le> unat k" using k(4) by (simp add: word_le_nat_alt)
  have "unat stk + unat k < 2 ^ 64" using kh.live_valid [OF k(5), of stk k] by simp
  then have "fresh_blocks live t m stk k hs'" using t k k' by (auto simp: fresh_blocks_def split: if_splits)
  moreover have "s' = with_thread entry t stk hs' s"
    using t(1,2) k(1,2) run few
    by (cases "thr s t") (auto simp: thread_create_def upd_thr_def with_thread_def Let_def add.commute split: if_splits)
  ultimately show thesis using that by blast
qed

lemma free_slot:
  assumes "threads_inv live s" and "next_thread_id s < int MAX_THREADS"
  shows "thread_list s ! nat (next_thread_id s) = 0" "nat (next_thread_id s) < MAX_THREADS"
    "int (nat (next_thread_id s)) = next_thread_id s" "current_thread_id s \<noteq> next_thread_id s"
proof -
  let ?n = "nat (next_thread_id s)"
  show n: "?n < MAX_THREADS" "int ?n = next_thread_id s" using assms by (auto simp: threads_inv_def)
  have "thread_list s ! ?n \<noteq> 0 \<longrightarrow> thread_ok live s ?n" using assms(1) n(1) by (simp add: threads_inv_def)
  then show z: "thread_list s ! ?n = 0" using n(2) by (auto simp: thread_ok_def)
  show "current_thread_id s \<noteq> next_thread_id s" using assms(1) z n(2) by (metis threads_inv_def of_nat_0_le_iff)
qed

lemma with_thread_old:
  assumes inv: "threads_inv live s" and few: "next_thread_id s < int MAX_THREADS"
    and fresh: "fresh_blocks live t m stk k hs" and i: "i < MAX_THREADS" "thread_list s ! i \<noteq> 0"
    and s': "s' = with_thread entry t stk hs s"
  shows "thread_list s' ! i = thread_list s ! i" "nth_thread s' i = nth_thread s i"
    "thread_list s ! i \<noteq> t" "stack (nth_thread s i) \<noteq> stk" "thread_ok (live(t \<mapsto> m, stk \<mapsto> k)) s' i"
proof -
  have ok: "thread_ok live s i" using inv i by (simp add: threads_inv_def)
  then show ne: "thread_list s ! i \<noteq> t" "stack (nth_thread s i) \<noteq> stk"
    using fresh by (auto simp: thread_ok_def fresh_blocks_def)
  have "i \<noteq> nat (next_thread_id s)" using free_slot(1) [OF inv few] i by auto
  then show l: "thread_list s' ! i = thread_list s ! i" using i s' by (simp add: with_thread_def)
  then show n: "nth_thread s' i = nth_thread s i" using ne s' by (simp add: with_thread_def)
  have "stack (nth_thread s i) \<noteq> t" "thread_list s ! i \<noteq> stk"
    using ok fresh by (auto simp: thread_ok_def fresh_blocks_def)
  then show "thread_ok (live(t \<mapsto> m, stk \<mapsto> k)) s' i"
    using ok ne l n s' unfolding thread_ok_def by (simp add: with_thread_def)
qed

lemma with_thread_new:
  assumes inv: "threads_inv live s" and few: "next_thread_id s < int MAX_THREADS"
    and fresh: "fresh_blocks live t m stk k hs" and s': "s' = with_thread entry t stk hs s"
    and n: "n = nat (next_thread_id s)"
  shows "thread_list s' ! n = t" "stack (nth_thread s' n) = stk" "thread_ok (live(t \<mapsto> m, stk \<mapsto> k)) s' n"
proof -
  note f = free_slot [OF inv few]
  have len: "length (thread_list s) = MAX_THREADS" using inv by (simp add: threads_inv_def)
  have "unat (stk + 8184) = unat stk + 8184" using fresh by (subst unat_plus_small) (auto simp: fresh_blocks_def)
  moreover have l: "thread_list s' ! n = t" "nth_thread s' n = \<lparr>stack = stk, rsp = stk + 8184, t_state = THREAD_READY,
      id = of_int (next_thread_id s), entry_point = entry\<rparr>" "next_thread_id s' = next_thread_id s + 1"
      "current_thread_id s' = current_thread_id s"
    using s' f(2) len n by (simp_all add: with_thread_def)
  moreover have i: "int n = next_thread_id s" using f(3) n by simp
  moreover have "(of_int (next_thread_id s) :: u64) = of_nat n" unfolding i [symmetric] by simp
  ultimately show "thread_ok (live(t \<mapsto> m, stk \<mapsto> k)) s' n"
    unfolding thread_ok_def using f(4) fresh by (simp add: on_stack_def fresh_blocks_def)
  show "thread_list s' ! n = t" "stack (nth_thread s' n) = stk" using l by simp_all
qed

lemma with_thread_inv:
  assumes inv: "threads_inv live s" and few: "next_thread_id s < int MAX_THREADS"
    and fresh: "fresh_blocks live t m stk k hs" and s': "s' = with_thread entry t stk hs s"
  shows "threads_inv (live(t \<mapsto> m, stk \<mapsto> k)) s'"
proof -
  define n where "n = nat (next_thread_id s)"
  note old = with_thread_old [OF inv few fresh _ _ s'] and new = with_thread_new [OF inv few fresh s' n_def]
  have same: "thread_list s' ! i = thread_list s ! i" if "i \<noteq> n" for i using s' that by (simp add: with_thread_def n_def)
  have ok: "thread_ok (live(t \<mapsto> m, stk \<mapsto> k)) s' i" if "i < MAX_THREADS" "thread_list s' ! i \<noteq> 0" for i
    using that old(5) new(3) same by (cases "i = n") auto
  have apart: "thread_list s' ! i \<noteq> thread_list s' ! j \<and> stack (nth_thread s' i) \<noteq> stack (nth_thread s' j)"
    if ij: "i < MAX_THREADS" "j < MAX_THREADS" "i \<noteq> j" "thread_list s' ! i \<noteq> 0" "thread_list s' ! j \<noteq> 0" for i j
  proof -
    consider "i = n" "j \<noteq> n" | "i \<noteq> n" "j = n" | "i \<noteq> n" "j \<noteq> n" using ij(3) by blast
    then show ?thesis
    proof cases
      case 1 then show ?thesis using old(2-4) [of j] new(1,2) same ij by metis
    next
      case 2 then show ?thesis using old(2-4) [of i] new(1,2) same ij by metis
    next
      case 3 then show ?thesis using old(2) [of i] old(2) [of j] same ij inv unfolding threads_inv_def by metis
    qed
  qed
  have "current_thread_id s \<noteq> int n" using free_slot [OF inv few] by (simp add: n_def)
  then have "0 \<le> current_thread_id s' \<Longrightarrow> thread_list s' ! nat (current_thread_id s') \<noteq> 0"
    using same [of "nat (current_thread_id s)"] inv s' by (auto simp: with_thread_def threads_inv_def)
  moreover have "length (thread_list s') = MAX_THREADS" "0 \<le> next_thread_id s'" "heap_inv (live(t \<mapsto> m, stk \<mapsto> k)) (heap_st s')"
    "- 1 \<le> current_thread_id s'" "current_thread_id s' < int MAX_THREADS"
    using inv fresh s' by (simp_all add: with_thread_def threads_inv_def fresh_blocks_def)
  ultimately show ?thesis using ok apart unfolding threads_inv_def by blast
qed

lemma with_thread_resume:
  assumes inv: "threads_inv live s" and few: "next_thread_id s < int MAX_THREADS"
    and fresh: "fresh_blocks live t m stk k hs" and s': "s' = with_thread entry t stk hs s"
    and i: "i < MAX_THREADS" "thread_list s ! i \<noteq> 0" "current_thread_id s \<noteq> int i"
  shows "resume_of s' i = resume_of s i"
proof -
  define n where "n = nat (next_thread_id s)"
  note old = with_thread_old [OF inv few fresh i(1,2) s'] and new = with_thread_new [OF inv few fresh s' n_def]
  have n: "n < MAX_THREADS" "n \<noteq> i" using free_slot [OF inv few] i by (auto simp: n_def)
  have "on_stack (nth_thread s' n) (stk + 8184)"
    using new(3) free_slot [OF inv few] s' fresh new(1)
    by (auto simp: thread_ok_def with_thread_def n_def)
  then have "\<not> on_stack (nth_thread s' i) (stk + 8184)"
    using stacks_apart [OF with_thread_inv [OF inv few fresh s'] n(1) i(1) n(2)] old(1) i(2) new(1) fresh
    by (simp add: fresh_blocks_def)
  moreover have "on_stack (nth_thread s' i) (rsp (nth_thread s' i))"
    using old(2) i inv by (simp add: threads_inv_def thread_ok_def)
  ultimately show ?thesis using old(2) unfolding resume_of_def s' by (auto simp: with_thread_def)
qed

lemma create_keeps:
  assumes inv: "threads_inv live s" and "room_for_thread s" and run: "thread_create entry s = Some s'"
  shows "\<exists>live'. threads_inv live' s'" "current_thread_id s' = current_thread_id s"
    "i < MAX_THREADS \<Longrightarrow> thread_list s ! i \<noteq> 0 \<Longrightarrow> current_thread_id s \<noteq> int i \<Longrightarrow>
       thread_list s' ! i = thread_list s ! i \<and> resume_of s' i = resume_of s i"
proof -
  consider "s' = s" | t stk m k hs where "next_thread_id s < int MAX_THREADS" "fresh_blocks live t m stk k hs"
      "s' = with_thread entry t stk hs s"
  proof (cases "next_thread_id s < int MAX_THREADS")
    case True
    show thesis by (rule create_made [OF assms True]) (rule that(2) [OF True])
  qed (use run that(1) in \<open>simp add: thread_create_def\<close>)
  note c = this
  from c show "\<exists>live'. threads_inv live' s'" by cases (use inv with_thread_inv [OF inv] in blast)+
  from c show "current_thread_id s' = current_thread_id s" by cases (simp_all add: with_thread_def)
  show "thread_list s' ! i = thread_list s ! i \<and> resume_of s' i = resume_of s i"
    if "i < MAX_THREADS" "thread_list s ! i \<noteq> 0" "current_thread_id s \<noteq> int i"
    using c by cases (use with_thread_old(1) [OF inv] with_thread_resume [OF inv] that in metis)+
qed

subsection \<open>The scheduler\<close>

lemma is_ready_iff:
  "threads_inv live s \<Longrightarrow> i < MAX_THREADS \<Longrightarrow>
     is_ready s i \<longleftrightarrow> thread_list s ! i \<noteq> 0 \<and> current_thread_id s \<noteq> int i"
  by (auto simp: is_ready_def threads_inv_def thread_ok_def)

text \<open>A call of the scheduler that changes anything: thread \<^term>\<open>i\<close> is the first that is ready, it becomes the
  running one, and the thread that called is ready with its stack pointer saved.\<close>

definition switched :: "u64 \<Rightarrow> nat \<Rightarrow> threads \<Rightarrow> threads" where
  "switched ret i s =
     (let c = current_thread_id s; new = thread_list s ! i; old = thread_list s ! nat c;
          f = (thr s)(new := (thr s new)\<lparr>t_state := THREAD_RUNNING\<rparr>);
          f = (if 0 \<le> c then f(old := (thr s old)\<lparr>t_state := THREAD_READY, rsp := cpu_rsp s - 8\<rparr>) else f);
          m = (stack_word s)(cpu_rsp s - 8 := ret)
      in s\<lparr>thr := f, current_thread_id := int i, stack_word := m, cpu_rip := m (rsp (thr s new)),
           cpu_rsp := rsp (thr s new) + 8\<rparr>)"

lemma scheduler_switched:
  assumes inv: "threads_inv live s" and i: "find (is_ready s) [0..<MAX_THREADS] = Some i"
  shows "scheduler ret s = switched ret i s"
proof -
  have lt: "i < MAX_THREADS" and "is_ready s i" using i by (auto simp: find_Some_iff)
  then have ne: "thread_list s ! i \<noteq> 0" "current_thread_id s \<noteq> int i" using is_ready_iff [OF inv] by auto
  show ?thesis
  proof (cases "0 \<le> current_thread_id s")
    case True
    let ?c = "nat (current_thread_id s)"
    have "?c < MAX_THREADS" "?c \<noteq> i" "thread_list s ! ?c \<noteq> 0" using True inv ne(2) by (auto simp: threads_inv_def)
    then have "thread_list s ! ?c \<noteq> thread_list s ! i" "thread_list s ! ?c \<noteq> 0"
      using inv ne lt unfolding threads_inv_def by metis+
    then show ?thesis using i ne True by (simp add: thread_defs switched_def Let_def fun_upd_twist)
  qed (use i ne in \<open>simp add: thread_defs switched_def Let_def\<close>)
qed

lemma thread_ptr_inj:
  assumes "threads_inv live s" "a < MAX_THREADS" "b < MAX_THREADS" "thread_list s ! a \<noteq> 0" "thread_list s ! b \<noteq> 0"
  shows "thread_list s ! a = thread_list s ! b \<longleftrightarrow> a = b"
  using assms unfolding threads_inv_def by blast

lemma current_valid:
  assumes "threads_inv live s" "0 \<le> current_thread_id s"
  shows "nat (current_thread_id s) < MAX_THREADS" "thread_list s ! nat (current_thread_id s) \<noteq> 0"
  using assms by (simp_all add: threads_inv_def nat_less_iff)

lemma switched_fields:
  assumes inv: "threads_inv live s" and i: "i < MAX_THREADS" "is_ready s i" and s': "s' = switched ret i s"
    and j: "j < MAX_THREADS" "thread_list s ! j \<noteq> 0"
  shows "thread_list s' = thread_list s" "current_thread_id s' = int i" "heap_st s' = heap_st s"
    "next_thread_id s' = next_thread_id s"
    "nth_thread s' j =
       (if j = i then (nth_thread s j)\<lparr>t_state := THREAD_RUNNING\<rparr>
        else if current_thread_id s = int j then (nth_thread s j)\<lparr>t_state := THREAD_READY, rsp := cpu_rsp s - 8\<rparr>
        else nth_thread s j)"
proof -
  let ?c = "nat (current_thread_id s)"
  show lst: "thread_list s' = thread_list s" and "current_thread_id s' = int i" "heap_st s' = heap_st s"
    "next_thread_id s' = next_thread_id s"
    using s' by (simp_all add: switched_def Let_def)
  have ne: "thread_list s ! i \<noteq> 0" "current_thread_id s \<noteq> int i" using is_ready_iff [OF inv i(1)] i(2) by auto
  note dist = thread_ptr_inj [OF inv _ j(1) _ j(2)]
  show "nth_thread s' j =
       (if j = i then (nth_thread s j)\<lparr>t_state := THREAD_RUNNING\<rparr>
        else if current_thread_id s = int j then (nth_thread s j)\<lparr>t_state := THREAD_READY, rsp := cpu_rsp s - 8\<rparr>
        else nth_thread s j)"
  proof (cases "0 \<le> current_thread_id s")
    case True
    note c = current_valid [OF inv True]
    have t: "thr s' = (thr s)(thread_list s ! i := (nth_thread s i)\<lparr>t_state := THREAD_RUNNING\<rparr>,
        thread_list s ! ?c := (nth_thread s ?c)\<lparr>t_state := THREAD_READY, rsp := cpu_rsp s - 8\<rparr>)"
      using True by (simp add: s' switched_def Let_def)
    consider "j = ?c" | "j = i" "j \<noteq> ?c" | "j \<noteq> ?c" "j \<noteq> i" by blast
    then show ?thesis
    proof cases
      case 1
      then show ?thesis using True ne(2) unfolding lst t by auto
    next
      case 2
      then have "thread_list s ! ?c \<noteq> thread_list s ! i" using thread_ptr_inj [OF inv c(1) i(1) c(2) ne(1)] by simp
      then show ?thesis using 2 unfolding lst t by simp
    next
      case 3
      then have "thread_list s ! ?c \<noteq> thread_list s ! j" "thread_list s ! i \<noteq> thread_list s ! j" "current_thread_id s \<noteq> int j"
        using dist [OF c] dist [OF i(1) ne(1)] True by auto
      then show ?thesis using 3 unfolding lst t by auto
    qed
  next
    case False
    then have "thr s' = (thr s)(thread_list s ! i := (nth_thread s i)\<lparr>t_state := THREAD_RUNNING\<rparr>)" "current_thread_id s \<noteq> int j"
      by (auto simp: s' switched_def Let_def)
    then show ?thesis using dist [OF i(1) ne(1)] unfolding lst by auto
  qed
qed

lemma switched_inv:
  assumes inv: "threads_inv live s" and i: "i < MAX_THREADS" "is_ready s i" and w: "may_write s (cpu_rsp s - 8)"
    and s': "s' = switched ret i s"
  shows "threads_inv live s'"
proof -
  note f = switched_fields [OF inv i s']
  have ne: "thread_list s ! i \<noteq> 0" "current_thread_id s \<noteq> int i" using is_ready_iff [OF inv i(1)] i(2) by auto
  have stk: "stack (nth_thread s' j) = stack (nth_thread s j)" if "j < MAX_THREADS" "thread_list s ! j \<noteq> 0" for j
    using f(5) [OF that] by simp
  have "thread_ok live s' j" if j: "j < MAX_THREADS" "thread_list s ! j \<noteq> 0" for j
  proof -
    have "thread_ok live s j" using inv j by (simp add: threads_inv_def)
    moreover have "current_thread_id s = int j \<Longrightarrow> on_stack (nth_thread s j) (cpu_rsp s - 8)"
      using w by (simp add: may_write_def)
    ultimately show ?thesis using f [OF j] ne(2) by (auto simp: thread_ok_def on_stack_def)
  qed
  moreover have "length (thread_list s) = MAX_THREADS" "0 \<le> next_thread_id s" "heap_inv live (heap_st s)"
    using inv by (simp_all add: threads_inv_def)
  moreover have "thread_list s ! a \<noteq> thread_list s ! b \<and> stack (nth_thread s' a) \<noteq> stack (nth_thread s' b)"
    if "a < MAX_THREADS" "b < MAX_THREADS" "a \<noteq> b" "thread_list s ! a \<noteq> 0" "thread_list s ! b \<noteq> 0" for a b
    using inv that stk unfolding threads_inv_def by metis
  ultimately show ?thesis using f(1-4) [OF i(1) ne(1)] i(1) ne(1) unfolding threads_inv_def by simp
qed

lemma switched_resume:
  assumes inv: "threads_inv live s" and i: "i < MAX_THREADS" "is_ready s i" and w: "may_write s (cpu_rsp s - 8)"
    and s': "s' = switched ret i s"
  shows "(cpu_rsp s', cpu_rip s') = resume_of s i"
    and "j < MAX_THREADS \<Longrightarrow> thread_list s ! j \<noteq> 0 \<Longrightarrow> current_thread_id s = int j \<Longrightarrow> resume_of s' j = (cpu_rsp s, ret)"
    and "j < MAX_THREADS \<Longrightarrow> thread_list s ! j \<noteq> 0 \<Longrightarrow> current_thread_id s \<noteq> int j \<Longrightarrow> resume_of s' j = resume_of s j"
proof -
  note f = switched_fields [OF inv i s']
  have ne: "thread_list s ! i \<noteq> 0" "current_thread_id s \<noteq> int i" using is_ready_iff [OF inv i(1)] i(2) by auto
  have m: "stack_word s' = (stack_word s)(cpu_rsp s - 8 := ret)" using s' by (simp add: switched_def Let_def)
  have apart: "rsp (nth_thread s j) \<noteq> cpu_rsp s - 8"
    if "j < MAX_THREADS" "thread_list s ! j \<noteq> 0" "current_thread_id s \<noteq> int j" for j
    using may_write_apart [OF inv w that] inv that by (auto simp: threads_inv_def thread_ok_def)
  show "(cpu_rsp s', cpu_rip s') = resume_of s i"
    using s' apart [OF i(1) ne] by (simp add: switched_def resume_of_def Let_def)
  show "resume_of s' j = (cpu_rsp s, ret)" if "j < MAX_THREADS" "thread_list s ! j \<noteq> 0" "current_thread_id s = int j"
    using f [OF that(1,2)] that ne m by (auto simp: resume_of_def)
  show "resume_of s' j = resume_of s j" if j: "j < MAX_THREADS" "thread_list s ! j \<noteq> 0" "current_thread_id s \<noteq> int j"
    using f [OF that(1,2)] m apart [OF j] j(3) by (auto simp: resume_of_def)
qed

lemma yield_cases:
  assumes "threads_inv live s"
  obtains (stay) "thread_yield ret s = s" "\<forall>i<MAX_THREADS. \<not> is_ready s i"
  | (switch) i where "i < MAX_THREADS" "is_ready s i" "\<forall>j<i. \<not> is_ready s j" "thread_yield ret s = switched ret i s"
proof (cases "find (is_ready s) [0..<MAX_THREADS]")
  case None
  then have "\<forall>i<MAX_THREADS. \<not> is_ready s i" by (simp add: find_None_iff)
  moreover have "thread_yield ret s = s" using None by (simp add: thread_yield_def scheduler_def)
  ultimately show thesis using stay by blast
next
  case (Some i)
  then show thesis using switch [of i] scheduler_switched [OF assms Some] by (auto simp: thread_yield_def find_Some_iff)
qed

subsection \<open>Runs\<close>

lemma yield_keeps:
  assumes inv: "threads_inv live s" and w: "may_write s (cpu_rsp s - 8)"
  shows "threads_inv live (thread_yield ret s)"
    and "j < MAX_THREADS \<Longrightarrow> thread_list s ! j \<noteq> 0 \<Longrightarrow> current_thread_id s \<noteq> int j \<Longrightarrow>
      thread_list (thread_yield ret s) ! j = thread_list s ! j \<and> resume_of (thread_yield ret s) j = resume_of s j"
proof -
  have "threads_inv live (thread_yield ret s) \<and> (j < MAX_THREADS \<longrightarrow> thread_list s ! j \<noteq> 0 \<longrightarrow> current_thread_id s \<noteq> int j \<longrightarrow>
      thread_list (thread_yield ret s) ! j = thread_list s ! j \<and> resume_of (thread_yield ret s) j = resume_of s j)"
  proof (cases rule: yield_cases [OF inv, of ret])
    case 1
    then show ?thesis using inv by simp
  next
    case (2 i)
    then show ?thesis using switched_inv [OF inv 2(1,2) w 2(4)] switched_resume(3) [OF inv 2(1,2) w 2(4)]
        switched_fields(1) [OF inv 2(1,2,4)] by simp
  qed
  then show "threads_inv live (thread_yield ret s)"
    and "j < MAX_THREADS \<Longrightarrow> thread_list s ! j \<noteq> 0 \<Longrightarrow> current_thread_id s \<noteq> int j \<Longrightarrow>
      thread_list (thread_yield ret s) ! j = thread_list s ! j \<and> resume_of (thread_yield ret s) j = resume_of s j"
    by blast+
qed

lemma work_keeps:
  assumes inv: "threads_inv live s" and m: "\<forall>a. m a \<noteq> stack_word s a \<longrightarrow> may_write s a"
    and s': "s' = s\<lparr>stack_word := m, cpu_rsp := sp, cpu_rip := ip\<rparr>"
  shows "threads_inv live s'"
    and "j < MAX_THREADS \<Longrightarrow> thread_list s ! j \<noteq> 0 \<Longrightarrow> current_thread_id s \<noteq> int j \<Longrightarrow>
      thread_list s' ! j = thread_list s ! j \<and> resume_of s' j = resume_of s j"
proof -
  show "threads_inv live s'" using inv by (simp add: s' threads_inv_def thread_ok_def)
  assume j: "j < MAX_THREADS" "thread_list s ! j \<noteq> 0" "current_thread_id s \<noteq> int j"
  then have "on_stack (nth_thread s j) (rsp (nth_thread s j))" using inv by (simp add: threads_inv_def thread_ok_def)
  then have "\<not> may_write s (rsp (nth_thread s j))" using may_write_apart [OF inv _ j] by blast
  then show "thread_list s' ! j = thread_list s ! j \<and> resume_of s' j = resume_of s j"
    using m by (auto simp: s' resume_of_def)
qed

lemma kstep_keeps:
  assumes "kstep s s'" and inv: "threads_inv live s"
  shows "\<exists>live'. threads_inv live' s'"
    and "j < MAX_THREADS \<Longrightarrow> thread_list s ! j \<noteq> 0 \<Longrightarrow> current_thread_id s \<noteq> int j \<Longrightarrow>
      thread_list s' ! j = thread_list s ! j \<and> resume_of s' j = resume_of s j"
proof -
  have "(\<exists>live'. threads_inv live' s') \<and> (j < MAX_THREADS \<longrightarrow> thread_list s ! j \<noteq> 0 \<longrightarrow> current_thread_id s \<noteq> int j \<longrightarrow>
      thread_list s' ! j = thread_list s ! j \<and> resume_of s' j = resume_of s j)"
    using assms(1)
  proof cases
    case (create entry)
    then show ?thesis using create_keeps [OF inv] by blast
  next
    case (yield ret)
    then show ?thesis using yield_keeps [OF inv] by blast
  next
    case (work m sp ip)
    then show ?thesis using work_keeps [OF inv work(2,1)] by blast
  qed
  then show "\<exists>live'. threads_inv live' s'"
    and "j < MAX_THREADS \<Longrightarrow> thread_list s ! j \<noteq> 0 \<Longrightarrow> current_thread_id s \<noteq> int j \<Longrightarrow>
      thread_list s' ! j = thread_list s ! j \<and> resume_of s' j = resume_of s j"
    by blast+
qed

lemma reachable_inv: "kstep\<^sup>*\<^sup>* s s' \<Longrightarrow> threads_inv live s \<Longrightarrow> \<exists>live'. threads_inv live' s'"
  by (induction rule: rtranclp_induct) (auto dest: kstep_keeps(1))

lemma thread_init_inv:
  assumes "current_thread_id s = - 1" "next_thread_id s = 0" "heap_st s = (kmalloc_init h, v)"
  shows "threads_inv Map.empty (thread_init s)"
  using assms heap_inv_init(1) by (simp add: threads_inv_def thread_init_def MAX_THREADS_def)

lemma resume_stable:
  assumes "(\<lambda>a b. kstep a b \<and> current_thread_id b \<noteq> int i)\<^sup>*\<^sup>* s s'" "threads_inv live s" "i < MAX_THREADS"
    "thread_list s ! i \<noteq> 0" "current_thread_id s \<noteq> int i"
  shows "(\<exists>live. threads_inv live s') \<and> thread_list s' ! i \<noteq> 0 \<and> current_thread_id s' \<noteq> int i \<and> resume_of s' i = resume_of s i"
  using assms
proof (induction rule: rtranclp_induct)
  case (step t u)
  then obtain live' where "threads_inv live' t" "thread_list t ! i \<noteq> 0" "current_thread_id t \<noteq> int i" "resume_of t i = resume_of s i"
    by blast
  then show ?case using step.hyps(2) kstep_keeps [of t u live'] step.prems(2) by auto
qed blast

lemma yield_two:
  assumes inv: "threads_inv live s" and "thread_list s ! 0 \<noteq> 0" "thread_list s ! 1 \<noteq> 0" "current_thread_id s \<in> {0, 1}"
  shows "current_thread_id (thread_yield ret s) = 1 - current_thread_id s \<and> thread_list (thread_yield ret s) = thread_list s"
proof -
  have r: "is_ready s (nat (1 - current_thread_id s))" "\<forall>i < nat (1 - current_thread_id s). \<not> is_ready s i"
    using assms is_ready_iff [OF inv] by (auto simp: MAX_THREADS_def)
  show ?thesis
  proof (cases rule: yield_cases [OF inv, of ret])
    case 1
    then show ?thesis using r(1) assms(4) by (auto simp: MAX_THREADS_def)
  next
    case (2 i)
    then have "i = nat (1 - current_thread_id s)" using r by (metis linorder_neqE_nat)
    then show ?thesis using 2(4) assms(4) by (auto simp: switched_def Let_def)
  qed
qed

lemma kstep_two:
  assumes "kstep s s'" and inv: "threads_inv live s" and two: "thread_list s ! 0 \<noteq> 0" "thread_list s ! 1 \<noteq> 0"
    and cur: "current_thread_id s \<in> {0, 1}"
  shows "thread_list s' ! 0 \<noteq> 0 \<and> thread_list s' ! 1 \<noteq> 0 \<and> current_thread_id s' \<in> {0, 1}"
  using assms(1)
proof cases
  case (create entry)
  have "thread_list s' ! i \<noteq> 0" if i: "i < MAX_THREADS" "thread_list s ! i \<noteq> 0" for i
  proof (cases "next_thread_id s < int MAX_THREADS")
    case True
    then show ?thesis using create_made [OF inv create True] with_thread_old(1) [OF inv True _ i] i(2) by metis
  qed (use create i in \<open>simp add: thread_create_def\<close>)
  then show ?thesis using two cur create_keeps(2) [OF inv create] by (simp add: MAX_THREADS_def)
next
  case (yield ret)
  then show ?thesis using yield_two [OF inv two cur, of ret] two cur by auto
qed (use two cur in simp)

section \<open>A run\<close>

text \<open>Three threads on a fresh kernel heap.\<close>

definition threads_sample :: threads where
  "threads_sample = \<lparr>thr = (\<lambda>_. \<lparr>stack = 0, rsp = 0, t_state = THREAD_TERMINATED, id = 0, entry_point = 0\<rparr>), thread_list = [],
     current_thread_id = - 1, next_thread_id = 0, heap_st = (kmalloc_init heap_zero, vmm_small), stack_word = (\<lambda>_. 0),
     cpu_rsp = 0x8000, cpu_rip = 0\<rparr>"

definition threads_three :: threads where
  "threads_three = (case do { s \<leftarrow> thread_create 0x111 (thread_init threads_sample); s \<leftarrow> thread_create 0x222 s; thread_create 0x333 s } of
     Some s \<Rightarrow> s | None \<Rightarrow> threads_sample)"

lemma sample_run:
  obtains s1 s2 where "thread_create 0x111 (thread_init threads_sample) = Some s1" "room_for_thread (thread_init threads_sample)"
    "thread_create 0x222 s1 = Some s2" "room_for_thread s1" "thread_create 0x333 s2 = Some threads_three" "room_for_thread s2"
proof -
  note ev = thread_create_def thread_init_def threads_sample_def upd_thr_def MAX_THREADS_def kmalloc_bump heap_consts
    kmalloc_init_def heap_zero_def align8_def room_for_thread_def heap_room_def Let_def
  define s1 where "s1 = the (thread_create 0x111 (thread_init threads_sample))"
  define s2 where "s2 = the (thread_create 0x222 s1)"
  have 1: "thread_create 0x111 (thread_init threads_sample) = Some s1" "room_for_thread (thread_init threads_sample)"
    unfolding s1_def by (simp_all add: ev)
  have 2: "thread_create 0x222 s1 = Some s2" "room_for_thread s1"
    unfolding s2_def s1_def by (simp_all add: ev)
  have 3: "\<exists>s3. thread_create 0x333 s2 = Some s3" "room_for_thread s2"
    unfolding s2_def s1_def by (simp_all add: ev)
  then have "thread_create 0x333 s2 = Some threads_three" unfolding threads_three_def using 1 2 by auto
  then show thesis using that 1 2 3 by blast
qed

lemma three_reachable: "kstep\<^sup>*\<^sup>* (thread_init threads_sample) threads_three"
  by (rule sample_run) (meson kstep.create converse_rtranclp_into_rtranclp rtranclp.rtrancl_refl)

lemma replicate_three: "(replicate 16 x)[0 := a, Suc 0 := b, 2 := c] = a # b # c # replicate 13 x"
  by (simp add: numeral_eq_Suc)

lemma three_fields:
  "thread_list threads_three = [0xFFFF800001000010, 0xFFFF800001002058, 0xFFFF8000010040A0] @ replicate 13 0"
  "current_thread_id threads_three = - 1" "cpu_rsp threads_three = 0x8000"
  "thr threads_three 0xFFFF800001000010 = \<lparr>stack = 0xFFFF800001000048, rsp = 0xFFFF800001002040, t_state = THREAD_READY, id = 0, entry_point = 0x111\<rparr>"
  "thr threads_three 0xFFFF800001002058 = \<lparr>stack = 0xFFFF800001002090, rsp = 0xFFFF800001004088, t_state = THREAD_READY, id = 1, entry_point = 0x222\<rparr>"
  "thr threads_three 0xFFFF8000010040A0 = \<lparr>stack = 0xFFFF8000010040D8, rsp = 0xFFFF8000010060D0, t_state = THREAD_READY, id = 2, entry_point = 0x333\<rparr>"
  by (simp_all add: threads_three_def thread_create_def thread_init_def threads_sample_def upd_thr_def MAX_THREADS_def kmalloc_bump
      heap_consts kmalloc_init_def heap_zero_def align8_def Let_def replicate_three)

lemma three_list: "i < MAX_THREADS \<Longrightarrow> thread_list threads_three ! i \<noteq> 0 \<Longrightarrow> i = 0 \<or> i = 1 \<or> i = 2"
  by (auto simp: three_fields MAX_THREADS_def nth_append nth_Cons' split: if_splits)

lemma find_first:
  "P 0 \<Longrightarrow> find P [0..<MAX_THREADS] = Some 0"
  "\<not> P 0 \<Longrightarrow> P 1 \<Longrightarrow> find P [0..<MAX_THREADS] = Some 1"
  by (simp_all add: MAX_THREADS_def upt_conv_Cons)

lemma three_yield:
  assumes "s1 = thread_yield 0x10 threads_three"
  shows "may_write threads_three (cpu_rsp threads_three - 8)" "thread_list s1 = thread_list threads_three"
    "current_thread_id s1 = 0" "cpu_rsp s1 = 0xFFFF800001002048" "stack (nth_thread s1 0) = 0xFFFF800001000048"
    "stack (nth_thread s1 1) = 0xFFFF800001002090" "rsp (nth_thread s1 1) = 0xFFFF800001004088"
    "t_state (nth_thread s1 0) = THREAD_RUNNING" "t_state (nth_thread s1 1) = THREAD_READY"
proof -
  show "may_write threads_three (cpu_rsp threads_three - 8)"
    using three_list by (fastforce simp: may_write_def three_fields on_stack_def)
  have "is_ready threads_three 0" by (simp add: is_ready_def three_fields)
  then have s1: "s1 = switched 0x10 0 threads_three"
    using assms find_first(1) [of "is_ready threads_three"]
    by (simp add: thread_yield_def scheduler_def switched_def three_fields upd_thr_def switch_context_def push_return_def Let_def)
  show "thread_list s1 = thread_list threads_three"
    "current_thread_id s1 = 0" "cpu_rsp s1 = 0xFFFF800001002048" "stack (nth_thread s1 0) = 0xFFFF800001000048"
    "stack (nth_thread s1 1) = 0xFFFF800001002090" "rsp (nth_thread s1 1) = 0xFFFF800001004088"
    "t_state (nth_thread s1 0) = THREAD_RUNNING" "t_state (nth_thread s1 1) = THREAD_READY"
    unfolding s1 by (simp_all add: switched_def three_fields Let_def)
qed

section \<open>Properties\<close>

text \<open>
  C18: In every state reached from initialisation by creating threads, yielding and running thread code, each thread is
  found under its id, the current thread is the only running one and all others are ready, and no two threads share a
  stack byte.
\<close>

theorem threads_reachable:
  assumes "current_thread_id s0 = - 1" "next_thread_id s0 = 0" "heap_st s0 = (kmalloc_init h, v)"
    and "kstep\<^sup>*\<^sup>* (thread_init s0) s" and "i < MAX_THREADS" and "thread_list s ! i \<noteq> 0"
  shows "id (nth_thread s i) = of_nat i
    \<and> t_state (nth_thread s i) = (if current_thread_id s = int i then THREAD_RUNNING else THREAD_READY)
    \<and> (\<forall>j<MAX_THREADS. \<forall>a. j \<noteq> i \<and> thread_list s ! j \<noteq> 0 \<and> on_stack (nth_thread s i) a \<longrightarrow> \<not> on_stack (nth_thread s j) a)"
proof -
  obtain live where inv: "threads_inv live s" using reachable_inv [OF assms(4) thread_init_inv [OF assms(1-3)]] by blast
  then have "thread_ok live s i" using assms(5,6) by (simp add: threads_inv_def)
  then show ?thesis using stacks_apart [OF inv assms(5)] assms(6) unfolding thread_ok_def by blast
qed

lemma sample_boot:
  "current_thread_id threads_sample = - 1" "next_thread_id threads_sample = 0" "heap_st threads_sample = (kmalloc_init heap_zero, vmm_small)"
  by (simp_all add: threads_sample_def)

theorem threads_reachable_witness:
  "current_thread_id threads_sample = - 1 \<and> kstep\<^sup>*\<^sup>* (thread_init threads_sample) threads_three
   \<and> thread_list threads_three ! 1 \<noteq> 0 \<and> id (nth_thread threads_three 1) = 1
   \<and> t_state (nth_thread threads_three 1) = THREAD_READY"
proof -
  have t: "1 < MAX_THREADS" "thread_list threads_three ! 1 \<noteq> 0" "current_thread_id threads_three \<noteq> 1"
    by (simp_all add: MAX_THREADS_def three_fields)
  show ?thesis using threads_reachable [OF sample_boot three_reachable t(1,2)] three_reachable sample_boot t by simp
qed

text \<open>
  C16: A thread that yields and is later switched back to continues with the stack pointer it had, at the return
  address of its own call, whatever threads were created and whatever the other threads did meanwhile.
\<close>

theorem thread_resumes:
  assumes "current_thread_id s0 = - 1" "next_thread_id s0 = 0" "heap_st s0 = (kmalloc_init h, v)"
    and reach: "kstep\<^sup>*\<^sup>* (thread_init s0) s" and cur: "current_thread_id s = int i" and w: "may_write s (cpu_rsp s - 8)"
    and s1: "s1 = thread_yield ret s" "current_thread_id s1 \<noteq> int i"
    and s2: "(\<lambda>a b. kstep a b \<and> current_thread_id b \<noteq> int i)\<^sup>*\<^sup>* s1 s2" and w2: "may_write s2 (cpu_rsp s2 - 8)"
    and s3: "s3 = thread_yield ret' s2" "current_thread_id s3 = int i"
  shows "cpu_rsp s3 = cpu_rsp s \<and> cpu_rip s3 = ret"
proof -
  obtain live where inv: "threads_inv live s" using reachable_inv [OF reach thread_init_inv [OF assms(1-3)]] by blast
  then have i: "i < MAX_THREADS" "thread_list s ! i \<noteq> 0" using current_valid [OF inv] cur by auto
  have r1: "resume_of s1 i = (cpu_rsp s, ret) \<and> thread_list s1 ! i \<noteq> 0"
  proof (cases rule: yield_cases [OF inv, of ret])
    case (2 k)
    show ?thesis using switched_resume(2) [OF inv 2(1,2) w _ i cur, of s1 ret] switched_fields(1) [OF inv 2(1,2) _ i, of s1 ret]
        2(4) s1(1) i(2) by simp
  qed (use s1 cur in simp)
  have "threads_inv live s1" using yield_keeps(1) [OF inv w] s1(1) by simp
  from resume_stable [OF s2 this i(1) _ s1(2)] r1 obtain live' where inv2: "threads_inv live' s2"
      and r2: "current_thread_id s2 \<noteq> int i" "resume_of s2 i = (cpu_rsp s, ret)" by auto
  show ?thesis
  proof (cases rule: yield_cases [OF inv2, of ret'])
    case (2 k)
    then have "current_thread_id s3 = int k" using s3(1) by (simp add: switched_def Let_def)
    then have "k = i" using s3(2) by simp
    then show ?thesis using switched_resume(1) [OF inv2 2(1,2) w2, of s3 ret'] 2(4) s3(1) r2(2) by simp
  qed (use s3 r2(1) in simp)
qed

theorem thread_resumes_witness:
  "\<exists>s1 s2 s3. s1 = thread_yield 0x10 threads_three \<and> current_thread_id s1 = 0 \<and> s2 = thread_yield 0xAAA s1 \<and> current_thread_id s2 = 1
     \<and> s3 = thread_yield 0xBBB s2 \<and> current_thread_id s3 = 0 \<and> cpu_rsp s3 = cpu_rsp s1 \<and> cpu_rip s3 = 0xAAA"
proof -
  define s1 s2 s3 where s1: "s1 = thread_yield 0x10 threads_three" and s2: "s2 = thread_yield 0xAAA s1" and s3: "s3 = thread_yield 0xBBB s2"
  note y = three_yield [OF s1] and b = sample_boot
  have r: "kstep\<^sup>*\<^sup>* (thread_init threads_sample) s1"
    using three_reachable kstep.yield [OF y(1), of "0x10"] s1 by simp
  obtain live where inv: "threads_inv live s1" using reachable_inv [OF r thread_init_inv [OF b]] by blast
  have two: "thread_list s1 ! 0 \<noteq> 0" "thread_list s1 ! 1 \<noteq> 0" by (simp_all add: y(2) three_fields(1))
  have w1: "may_write s1 (cpu_rsp s1 - 8)" using y by (simp add: may_write_def on_stack_def)
  have c2: "current_thread_id s2 = 1" "thread_list s2 = thread_list s1"
    using yield_two [OF inv two, of "0xAAA"] y(3) s2 by simp_all
  have inv2: "threads_inv live s2" using yield_keeps(1) [OF inv w1] s2 by simp
  have c3: "current_thread_id s3 = 0" using yield_two [OF inv2, of "0xBBB"] c2 two s3 by simp
  have w2: "may_write s2 (cpu_rsp s2 - 8)"
  proof -
    have "is_ready s1 1" "\<not> is_ready s1 0" using two y by (simp_all add: is_ready_def)
    then have "find (is_ready s1) [0..<MAX_THREADS] = Some 1" "s2 = switched 0xAAA 1 s1"
      using find_first(2) [of "is_ready s1"] scheduler_switched [OF inv, of 1 "0xAAA"] s2 by (simp_all add: thread_yield_def)
    then have "cpu_rsp s2 = 0xFFFF800001004090" "stack (nth_thread s2 1) = 0xFFFF800001002090"
      using switched_fields(1,5) [OF inv _ \<open>is_ready s1 1\<close> _ _ two(2), of s2 "0xAAA"] y(6,7)
      by (simp_all add: MAX_THREADS_def) (simp add: switched_def Let_def)
    then show ?thesis using c2(1) by (simp add: may_write_def on_stack_def)
  qed
  show ?thesis
    using thread_resumes [OF b r _ w1 s2 _ _ w2 s3, of 0] c2 c3 y(3) s1 s2 s3 by auto
qed

text \<open>
  C21: The scheduler always takes the ready thread with the lowest number: once threads 0 and 1 exist and one of them
  runs, a yield of one switches to the other, and no later thread ever runs, whatever is created or executed.
\<close>

theorem scheduler_starves:
  assumes "current_thread_id s0 = - 1" "next_thread_id s0 = 0" "heap_st s0 = (kmalloc_init h, v)"
    and reach: "kstep\<^sup>*\<^sup>* (thread_init s0) s" and two: "thread_list s ! 0 \<noteq> 0" "thread_list s ! 1 \<noteq> 0"
    and cur: "current_thread_id s \<in> {0, 1}" and run: "kstep\<^sup>*\<^sup>* s s'"
  shows "current_thread_id s' \<in> {0, 1} \<and> current_thread_id (thread_yield ret s') = 1 - current_thread_id s'"
proof -
  obtain live where "threads_inv live s" using reachable_inv [OF reach thread_init_inv [OF assms(1-3)]] by blast
  with run have "(\<exists>live. threads_inv live s') \<and> thread_list s' ! 0 \<noteq> 0 \<and> thread_list s' ! 1 \<noteq> 0 \<and> current_thread_id s' \<in> {0, 1}"
  proof (induction rule: rtranclp_induct)
    case (step t u)
    then obtain live where inv: "threads_inv live t" "thread_list t ! 0 \<noteq> 0" "thread_list t ! 1 \<noteq> 0" "current_thread_id t \<in> {0, 1}" by blast
    then show ?case using kstep_two [OF step.hyps(2) inv] kstep_keeps(1) [OF step.hyps(2) inv(1)] by blast
  qed (use two cur in blast)
  then show ?thesis using yield_two by blast
qed

theorem scheduler_starves_witness:
  "\<exists>s. kstep\<^sup>*\<^sup>* (thread_init threads_sample) s \<and> thread_list s ! 2 \<noteq> 0 \<and> current_thread_id s = 0
     \<and> (\<forall>s'. kstep\<^sup>*\<^sup>* s s' \<longrightarrow> current_thread_id s' \<noteq> 2)"
proof -
  define s1 where s1: "s1 = thread_yield 0x10 threads_three"
  note y = three_yield [OF s1]
  have r: "kstep\<^sup>*\<^sup>* (thread_init threads_sample) s1"
    using three_reachable kstep.yield [OF y(1), of "0x10"] s1 by simp
  have l: "thread_list s1 ! 0 \<noteq> 0" "thread_list s1 ! 1 \<noteq> 0" "thread_list s1 ! 2 \<noteq> 0" by (simp_all add: y(2) three_fields(1))
  have "current_thread_id s' \<in> {0, 1}" if "kstep\<^sup>*\<^sup>* s1 s'" for s'
    using scheduler_starves [OF sample_boot r l(1,2) _ that] y(3) by simp
  then show ?thesis using r l(3) y(3) by (intro exI [of _ s1]) fastforce
qed

end
