(* ===== verification/Ramfs.thy ===== *)
theory Ramfs
  imports Heap
begin

text \<open>
  The file system in memory, \<^verbatim>\<open>fs/ramfs.c\<close>.  Nodes are heap objects found by their address; the first
  \<^verbatim>\<open>child_count\<close> entries of the array \<^verbatim>\<open>children\<close> are a list, and names and paths are byte strings without their
  NUL.  The record \<^verbatim>\<open>ramfs\<close> also holds the kernel heap, from which nodes, file contents and read buffers are
  allocated; \<^const>\<open>None\<close> means that \<^verbatim>\<open>kmalloc\<close> does not return, and the address 0 is \<^verbatim>\<open>NULL\<close>.  The debug output is
  left out.

  Shown: every operation keeps the structure of the tree and its correspondence to the live blocks of the heap (each
  node and each file's contents is a live block of its own), a file created is read back, creating a directory twice
  gives the same node, and three defects: no absolute path can be created as a file, names longer than 31 bytes are
  never found again, and an empty file cannot be read.
\<close>

section \<open>Nodes\<close>

definition RAMFS_MAX_NAME :: nat where "RAMFS_MAX_NAME = 32"
definition RAMFS_MAX_CHILDREN :: nat where "RAMFS_MAX_CHILDREN = 16"

datatype ramfs_node_type_t = RAMFS_FILE | RAMFS_DIR

record ramfs_node_t =
  node_name :: "u8 list"
  node_type :: ramfs_node_type_t
  node_parent :: u64
  children :: "u64 list"
  node_data :: u64
  node_size :: u64

record ramfs =
  nodes :: "u64 \<Rightarrow> ramfs_node_t"
  contents_of :: "u64 \<Rightarrow> u8 list"
  ramfs_root :: u64
  kheap :: "heap \<times> vmm"

abbreviation slash :: u8 where "slash \<equiv> 47"

definition empty_node :: ramfs_node_t where
  "empty_node = \<lparr>node_name = [], node_type = RAMFS_FILE, node_parent = 0, children = [], node_data = 0, node_size = 0\<rparr>"

definition set_node :: "u64 \<Rightarrow> ramfs_node_t \<Rightarrow> ramfs \<Rightarrow> ramfs" where
  "set_node a n s = s\<lparr>nodes := (nodes s)(a := n)\<rparr>"

text \<open>\<^verbatim>\<open>sizeof(ramfs_node_t)\<close> is 200.\<close>

definition ram_alloc :: "u64 \<Rightarrow> ramfs \<Rightarrow> (u64 \<times> ramfs) option" where
  "ram_alloc n s = do { (p, h) \<leftarrow> kmalloc n (kheap s); Some (p, s\<lparr>kheap := h\<rparr>) }"

definition ram_free :: "u64 \<Rightarrow> ramfs \<Rightarrow> ramfs" where
  "ram_free p s = s\<lparr>kheap := kfree p (kheap s)\<rparr>"

section \<open>Paths\<close>

definition next_token :: "u8 list \<Rightarrow> (u8 list \<times> u8 list) option" where
  "next_token str =
     (let start = dropWhile (\<lambda>c. c = slash) str
      in if start = [] then None
         else Some (takeWhile (\<lambda>c. c \<noteq> slash) start, drop 1 (dropWhile (\<lambda>c. c \<noteq> slash) start)))"

lemma next_token_shorter: "next_token str = Some (t, rest) \<Longrightarrow> length rest < length str"
proof -
  assume a: "next_token str = Some (t, rest)"
  define u where "u = dropWhile (\<lambda>c. c = slash) str"
  have u: "u \<noteq> []" "rest = drop 1 (dropWhile (\<lambda>c. c \<noteq> slash) u)" using a by (simp_all add: next_token_def u_def Let_def split: if_splits)
  have "length (dropWhile (\<lambda>c. c \<noteq> slash) u) \<le> length u" "length u \<le> length str" by (simp_all add: u_def length_dropWhile_le)
  moreover have "length rest = length (dropWhile (\<lambda>c. c \<noteq> slash) u) - 1" "0 < length u" using u by simp_all
  ultimately show ?thesis by linarith
qed

definition find_child :: "u8 list \<Rightarrow> u64 \<Rightarrow> ramfs \<Rightarrow> u64 option" where
  "find_child token cur s = find (\<lambda>a. node_name (nodes s a) = token) (children (nodes s cur))"

text \<open>The part of the loop for a missing component: a new directory node under \<^term>\<open>cur\<close>.\<close>

definition add_dir :: "u8 list \<Rightarrow> u64 \<Rightarrow> ramfs \<Rightarrow> (u64 \<times> ramfs) option" where
  "add_dir token cur s = do {
     (new_node, s) \<leftarrow> ram_alloc 200 s;
     if new_node = 0 then Some (0, s)
     else do {
       let s = set_node new_node (empty_node\<lparr>node_name := take (RAMFS_MAX_NAME - 1) token, node_type := RAMFS_DIR, node_parent := cur\<rparr>) s;
       if RAMFS_MAX_CHILDREN \<le> length (children (nodes s cur)) then Some (0, s)
       else Some (new_node, set_node cur ((nodes s cur)\<lparr>children := children (nodes s cur) @ [new_node]\<rparr>) s)
     }
   }"

function find_loop :: "u8 list \<Rightarrow> bool \<Rightarrow> u64 \<Rightarrow> ramfs \<Rightarrow> (u64 \<times> ramfs) option" where
  "find_loop p create_missing cur s =
     (case next_token p of
        None \<Rightarrow> Some (cur, s)
      | Some (token, p') \<Rightarrow>
          if token = [] then find_loop p' create_missing cur s
          else case find_child token cur s of
            Some a \<Rightarrow> find_loop p' create_missing a s
          | None \<Rightarrow>
              if \<not> create_missing then Some (0, s)
              else do {
                (new_node, s) \<leftarrow> add_dir token cur s;
                if new_node = 0 then Some (0, s) else find_loop p' create_missing new_node s
              })"
  by pat_completeness auto
termination
  by (relation "measure (\<lambda>(p, _). length p)") (auto dest: next_token_shorter)

declare find_loop.simps [simp del]

definition ramfs_find_node :: "u8 list \<Rightarrow> bool \<Rightarrow> ramfs \<Rightarrow> (u64 \<times> ramfs) option" where
  "ramfs_find_node path create_missing s =
     (if ramfs_root s = 0 then Some (0, s)
      else if path = [] \<or> path = [slash] then Some (ramfs_root s, s)
      else find_loop (take 255 path) create_missing (ramfs_root s) s)"

section \<open>Operations\<close>

definition ramfs_init :: "ramfs \<Rightarrow> ramfs option" where
  "ramfs_init s = do {
     (r, s) \<leftarrow> ram_alloc 200 s;
     let s = s\<lparr>ramfs_root := r\<rparr>;
     if r = 0 then Some s else Some (set_node r (empty_node\<lparr>node_type := RAMFS_DIR\<rparr>) s)
   }"

definition ramfs_mkdir :: "u8 list \<Rightarrow> ramfs \<Rightarrow> (u64 \<times> ramfs) option" where
  "ramfs_mkdir path s =
     (if ramfs_root s = 0 then Some (0, s)
      else do {
        (node, s) \<leftarrow> ramfs_find_node path True s;
        if node = 0 then Some (0, s)
        else if node_type (nodes s node) \<noteq> RAMFS_DIR then Some (0, s)
        else Some (node, s)
      })"

text \<open>\<^verbatim>\<open>strchr\<close> finds the first slash; the node for the file is not checked against \<^verbatim>\<open>NULL\<close>.\<close>

definition ramfs_create_file :: "u8 list \<Rightarrow> u8 list \<Rightarrow> ramfs \<Rightarrow> (u64 \<times> ramfs) option" where
  "ramfs_create_file path text s =
     (if ramfs_root s = 0 then Some (0, s)
      else
        let path_copy = take 255 path;
            dirname = takeWhile (\<lambda>c. c \<noteq> slash) path_copy;
            filename = drop 1 (dropWhile (\<lambda>c. c \<noteq> slash) path_copy)
        in if slash \<notin> set path_copy \<or> dirname = [] then Some (0, s)
           else if filename = [] then Some (0, s)
           else do {
             (dir, s) \<leftarrow> ramfs_find_node dirname True s;
             if dir = 0 \<or> node_type (nodes s dir) \<noteq> RAMFS_DIR then Some (0, s)
             else if find_child filename dir s \<noteq> None then Some (0, s)
             else if RAMFS_MAX_CHILDREN \<le> length (children (nodes s dir)) then Some (0, s)
             else do {
               (f, s) \<leftarrow> ram_alloc 200 s;
               (d, s) \<leftarrow> ram_alloc (of_nat (length text) + 1) s;
               let s = s\<lparr>contents_of := (contents_of s)(d := text)\<rparr>;
               let s = set_node f (empty_node\<lparr>node_name := take (RAMFS_MAX_NAME - 1) filename, node_type := RAMFS_FILE,
                         node_size := of_nat (length text), node_data := d, node_parent := dir\<rparr>) s;
               Some (f, set_node dir ((nodes s dir)\<lparr>children := children (nodes s dir) @ [f]\<rparr>) s)
             }
           })"

definition ramfs_delete_file :: "u8 list \<Rightarrow> ramfs \<Rightarrow> (u64 \<times> ramfs) option" where
  "ramfs_delete_file path s =
     (if ramfs_root s = 0 then Some (0, s)
      else do {
        (node, s) \<leftarrow> ramfs_find_node path False s;
        if node = 0 \<or> node_type (nodes s node) \<noteq> RAMFS_FILE then Some (0, s)
        else
          let par = node_parent (nodes s node)
          in if par = 0 then Some (0, s)
             else if node \<notin> set (children (nodes s par)) then Some (0, s)
             else
               let d = node_data (nodes s node);
                   s = set_node par ((nodes s par)\<lparr>children := remove1 node (children (nodes s par))\<rparr>) s
               in Some (par, ram_free node (ram_free d s))
      })"

definition ramfs_read_file :: "u8 list \<Rightarrow> ramfs \<Rightarrow> (u64 \<times> ramfs) option" where
  "ramfs_read_file path s = do {
     (node, s) \<leftarrow> ramfs_find_node path False s;
     if node = 0 \<or> node_type (nodes s node) \<noteq> RAMFS_FILE then Some (0, s) else Some (node, s)
   }"

text \<open>The entries printed, with their type; \<^const>\<open>None\<close> inside the result is the message that there is no directory.\<close>

definition ramfs_list_dir :: "u8 list \<Rightarrow> ramfs \<Rightarrow> (u8 list \<times> bool) list option option" where
  "ramfs_list_dir path s = do {
     (dir, s) \<leftarrow> ramfs_find_node (if path = [] then [slash] else path) False s;
     if dir = 0 \<or> node_type (nodes s dir) \<noteq> RAMFS_DIR then Some None
     else Some (Some (map (\<lambda>a. (node_name (nodes s a), node_type (nodes s a) = RAMFS_DIR)) (children (nodes s dir))))
   }"

definition ramfs_read_file_to_memory :: "u8 list \<Rightarrow> ramfs \<Rightarrow> (u64 \<times> u64 \<times> ramfs) option" where
  "ramfs_read_file_to_memory path s = do {
     (node, s) \<leftarrow> ramfs_find_node path False s;
     if node = 0 \<or> node_type (nodes s node) \<noteq> RAMFS_FILE then Some (0, 0, s)
     else do {
       let n = node_size (nodes s node);
       (buffer, s) \<leftarrow> ram_alloc n s;
       if buffer = 0 then Some (0, 0, s)
       else Some (buffer, n, s\<lparr>contents_of := (contents_of s)(buffer := take (unat n) (contents_of s (node_data (nodes s node))))\<rparr>)
     }
   }"

section \<open>The tree and the heap\<close>

definition heap_space :: "nat \<Rightarrow> ramfs \<Rightarrow> bool" where
  "heap_space k s \<longleftrightarrow> unat (heap_end (fst (kheap s))) + k \<le> unat (heap_max (fst (kheap s)))"

lemma ram_alloc_block:
  assumes inv: "heap_inv live (kheap s)" and n: "n \<noteq> 0" and sp: "heap_space (unat n + 23 + k) s"
  obtains p sz hp where "ram_alloc n s = Some (p, s\<lparr>kheap := hp\<rparr>)" "p \<noteq> 0" "live p = None" "n \<le> sz"
    "heap_inv (live(p \<mapsto> sz)) hp" "heap_space k (s\<lparr>kheap := hp\<rparr>)"
proof -
  have room: "heap_room n (kheap s)" using sp by (simp add: heap_room_def heap_space_def)
  obtain p sz hp where a: "kmalloc n (kheap s) = Some (p, hp)" "live p = None" "n \<le> sz" "heap_inv (live(p \<mapsto> sz)) hp"
    using kh.alloc_block [OF inv n room] by blast
  have "p \<noteq> 0" using kh.live_valid [OF a(4), of p sz] by simp
  moreover have "heap_space k (s\<lparr>kheap := hp\<rparr>)" using kmalloc_end [OF inv n room a(1)] sp by (simp add: heap_space_def)
  ultimately show thesis using a that [of p hp sz] by (simp add: ram_alloc_def)
qed

text \<open>
  The invariant: \<^term>\<open>N\<close> is the set of nodes.  Each is a live heap block; a node's children are nodes that name it as
  their parent; each file owns a live block with its contents, which is no node and belongs to no other file.
\<close>

definition node_ok :: "u64 set \<Rightarrow> (u64 \<rightharpoonup> u64) \<Rightarrow> ramfs \<Rightarrow> u64 \<Rightarrow> bool" where
  "node_ok N live s a \<longleftrightarrow> live a \<noteq> None
     \<and> set (children (nodes s a)) \<subseteq> N \<and> distinct (children (nodes s a)) \<and> length (children (nodes s a)) \<le> RAMFS_MAX_CHILDREN
     \<and> (\<forall>b\<in>set (children (nodes s a)). node_parent (nodes s b) = a)
     \<and> length (node_name (nodes s a)) < RAMFS_MAX_NAME
     \<and> (node_type (nodes s a) = RAMFS_FILE \<longrightarrow>
          live (node_data (nodes s a)) \<noteq> None \<and> node_data (nodes s a) \<notin> N
        \<and> unat (node_size (nodes s a)) = length (contents_of s (node_data (nodes s a)))
        \<and> (\<forall>b\<in>N. node_type (nodes s b) = RAMFS_FILE \<longrightarrow> node_data (nodes s b) = node_data (nodes s a) \<longrightarrow> b = a))"

definition tree_ok :: "u64 set \<Rightarrow> (u64 \<rightharpoonup> u64) \<Rightarrow> ramfs \<Rightarrow> bool" where
  "tree_ok N live s \<longleftrightarrow> heap_inv live (kheap s) \<and> ramfs_root s \<in> N \<and> node_type (nodes s (ramfs_root s)) = RAMFS_DIR
     \<and> node_parent (nodes s (ramfs_root s)) = 0 \<and> 0 \<notin> N \<and> (\<forall>a\<in>N. node_ok N live s a)"

definition ramfs_inv :: "ramfs \<Rightarrow> bool" where
  "ramfs_inv s \<longleftrightarrow> (\<exists>N live. tree_ok N live s)"

lemma tree_nodeD: "tree_ok N live s \<Longrightarrow> a \<in> N \<Longrightarrow> node_ok N live s a"
  by (simp add: tree_ok_def)

lemma node_live: "tree_ok N live s \<Longrightarrow> a \<in> N \<Longrightarrow> live a \<noteq> None"
  using tree_nodeD by (simp add: node_ok_def)

lemma find_child_in: "tree_ok N live s \<Longrightarrow> cur \<in> N \<Longrightarrow> find_child t cur s = Some a \<Longrightarrow> a \<in> N"
  using tree_nodeD [of N live s cur] by (auto simp: node_ok_def find_child_def find_Some_iff)

text \<open>Linking a fresh node under a node of the tree.\<close>

lemma link_ok:
  assumes ok: "tree_ok N live s" and cur: "cur \<in> N" and fresh: "a \<notin> N" "a \<noteq> 0" "live' a \<noteq> None"
    and mono: "\<And>b. live b \<noteq> None \<Longrightarrow> live' b = live b" and hp: "heap_inv live' hp"
    and few: "length (children (nodes s cur)) < RAMFS_MAX_CHILDREN"
    and nd: "node_parent nd = cur" "children nd = []" "length (node_name nd) < RAMFS_MAX_NAME"
    and na: "live a = None"
    and fl: "node_type nd = RAMFS_FILE \<Longrightarrow> live (node_data nd) = None \<and> live' (node_data nd) \<noteq> None \<and> node_data nd \<noteq> a
        \<and> unat (node_size nd) = length (cs (node_data nd))"
    and cs: "\<And>d. live d \<noteq> None \<Longrightarrow> cs d = contents_of s d"
  shows "tree_ok (insert a N) live' (s\<lparr>nodes := (nodes s)(a := nd, cur := (nodes s cur)\<lparr>children := children (nodes s cur) @ [a]\<rparr>),
     kheap := hp, contents_of := cs\<rparr>)"
proof -
  define s' where "s' = s\<lparr>nodes := (nodes s)(a := nd, cur := (nodes s cur)\<lparr>children := children (nodes s cur) @ [a]\<rparr>),
     kheap := hp, contents_of := cs\<rparr>"
  have ac: "a \<noteq> cur" using cur fresh by auto
  have liveN: "live b \<noteq> None" if "b \<in> N" for b using tree_nodeD [OF ok that] by (simp add: node_ok_def)
  have new: "nodes s' a = nd" using ac by (simp add: s'_def)
  have old: "node_parent (nodes s' b) = node_parent (nodes s b)" "node_type (nodes s' b) = node_type (nodes s b)"
      "node_name (nodes s' b) = node_name (nodes s b)" "node_data (nodes s' b) = node_data (nodes s b)"
      "node_size (nodes s' b) = node_size (nodes s b)"
      "children (nodes s' b) = (if b = cur then children (nodes s cur) @ [a] else children (nodes s b))" if "b \<in> N" for b
    using that fresh(1) by (auto simp: s'_def)
  have dat: "contents_of s' = cs" by (simp add: s'_def)
  have "node_ok (insert a N) live' s' b" if b: "b \<in> N" for b
  proof -
    have n: "node_ok N live s b" using tree_nodeD [OF ok b] .
    then have ch: "set (children (nodes s b)) \<subseteq> N" by (simp add: node_ok_def)
    then have "a \<notin> set (children (nodes s b))" using fresh(1) by blast
    then have "set (children (nodes s' b)) \<subseteq> insert a N" "distinct (children (nodes s' b))"
        "length (children (nodes s' b)) \<le> RAMFS_MAX_CHILDREN"
      using n ch few old(6) [OF b] by (auto simp: node_ok_def)
    moreover have "node_parent (nodes s' c) = b" if "c \<in> set (children (nodes s' b))" for c
    proof (cases "c = a")
      case True
      then have "b = cur" using that old(6) [OF b] \<open>a \<notin> set (children (nodes s b))\<close> by (auto split: if_splits)
      then show ?thesis using True new nd(1) by simp
    next
      case False
      then have "c \<in> set (children (nodes s b))" using that old(6) [OF b] by (auto split: if_splits)
      then show ?thesis using n ch old(1) by (auto simp: node_ok_def)
    qed
    moreover have "live' (node_data (nodes s' b)) \<noteq> None \<and> node_data (nodes s' b) \<notin> insert a N
        \<and> unat (node_size (nodes s' b)) = length (contents_of s' (node_data (nodes s' b)))
        \<and> (\<forall>c\<in>insert a N. node_type (nodes s' c) = RAMFS_FILE \<longrightarrow> node_data (nodes s' c) = node_data (nodes s' b) \<longrightarrow> c = b)"
      if f: "node_type (nodes s' b) = RAMFS_FILE"
    proof -
      have d: "live (node_data (nodes s b)) \<noteq> None" "node_data (nodes s b) \<notin> N"
          "unat (node_size (nodes s b)) = length (contents_of s (node_data (nodes s b)))"
          "\<forall>c\<in>N. node_type (nodes s c) = RAMFS_FILE \<longrightarrow> node_data (nodes s c) = node_data (nodes s b) \<longrightarrow> c = b"
        using n f old(2) [OF b] by (auto simp: node_ok_def)
      then show ?thesis using mono cs na fl new old dat b by (metis insert_iff)
    qed
    moreover have "live' b \<noteq> None" "length (node_name (nodes s' b)) < RAMFS_MAX_NAME" using n mono old(3) [OF b] by (auto simp: node_ok_def)
    ultimately show ?thesis unfolding node_ok_def by blast
  qed
  moreover have "node_ok (insert a N) live' s' a"
    using new nd fresh fl dat old(2,4) tree_nodeD [OF ok] liveN unfolding node_ok_def by (auto; metis)
  moreover have "ramfs_root s \<in> N" "node_type (nodes s' (ramfs_root s)) = RAMFS_DIR" "node_parent (nodes s' (ramfs_root s)) = 0" "0 \<notin> N"
    using ok old(1,2) by (auto simp: tree_ok_def)
  ultimately have "tree_ok (insert a N) live' s'" using fresh(2) hp by (simp add: tree_ok_def s'_def)
  then show ?thesis by (simp add: s'_def)
qed

text \<open>What happens outside the tree leaves it alone.\<close>

lemma tree_frame:
  assumes ok: "tree_ok N live s" and "heap_inv live' (kheap s')" and "ramfs_root s' = ramfs_root s"
    and mono: "\<And>b. live b \<noteq> None \<Longrightarrow> live' b = live b" and nd: "\<And>b. b \<in> N \<Longrightarrow> nodes s' b = nodes s b"
    and cs: "\<And>d. live d \<noteq> None \<Longrightarrow> contents_of s' d = contents_of s d"
  shows "tree_ok N live' s'"
proof -
  have "node_ok N live' s' a" if a: "a \<in> N" for a
  proof -
    have n: "node_ok N live s a" using tree_nodeD [OF ok a] .
    then have "\<forall>b\<in>set (children (nodes s a)). b \<in> N" by (auto simp: node_ok_def)
    then show ?thesis using n nd a mono cs unfolding node_ok_def by simp
  qed
  then show ?thesis using assms(1-3) nd by (simp add: tree_ok_def)
qed

text \<open>The tree only grows: names and types stay, children are appended.\<close>

definition grows :: "u64 set \<Rightarrow> ramfs \<Rightarrow> ramfs \<Rightarrow> bool" where
  "grows N s s' \<longleftrightarrow> ramfs_root s' = ramfs_root s
     \<and> (\<forall>a\<in>N. node_name (nodes s' a) = node_name (nodes s a) \<and> node_type (nodes s' a) = node_type (nodes s a)
          \<and> (\<exists>new. children (nodes s' a) = children (nodes s a) @ new))"

lemma grows_name: "grows N s s' \<Longrightarrow> b \<in> N \<Longrightarrow> node_name (nodes s' b) = node_name (nodes s b)"
  by (simp add: grows_def)

lemma grows_refl: "grows N s s"
  by (simp add: grows_def)

lemma grows_trans: "grows N s t \<Longrightarrow> grows M t u \<Longrightarrow> N \<subseteq> M \<Longrightarrow> grows N s u"
  unfolding grows_def by (metis append.assoc subsetD)

lemma find_append_Some: "find P xs = Some a \<Longrightarrow> find P (xs @ ys) = Some a"
  by (induction xs) auto

lemma find_append_None: "find P xs = None \<Longrightarrow> find P (xs @ ys) = find P ys"
  by (induction xs) auto

lemma find_cong_set: "(\<And>x. x \<in> set xs \<Longrightarrow> P x = Q x) \<Longrightarrow> find P xs = find Q xs"
  by (induction xs) auto

lemma find_names:
  assumes "tree_ok N live s" "cur \<in> N" and "\<And>b. b \<in> N \<Longrightarrow> node_name (nodes s' b) = node_name (nodes s b)"
  shows "find (\<lambda>a. node_name (nodes s' a) = t) (children (nodes s cur)) = find_child t cur s"
proof -
  have "set (children (nodes s cur)) \<subseteq> N" using tree_nodeD [OF assms(1,2)] by (simp add: node_ok_def)
  then show ?thesis using assms(3) unfolding find_child_def by (intro find_cong_set) auto
qed

lemma find_child_grows:
  assumes "tree_ok N live s" "cur \<in> N" "grows N s s'" "find_child t cur s = Some a"
  shows "find_child t cur s' = Some a"
proof -
  obtain new where "children (nodes s' cur) = children (nodes s cur) @ new" using assms(2,3) by (auto simp: grows_def)
  moreover have "find (\<lambda>a. node_name (nodes s' a) = t) (children (nodes s cur)) = Some a"
    using find_names [OF assms(1,2) grows_name [OF assms(3)], of t] assms(4) by simp
  ultimately show ?thesis using find_append_Some by (simp add: find_child_def)
qed

lemma find_child_last:
  assumes "tree_ok N live s" "cur \<in> N" "find_child t cur s = None"
    and "\<And>b. b \<in> N \<Longrightarrow> node_name (nodes s' b) = node_name (nodes s b)"
    and "children (nodes s' cur) = children (nodes s cur) @ [a]" "node_name (nodes s' a) = t"
  shows "find_child t cur s' = Some a"
  using find_names [OF assms(1,2,4), of t] assms(3,5,6) by (simp add: find_child_def find_append_None)

lemma add_dir_full:
  assumes ok: "tree_ok N live s" and p: "p \<notin> N" "live p = None" "heap_inv (live(p \<mapsto> sz)) hp"
    and s': "s' = set_node p nd (s\<lparr>kheap := hp\<rparr>)"
  shows "tree_ok N (live(p \<mapsto> sz)) s' \<and> grows N s s'"
proof -
  have n: "nodes s' b = nodes s b" if "b \<in> N" for b using that p(1) by (auto simp: s' set_node_def)
  have l: "(live(p \<mapsto> sz)) b = live b" if "live b \<noteq> None" for b using that p(2) by auto
  have "tree_ok N (live(p \<mapsto> sz)) s'"
    by (rule tree_frame [OF ok _ _ l n]) (use p(3) in \<open>simp_all add: s' set_node_def del: fun_upd_apply\<close>)
  then show ?thesis using n by (simp add: grows_def s' set_node_def)
qed

lemma add_dir_link:
  assumes ok: "tree_ok N live s" and cur: "cur \<in> N" and p: "p \<notin> N" "p \<noteq> 0" "live p = None" "heap_inv (live(p \<mapsto> sz)) hp"
    and few: "length (children (nodes s cur)) < RAMFS_MAX_CHILDREN"
    and nd: "nd = empty_node\<lparr>node_name := take (RAMFS_MAX_NAME - 1) t, node_type := RAMFS_DIR, node_parent := cur\<rparr>"
    and s': "s' = s\<lparr>nodes := (nodes s)(p := nd, cur := (nodes s cur)\<lparr>children := children (nodes s cur) @ [p]\<rparr>), kheap := hp\<rparr>"
  shows "tree_ok (insert p N) (live(p \<mapsto> sz)) s'" "grows N s s'"
    "find_child t cur s = None \<Longrightarrow> length t < RAMFS_MAX_NAME \<Longrightarrow> find_child t cur s' = Some p"
proof -
  have l: "(live(p \<mapsto> sz)) b = live b" if "live b \<noteq> None" for b using that p(3) by auto
  have n: "node_parent nd = cur" "children nd = []" "length (node_name nd) < RAMFS_MAX_NAME" "node_type nd \<noteq> RAMFS_FILE"
    by (simp_all add: nd empty_node_def RAMFS_MAX_NAME_def)
  have "tree_ok (insert p N) (live(p \<mapsto> sz)) (s\<lparr>nodes := (nodes s)(p := nd, cur := (nodes s cur)\<lparr>children := children (nodes s cur) @ [p]\<rparr>),
     kheap := hp, contents_of := contents_of s\<rparr>)"
    by (rule link_ok [OF ok cur p(1,2) _ l p(4) few n(1-3) p(3)]) (use n(4) in simp_all)
  then show "tree_ok (insert p N) (live(p \<mapsto> sz)) s'" by (simp add: s')
  have pc: "p \<noteq> cur" using p(1) cur by blast
  have "nodes s' b = (if b = cur then (nodes s cur)\<lparr>children := children (nodes s cur) @ [p]\<rparr> else nodes s b)" if "b \<in> N" for b
    using that p(1) by (auto simp: s')
  then have b: "node_name (nodes s' b) = node_name (nodes s b)" "node_type (nodes s' b) = node_type (nodes s b)"
      "\<exists>new. children (nodes s' b) = children (nodes s b) @ new" if "b \<in> N" for b
    using that by auto
  then show "grows N s s'" by (simp add: grows_def s')
  show "find_child t cur s' = Some p" if "find_child t cur s = None" "length t < RAMFS_MAX_NAME"
  proof (rule find_child_last [OF ok cur that(1) b(1)])
    show "children (nodes s' cur) = children (nodes s cur) @ [p]" by (simp add: s')
    show "node_name (nodes s' p) = t" using pc that(2) by (simp add: s' nd RAMFS_MAX_NAME_def)
  qed
qed

lemma add_dir_ok:
  assumes ok: "tree_ok N live s" and cur: "cur \<in> N" and sp: "heap_space (223 + k) s"
  shows "\<exists>p s' N' live'. add_dir t cur s = Some (p, s') \<and> tree_ok N' live' s' \<and> N \<subseteq> N' \<and> grows N s s' \<and> heap_space k s'
    \<and> (p = 0 \<or> p \<in> N') \<and> (p \<noteq> 0 \<longrightarrow> find_child t cur s = None \<longrightarrow> length t < RAMFS_MAX_NAME \<longrightarrow> find_child t cur s' = Some p)"
proof -
  have h: "heap_inv live (kheap s)" using ok by (simp add: tree_ok_def)
  have sp': "heap_space (unat (200 :: u64) + 23 + k) s" using sp by simp
  obtain p sz hp where a: "ram_alloc 200 s = Some (p, s\<lparr>kheap := hp\<rparr>)" "p \<noteq> 0" "live p = None" "heap_inv (live(p \<mapsto> sz)) hp"
      "heap_space k (s\<lparr>kheap := hp\<rparr>)"
    by (rule ram_alloc_block [OF h _ sp']) simp_all
  define nd where "nd = empty_node\<lparr>node_name := take (RAMFS_MAX_NAME - 1) t, node_type := RAMFS_DIR, node_parent := cur\<rparr>"
  have pN: "p \<notin> N" using node_live [OF ok] a(3) by blast
  then have pc: "p \<noteq> cur" using cur by blast
  show ?thesis
  proof (cases "RAMFS_MAX_CHILDREN \<le> length (children (nodes s cur))")
    case True
    define s' where "s' = set_node p nd (s\<lparr>kheap := hp\<rparr>)"
    have "add_dir t cur s = Some (0, s')" using a(1,2) True pc by (simp add: add_dir_def s'_def nd_def set_node_def)
    moreover have "heap_space k s'" using a(5) by (simp add: s'_def set_node_def heap_space_def)
    ultimately show ?thesis using add_dir_full [OF ok pN a(3,4) s'_def] by blast
  next
    case False
    define s' where "s' = s\<lparr>nodes := (nodes s)(p := nd, cur := (nodes s cur)\<lparr>children := children (nodes s cur) @ [p]\<rparr>), kheap := hp\<rparr>"
    have "add_dir t cur s = Some (p, s')" using a(1,2) False pc by (simp add: add_dir_def s'_def nd_def set_node_def)
    moreover have "heap_space k s'" using a(5) by (simp add: s'_def heap_space_def)
    moreover have few: "length (children (nodes s cur)) < RAMFS_MAX_CHILDREN" using False by simp
    ultimately show ?thesis using add_dir_link [OF ok cur pN a(2,3,4) few nd_def s'_def]
      by (intro exI [of _ p] exI [of _ s'] exI [of _ "insert p N"] exI [of _ "live(p \<mapsto> sz)"] conjI impI) (simp_all add: subset_insertI)
  qed
qed

lemma find_loop_lookup:
  "tree_ok N live s \<Longrightarrow> cur \<in> N \<Longrightarrow> \<exists>r. find_loop p False cur s = Some (r, s) \<and> (r = 0 \<or> r \<in> N)"
proof (induction "length p" arbitrary: p cur rule: less_induct)
  case less
  show ?case
  proof (cases "next_token p")
    case None
    then show ?thesis using less.prems by (subst find_loop.simps) simp
  next
    case (Some tp)
    obtain t p' where tp: "tp = (t, p')" by (cases tp)
    have lt: "length p' < length p" using next_token_shorter Some tp by simp
    show ?thesis
      using less.hyps [OF lt less.prems(1)] less.prems find_child_in [OF less.prems, of t] Some tp
      by (subst find_loop.simps) (auto split: option.splits)
  qed
qed

text \<open>All components of a path are short enough for the field \<^verbatim>\<open>name\<close>.\<close>

function short_path :: "u8 list \<Rightarrow> bool" where
  "short_path p = (case next_token p of None \<Rightarrow> True | Some (t, p') \<Rightarrow> length t < RAMFS_MAX_NAME \<and> short_path p')"
  by pat_completeness auto
termination
  by (relation "measure length") (auto dest: next_token_shorter)

declare short_path.simps [simp del]

lemma find_loop_create:
  assumes "tree_ok N live s" "cur \<in> N" "heap_space (223 * length p + k) s"
  shows "\<exists>r s' N' live'. find_loop p True cur s = Some (r, s') \<and> tree_ok N' live' s' \<and> N \<subseteq> N' \<and> grows N s s'
    \<and> heap_space k s' \<and> (r = 0 \<or> r \<in> N') \<and> (short_path p \<longrightarrow> r \<noteq> 0 \<longrightarrow> find_loop p False cur s' = Some (r, s'))"
  using assms
proof (induction "length p" arbitrary: p cur s N live rule: less_induct)
  case less
  show ?case
  proof (cases "next_token p")
    case None
    then have "find_loop p b cur u = Some (cur, u)" for b u by (subst find_loop.simps) simp
    moreover have "heap_space k s" using less.prems(3) by (simp add: heap_space_def)
    ultimately show ?thesis using less.prems(1,2) grows_refl by blast
  next
    case (Some tp)
    obtain t p' where tp: "next_token p = Some (t, p')" using Some by (cases tp) simp
    have lt: "length p' < length p" using next_token_shorter [OF tp] .
    have step: "find_loop p b cur u = (if t = [] then find_loop p' b cur u else case find_child t cur u of
          Some a \<Rightarrow> find_loop p' b a u
        | None \<Rightarrow> if \<not> b then Some (0, u) else do { (new_node, u) \<leftarrow> add_dir t cur u; if new_node = 0 then Some (0, u) else find_loop p' b new_node u })"
      for b u by (subst find_loop.simps) (simp add: tp)
    have short: "short_path p \<longleftrightarrow> length t < RAMFS_MAX_NAME \<and> short_path p'" by (subst short_path.simps) (simp add: tp)
    have sp: "heap_space (223 + (223 * length p' + k)) s" using less.prems(3) lt by (simp add: heap_space_def)
    then have sp': "heap_space (223 * length p' + k) s" by (simp add: heap_space_def)
    note ih = less.hyps [OF lt]
    show ?thesis
    proof (cases "t = []")
      case True
      then show ?thesis using ih [OF less.prems(1,2) sp'] by (simp add: step short RAMFS_MAX_NAME_def)
    next
      case ne: False
      show ?thesis
      proof (cases "find_child t cur s")
        case (Some a)
        then have a: "a \<in> N" using find_child_in less.prems by blast
        from ih [OF less.prems(1) a sp'] find_child_grows [OF less.prems(1,2) _ Some] show ?thesis
          using Some ne by (fastforce simp: step short)
      next
        case None
        from add_dir_ok [OF less.prems(1,2) sp, of t]
        obtain q s1 N1 live1 where q: "add_dir t cur s = Some (q, s1)" "tree_ok N1 live1 s1" "N \<subseteq> N1" "grows N s s1"
            "heap_space (223 * length p' + k) s1" "q = 0 \<or> q \<in> N1"
            "q \<noteq> 0 \<longrightarrow> find_child t cur s = None \<longrightarrow> length t < RAMFS_MAX_NAME \<longrightarrow> find_child t cur s1 = Some q"
          by (elim exE conjE) (rule that)
        show ?thesis
        proof (cases "q = 0")
          case True
          then have "find_loop p True cur s = Some (0, s1)" using None ne q(1) by (simp add: step)
          moreover have "heap_space k s1" using q(5) by (simp add: heap_space_def)
          ultimately show ?thesis using q(2-4) by blast
        next
          case False
          then have "q \<in> N1" using q(6) by blast
          from ih [OF q(2) this q(5)] obtain r s' N' live' where r: "find_loop p' True q s1 = Some (r, s')" "tree_ok N' live' s'"
              "N1 \<subseteq> N'" "grows N1 s1 s'" "heap_space k s'" "r = 0 \<or> r \<in> N'"
              "short_path p' \<longrightarrow> r \<noteq> 0 \<longrightarrow> find_loop p' False q s' = Some (r, s')" by blast
          have "find_loop p True cur s = Some (r, s')" using None ne q(1) False r(1) by (simp add: step)
          moreover have "find_loop p False cur s' = Some (r, s')" if "short_path p" "r \<noteq> 0"
            using that r(7) find_child_grows [OF q(2) _ r(4), of cur t q] q(7) False None less.prems(2) q(3) ne by (auto simp: step short)
          moreover have "grows N s s'" using grows_trans [OF q(4) r(4) q(3)] .
          ultimately show ?thesis using r q(3) by blast
        qed
      qed
    qed
  qed
qed

lemma find_node_create:
  assumes ok: "tree_ok N live s" and sp: "heap_space (223 * 255 + k) s"
  shows "\<exists>r s' N' live'. ramfs_find_node path True s = Some (r, s') \<and> tree_ok N' live' s' \<and> N \<subseteq> N' \<and> grows N s s'
    \<and> heap_space k s' \<and> (r = 0 \<or> r \<in> N')
    \<and> (short_path (take 255 path) \<longrightarrow> r \<noteq> 0 \<longrightarrow> ramfs_find_node path False s' = Some (r, s'))"
proof -
  have root: "ramfs_root s \<in> N" "ramfs_root s \<noteq> 0" using ok by (auto simp: tree_ok_def)
  show ?thesis
  proof (cases "path = [] \<or> path = [slash]")
    case True
    moreover have "heap_space k s" using sp by (simp add: heap_space_def)
    ultimately show ?thesis using root ok grows_refl by (auto simp: ramfs_find_node_def)
  next
    case False
    have "heap_space (223 * length (take 255 path) + k) s" using sp by (simp add: heap_space_def)
    from find_loop_create [OF ok root(1) this] obtain r s' N' live' where
        r: "find_loop (take 255 path) True (ramfs_root s) s = Some (r, s')" "tree_ok N' live' s'" "N \<subseteq> N'" "grows N s s'"
        "heap_space k s'" "r = 0 \<or> r \<in> N'"
        "short_path (take 255 path) \<longrightarrow> r \<noteq> 0 \<longrightarrow> find_loop (take 255 path) False (ramfs_root s) s' = Some (r, s')" by blast
    moreover have "ramfs_find_node path b u = find_loop (take 255 path) b (ramfs_root s) u" if "ramfs_root u = ramfs_root s" for b u
      using False root(2) that by (simp add: ramfs_find_node_def)
    moreover have "ramfs_root s' = ramfs_root s" using r(4) by (simp add: grows_def)
    ultimately show ?thesis by auto
  qed
qed

lemma find_node_lookup:
  assumes "tree_ok N live s"
  obtains r where "ramfs_find_node path False s = Some (r, s)" "r = 0 \<or> r \<in> N"
proof -
  have root: "ramfs_root s \<in> N" using assms by (simp add: tree_ok_def)
  obtain r where "find_loop (take 255 path) False (ramfs_root s) s = Some (r, s)" "r = 0 \<or> r \<in> N"
    using find_loop_lookup [OF assms root] by blast
  then have "\<exists>r. ramfs_find_node path False s = Some (r, s) \<and> (r = 0 \<or> r \<in> N)"
    using root by (simp add: ramfs_find_node_def)
  then show thesis using that by blast
qed

section \<open>The operations keep the tree\<close>

lemma ramfs_init_inv:
  assumes "heap_inv Map.empty (kheap s)" and "heap_space (223 + k) s"
  shows "\<exists>s'. ramfs_init s = Some s' \<and> ramfs_inv s' \<and> heap_space k s'"
proof -
  have sp: "heap_space (unat (200 :: u64) + 23 + k) s" using assms(2) by simp
  obtain p sz hp where a: "ram_alloc 200 s = Some (p, s\<lparr>kheap := hp\<rparr>)" "p \<noteq> 0" "heap_inv (Map.empty(p \<mapsto> sz)) hp"
      "heap_space k (s\<lparr>kheap := hp\<rparr>)"
    by (rule ram_alloc_block [OF assms(1) _ sp]) simp_all
  define s' where "s' = set_node p (empty_node\<lparr>node_type := RAMFS_DIR\<rparr>) (s\<lparr>kheap := hp, ramfs_root := p\<rparr>)"
  have "ramfs_init s = Some s'" using a(1,2) by (simp add: ramfs_init_def s'_def)
  moreover have "tree_ok {p} (Map.empty(p \<mapsto> sz)) s'"
    using a(2,3) by (simp add: tree_ok_def node_ok_def s'_def set_node_def empty_node_def RAMFS_MAX_NAME_def)
  moreover have "heap_space k s'" using a(4) by (simp add: s'_def set_node_def heap_space_def)
  ultimately show ?thesis unfolding ramfs_inv_def by blast
qed

lemma link_file:
  assumes ok: "tree_ok N live s" and dir: "dir \<in> N" and f: "f \<notin> N" "f \<noteq> 0" "live f = None" and d: "d \<noteq> f" "live d = None"
    and h: "heap_inv (live(f \<mapsto> m, d \<mapsto> k)) hq" and few: "length (children (nodes s dir)) < RAMFS_MAX_CHILDREN"
    and sz: "unat sz = length text"
    and nd: "nd = empty_node\<lparr>node_name := take (RAMFS_MAX_NAME - 1) fn, node_type := RAMFS_FILE, node_size := sz, node_data := d, node_parent := dir\<rparr>"
    and s': "s' = s\<lparr>nodes := (nodes s)(f := nd, dir := (nodes s dir)\<lparr>children := children (nodes s dir) @ [f]\<rparr>), kheap := hq,
       contents_of := (contents_of s)(d := text)\<rparr>"
  shows "tree_ok (insert f N) (live(f \<mapsto> m, d \<mapsto> k)) s'" "grows N s s'"
    "find_child fn dir s = None \<Longrightarrow> length fn < RAMFS_MAX_NAME \<Longrightarrow> find_child fn dir s' = Some f"
    "nodes s' f = nd" "contents_of s' d = text"
proof -
  have l: "(live(f \<mapsto> m, d \<mapsto> k)) b = live b" if "live b \<noteq> None" for b using that f(3) d(2) by auto
  have n: "node_parent nd = dir" "children nd = []" "length (node_name nd) < RAMFS_MAX_NAME" "node_data nd = d" "node_size nd = sz"
    by (simp_all add: nd empty_node_def RAMFS_MAX_NAME_def)
  have c: "((contents_of s)(d := text)) b = contents_of s b" if "live b \<noteq> None" for b using that d(2) by auto
  show "tree_ok (insert f N) (live(f \<mapsto> m, d \<mapsto> k)) s'" unfolding s'
    by (rule link_ok [OF ok dir f(1,2) _ l h few n(1-3) f(3) _ c]) (use d sz n in auto)
  have fd: "f \<noteq> dir" using f(1) dir by blast
  show "nodes s' f = nd" "contents_of s' d = text" using fd by (simp_all add: s')
  have "nodes s' b = (if b = dir then (nodes s dir)\<lparr>children := children (nodes s dir) @ [f]\<rparr> else nodes s b)" if "b \<in> N" for b
    using that f(1) by (auto simp: s')
  then have b: "node_name (nodes s' b) = node_name (nodes s b)" "node_type (nodes s' b) = node_type (nodes s b)"
      "\<exists>new. children (nodes s' b) = children (nodes s b) @ new" if "b \<in> N" for b
    using that by auto
  then show "grows N s s'" by (simp add: grows_def s')
  show "find_child fn dir s' = Some f" if "find_child fn dir s = None" "length fn < RAMFS_MAX_NAME"
  proof (rule find_child_last [OF ok dir that(1) b(1)])
    show "children (nodes s' dir) = children (nodes s dir) @ [f]" by (simp add: s')
    show "node_name (nodes s' f) = fn" using fd that(2) by (simp add: s' nd RAMFS_MAX_NAME_def)
  qed
qed

text \<open>The two allocations of a new file and its node.\<close>

lemma create_link:
  assumes ok: "tree_ok N live s" and dir: "dir \<in> N" and sp: "heap_space (length text + 300) s" and len: "length text < 2 ^ 32"
    and few: "length (children (nodes s dir)) < RAMFS_MAX_CHILDREN" and none: "find_child fn dir s = None"
  shows "\<exists>f d s1 s2 s' N' live'. ram_alloc 200 s = Some (f, s1) \<and> ram_alloc (of_nat (length text) + 1) s1 = Some (d, s2)
    \<and> s' = set_node dir ((nodes s2 dir)\<lparr>children := children (nodes s2 dir) @ [f]\<rparr>)
        (set_node f (empty_node\<lparr>node_name := take (RAMFS_MAX_NAME - 1) fn, node_type := RAMFS_FILE,
           node_size := of_nat (length text), node_data := d, node_parent := dir\<rparr>) (s2\<lparr>contents_of := (contents_of s2)(d := text)\<rparr>))
    \<and> tree_ok N' live' s' \<and> grows N s s' \<and> f \<noteq> 0 \<and> f \<in> N' \<and> f \<notin> N
    \<and> (length fn < RAMFS_MAX_NAME \<longrightarrow> find_child fn dir s' = Some f)
    \<and> node_type (nodes s' f) = RAMFS_FILE \<and> unat (node_size (nodes s' f)) = length text \<and> contents_of s' (node_data (nodes s' f)) = text"
proof -
  have h: "heap_inv live (kheap s)" using ok by (simp add: tree_ok_def)
  have sp1: "heap_space (unat (200 :: u64) + 23 + (length text + 77)) s"
    using sp by (simp add: heap_space_def)
  obtain f m hp where f: "ram_alloc 200 s = Some (f, s\<lparr>kheap := hp\<rparr>)" "f \<noteq> 0" "live f = None" "heap_inv (live(f \<mapsto> m)) hp"
      "heap_space (length text + 77) (s\<lparr>kheap := hp\<rparr>)"
    by (rule ram_alloc_block [OF h _ sp1]) simp_all
  define s1 where "s1 = s\<lparr>kheap := hp\<rparr>"
  define n :: u64 where "n = of_nat (length text) + 1"
  have "n = of_nat (length text + 1)" by (simp add: n_def)
  moreover have "length text + 1 < 2 ^ LENGTH(64)" using len by simp
  ultimately have n: "unat n = length text + 1" by (simp only: unat_of_nat_small)
  then have n0: "n \<noteq> 0" by (metis Suc_eq_plus1 nat.distinct(1) unat_0)
  have sp2: "heap_space (unat n + 23 + 0) s1" using f(5) n by (simp add: s1_def heap_space_def)
  have h1: "heap_inv (live(f \<mapsto> m)) (kheap s1)" using f(4) by (simp add: s1_def del: fun_upd_apply)
  obtain d k hq where d: "ram_alloc n s1 = Some (d, s1\<lparr>kheap := hq\<rparr>)" "d \<noteq> 0" "(live(f \<mapsto> m)) d = None" "heap_inv (live(f \<mapsto> m, d \<mapsto> k)) hq"
    by (rule ram_alloc_block [OF h1 n0 sp2]) (rule that)
  define s2 where "s2 = s1\<lparr>kheap := hq\<rparr>"
  have df: "d \<noteq> f" "live d = None" using d(3) by (auto split: if_splits)
  define nd where "nd = empty_node\<lparr>node_name := take (RAMFS_MAX_NAME - 1) fn, node_type := RAMFS_FILE,
           node_size := of_nat (length text), node_data := d, node_parent := dir\<rparr>"
  define s' where "s' = s\<lparr>nodes := (nodes s)(f := nd, dir := (nodes s dir)\<lparr>children := children (nodes s dir) @ [f]\<rparr>), kheap := hq,
       contents_of := (contents_of s)(d := text)\<rparr>"
  have fN: "f \<notin> N" using node_live [OF ok] f(3) by blast
  then have fd: "f \<noteq> dir" using dir by blast
  have sz: "unat (of_nat (length text) :: u64) = length text" using len by (simp add: unat_of_nat_small)
  note link = link_file [OF ok dir fN f(2,3) df d(4) few sz nd_def s'_def]
  have s': "s' = set_node dir ((nodes s2 dir)\<lparr>children := children (nodes s2 dir) @ [f]\<rparr>)
     (set_node f nd (s2\<lparr>contents_of := (contents_of s2)(d := text)\<rparr>))" "nodes s2 dir = nodes s dir"
    by (simp_all add: s'_def set_node_def s2_def s1_def)
  have A: "ram_alloc 200 s = Some (f, s1)" "ram_alloc (of_nat (length text) + 1) s1 = Some (d, s2)"
    using f(1) d(1) unfolding s1_def s2_def n_def .
  have B: "length fn < RAMFS_MAX_NAME \<longrightarrow> find_child fn dir s' = Some f" using link(3) none by blast
  have C: "node_type (nodes s' f) = RAMFS_FILE" "unat (node_size (nodes s' f)) = length text" "contents_of s' (node_data (nodes s' f)) = text"
    unfolding link(4) using link(5) sz by (simp_all add: nd_def)
  show ?thesis
    by (intro exI conjI; (fact A s'(1) [unfolded nd_def] link(1,2) f(2) insertI1 subset_insertI fN B C)?)
qed

lemma unlink_ok:
  assumes ok: "tree_ok N live s" and nd: "node \<in> N" "node_type (nodes s node) = RAMFS_FILE" and par: "par = node_parent (nodes s node)"
    and d: "d = node_data (nodes s node)"
    and s': "s' = set_node par ((nodes s par)\<lparr>children := remove1 node (children (nodes s par))\<rparr>) s"
  shows "tree_ok (N - {node}) (live(d := None, node := None)) (ram_free node (ram_free d s'))"
proof -
  have n: "node_ok N live s node" using tree_nodeD [OF ok nd(1)] .
  then have dl: "live d \<noteq> None" "d \<notin> N" and du: "\<forall>b\<in>N. node_type (nodes s b) = RAMFS_FILE \<longrightarrow> node_data (nodes s b) = d \<longrightarrow> b = node"
    using nd(2) d by (simp_all add: node_ok_def)
  then have dn: "d \<noteq> node" using nd(1) by blast
  have hp: "heap_inv (live(d := None, node := None)) (kfree node (kfree d (kheap s)))"
    using kh.release_block [OF kh.release_block, of live "kheap s" d _ node] dl(1) dn node_live [OF ok nd(1)] ok by (fastforce simp: tree_ok_def)
  have f: "node_name (nodes s' b) = node_name (nodes s b)" "node_type (nodes s' b) = node_type (nodes s b)"
      "node_parent (nodes s' b) = node_parent (nodes s b)" "node_data (nodes s' b) = node_data (nodes s b)"
      "node_size (nodes s' b) = node_size (nodes s b)"
      "children (nodes s' b) = (if b = par then remove1 node (children (nodes s par)) else children (nodes s b))" for b
    by (simp_all add: s' set_node_def)
  have "node_ok (N - {node}) (live(d := None, node := None)) s' a" if a: "a \<in> N" "a \<noteq> node" for a
  proof -
    have k: "node_ok N live s a" using tree_nodeD [OF ok a(1)] .
    then have ch: "set (children (nodes s' a)) = set (children (nodes s a)) - {node}"
    proof (cases "a = par")
      case False
      then have "node \<notin> set (children (nodes s a))" using k par by (auto simp: node_ok_def)
      then show ?thesis using False f(6) by simp
    qed (use k f(6) in \<open>simp add: node_ok_def set_remove1_eq\<close>)
    have "distinct (children (nodes s' a))" "length (children (nodes s' a)) \<le> RAMFS_MAX_CHILDREN"
      using k f(6) by (auto simp: node_ok_def length_remove1 split: if_splits)
    moreover have "set (children (nodes s' a)) \<subseteq> N - {node}" "\<forall>b\<in>set (children (nodes s' a)). node_parent (nodes s' b) = a"
      using k ch f(3) by (auto simp: node_ok_def)
    moreover have "a \<noteq> d" "node_type (nodes s a) = RAMFS_FILE \<Longrightarrow> node_data (nodes s a) \<noteq> d \<and> node_data (nodes s a) \<noteq> node"
      using a dl(2) du k nd(1) by (auto simp: node_ok_def)
    moreover have "contents_of s' = contents_of s" by (simp add: s' set_node_def)
    ultimately show ?thesis using k a f(1-5) unfolding node_ok_def by auto
  qed
  moreover have "ramfs_root s \<noteq> node" "ramfs_root s' = ramfs_root s" "kheap s' = kheap s"
    using ok nd(2) by (auto simp: tree_ok_def s' set_node_def)
  ultimately show ?thesis
    using ok f hp unfolding tree_ok_def node_ok_def by (simp add: ram_free_def del: fun_upd_apply)
qed

lemma mkdir_keeps:
  assumes ok: "tree_ok N live s" and sp: "heap_space (223 * 255 + k) s"
  shows "\<exists>r s'. ramfs_mkdir path s = Some (r, s') \<and> ramfs_inv s'"
proof -
  from find_node_create [OF ok sp] obtain r s' N' live' where "ramfs_find_node path True s = Some (r, s')" "tree_ok N' live' s'" by blast
  moreover have "ramfs_root s \<noteq> 0" using ok by (auto simp: tree_ok_def)
  ultimately show ?thesis unfolding ramfs_inv_def by (auto simp: ramfs_mkdir_def)
qed

text \<open>Creating a file, on every branch.\<close>

lemma create_cases:
  assumes ok: "tree_ok N live s" and sp: "heap_space (223 * 255 + (length text + 300)) s" and len: "length text < 2 ^ 32"
  obtains (refused) s' where "ramfs_create_file path text s = Some (0, s')" "ramfs_inv s'"
  | (created) dir s1 f s' N1 N' live1 live' where "ramfs_create_file path text s = Some (f, s')" "f \<noteq> 0" "tree_ok N' live' s'"
      "ramfs_find_node (takeWhile (\<lambda>c. c \<noteq> slash) (take 255 path)) True s = Some (dir, s1)" "tree_ok N1 live1 s1" "dir \<in> N1"
      "grows N1 s1 s'" "short_path (takeWhile (\<lambda>c. c \<noteq> slash) (take 255 path)) \<longrightarrow>
         ramfs_find_node (takeWhile (\<lambda>c. c \<noteq> slash) (take 255 path)) False s1 = Some (dir, s1)"
      "length (drop 1 (dropWhile (\<lambda>c. c \<noteq> slash) (take 255 path))) < RAMFS_MAX_NAME \<longrightarrow>
         find_child (drop 1 (dropWhile (\<lambda>c. c \<noteq> slash) (take 255 path))) dir s' = Some f"
      "node_type (nodes s' f) = RAMFS_FILE" "unat (node_size (nodes s' f)) = length text" "contents_of s' (node_data (nodes s' f)) = text"
proof -
  define dn where "dn = takeWhile (\<lambda>c. c \<noteq> slash) (take 255 path)"
  define fn where "fn = drop 1 (dropWhile (\<lambda>c. c \<noteq> slash) (take 255 path))"
  note eq = ramfs_create_file_def [of path "text" s, unfolded Let_def, folded dn_def fn_def]
  have root: "ramfs_root s \<noteq> 0" using ok by (auto simp: tree_ok_def)
  have dt: "take 255 dn = dn" unfolding dn_def by (rule take_all) (rule order_trans [OF length_takeWhile_le], simp)
  from find_node_create [OF ok sp, of dn] obtain dir s1 N1 live1 where d: "ramfs_find_node dn True s = Some (dir, s1)"
      "tree_ok N1 live1 s1" "heap_space (length text + 300) s1" "dir = 0 \<or> dir \<in> N1"
      "short_path dn \<longrightarrow> dir \<noteq> 0 \<longrightarrow> ramfs_find_node dn False s1 = Some (dir, s1)" unfolding dt by blast
  have z: "0 \<notin> N1" using d(2) by (simp add: tree_ok_def)
  let ?ok = "slash \<in> set (take 255 path) \<and> dn \<noteq> [] \<and> fn \<noteq> [] \<and> dir \<noteq> 0 \<and> node_type (nodes s1 dir) = RAMFS_DIR
    \<and> find_child fn dir s1 = None \<and> length (children (nodes s1 dir)) < RAMFS_MAX_CHILDREN"
  show thesis
  proof (cases ?ok)
    case False
    then have "\<exists>s'. ramfs_create_file path text s = Some (0, s') \<and> s' \<in> {s, s1}"
      using root d(1) by (auto simp: eq not_less)
    then show thesis using refused ok d(2) unfolding ramfs_inv_def by blast
  next
    case True
    then have dir: "dir \<in> N1" and few: "length (children (nodes s1 dir)) < RAMFS_MAX_CHILDREN" and none: "find_child fn dir s1 = None"
      using d(4) by auto
    from create_link [OF d(2) dir d(3) len few none] obtain f b t1 t2 s' N' live' where
        c: "ram_alloc 200 s1 = Some (f, t1)" "ram_alloc (of_nat (length text) + 1) t1 = Some (b, t2)"
        "s' = set_node dir ((nodes t2 dir)\<lparr>children := children (nodes t2 dir) @ [f]\<rparr>)
        (set_node f (empty_node\<lparr>node_name := take (RAMFS_MAX_NAME - 1) fn, node_type := RAMFS_FILE,
           node_size := of_nat (length text), node_data := b, node_parent := dir\<rparr>) (t2\<lparr>contents_of := (contents_of t2)(b := text)\<rparr>))"
        "tree_ok N' live' s'" "grows N1 s1 s'" "f \<noteq> 0" "f \<in> N'" "f \<notin> N1"
        "length fn < RAMFS_MAX_NAME \<longrightarrow> find_child fn dir s' = Some f"
        "node_type (nodes s' f) = RAMFS_FILE" "unat (node_size (nodes s' f)) = length text" "contents_of s' (node_data (nodes s' f)) = text"
      by (elim exE conjE) (rule that)
    have "f \<noteq> dir" using c(8) dir by blast
    then have run: "ramfs_create_file path text s = Some (f, s')"
      using root d(1) True c(1-3) by (simp add: eq set_node_def)
    have l: "short_path dn \<longrightarrow> ramfs_find_node dn False s1 = Some (dir, s1)" using d(5) True by blast
    show thesis
      by (rule created [OF run c(6,4) d(1) [unfolded dn_def] d(2) dir c(5) l [unfolded dn_def] c(9) [unfolded fn_def] c(10-12)])
  qed
qed

lemma next_token_last: "slash \<notin> set t \<Longrightarrow> t \<noteq> [] \<Longrightarrow> next_token t = Some (t, [])"
proof -
  assume t: "slash \<notin> set t" "t \<noteq> []"
  then have "dropWhile (\<lambda>c. c = slash) t = t" by (cases t) auto
  then have u: "dropWhile (\<lambda>c. c = slash) t = t" .
  have tw: "takeWhile (\<lambda>c. c \<noteq> slash) t = t" and "dropWhile (\<lambda>c. c \<noteq> slash) t = []"
    using t(1) by (auto simp: takeWhile_eq_all_conv dropWhile_eq_Nil_conv)
  then have dw: "drop 1 (dropWhile (\<lambda>c. c \<noteq> slash) t) = []" by (simp only: drop_Nil)
  show ?thesis unfolding next_token_def Let_def u tw dw using t(2) by (simp only: if_False)
qed

lemma takeWhile_slash: "slash \<notin> set d \<Longrightarrow> takeWhile (\<lambda>c. c \<noteq> slash) (d @ slash # f) = d"
    "slash \<notin> set d \<Longrightarrow> dropWhile (\<lambda>c. c \<noteq> slash) (d @ slash # f) = slash # f"
  by (induction d) auto

lemma next_token_first:
  assumes "slash \<notin> set d" "d \<noteq> []"
  shows "next_token (d @ slash # f) = Some (d, f)"
proof -
  have "dropWhile (\<lambda>c. c = slash) (d @ slash # f) = d @ slash # f" using assms by (cases d) auto
  then show ?thesis using takeWhile_slash [OF assms(1), of f] by (simp add: next_token_def Let_def)
qed

lemma next_token_nil: "next_token [] = None"
  by (simp add: next_token_def)

lemma find_node_one:
  assumes "slash \<notin> set d" "d \<noteq> []" "length d \<le> 255" "ramfs_root s \<noteq> 0"
  shows "ramfs_find_node d False s = Some (case find_child d (ramfs_root s) s of Some a \<Rightarrow> (a, s) | None \<Rightarrow> (0, s))"
proof -
  have "d \<noteq> [slash]" using assms(1) by auto
  then show ?thesis using assms
    by (simp add: ramfs_find_node_def find_loop.simps [of d] find_loop.simps [of "[]"] next_token_last next_token_nil split: option.splits)
qed

lemma find_node_two:
  assumes d: "slash \<notin> set d" "d \<noteq> []" and f: "slash \<notin> set f" "f \<noteq> []" and len: "length d + length f < 255" and root: "ramfs_root s \<noteq> 0"
    and a: "find_child d (ramfs_root s) s = Some dir" "find_child f dir s = Some x"
  shows "ramfs_find_node (d @ slash # f) False s = Some (x, s)"
proof -
  have "d @ slash # f \<noteq> [slash]" using d by (cases d) auto
  moreover have "take 255 (d @ slash # f) = d @ slash # f" using len by simp
  ultimately show ?thesis using root d f a
    by (simp only: ramfs_find_node_def)
      (simp add: find_loop.simps [of "d @ slash # f"] find_loop.simps [of f] find_loop.simps [of "[]"] next_token_first next_token_last next_token_nil)
qed

lemma created_found:
  assumes inv: "ramfs_inv s" and d: "slash \<notin> set d" "d \<noteq> []" "length d < 32" and f: "slash \<notin> set f" "f \<noteq> []" "length f < 32"
    and sp: "heap_space (223 * 255 + (length text + 300)) s" and len: "length text < 2 ^ 32"
    and run: "ramfs_create_file (d @ slash # f) text s = Some (x, s')" "x \<noteq> 0"
  shows "ramfs_inv s'" "ramfs_find_node (d @ slash # f) False s' = Some (x, s')" "node_type (nodes s' x) = RAMFS_FILE"
    "unat (node_size (nodes s' x)) = length text" "contents_of s' (node_data (nodes s' x)) = text"
proof -
  obtain N live where ok: "tree_ok N live s" using inv by (auto simp: ramfs_inv_def)
  have p: "take 255 (d @ slash # f) = d @ slash # f" using d f by simp
  note tw = takeWhile_slash [OF d(1), of f]
  have sh: "short_path d" using d by (simp add: short_path.simps [of d] short_path.simps [of "[]"] next_token_last next_token_nil RAMFS_MAX_NAME_def)
  have "ramfs_inv s' \<and> ramfs_find_node (d @ slash # f) False s' = Some (x, s') \<and> node_type (nodes s' x) = RAMFS_FILE
      \<and> unat (node_size (nodes s' x)) = length text \<and> contents_of s' (node_data (nodes s' x)) = text"
  proof (cases rule: create_cases [OF ok sp len, of "d @ slash # f", unfolded p tw])
    case (1 t)
    then show ?thesis using run by simp
  next
    case (2 dir s1 y u N1 N' live1 live')
    have e: "y = x" "u = s'" using 2(1) run by simp_all
    have r1: "ramfs_root s1 \<in> N1" "ramfs_root s1 \<noteq> 0" using 2(5) by (auto simp: tree_ok_def)
    have "ramfs_find_node d False s1 = Some (dir, s1)" using 2(8) sh by blast
    moreover have "dir \<noteq> 0" using 2(5,6) by (auto simp: tree_ok_def)
    ultimately have "find_child d (ramfs_root s1) s1 = Some dir"
      using find_node_one [OF d(1,2) _ r1(2)] d(3) by (auto split: option.splits)
    then have c: "find_child d (ramfs_root s1) u = Some dir" using find_child_grows [OF 2(5) r1(1) 2(7)] by blast
    have ru: "ramfs_root u = ramfs_root s1" using 2(7) by (simp add: grows_def)
    have "find_child f dir u = Some y" using 2(9) f(3) by (simp add: RAMFS_MAX_NAME_def)
    then have "ramfs_find_node (d @ slash # f) False u = Some (y, u)"
      using find_node_two [OF d(1,2) f(1,2) _ _ _ , of u dir y] d(3) f(3) c ru r1(2) by simp
    then show ?thesis using 2(3,10-12) e unfolding ramfs_inv_def by blast
  qed
  then show "ramfs_inv s'" "ramfs_find_node (d @ slash # f) False s' = Some (x, s')" "node_type (nodes s' x) = RAMFS_FILE"
    "unat (node_size (nodes s' x)) = length text" "contents_of s' (node_data (nodes s' x)) = text" by simp_all
qed

section \<open>Properties\<close>

lemma kmalloc_zero: "kmalloc 0 h = Some (0, h)"
  by (simp add: kmalloc_def split: prod.splits)

lemma read_to_memory_ok:
  assumes inv: "ramfs_inv s" and sp: "\<And>a. heap_space (unat (node_size (nodes s a)) + 23) s \<or> node_size (nodes s a) = 0"
  shows "\<exists>b n s'. ramfs_read_file_to_memory path s = Some (b, n, s') \<and> ramfs_inv s'"
proof -
  obtain N live where ok: "tree_ok N live s" using inv by (auto simp: ramfs_inv_def)
  obtain r where r: "ramfs_find_node path False s = Some (r, s)" using find_node_lookup [OF ok] .
  define n where "n = node_size (nodes s r)"
  have h: "heap_inv live (kheap s)" using ok by (simp add: tree_ok_def)
  show ?thesis
  proof (cases "r = 0 \<or> node_type (nodes s r) \<noteq> RAMFS_FILE \<or> n = 0")
    case True
    then show ?thesis using r inv by (auto simp: ramfs_read_file_to_memory_def n_def ram_alloc_def kmalloc_zero)
  next
    case False
    then have n0: "n \<noteq> 0" and sp': "heap_space (unat n + 23 + 0) s" using sp [of r] by (auto simp: n_def)
    obtain p sz hp where a: "ram_alloc n s = Some (p, s\<lparr>kheap := hp\<rparr>)" "p \<noteq> 0" "live p = None" "heap_inv (live(p \<mapsto> sz)) hp"
      by (rule ram_alloc_block [OF h n0 sp']) (rule that)
    define s' where "s' = s\<lparr>kheap := hp, contents_of := (contents_of s)(p := take (unat n) (contents_of s (node_data (nodes s r))))\<rparr>"
    have l: "(live(p \<mapsto> sz)) b = live b" if "live b \<noteq> None" for b using that a(3) by auto
    have "tree_ok N (live(p \<mapsto> sz)) s'"
      by (rule tree_frame [OF ok _ _ l]) (use a(3,4) in \<open>auto simp: s'_def fun_upd_def\<close>)
    moreover have "ramfs_read_file_to_memory path s = Some (p, n, s')"
      using r False a(1,2) by (simp add: ramfs_read_file_to_memory_def s'_def n_def Let_def)
    ultimately show ?thesis unfolding ramfs_inv_def by blast
  qed
qed

text \<open>
  C25: The operations keep the tree and its correspondence to the heap: while the heap has room, creating directories and
  files returns, and so do deleting, finding, listing and reading; afterwards every node is a live block of its own with the
  right parent, at most sixteen children and a bounded name, and every file owns its contents.
\<close>

theorem ramfs_operations_keep_tree:
  assumes inv: "ramfs_inv s"
  shows "(heap_space (57200 + length text) s \<and> length text < 2 ^ 32 \<longrightarrow>
      (\<exists>r s'. ramfs_mkdir path s = Some (r, s') \<and> ramfs_inv s') \<and> (\<exists>r s'. ramfs_create_file path text s = Some (r, s') \<and> ramfs_inv s'))
    \<and> (\<exists>r s'. ramfs_delete_file path s = Some (r, s') \<and> ramfs_inv s')
    \<and> (\<exists>r. ramfs_read_file path s = Some (r, s)) \<and> ramfs_list_dir path s \<noteq> None"
proof -
  obtain N live where ok: "tree_ok N live s" using inv by (auto simp: ramfs_inv_def)
  have root: "ramfs_root s \<noteq> 0" using ok by (auto simp: tree_ok_def)
  have "(\<exists>r s'. ramfs_mkdir path s = Some (r, s') \<and> ramfs_inv s') \<and> (\<exists>r s'. ramfs_create_file path text s = Some (r, s') \<and> ramfs_inv s')"
    if "heap_space (57200 + length text) s" "length text < 2 ^ 32"
  proof
    have sp: "heap_space (223 * 255 + (length text + 300)) s" "heap_space (223 * 255 + 0) s" using that by (simp_all add: heap_space_def)
    show "\<exists>r s'. ramfs_mkdir path s = Some (r, s') \<and> ramfs_inv s'" by (rule mkdir_keeps [OF ok sp(2)])
    show "\<exists>r s'. ramfs_create_file path text s = Some (r, s') \<and> ramfs_inv s'"
      by (rule create_cases [OF ok sp(1) that(2)]) (auto simp: ramfs_inv_def)
  qed
  moreover have "\<exists>r s'. ramfs_delete_file path s = Some (r, s') \<and> ramfs_inv s'"
  proof -
    obtain r where r: "ramfs_find_node path False s = Some (r, s)" "r = 0 \<or> r \<in> N" using find_node_lookup [OF ok] .
    show ?thesis
    proof (cases "r = 0 \<or> node_type (nodes s r) \<noteq> RAMFS_FILE \<or> node_parent (nodes s r) = 0 \<or> r \<notin> set (children (nodes s (node_parent (nodes s r))))")
      case True
      then show ?thesis using r(1) root inv by (auto simp: ramfs_delete_file_def Let_def)
    next
      case False
      with unlink_ok [OF ok _ _ refl refl refl, of r] r root show ?thesis
        unfolding ramfs_inv_def by (fastforce simp: ramfs_delete_file_def Let_def)
    qed
  qed
  moreover have "\<exists>r. ramfs_read_file path s = Some (r, s)"
    by (rule find_node_lookup [OF ok, of path]) (simp add: ramfs_read_file_def)
  moreover have "ramfs_list_dir path s \<noteq> None"
    by (rule find_node_lookup [OF ok, of "if path = [] then [slash] else path"]) (simp add: ramfs_list_dir_def)
  ultimately show ?thesis by blast
qed

definition ramfs_sample :: ramfs where
  "ramfs_sample = \<lparr>nodes = (\<lambda>_. empty_node), contents_of = (\<lambda>_. []), ramfs_root = 0, kheap = (kmalloc_init heap_zero, vmm_small)\<rparr>"

definition ramfs_fresh :: ramfs where
  "ramfs_fresh = (case ramfs_init ramfs_sample of Some s \<Rightarrow> s | None \<Rightarrow> ramfs_sample)"

lemma ramfs_fresh_ok: "ramfs_init ramfs_sample = Some ramfs_fresh" "ramfs_inv ramfs_fresh" "heap_space 100000 ramfs_fresh"
proof -
  have "heap_space (223 + 100000) ramfs_sample" by (simp add: heap_space_def ramfs_sample_def kmalloc_init_def heap_consts)
  moreover have "heap_inv Map.empty (kheap ramfs_sample)" using heap_inv_init by (simp add: ramfs_sample_def)
  ultimately have "\<exists>s'. ramfs_init ramfs_sample = Some s' \<and> ramfs_inv s' \<and> heap_space 100000 s'" by (rule ramfs_init_inv [rotated])
  then show "ramfs_init ramfs_sample = Some ramfs_fresh" "ramfs_inv ramfs_fresh" "heap_space 100000 ramfs_fresh"
    by (auto simp: ramfs_fresh_def)
qed

theorem ramfs_operations_keep_tree_witness:
  "ramfs_init ramfs_sample = Some ramfs_fresh \<and> (\<exists>r s. ramfs_mkdir (bytes ''bin'') ramfs_fresh = Some (r, s) \<and> ramfs_inv s)"
proof -
  have "heap_space (57200 + length (bytes ''x'')) ramfs_fresh" using ramfs_fresh_ok(3) by (simp add: heap_space_def)
  then show ?thesis using ramfs_operations_keep_tree [OF ramfs_fresh_ok(2), of "bytes ''x''" "bytes ''bin''"] ramfs_fresh_ok(1) by simp
qed

text \<open>
  C27: A file created in a directory of the root is read back: after \<^verbatim>\<open>ramfs_create_file\<close> has returned a node for
  \<^verbatim>\<open>dir/file\<close>, \<^verbatim>\<open>ramfs_read_file_to_memory\<close> fills a fresh heap block with exactly the bytes stored.
\<close>

theorem ramfs_create_read_back:
  assumes inv: "ramfs_inv s" and d: "slash \<notin> set d" "d \<noteq> []" "length d < 32" and f: "slash \<notin> set f" "f \<noteq> []" "length f < 32"
    and sp: "heap_space (57200 + length text) s" and len: "length text < 2 ^ 32" "text \<noteq> []"
    and run: "ramfs_create_file (d @ slash # f) text s = Some (x, s')" "x \<noteq> 0" and sp': "heap_space (length text + 23) s'"
  shows "\<exists>b n s''. ramfs_read_file_to_memory (d @ slash # f) s' = Some (b, n, s'') \<and> b \<noteq> 0 \<and> unat n = length text
    \<and> contents_of s'' b = text"
proof -
  have sp2: "heap_space (223 * 255 + (length text + 300)) s" using sp by (simp add: heap_space_def)
  note c = created_found [OF inv d f sp2 len(1) run]
  obtain N live where "tree_ok N live s'" using c(1) by (auto simp: ramfs_inv_def)
  then have h: "heap_inv live (kheap s')" by (simp add: tree_ok_def)
  have n0: "node_size (nodes s' x) \<noteq> 0" using c(4) len(2) by (metis length_0_conv unat_0)
  have sp3: "heap_space (unat (node_size (nodes s' x)) + 23 + 0) s'" using sp' c(4) by simp
  obtain p sz hp where "ram_alloc (node_size (nodes s' x)) s' = Some (p, s'\<lparr>kheap := hp\<rparr>)" "p \<noteq> 0"
    by (rule ram_alloc_block [OF h n0 sp3]) (rule that)
  then show ?thesis using c(2-5) run(2) by (simp add: ramfs_read_file_to_memory_def Let_def)
qed

lemma fresh_create:
  "\<exists>x s. ramfs_create_file (bytes ''etc'' @ slash # bytes ''motd'') (bytes ''hi'') ramfs_fresh = Some (x, s) \<and> x \<noteq> 0
     \<and> heap_space (length (bytes ''hi'') + 23) s"
proof -
  have b: "bytes ''etc'' = [101, 116, 99]" "bytes ''motd'' = [109, 111, 116, 100]" "bytes ''hi'' = [104, 105]" by code_simp+
  show ?thesis unfolding b ramfs_fresh_def ramfs_init_def ramfs_sample_def
    by (simp add: ram_alloc_def kmalloc_bump kmalloc_init_def heap_zero_def heap_consts align8_def ramfs_create_file_def Let_def
      ramfs_find_node_def find_loop.simps next_token_def find_child_def add_dir_def set_node_def empty_node_def RAMFS_MAX_NAME_def
      RAMFS_MAX_CHILDREN_def heap_space_def)
qed

lemma etc_motd:
  "slash \<notin> set (bytes ''etc'')" "bytes ''etc'' \<noteq> []" "length (bytes ''etc'') < 32"
  "slash \<notin> set (bytes ''motd'')" "bytes ''motd'' \<noteq> []" "length (bytes ''motd'') < 32"
  by (simp_all add: bytes_def)

theorem ramfs_create_read_back_witness:
  "\<exists>x s b n s'. ramfs_create_file (bytes ''etc'' @ slash # bytes ''motd'') (bytes ''hi'') ramfs_fresh = Some (x, s) \<and> x \<noteq> 0
     \<and> ramfs_read_file_to_memory (bytes ''etc'' @ slash # bytes ''motd'') s = Some (b, n, s') \<and> contents_of s' b = bytes ''hi''"
proof -
  obtain x s where x: "ramfs_create_file (bytes ''etc'' @ slash # bytes ''motd'') (bytes ''hi'') ramfs_fresh = Some (x, s)" "x \<noteq> 0"
      "heap_space (length (bytes ''hi'') + 23) s" using fresh_create by blast
  have "heap_space (57200 + length (bytes ''hi'')) ramfs_fresh" using ramfs_fresh_ok(3) by (simp add: heap_space_def)
  moreover have "length (bytes ''hi'') < 2 ^ 32" "bytes ''hi'' \<noteq> []" by (simp_all add: bytes_def)
  ultimately show ?thesis using ramfs_create_read_back [OF ramfs_fresh_ok(2) etc_motd _ _ _ x] x by blast
qed

text \<open>
  Three defects: no file can be created under an absolute path; a name longer than 31 bytes is never found again, so that
  each \<^verbatim>\<open>ramfs_mkdir\<close> of it adds another entry; and an empty file, once created, cannot be read into memory.
\<close>

theorem ramfs_defects:
  assumes inv: "ramfs_inv s"
  shows "ramfs_create_file (slash # p) text s = Some (0, s)
    \<and> (slash \<notin> set d \<and> 31 < length d \<and> length d \<le> 255 \<longrightarrow> ramfs_find_node d False s = Some (0, s))
    \<and> (slash \<notin> set d \<and> d \<noteq> [] \<and> length d < 32 \<and> slash \<notin> set f \<and> f \<noteq> [] \<and> length f < 32 \<and> heap_space 57200 s
        \<and> ramfs_create_file (d @ slash # f) [] s = Some (x, s') \<and> x \<noteq> 0 \<longrightarrow>
        ramfs_read_file (d @ slash # f) s' = Some (x, s') \<and> ramfs_read_file_to_memory (d @ slash # f) s' = Some (0, 0, s'))"
proof (intro conjI impI; (elim conjE)?)
  obtain N live where ok: "tree_ok N live s" using inv by (auto simp: ramfs_inv_def)
  have root: "ramfs_root s \<noteq> 0" "ramfs_root s \<in> N" using ok by (auto simp: tree_ok_def)
  show "ramfs_create_file (slash # p) text s = Some (0, s)" using root by (simp add: ramfs_create_file_def)
  show "ramfs_find_node d False s = Some (0, s)" if "slash \<notin> set d" "31 < length d" "length d \<le> 255"
  proof -
    have "node_name (nodes s a) \<noteq> d" if "a \<in> N" for a
      using tree_nodeD [OF ok that] \<open>31 < length d\<close> by (auto simp: node_ok_def RAMFS_MAX_NAME_def)
    then have "find_child d (ramfs_root s) s = None"
      using tree_nodeD [OF ok root(2)] by (auto simp: find_child_def find_None_iff node_ok_def)
    moreover have "d \<noteq> []" using that(2) by auto
    ultimately show ?thesis using find_node_one [OF that(1) _ that(3) root(1)] by simp
  qed
  assume d: "slash \<notin> set d" "d \<noteq> []" "length d < 32" and f: "slash \<notin> set f" "f \<noteq> []" "length f < 32" and sp: "heap_space 57200 s"
    and run: "ramfs_create_file (d @ slash # f) [] s = Some (x, s')" "x \<noteq> 0"
  have "heap_space (223 * 255 + (length ([] :: u8 list) + 300)) s" using sp by (simp add: heap_space_def)
  note c = created_found [OF inv d f this _ run]
  have "node_size (nodes s' x) = 0" using c(4) by (simp add: unat_eq_0)
  then show "ramfs_read_file (d @ slash # f) s' = Some (x, s')" "ramfs_read_file_to_memory (d @ slash # f) s' = Some (0, 0, s')"
    using c(2,3) run(2) by (simp_all add: ramfs_read_file_def ramfs_read_file_to_memory_def ram_alloc_def kmalloc_zero)
qed

theorem ramfs_defects_witness:
  "ramfs_create_file (bytes ''/motd'') (bytes ''hi'') ramfs_fresh = Some (0, ramfs_fresh)
   \<and> ramfs_find_node (replicate 32 65) False ramfs_fresh = Some (0, ramfs_fresh)"
proof -
  have "slash # bytes ''motd'' = bytes ''/motd''" by code_simp
  then show ?thesis using ramfs_defects [OF ramfs_fresh_ok(2), of "bytes ''motd''" "bytes ''hi''" "replicate 32 65"] by simp
qed

end
