(* ===== verification/Ps2_Input.thy ===== *)
theory Ps2_Input
  imports Libc_String "HOL-Library.Monad_Syntax"
begin

text \<open>
  The PS/2 input drivers: the ring buffer (\<^verbatim>\<open>drivers/ps2/ringbuffer.c\<close>), the keyboard
  (\<^verbatim>\<open>keyboard.c\<close> with the tables of \<^verbatim>\<open>scancode_table_de.h\<close>) and the mouse (\<^verbatim>\<open>mouse.c\<close>,
  \<^verbatim>\<open>mose.h\<close>).  The controller is the list of bytes it has to deliver: bit 0 of port 0x64 is set
  while the list is not empty and a read of port 0x60 takes the first byte.  An array access outside
  its array is \<^const>\<open>None\<close>.

  The locale \<^verbatim>\<open>fifo\<close> is the contract of a bounded queue; the ring buffer is interpreted in it with
  capacity 255.  Shown: the keyboard delivers exactly the decoded characters in order until the
  buffer is full; the mouse's byte-wise state machine implements a packet-wise specification and keeps
  the pointer on the screen.
\<close>

section \<open>The ring buffer\<close>

record ringbuffer_t =
  rb_buffer :: "u8 list"
  rb_head :: u32
  rb_tail :: u32

abbreviation (input) RINGBUFFER_SIZE :: u32 where
  "RINGBUFFER_SIZE \<equiv> 256"

definition rb_init :: "ringbuffer_t \<Rightarrow> ringbuffer_t" where
  "rb_init rb = rb\<lparr>rb_head := 0, rb_tail := 0\<rparr>"

definition rb_empty :: "ringbuffer_t \<Rightarrow> bool" where
  "rb_empty rb = (rb_head rb = rb_tail rb)"

definition rb_put :: "u8 \<Rightarrow> ringbuffer_t \<Rightarrow> (bool \<times> ringbuffer_t) option" where
  "rb_put c rb =
     (let nxt = (rb_head rb + 1) mod RINGBUFFER_SIZE
      in if nxt = rb_tail rb then Some (False, rb)
         else do {
           b \<leftarrow> wr (rb_buffer rb) (unat (rb_head rb)) c;
           Some (True, rb\<lparr>rb_buffer := b, rb_head := nxt\<rparr>)
         })"

text \<open>\<^verbatim>\<open>rb_get(rb, &c)\<close>: the result code, the new value of \<^verbatim>\<open>c\<close> and the buffer.\<close>

definition rb_get :: "u8 \<Rightarrow> ringbuffer_t \<Rightarrow> (bool \<times> u8 \<times> ringbuffer_t) option" where
  "rb_get c rb =
     (if rb_empty rb then Some (False, c, rb)
      else do {
        x \<leftarrow> rd (rb_buffer rb) (unat (rb_tail rb));
        Some (True, x, rb\<lparr>rb_tail := (rb_tail rb + 1) mod RINGBUFFER_SIZE\<rparr>)
      })"

section \<open>The keyboard\<close>

record keyboard =
  kb_buffer :: ringbuffer_t
  shift_pressed :: u8
  ctrl_pressed :: u8
  alt_pressed :: u8

definition scancode_ascii :: "u8 list" where
  "scancode_ascii =
     [0, 27, 49, 50, 51, 52, 53, 54, 55, 56, 57, 48, 0xDF, 0xB4, 8, 9,
      113, 119, 101, 114, 116, 122, 117, 105, 111, 112, 0xFC, 43, 10, 0, 97, 115,
      100, 102, 103, 104, 106, 107, 108, 0xF6, 0xE4, 94, 0, 92, 121, 120, 99, 118,
      98, 110, 109, 44, 46, 45, 0, 42, 0, 32, 0, 0, 0, 0, 0, 0] @ replicate 64 0"

definition scancode_ascii_shift :: "u8 list" where
  "scancode_ascii_shift =
     [0, 27, 33, 34, 0xA7, 36, 37, 38, 47, 40, 41, 61, 63, 96, 8, 9,
      81, 87, 69, 82, 84, 90, 85, 73, 79, 80, 0xDC, 42, 10, 0, 65, 83,
      68, 70, 71, 72, 74, 75, 76, 0xD6, 0xC4, 0xB0, 0, 124, 89, 88, 67, 86,
      66, 78, 77, 59, 58, 95, 0, 42, 0, 32, 0, 0, 0, 0, 0, 0] @ replicate 64 0"

definition SCANCODE_LEFT_SHIFT :: u8 where "SCANCODE_LEFT_SHIFT = 0x2A"
definition SCANCODE_RIGHT_SHIFT :: u8 where "SCANCODE_RIGHT_SHIFT = 0x36"
definition SCANCODE_CTRL :: u8 where "SCANCODE_CTRL = 0x1D"
definition SCANCODE_ALT :: u8 where "SCANCODE_ALT = 0x38"

definition keyboard_init :: "keyboard \<Rightarrow> keyboard" where
  "keyboard_init k = k\<lparr>kb_buffer := rb_init (kb_buffer k)\<rparr>"

text \<open>The body of the loop of \<^verbatim>\<open>keyboard_poll\<close> for one scancode; \<^verbatim>\<open>!released\<close> is 0 or 1.\<close>

definition keyboard_scancode :: "u8 \<Rightarrow> keyboard \<Rightarrow> keyboard option" where
  "keyboard_scancode scancode k =
     (let released = scancode AND 0x80;
          key = scancode AND 0x7F;
          pressed = (if released = 0 then 1 else 0);
          k = (if key = 0x2A \<or> key = 0x36 then k\<lparr>shift_pressed := pressed\<rparr> else k);
          k = (if key = 0x1D then k\<lparr>ctrl_pressed := pressed\<rparr> else k);
          k = (if key = 0x38 then k\<lparr>alt_pressed := pressed\<rparr> else k)
      in if released = 0
         then do {
           c \<leftarrow> rd (if shift_pressed k \<noteq> 0 then scancode_ascii_shift else scancode_ascii) (unat key);
           if c \<noteq> 0
           then do { (r, b) \<leftarrow> rb_put c (kb_buffer k); Some (k\<lparr>kb_buffer := b\<rparr>) }
           else Some k
         }
         else Some k)"

fun keyboard_poll :: "u8 list \<Rightarrow> keyboard \<Rightarrow> keyboard option" where
  "keyboard_poll [] k = Some k"
| "keyboard_poll (sc # pending) k = do { k' \<leftarrow> keyboard_scancode sc k; keyboard_poll pending k' }"

definition keyboard_irq_handler :: "u8 list \<Rightarrow> keyboard \<Rightarrow> keyboard option" where
  "keyboard_irq_handler pending k = keyboard_poll pending k"

definition keyboard_getchar :: "u8 \<Rightarrow> keyboard \<Rightarrow> (bool \<times> u8 \<times> keyboard) option" where
  "keyboard_getchar c k = do {
     (r, c', b) \<leftarrow> rb_get c (kb_buffer k);
     Some (r, c', k\<lparr>kb_buffer := b\<rparr>)
   }"

definition keyboard_is_key_pressed :: "u8 \<Rightarrow> keyboard \<Rightarrow> int option" where
  "keyboard_is_key_pressed key k =
     (if key = SCANCODE_LEFT_SHIFT \<or> key = SCANCODE_RIGHT_SHIFT then Some (uint (shift_pressed k))
      else if key = SCANCODE_CTRL then Some (uint (ctrl_pressed k))
      else if key = SCANCODE_ALT then Some (uint (alt_pressed k))
      else do {
        c \<leftarrow> rd (if shift_pressed k \<noteq> 0 then scancode_ascii_shift else scancode_ascii) (unat key);
        Some (if c \<noteq> 0 then 1 else 0)
      })"

section \<open>The mouse\<close>

record mouse =
  mouse_cycle :: u8
  mouse_bytes :: "u8 list"
  mouse_X :: int
  mouse_y :: int
  mouse_scroll :: int
  mouse_left :: int
  mouse_right :: int
  fb_width :: int
  fb_height :: int

definition mouse_reset :: mouse where
  "mouse_reset = \<lparr>mouse_cycle = 0, mouse_bytes = [0, 0, 0, 0], mouse_X = 100, mouse_y = 100,
     mouse_scroll = 0, mouse_left = 0, mouse_right = 0, fb_width = 0, fb_height = 0\<rparr>"

definition mouse_has_data :: "u8 list \<Rightarrow> bool" where
  "mouse_has_data pending = (pending \<noteq> [])"

text \<open>\<^verbatim>\<open>mouse_init\<close>: the port writes it makes and its result.  The argument tells, for each of the
  1000 polls, the byte the controller has ready.\<close>

fun mouse_wait_ack :: "nat \<Rightarrow> (nat \<Rightarrow> u8 option) \<Rightarrow> u8" where
  "mouse_wait_ack 0 ready = 0"
| "mouse_wait_ack (Suc n) ready =
     (case ready (1000 - Suc n) of Some b \<Rightarrow> b | None \<Rightarrow> mouse_wait_ack n ready)"

definition mouse_init :: "(nat \<Rightarrow> u8 option) \<Rightarrow> (u16 \<times> u8) list \<times> bool" where
  "mouse_init ready =
     ([(0x64, 0xA8), (0x64, 0xD4), (0x60, 0xF4)], mouse_wait_ack 1000 ready = 0xFA)"

definition mouse_byte :: "u8 \<Rightarrow> mouse \<Rightarrow> mouse" where
  "mouse_byte data m =
     (if mouse_cycle m = 0 then
        (if data AND 0x08 = 0 then m
         else m\<lparr>mouse_bytes := (mouse_bytes m)[0 := data], mouse_cycle := 1\<rparr>)
      else if mouse_cycle m = 1 then
        m\<lparr>mouse_bytes := (mouse_bytes m)[1 := data], mouse_cycle := 2\<rparr>
      else if mouse_cycle m = 2 then
        m\<lparr>mouse_bytes := (mouse_bytes m)[2 := data], mouse_cycle := 3\<rparr>
      else if mouse_cycle m = 3 then
        (let b = (mouse_bytes m)[3 := data];
             dx = sint (b ! 1); dy = sint (b ! 2); dz = sint (b ! 3);
             x = mouse_X m + dx; y = mouse_y m - dy;
             x = (if x < 0 then 0 else x);
             y = (if y < 0 then 0 else y);
             x = (if x > fb_width m - 1 then fb_width m - 1 else x);
             y = (if y > fb_height m - 1 then fb_height m - 1 else y)
         in m\<lparr>mouse_bytes := b, mouse_cycle := 0, mouse_X := x, mouse_y := y,
              mouse_left := uint (b ! 0 AND 1), mouse_right := uint (b ! 0 AND 2),
              mouse_scroll := dz\<rparr>)
      else m)"

definition mouse_poll :: "u8 list \<Rightarrow> mouse \<Rightarrow> u8 list \<times> mouse" where
  "mouse_poll pending m =
     (case pending of [] \<Rightarrow> ([], m) | data # rest \<Rightarrow> (rest, mouse_byte data m))"

definition mouse_get_x :: "mouse \<Rightarrow> int" where "mouse_get_x m = mouse_X m"
definition mouse_get_y :: "mouse \<Rightarrow> int" where "mouse_get_y m = mouse_y m"
definition mouse_left_pressed :: "mouse \<Rightarrow> bool" where "mouse_left_pressed m = (mouse_left m \<noteq> 0)"
definition mouse_right_pressed :: "mouse \<Rightarrow> bool" where "mouse_right_pressed m = (mouse_right m \<noteq> 0)"
definition mouse_get_scroll :: "mouse \<Rightarrow> int" where "mouse_get_scroll m = mouse_scroll m"
definition mouse_data :: "u8 list \<Rightarrow> bool" where "mouse_data pending = mouse_has_data pending"

section \<open>The contract of a bounded queue\<close>

text \<open>A producer that ignores the result code, and a consumer that reads \<^term>\<open>n\<close> times.\<close>

fun offer :: "('c \<Rightarrow> 'q \<Rightarrow> (bool \<times> 'q) option) \<Rightarrow> 'c list \<Rightarrow> 'q \<Rightarrow> 'q option" where
  "offer put [] q = Some q"
| "offer put (c # cs) q = do { (r, q') \<leftarrow> put c q; offer put cs q' }"

fun collect :: "('c \<Rightarrow> 'q \<Rightarrow> (bool \<times> 'c \<times> 'q) option) \<Rightarrow> 'c \<Rightarrow> nat \<Rightarrow> 'q \<Rightarrow> ('c list \<times> 'q) option" where
  "collect get c 0 q = Some ([], q)"
| "collect get c (Suc n) q = do {
     (r, c', q') \<leftarrow> get c q;
     (cs, q'') \<leftarrow> collect get c' n q';
     Some ((if r then [c'] else []) @ cs, q'')
   }"

locale fifo =
  fixes inv :: "'q \<Rightarrow> bool"
    and contents :: "'q \<Rightarrow> 'c list"
    and capacity :: nat
    and put :: "'c \<Rightarrow> 'q \<Rightarrow> (bool \<times> 'q) option"
    and get :: "'c \<Rightarrow> 'q \<Rightarrow> (bool \<times> 'c \<times> 'q) option"
  assumes bounded: "inv q \<Longrightarrow> length (contents q) \<le> capacity"
    and put_room: "inv q \<Longrightarrow> length (contents q) < capacity \<Longrightarrow>
      \<exists>q'. put c q = Some (True, q') \<and> inv q' \<and> contents q' = contents q @ [c]"
    and put_full: "inv q \<Longrightarrow> length (contents q) = capacity \<Longrightarrow> put c q = Some (False, q)"
    and get_empty: "inv q \<Longrightarrow> contents q = [] \<Longrightarrow> get c q = Some (False, c, q)"
    and get_next: "inv q \<Longrightarrow> contents q = x # xs \<Longrightarrow>
      \<exists>q'. get c q = Some (True, x, q') \<and> inv q' \<and> contents q' = xs"
begin

lemma put_any:
  assumes "inv q"
  shows "\<exists>r q'. put c q = Some (r, q') \<and> inv q'
    \<and> contents q' = contents q @ take (capacity - length (contents q)) [c]"
proof (cases "length (contents q) < capacity")
  case True
  then have "take (capacity - length (contents q)) [c] = [c]" by simp
  then show ?thesis using put_room [OF assms True, of c] by metis
next
  case False
  then have "length (contents q) = capacity" using bounded [OF assms] by simp
  with put_full [OF assms this, of c] assms show ?thesis by auto
qed

lemma offer_contents:
  assumes "inv q"
  shows "\<exists>q'. offer put cs q = Some q' \<and> inv q'
    \<and> contents q' = contents q @ take (capacity - length (contents q)) cs"
  using assms
proof (induction cs arbitrary: q)
  case Nil
  then show ?case by simp
next
  case (Cons c cs)
  obtain r q1 where q1: "put c q = Some (r, q1)" "inv q1"
      "contents q1 = contents q @ take (capacity - length (contents q)) [c]"
    using put_any [OF Cons.prems] by blast
  obtain q2 where "offer put cs q1 = Some q2" "inv q2"
      "contents q2 = contents q1 @ take (capacity - length (contents q1)) cs"
    using Cons.IH [OF q1(2)] by blast
  moreover have "capacity - Suc (length (contents q)) = capacity - length (contents q) - 1" by simp
  ultimately show ?case using q1 by (cases "capacity - length (contents q)") auto
qed

lemma collect_contents:
  assumes "inv q"
  shows "\<exists>q'. collect get c n q = Some (take n (contents q), q') \<and> inv q'
    \<and> contents q' = drop n (contents q)"
  using assms
proof (induction n arbitrary: q c)
  case 0
  then show ?case by simp
next
  case (Suc n)
  show ?case
  proof (cases "contents q")
    case Nil
    then show ?thesis using Suc.IH [OF Suc.prems, of c] get_empty [OF Suc.prems] by auto
  next
    case (Cons x xs)
    obtain q1 where "get c q = Some (True, x, q1)" "inv q1" "contents q1 = xs"
      using get_next [OF Suc.prems Cons] by blast
    then show ?thesis using Suc.IH [of q1 x] Cons by auto
  qed
qed

end

section \<open>The ring buffer implements it\<close>

definition rb_inv :: "ringbuffer_t \<Rightarrow> bool" where
  "rb_inv rb \<longleftrightarrow> length (rb_buffer rb) = 256 \<and> rb_head rb < 256 \<and> rb_tail rb < 256"

definition rb_count :: "ringbuffer_t \<Rightarrow> nat" where
  "rb_count rb = (256 + unat (rb_head rb) - unat (rb_tail rb)) mod 256"

definition rb_contents :: "ringbuffer_t \<Rightarrow> u8 list" where
  "rb_contents rb = map (\<lambda>i. rb_buffer rb ! ((unat (rb_tail rb) + i) mod 256)) [0..<rb_count rb]"

lemma unat_wrap: "x < 256 \<Longrightarrow> unat ((x + 1) mod 256) = (unat x + 1) mod 256" for x :: u32
proof -
  assume "x < 256"
  then have "unat (x + 1) = unat x + 1" by (subst unat_plus_small) (auto simp: word_less_nat_alt)
  then show ?thesis by (simp add: unat_mod)
qed

lemma wrap_less: "(x :: u32) mod 256 < 256"
  by (simp add: word_less_nat_alt unat_mod)

lemma rb_count_less: "rb_count rb < 256"
  by (simp add: rb_count_def)

lemma mod_256: "a < 512 \<Longrightarrow> a mod 256 = (if a < 256 then a else a - 256)" for a :: nat
  by (auto simp: not_less le_mod_geq)

lemma ring_arith:
  fixes h t :: nat
  assumes "h < 256" and "t < 256"
  shows "(h + 1) mod 256 = t \<longleftrightarrow> (256 + h - t) mod 256 = 255"
    and "(h + 1) mod 256 \<noteq> t \<Longrightarrow> (256 + (h + 1) mod 256 - t) mod 256 = Suc ((256 + h - t) mod 256)"
    and "h = t \<longleftrightarrow> (256 + h - t) mod 256 = 0"
    and "h \<noteq> t \<Longrightarrow> Suc ((256 + h - (t + 1) mod 256) mod 256) = (256 + h - t) mod 256"
    and "(t + (256 + h - t) mod 256) mod 256 = h"
  using assms by (auto simp: mod_256 split: if_splits)

lemma rb_inv_unat:
  "rb_inv rb \<Longrightarrow> unat (rb_head rb) < 256 \<and> unat (rb_tail rb) < 256 \<and> length (rb_buffer rb) = 256"
  by (simp add: rb_inv_def word_less_nat_alt)

lemma rb_put_room:
  assumes inv: "rb_inv rb" and room: "length (rb_contents rb) < 255"
  shows "\<exists>rb'. rb_put c rb = Some (True, rb') \<and> rb_inv rb' \<and> rb_contents rb' = rb_contents rb @ [c]"
proof -
  let ?h = "unat (rb_head rb)" and ?t = "unat (rb_tail rb)"
  note u = rb_inv_unat [OF inv]
  have h': "unat ((rb_head rb + 1) mod 256) = (?h + 1) mod 256"
    using inv by (intro unat_wrap) (simp add: rb_inv_def)
  have "rb_count rb < 255" using room by (simp add: rb_contents_def)
  then have ne: "(?h + 1) mod 256 \<noteq> ?t" using ring_arith(1) [of ?h ?t] u by (simp add: rb_count_def)
  then have nt: "(rb_head rb + 1) mod 256 \<noteq> rb_tail rb" using h' by auto
  define rb' where "rb' = rb\<lparr>rb_buffer := (rb_buffer rb)[?h := c], rb_head := (rb_head rb + 1) mod 256\<rparr>"
  have p: "rb_put c rb = Some (True, rb')"
    using nt u by (simp add: rb_put_def wr_def rb'_def Let_def)
  have cnt: "rb_count rb' = Suc (rb_count rb)"
    using ring_arith(2) [OF _ _ ne] u h' by (simp add: rb_count_def rb'_def)
  have last: "(?t + rb_count rb) mod 256 = ?h" using ring_arith(5) [of ?h ?t] u by (simp add: rb_count_def)
  have other: "(?t + i) mod 256 \<noteq> ?h" if "i < rb_count rb" for i
  proof
    assume eq: "(?t + i) mod 256 = ?h"
    have "(256 + ?h - ?t) mod 256 < 256" "i < (256 + ?h - ?t) mod 256"
      using that by (simp_all add: rb_count_def)
    then show False using eq u by (auto simp: mod_256 split: if_splits)
  qed
  have "rb_contents rb' = map (\<lambda>i. (rb_buffer rb)[?h := c] ! ((?t + i) mod 256)) [0..<rb_count rb] @ [c]"
    using cnt last u by (simp add: rb_contents_def rb'_def)
  also have "map (\<lambda>i. (rb_buffer rb)[?h := c] ! ((?t + i) mod 256)) [0..<rb_count rb] = rb_contents rb"
    using not_sym [OF other] by (simp add: rb_contents_def)
  finally have "rb_contents rb' = rb_contents rb @ [c]" .
  moreover have "rb_inv rb'" using inv wrap_less by (simp add: rb_inv_def rb'_def)
  ultimately show ?thesis using p by blast
qed

lemma rb_put_full:
  assumes inv: "rb_inv rb" and full: "length (rb_contents rb) = 255"
  shows "rb_put c rb = Some (False, rb)"
proof -
  have "unat ((rb_head rb + 1) mod 256) = unat (rb_tail rb)"
    using ring_arith(1) [of "unat (rb_head rb)" "unat (rb_tail rb)"] rb_inv_unat [OF inv] full inv
    by (simp add: rb_contents_def rb_count_def unat_wrap rb_inv_def)
  then have "(rb_head rb + 1) mod 256 = rb_tail rb" by (simp only: word_unat_eq_iff)
  then show ?thesis by (simp add: rb_put_def Let_def)
qed

lemma rb_get_empty:
  assumes "rb_inv rb" and "rb_contents rb = []"
  shows "rb_get c rb = Some (False, c, rb)"
proof -
  have "unat (rb_head rb) = unat (rb_tail rb)"
    using ring_arith(3) [of "unat (rb_head rb)" "unat (rb_tail rb)"] rb_inv_unat [OF assms(1)] assms(2)
    by (simp add: rb_contents_def rb_count_def)
  then have "rb_head rb = rb_tail rb" by (simp only: word_unat_eq_iff)
  then show ?thesis by (simp add: rb_get_def rb_empty_def)
qed

lemma rb_get_next:
  assumes inv: "rb_inv rb" and cont: "rb_contents rb = x # xs"
  shows "\<exists>rb'. rb_get c rb = Some (True, x, rb') \<and> rb_inv rb' \<and> rb_contents rb' = xs"
proof -
  let ?h = "unat (rb_head rb)" and ?t = "unat (rb_tail rb)"
  note u = rb_inv_unat [OF inv]
  define rb' where "rb' = rb\<lparr>rb_tail := (rb_tail rb + 1) mod 256\<rparr>"
  have t': "unat (rb_tail rb') = (?t + 1) mod 256"
    using inv by (simp add: rb'_def unat_wrap rb_inv_def)
  have "0 < rb_count rb" using cont by (cases "rb_count rb") (auto simp: rb_contents_def)
  then have ne: "?h \<noteq> ?t" using u by (auto simp: rb_count_def)
  then have cnt: "rb_count rb = Suc (rb_count rb')"
    using ring_arith(4) [of ?h ?t] u t' by (simp add: rb_count_def) (simp add: rb'_def)
  have "rb_contents rb = rb_buffer rb ! ?t # map (\<lambda>i. rb_buffer rb ! ((?t + Suc i) mod 256)) [0..<rb_count rb']"
    using u by (simp add: rb_contents_def cnt map_upt_Suc del: upt_Suc)
  moreover have "rb_contents rb' = map (\<lambda>i. rb_buffer rb ! ((?t + Suc i) mod 256)) [0..<rb_count rb']"
    unfolding rb_contents_def t' by (simp add: rb'_def mod_add_left_eq)
  ultimately have "x = rb_buffer rb ! ?t" "rb_contents rb' = xs" using cont by auto
  moreover have "rb_get c rb = Some (True, rb_buffer rb ! ?t, rb')"
    using ne u by (auto simp: rb_get_def rb_empty_def rd_def rb'_def)
  moreover have "rb_inv rb'" using inv wrap_less by (simp add: rb_inv_def rb'_def)
  ultimately show ?thesis by blast
qed

interpretation rbq: fifo rb_inv rb_contents 255 rb_put rb_get
proof unfold_locales
  show "length (rb_contents q) \<le> 255" if "rb_inv q" for q
    using rb_count_less [of q] by (simp add: rb_contents_def)
qed (use rb_put_room rb_put_full rb_get_empty rb_get_next in blast)+

section \<open>Decoding\<close>

text \<open>What a stream of scancodes means: the characters typed, given the state of the shift keys.\<close>

definition shift_after :: "u8 \<Rightarrow> bool \<Rightarrow> bool" where
  "shift_after sc sh = (if sc AND 0x7F = 0x2A \<or> sc AND 0x7F = 0x36 then sc AND 0x80 = 0 else sh)"

definition decode :: "u8 \<Rightarrow> bool \<Rightarrow> u8 list" where
  "decode sc sh =
     (let c = (if sh then scancode_ascii_shift else scancode_ascii) ! unat (sc AND 0x7F)
      in if sc AND 0x80 = 0 \<and> c \<noteq> 0 then [c] else [])"

fun typed :: "bool \<Rightarrow> u8 list \<Rightarrow> u8 list" where
  "typed sh [] = []"
| "typed sh (sc # scs) = decode sc (shift_after sc sh) @ typed (shift_after sc sh) scs"

lemma scancode_tables [simp]: "length scancode_ascii = 128" "length scancode_ascii_shift = 128"
  by (simp_all add: scancode_ascii_def scancode_ascii_shift_def)

lemma unat_and_7F: "unat (sc AND 0x7F) < 128" for sc :: u8
proof -
  have "sc AND 0x7F \<le> 0x7F" by (rule word_and_le1)
  then show ?thesis by (simp add: word_le_nat_alt)
qed

definition modifiers :: "u8 \<Rightarrow> keyboard \<Rightarrow> keyboard" where
  "modifiers sc k =
     (let key = sc AND 0x7F; pressed = (if sc AND 0x80 = 0 then 1 else 0);
          k = (if key = 0x2A \<or> key = 0x36 then k\<lparr>shift_pressed := pressed\<rparr> else k);
          k = (if key = 0x1D then k\<lparr>ctrl_pressed := pressed\<rparr> else k)
      in if key = 0x38 then k\<lparr>alt_pressed := pressed\<rparr> else k)"

lemma modifiers_simps [simp]:
  "kb_buffer (modifiers sc k) = kb_buffer k"
  "shift_pressed (modifiers sc k) = 0 \<longleftrightarrow> \<not> shift_after sc (shift_pressed k \<noteq> 0)"
  by (auto simp: modifiers_def shift_after_def Let_def)

lemma keyboard_scancode_offer:
  "keyboard_scancode sc k =
     do { b \<leftarrow> offer rb_put (decode sc (shift_after sc (shift_pressed k \<noteq> 0))) (kb_buffer k);
          Some ((modifiers sc k)\<lparr>kb_buffer := b\<rparr>) }"
proof -
  define key where "key = sc AND 0x7F"
  have "keyboard_scancode sc k =
     (if sc AND 0x80 = 0
      then do {
        c \<leftarrow> rd (if shift_pressed (modifiers sc k) \<noteq> 0 then scancode_ascii_shift else scancode_ascii) (unat key);
        if c \<noteq> 0 then do { (r, b) \<leftarrow> rb_put c (kb_buffer k); Some ((modifiers sc k)\<lparr>kb_buffer := b\<rparr>) }
        else Some (modifiers sc k)
      } else Some (modifiers sc k))"
    unfolding keyboard_scancode_def modifiers_def Let_def key_def by (auto intro!: Option.bind_cong)
  moreover have "unat key < 128" unfolding key_def by (rule unat_and_7F)
  moreover have "(modifiers sc k)\<lparr>kb_buffer := kb_buffer k\<rparr> = modifiers sc k"
    by (cases "modifiers sc k") (use modifiers_simps(1) [of sc k] in simp)
  ultimately show ?thesis
    by (auto simp: decode_def rd_def Let_def key_def split: Option.bind_split)
qed

lemma offer_append: "offer put (xs @ ys) q = do { q' \<leftarrow> offer put xs q; offer put ys q' }"
  by (induction xs arbitrary: q) (auto split: Option.bind_split)

lemma keyboard_poll_offer:
  "\<exists>k1. keyboard_poll scs k =
     do { b \<leftarrow> offer rb_put (typed (shift_pressed k \<noteq> 0) scs) (kb_buffer k); Some (k1\<lparr>kb_buffer := b\<rparr>) }"
proof (induction scs arbitrary: k)
  case Nil
  show ?case by (rule exI [of _ k]) simp
next
  case (Cons sc scs)
  let ?ofs = "offer rb_put (decode sc (shift_after sc (shift_pressed k \<noteq> 0))) (kb_buffer k)"
  show ?case
  proof (cases ?ofs)
    case None
    then show ?thesis by (simp add: keyboard_scancode_offer offer_append)
  next
    case (Some b)
    let ?k = "(modifiers sc k)\<lparr>kb_buffer := b\<rparr>"
    obtain k1 where "keyboard_poll scs ?k =
        do { b \<leftarrow> offer rb_put (typed (shift_pressed ?k \<noteq> 0) scs) (kb_buffer ?k); Some (k1\<lparr>kb_buffer := b\<rparr>) }"
      using Cons.IH by blast
    then show ?thesis using Some
      by (intro exI [of _ k1]) (simp add: keyboard_scancode_offer offer_append)
  qed
qed

section \<open>Properties\<close>

text \<open>
  C6: The ring buffer is a first-in first-out queue of capacity 255: from any consistent state, after
  offering the characters \<^term>\<open>cs\<close> and reading \<^term>\<open>n\<close> times, the characters read are the first
  \<^term>\<open>n\<close> of the old contents followed by those of \<^term>\<open>cs\<close> that fitted, and the rest remain.
\<close>

theorem ringbuffer_fifo:
  assumes "rb_inv rb"
  shows "\<exists>rb1 rb2. offer rb_put cs rb = Some rb1
    \<and> rb_contents rb1 = rb_contents rb @ take (255 - length (rb_contents rb)) cs
    \<and> collect rb_get c n rb1 = Some (take n (rb_contents rb1), rb2)
    \<and> rb_contents rb2 = drop n (rb_contents rb1) \<and> rb_inv rb2"
  using rbq.offer_contents [OF assms, of cs] rbq.collect_contents by meson

definition rb_fresh :: ringbuffer_t where
  "rb_fresh = rb_init \<lparr>rb_buffer = replicate 256 0, rb_head = 0, rb_tail = 0\<rparr>"

lemma rb_fresh [simp]: "rb_inv rb_fresh" "rb_contents rb_fresh = []"
  by (simp_all add: rb_fresh_def rb_init_def rb_inv_def rb_contents_def rb_count_def)

theorem ringbuffer_fifo_witness:
  "\<exists>rb1 rb2. offer rb_put [104, 105] rb_fresh = Some rb1 \<and> rb_contents rb1 = [104, 105]
    \<and> collect rb_get 0 3 rb1 = Some ([104, 105], rb2) \<and> rb_contents rb2 = []"
  using ringbuffer_fifo [OF rb_fresh(1), of "[104, 105]" 0 3] by auto

text \<open>
  \<^verbatim>\<open>keyboard_poll\<close> drains the controller and never faults: the buffer then holds its old contents
  followed by the decoded characters (with the shift state threaded through press and release codes),
  cut at 255 characters; \<^verbatim>\<open>keyboard_getchar\<close> returns them in the order typed.
\<close>

theorem keyboard_delivers_typed:
  assumes "rb_inv (kb_buffer k)"
  shows "\<exists>k1 k2. keyboard_poll scs k = Some k1 \<and> rb_inv (kb_buffer k1)
    \<and> rb_contents (kb_buffer k1) = rb_contents (kb_buffer k)
        @ take (255 - length (rb_contents (kb_buffer k))) (typed (shift_pressed k \<noteq> 0) scs)
    \<and> collect keyboard_getchar c n k1 = Some (take n (rb_contents (kb_buffer k1)), k2)"
proof -
  obtain k0 where p: "keyboard_poll scs k = do { b \<leftarrow> offer rb_put (typed (shift_pressed k \<noteq> 0) scs)
      (kb_buffer k); Some (k0\<lparr>kb_buffer := b\<rparr>) }" using keyboard_poll_offer by blast
  obtain b where b: "offer rb_put (typed (shift_pressed k \<noteq> 0) scs) (kb_buffer k) = Some b" "rb_inv b"
      "rb_contents b = rb_contents (kb_buffer k)
        @ take (255 - length (rb_contents (kb_buffer k))) (typed (shift_pressed k \<noteq> 0) scs)"
    using rbq.offer_contents [OF assms] by meson
  have lift: "collect keyboard_getchar c n q =
      do { (cs, b) \<leftarrow> collect rb_get c n (kb_buffer q); Some (cs, q\<lparr>kb_buffer := b\<rparr>) }" for q
    by (induction n arbitrary: c q) (auto simp: keyboard_getchar_def split: Option.bind_split)
  obtain b2 where "collect rb_get c n b = Some (take n (rb_contents b), b2)"
    using rbq.collect_contents [OF b(2)] by blast
  then show ?thesis using p b lift [of "k0\<lparr>kb_buffer := b\<rparr>"] by auto
qed

definition kb_fresh :: keyboard where
  "kb_fresh = \<lparr>kb_buffer = rb_fresh, shift_pressed = 0, ctrl_pressed = 0, alt_pressed = 0\<rparr>"

text \<open>Shift down, H, shift up, A: the string "Ha".\<close>

theorem keyboard_delivers_typed_witness:
  "\<exists>k1 k2. keyboard_poll [0x2A, 0x23, 0xAA, 0x1E] kb_fresh = Some k1
    \<and> collect keyboard_getchar 0 5 k1 = Some ([72, 97], k2)"
proof -
  have "typed False [0x2A, 0x23, 0xAA, 0x1E] = [72, 97]"
    by (simp add: decode_def shift_after_def scancode_ascii_def scancode_ascii_shift_def Let_def)
  then show ?thesis
    using keyboard_delivers_typed [of kb_fresh "[0x2A, 0x23, 0xAA, 0x1E]" 0 5]
    by (auto simp: kb_fresh_def)
qed

section \<open>Mouse packets\<close>

text \<open>The packet-wise specification: bytes are skipped until one has bit 3 set, then four bytes form a
  packet; a packet moves the pointer inside the screen and sets the buttons.\<close>

fun packets :: "u8 list \<Rightarrow> (u8 \<times> u8 \<times> u8 \<times> u8) list" where
  "packets [] = []"
| "packets (b0 # bs) =
     (if b0 AND 8 = 0 then packets bs
      else case bs of b1 # b2 # b3 # rest \<Rightarrow> (b0, b1, b2, b3) # packets rest | _ \<Rightarrow> [])"

definition clamp :: "int \<Rightarrow> int \<Rightarrow> int" where
  "clamp w v = min (w - 1) (max 0 v)"

definition mouse_packet :: "u8 \<times> u8 \<times> u8 \<times> u8 \<Rightarrow> mouse \<Rightarrow> mouse" where
  "mouse_packet p m =
     (case p of (b0, b1, b2, b3) \<Rightarrow>
        m\<lparr>mouse_bytes := [b0, b1, b2, b3],
          mouse_X := clamp (fb_width m) (mouse_X m + sint b1),
          mouse_y := clamp (fb_height m) (mouse_y m - sint b2),
          mouse_left := (if bit b0 0 then 1 else 0), mouse_right := (if bit b0 1 then 2 else 0),
          mouse_scroll := sint b3\<rparr>)"

lemma mouse_bytes4:
  assumes "length (mouse_bytes m) = 4" and "mouse_cycle m = 0" and "b0 AND 8 \<noteq> 0"
  shows "mouse_byte b3 (mouse_byte b2 (mouse_byte b1 (mouse_byte b0 m))) = mouse_packet (b0, b1, b2, b3) m"
proof -
  obtain x y z w where b: "mouse_bytes m = [x, y, z, w]"
    using assms(1) by (auto simp: numeral_eq_Suc length_Suc_conv)
  have "uint (b0 AND 1) = (if bit b0 0 then 1 else 0)" by (simp add: and_one_eq bit_0 odd_iff_mod_2_eq_one)
  moreover have "uint (b0 AND 2) = (if bit b0 1 then 2 else 0)"
  proof -
    have "b0 AND 2 = (if bit b0 1 then 2 else 0)"
      by (rule bit_word_eqI) (auto simp: bit_simps bit_2_iff)
    then show ?thesis by simp
  qed
  ultimately show ?thesis
    using assms b by (simp add: mouse_byte_def mouse_packet_def Let_def clamp_def min_def max_def)
qed

definition mouse_run :: "u8 list \<Rightarrow> mouse \<Rightarrow> mouse" where
  "mouse_run bs m = fold mouse_byte bs m"

lemma packet_keeps [simp]:
  "mouse_cycle (mouse_packet p m) = mouse_cycle m" "length (mouse_bytes (mouse_packet p m)) = 4"
  "fb_width (mouse_packet p m) = fb_width m" "fb_height (mouse_packet p m) = fb_height m"
  by (simp_all add: mouse_packet_def split: prod.split)

definition mouse_view :: "mouse \<Rightarrow> int \<times> int \<times> int \<times> int \<times> int" where
  "mouse_view m = (mouse_X m, mouse_y m, mouse_left m, mouse_right m, mouse_scroll m)"

lemma mouse_run_prefix:
  assumes "length bs \<le> 3" and "mouse_cycle m = 0"
  shows "mouse_view (mouse_run bs m) = mouse_view m"
proof -
  have "bs = [] \<or> (\<exists>a. bs = [a]) \<or> (\<exists>a b. bs = [a, b]) \<or> (\<exists>a b c. bs = [a, b, c])"
    using assms(1) by (cases bs rule: list.exhaust; auto simp: numeral_eq_Suc le_Suc_eq length_Suc_conv)
  then show ?thesis
    using assms(2) by (auto simp: mouse_run_def mouse_byte_def mouse_view_def)
qed

lemma short_list: "(\<nexists>b1 b2 b3 rest. bs = b1 # b2 # b3 # rest) \<Longrightarrow> length bs \<le> 2"
  by (metis One_nat_def Suc_le_mono le0 length_Cons list.exhaust list.size(3) numeral_2_eq_2)

lemma mouse_run_packets:
  assumes "mouse_cycle m = 0" and "length (mouse_bytes m) = 4"
  shows "mouse_view (mouse_run bs m) = mouse_view (fold mouse_packet (packets bs) m)"
  using assms
proof (induction bs arbitrary: m rule: packets.induct)
  case 1
  then show ?case by (simp add: mouse_run_def)
next
  case (2 b0 bs)
  show ?case
  proof (cases "b0 AND 8 = 0")
    case True
    then have "mouse_run (b0 # bs) m = mouse_run bs m"
      using 2(3) by (simp add: mouse_run_def mouse_byte_def)
    with True 2 show ?thesis by simp
  next
    case False
    show ?thesis
    proof (cases "\<exists>b1 b2 b3 rest. bs = b1 # b2 # b3 # rest")
      case True
      then obtain b1 b2 b3 rest where bs: "bs = b1 # b2 # b3 # rest" by blast
      have "mouse_run (b0 # bs) m = mouse_run rest (mouse_packet (b0, b1, b2, b3) m)"
        using mouse_bytes4 [OF 2(4,3) False] bs by (simp add: mouse_run_def)
      moreover have "mouse_cycle (mouse_packet (b0, b1, b2, b3) m) = 0" using 2(3) by simp
      ultimately show ?thesis using 2(2) [OF False bs refl refl] False bs by simp
    next
      case no: False
      then have "packets (b0 # bs) = []" using False by (auto split: list.split)
      moreover have "length (b0 # bs) \<le> 3" using short_list [OF no] by simp
      ultimately show ?thesis using mouse_run_prefix [OF _ 2(3)] by simp
    qed
  qed
qed

lemma polls_run: "((\<lambda>(p, m). mouse_poll p m) ^^ length bs) (bs, m) = ([], mouse_run bs m)"
  by (induction bs arbitrary: m) (simp_all add: mouse_run_def mouse_poll_def funpow_swap1)

definition on_screen :: "mouse \<Rightarrow> bool" where
  "on_screen m \<longleftrightarrow> 0 \<le> mouse_X m \<and> mouse_X m < fb_width m \<and> 0 \<le> mouse_y m \<and> mouse_y m < fb_height m"

lemma mouse_byte_keeps:
  "fb_width (mouse_byte b m) = fb_width m" "fb_height (mouse_byte b m) = fb_height m"
  by (simp_all add: mouse_byte_def Let_def)

lemma mouse_byte_on_screen: "on_screen m \<Longrightarrow> on_screen (mouse_byte b m)"
  by (auto simp: mouse_byte_def Let_def on_screen_def)

lemma mouse_run_on_screen: "on_screen m \<Longrightarrow> on_screen (mouse_run bs m)"
  unfolding mouse_run_def by (induction bs arbitrary: m) (simp_all add: mouse_byte_on_screen)

text \<open>
  Polling the mouse byte by byte implements the packet specification: stray bytes before a packet
  are skipped, each four-byte packet moves the pointer by its signed deltas (up is negative y), clamped
  to the screen, and sets the buttons and the scroll delta, an unfinished packet changes nothing
  visible; a pointer on the screen stays on the screen.
\<close>

theorem mouse_poll_refines_packets:
  assumes "mouse_cycle m = 0" and "length (mouse_bytes m) = 4"
  shows "\<exists>m'. ((\<lambda>(p, m). mouse_poll p m) ^^ length bs) (bs, m) = ([], m')
    \<and> mouse_view m' = mouse_view (fold mouse_packet (packets bs) m)
    \<and> (on_screen m \<longrightarrow> on_screen m')"
  using polls_run mouse_run_packets [OF assms] mouse_run_on_screen by blast

definition mouse_sample :: "u8 list" where
  "mouse_sample = [0, 9, 5, 0xFF, 1, 8]"

definition mouse_svga :: mouse where
  "mouse_svga = mouse_reset\<lparr>fb_width := 800, fb_height := 600\<rparr>"

theorem mouse_poll_refines_packets_witness:
  "\<exists>m'. ((\<lambda>(p, m). mouse_poll p m) ^^ length mouse_sample) (mouse_sample, mouse_svga) = ([], m')
    \<and> mouse_view m' = (105, 101, 1, 0, 1) \<and> on_screen m'"
proof -
  have m: "mouse_cycle mouse_svga = 0" "length (mouse_bytes mouse_svga) = 4" "on_screen mouse_svga"
    by (simp_all add: mouse_svga_def mouse_reset_def on_screen_def)
  have "mouse_view (fold mouse_packet (packets mouse_sample) mouse_svga) = (105, 101, 1, 0, 1)"
    by (simp add: mouse_sample_def mouse_svga_def mouse_reset_def mouse_view_def mouse_packet_def
        clamp_def bit_numeral_rec)
  with mouse_poll_refines_packets [OF m(1,2), of mouse_sample] m(3) show ?thesis by metis
qed

end
