(* ===== verification/Fat32_Base.thy ===== *)
theory Fat32_Base
  imports Libc_String "HOL-Library.Monad_Syntax"
begin

text \<open>
  Data and pure helpers of the FAT32 driver, \<^verbatim>\<open>drivers/fs/FAT/fat32.c\<close> and \<^verbatim>\<open>fat32.h\<close>.

  The state \<^verbatim>\<open>fs\<close> holds the file's globals (\<^verbatim>\<open>g_fat_list\<close>, \<^verbatim>\<open>g_buf\<close>, \<^verbatim>\<open>g_len\<close>, \<^verbatim>\<open>g_crc\<close>), the
  volumes by address (\<^verbatim>\<open>Fat*\<close> is a 64-bit address with 0 for NULL, the list of mounted volumes is
  linked through \<^verbatim>\<open>next\<close>) and the device.  The device is of an arbitrary type; \<^verbatim>\<open>DiskOps\<close> are two
  functions on it, as in the code.  Packed structures laid over a sector (\<^verbatim>\<open>Mbr\<close>, \<^verbatim>\<open>Bpb\<close>,
  \<^verbatim>\<open>FsInfo\<close>, \<^verbatim>\<open>Sfn\<close>, \<^verbatim>\<open>Lfn\<close>) are byte offsets in the sector's list of 512 bytes.  C strings are
  the lists of their bytes before the NUL.  Error codes are the integers of the code.

  Shown here: time stamps, cluster numbers and error codes survive their encodings, for the years
  1980 to 2043 only; the look-up of a volume finds volumes whose name \<^emph>\<open>differs\<close>.
\<close>

section \<open>Constants\<close>

abbreviation (input) FAT_ERR_NONE :: int where "FAT_ERR_NONE \<equiv> 0"
abbreviation (input) FAT_ERR_NOFAT :: int where "FAT_ERR_NOFAT \<equiv> - 1"
abbreviation (input) FAT_ERR_BROKEN :: int where "FAT_ERR_BROKEN \<equiv> - 2"
abbreviation (input) FAT_ERR_IO :: int where "FAT_ERR_IO \<equiv> - 3"
abbreviation (input) FAT_ERR_PARAM :: int where "FAT_ERR_PARAM \<equiv> - 4"
abbreviation (input) FAT_ERR_PATH :: int where "FAT_ERR_PATH \<equiv> - 5"
abbreviation (input) FAT_ERR_EOF :: int where "FAT_ERR_EOF \<equiv> - 6"
abbreviation (input) FAT_ERR_DENIED :: int where "FAT_ERR_DENIED \<equiv> - 7"
abbreviation (input) FAT_ERR_FULL :: int where "FAT_ERR_FULL \<equiv> - 8"

abbreviation (input) FAT_ATTR_RO :: u8 where "FAT_ATTR_RO \<equiv> 0x01"
abbreviation (input) FAT_ATTR_SYS :: u8 where "FAT_ATTR_SYS \<equiv> 0x04"
abbreviation (input) FAT_ATTR_LABEL :: u8 where "FAT_ATTR_LABEL \<equiv> 0x08"
abbreviation (input) FAT_ATTR_DIR :: u8 where "FAT_ATTR_DIR \<equiv> 0x10"
abbreviation (input) FAT_ATTR_ARCHIVE :: u8 where "FAT_ATTR_ARCHIVE \<equiv> 0x20"
abbreviation (input) FAT_ATTR_LFN :: u8 where "FAT_ATTR_LFN \<equiv> 0x0f"

abbreviation (input) FAT_WRITE :: u8 where "FAT_WRITE \<equiv> 0x01"
abbreviation (input) FAT_READ :: u8 where "FAT_READ \<equiv> 0x02"
abbreviation (input) FAT_APPEND :: u8 where "FAT_APPEND \<equiv> 0x04"
abbreviation (input) FAT_TRUNC :: u8 where "FAT_TRUNC \<equiv> 0x08"
abbreviation (input) FAT_CREATE :: u8 where "FAT_CREATE \<equiv> 0x10"
abbreviation (input) FAT_ACCESSED :: u8 where "FAT_ACCESSED \<equiv> 0x20"
abbreviation (input) FAT_MODIFIED :: u8 where "FAT_MODIFIED \<equiv> 0x40"
abbreviation (input) FAT_FILE_DIRTY :: u8 where "FAT_FILE_DIRTY \<equiv> 0x80"

datatype fat_seek = FAT_SEEK_START | FAT_SEEK_CURR | FAT_SEEK_END

abbreviation (input) FSINFO_HEAD_SIG :: u32 where "FSINFO_HEAD_SIG \<equiv> 0x41615252"
abbreviation (input) FSINFO_STRUCT_SIG :: u32 where "FSINFO_STRUCT_SIG \<equiv> 0x61417272"
abbreviation (input) FSINFO_TAIL_SIG :: u32 where "FSINFO_TAIL_SIG \<equiv> 0xaa550000"
abbreviation (input) EXT_FLAG_MIRROR :: u16 where "EXT_FLAG_MIRROR \<equiv> 0x80"
abbreviation (input) EXT_FLAG_SECOND :: u16 where "EXT_FLAG_SECOND \<equiv> 0x0001"
abbreviation (input) LFN_HEAD_MSK :: u8 where "LFN_HEAD_MSK \<equiv> 0x40"
abbreviation (input) LFN_SEQ_MSK :: u8 where "LFN_SEQ_MSK \<equiv> 0x1f"
abbreviation (input) SFN_FREE :: u8 where "SFN_FREE \<equiv> 0xe5"
abbreviation (input) SFN_LAST :: u8 where "SFN_LAST \<equiv> 0x00"
abbreviation (input) SFN_PAD :: u8 where "SFN_PAD \<equiv> 0x20"

abbreviation (input) FAT_BUF_DIRTY :: u8 where "FAT_BUF_DIRTY \<equiv> 0x01"
abbreviation (input) FAT_INFO_DIRTY :: u8 where "FAT_INFO_DIRTY \<equiv> 0x02"

abbreviation (input) CLUST_FREE :: u8 where "CLUST_FREE \<equiv> 0x01"
abbreviation (input) CLUST_USED :: u8 where "CLUST_USED \<equiv> 0x02"
abbreviation (input) CLUST_LAST :: u8 where "CLUST_LAST \<equiv> 0x04"
abbreviation (input) CLUST_BAD :: u8 where "CLUST_BAD \<equiv> 0x08"

section \<open>Structures\<close>

text \<open>\<^verbatim>\<open>read(buf, sect)\<close> gets the old buffer and returns the result code and the new one.\<close>

record 'd DiskOps =
  ops_read :: "u8 list \<Rightarrow> u32 \<Rightarrow> 'd \<Rightarrow> bool \<times> u8 list \<times> 'd"
  ops_write :: "u8 list \<Rightarrow> u32 \<Rightarrow> 'd \<Rightarrow> bool \<times> 'd"

record Timestamp =
  ts_hour :: u8
  ts_min :: u8
  ts_sec :: u8
  ts_day :: u8
  ts_month :: u8
  ts_year :: u16

record 'd Fat =
  f_next :: u64
  f_ops :: "'d DiskOps"
  f_clust_msk :: u32
  f_clust_cnt :: u32
  f_info_sect :: u32
  f_fat_sect0 :: u32
  f_fat_sect1 :: u32
  f_data_sect :: u32
  f_root_clust :: u32
  f_last_used :: u32
  f_free_cnt :: u32
  f_sect :: u32
  f_buf :: "u8 list"
  f_flags :: u8
  f_clust_shift :: u8
  f_name_len :: u8
  f_name :: "u8 list"

record DirInfo =
  di_created :: Timestamp
  di_modified :: Timestamp
  di_size :: u32
  di_attr :: u8
  di_name :: "u8 list"
  di_name_len :: u8

record Dir =
  d_fat :: u64
  d_sclust :: u32
  d_clust :: u32
  d_sect :: u32
  d_idx :: u16

record File =
  fl_fat :: u64
  fl_dir_sect :: u32
  fl_sclust :: u32
  fl_clust :: u32
  fl_sect :: u32
  fl_size :: u32
  fl_offset :: u32
  fl_dir_idx :: u16
  fl_attr :: u8
  fl_flags :: u8
  fl_buf :: "u8 list"

record Loc =
  l_sect :: u32
  l_idx :: u16

text \<open>The driver's state; \<^verbatim>\<open>uninit\<close> is the value of an uninitialised \<^verbatim>\<open>uint8_t\<close> local, which
  \<^verbatim>\<open>stretch_chain\<close> can return.\<close>

record 'd fs =
  g_fat_list :: u64
  vol :: "u64 \<Rightarrow> 'd Fat"
  g_buf :: "u8 list"
  g_len :: u16
  g_crc :: u8
  dev :: 'd
  uninit :: u8

definition upd_vol :: "u64 \<Rightarrow> ('d Fat \<Rightarrow> 'd Fat) \<Rightarrow> 'd fs \<Rightarrow> 'd fs" where
  "upd_vol p g s = s\<lparr>vol := (vol s)(p := g (vol s p))\<rparr>"

lemma upd_vol_simps [simp]:
  "vol (upd_vol p g s) = (vol s)(p := g (vol s p))" "dev (upd_vol p g s) = dev s"
  "g_buf (upd_vol p g s) = g_buf s" "g_len (upd_vol p g s) = g_len s" "g_crc (upd_vol p g s) = g_crc s"
  "g_fat_list (upd_vol p g s) = g_fat_list s" "uninit (upd_vol p g s) = uninit s"
  by (simp_all add: upd_vol_def)

definition set_flag :: "u8 \<Rightarrow> 'd Fat \<Rightarrow> 'd Fat" where
  "set_flag m f = f\<lparr>f_flags := f_flags f OR m\<rparr>"

definition clear_flag :: "u8 \<Rightarrow> 'd Fat \<Rightarrow> 'd Fat" where
  "clear_flag m f = f\<lparr>f_flags := f_flags f AND NOT m\<rparr>"

definition g_lfn_indices :: "nat list" where
  "g_lfn_indices = [1, 3, 5, 7, 9, 14, 16, 18, 20, 22, 24, 28, 30]"

section \<open>Helpers\<close>

text \<open>\<^verbatim>\<open>*path\<close> of a string.\<close>

definition first_char :: "u8 list \<Rightarrow> u8" where
  "first_char s = (case s of [] \<Rightarrow> 0 | c # _ \<Rightarrow> c)"

text \<open>Characters are signed; the bounds are ASCII, so the byte comparison agrees.\<close>

definition to_upper :: "u8 \<Rightarrow> u8" where
  "to_upper c = (if 97 \<le> sint c \<and> sint c \<le> 122 then c AND NOT 0x20 else c)"

fun subpath_len :: "u8 list \<Rightarrow> nat" where
  "subpath_len [] = 0"
| "subpath_len (c # s) = (if c \<noteq> 0 \<and> c \<noteq> 47 then Suc (subpath_len s) else 0)"

fun skip_slashes :: "u8 list \<Rightarrow> u8 list" where
  "skip_slashes [] = []"
| "skip_slashes (c # s) = (if c = 47 then skip_slashes s else c # s)"

definition last_subpath_len :: "u8 list \<Rightarrow> nat" where
  "last_subpath_len path =
     (let len = subpath_len path
      in if len = 0 then 0
         else let path = skip_slashes (drop len path)
              in if first_char path \<noteq> 0 then 0 else len)"

definition get_crc :: "u8 list \<Rightarrow> u8" where
  "get_crc name =
     fold (\<lambda>i sum. push_bit 7 (sum AND 1) + drop_bit 1 sum + name ! i) [0..<11] 0"

definition decode_timestamp :: "u16 \<Rightarrow> u16 \<Rightarrow> Timestamp" where
  "decode_timestamp date time =
     \<lparr>ts_hour = ucast (drop_bit 11 time AND 0x1f),
      ts_min = ucast (drop_bit 5 time AND 0x3f),
      ts_sec = ucast (2 * (time AND 0x1f)),
      ts_day = ucast (date AND 0x1f),
      ts_month = ucast (drop_bit 5 date AND 0xf),
      ts_year = (drop_bit 9 date AND 0x3f) + 1980\<rparr>"

text \<open>\<^verbatim>\<open>fat_get_timestamp\<close> (a weak symbol: a port may replace it) and the encoding of the time it
  returns.\<close>

definition fat_get_timestamp :: Timestamp where
  "fat_get_timestamp = \<lparr>ts_hour = 0, ts_min = 0, ts_sec = 0, ts_day = 1, ts_month = 1, ts_year = 1980\<rparr>"

definition encode_timestamp :: "Timestamp \<Rightarrow> u16 \<times> u16" where
  "encode_timestamp ts =
     (push_bit 9 ((ts_year ts - 1980) AND 0x3f) OR push_bit 5 (ucast (ts_month ts AND 0xf))
        OR ucast (ts_day ts AND 0x1f),
      ucast ((ts_sec ts div 2) AND 0x1f) OR push_bit 5 (ucast (ts_min ts AND 0x3f))
        OR push_bit 11 (ucast (ts_hour ts AND 0x1f)))"

partial_function (option) find_volume_from :: "u8 list \<Rightarrow> nat \<Rightarrow> u64 \<Rightarrow> 'd fs \<Rightarrow> u64 option" where
  "find_volume_from name len it s =
     (if it = 0 then Some 0
      else if int len = uint (f_name_len (vol s it)) \<and> \<not> memcmp name (f_name (vol s it)) len then Some it
      else find_volume_from name len (f_next (vol s it)) s)"

definition find_fat_volume :: "u8 list \<Rightarrow> nat \<Rightarrow> 'd fs \<Rightarrow> u64 option" where
  "find_fat_volume name len s = find_volume_from name len (g_fat_list s) s"

definition sect_to_clust :: "'d Fat \<Rightarrow> u32 \<Rightarrow> u32" where
  "sect_to_clust fat sect = drop_bit (unat (f_clust_shift fat)) (sect - f_data_sect fat) + 2"

definition clust_to_sect :: "'d Fat \<Rightarrow> u32 \<Rightarrow> u32" where
  "clust_to_sect fat clust = push_bit (unat (f_clust_shift fat)) (clust - 2) + f_data_sect fat"

definition fat_get_error :: "int \<Rightarrow> string" where
  "fat_get_error err =
     (let strs = [''FAT_ERR_NONE'', ''FAT_ERR_NOFAT'', ''FAT_ERR_BROKEN'', ''FAT_ERR_IO'', ''FAT_ERR_PARAM'',
        ''FAT_ERR_PATH'', ''FAT_ERR_EOF'', ''FAT_ERR_DENIED'', ''FAT_ERR_FULL''];
          err = - err
      in if err < 0 \<or> int (length strs) \<le> err then ''NULL'' else strs ! nat err)"

section \<open>Properties\<close>

lemma clust_sect_inverse:
  assumes "2 \<le> clust" and "unat (clust - 2) * 2 ^ n < 2 ^ 32" and "n = unat (f_clust_shift fat)" and "n < 8"
    and "unat k < 2 ^ n"
  shows "sect_to_clust fat (clust_to_sect fat clust + k) = clust"
proof -
  define c where "c = clust - 2"
  have "unat c * 2 ^ n + 2 ^ n \<le> 2 ^ 32"
  proof -
    have pow: "(2::nat) ^ 32 = 2 ^ (32 - n) * 2 ^ n" using assms(4) by (simp flip: power_add)
    have "unat c * 2 ^ n < 2 ^ (32 - n) * 2 ^ n" using assms(2) pow by (simp only: c_def)
    then have "unat c < 2 ^ (32 - n)" by (simp only: mult_less_cancel2)
    then have "Suc (unat c) * 2 ^ n \<le> 2 ^ (32 - n) * 2 ^ n" by (intro mult_le_mono1) simp
    then show ?thesis using pow by simp
  qed
  then have lt: "unat c * 2 ^ n + unat k < 2 ^ 32" using assms(5) by simp
  have p: "unat (push_bit n c) = unat c * 2 ^ n"
  proof -
    have "unat (push_bit n c) = take_bit 32 (push_bit n (unat c))" by (simp add: unsigned_push_bit_eq)
    then show ?thesis using lt by (simp only: push_bit_eq_mult take_bit_nat_eq_self)
  qed
  then have s: "unat (push_bit n c + k) = unat c * 2 ^ n + unat k"
    using lt by (subst unat_plus_small) auto
  have "unat (drop_bit n (push_bit n c + k)) = unat c"
    unfolding unat_drop_bit_eq s using assms(5) by (simp add: drop_bit_eq_div)
  then have "drop_bit n (push_bit n c + k) = c" by (simp only: word_unat_eq_iff)
  then show ?thesis using assms(3) by (simp add: sect_to_clust_def clust_to_sect_def c_def algebra_simps)
qed

lemmas masks = mask_eq_exp_minus_1

lemma date_fields:
  fixes y :: u16 and m d :: u8
  defines "date \<equiv> push_bit 9 (y AND 0x3f) OR push_bit 5 (ucast (m AND 0xf)) OR ucast (d AND 0x1f)"
  shows "drop_bit 9 date AND 0x3f = y AND 0x3f" "ucast (drop_bit 5 date AND 0xf) = m AND 0xf"
    "ucast (date AND 0x1f) = d AND 0x1f"
proof -
  have m: "(0x3f :: u16) = mask 6" "(0xf :: u8) = mask 4" "(0xf :: u16) = mask 4"
      "(0x1f :: u8) = mask 5" "(0x1f :: u16) = mask 5" by (simp_all add: masks)
  show "drop_bit 9 date AND 0x3f = y AND 0x3f" "ucast (drop_bit 5 date AND 0xf) = m AND 0xf"
    "ucast (date AND 0x1f) = d AND 0x1f"
    unfolding date_def m by (rule bit_word_eqI, auto simp: bit_simps)+
qed

lemma time_fields:
  fixes h m :: u8 and z :: u8
  defines "time \<equiv> ucast (z AND 0x1f) OR push_bit 5 (ucast (m AND 0x3f)) OR push_bit 11 (ucast (h AND 0x1f)) :: u16"
  shows "ucast (drop_bit 11 time AND 0x1f) = h AND 0x1f" "ucast (drop_bit 5 time AND 0x3f) = m AND 0x3f"
    "time AND 0x1f = ucast (z AND 0x1f)"
proof -
  have m: "(0x3f :: u16) = mask 6" "(0x3f :: u8) = mask 6" "(0x1f :: u8) = mask 5" "(0x1f :: u16) = mask 5"
    by (simp_all add: masks)
  show "ucast (drop_bit 11 time AND 0x1f) = h AND 0x1f" "ucast (drop_bit 5 time AND 0x3f) = m AND 0x3f"
    "time AND 0x1f = ucast (z AND 0x1f)"
    unfolding time_def m by (rule bit_word_eqI, auto simp: bit_simps)+
qed

lemma year_field:
  fixes y :: u16
  assumes "1980 \<le> y" and "y < 2108"
  shows "((y - 1980) AND 0x3f) + 1980 = (if y < 2044 then y else y - 64)"
proof -
  have m: "(0x3f :: u16) = mask 6" by (simp add: masks)
  have u: "unat (y - 1980) = unat y - 1980" using assms(1) by (simp add: unat_sub)
  have "unat ((y - 1980) AND 0x3f) = (unat y - 1980) mod 64"
    unfolding m take_bit_eq_mask [symmetric] unsigned_take_bit_eq u
    by (simp add: take_bit_eq_mod)
  also have "\<dots> = (if y < 2044 then unat y - 1980 else unat y - 2044)"
    using assms by (auto simp: word_less_nat_alt word_le_nat_alt mod_if)
  finally have "unat (((y - 1980) AND 0x3f) + 1980) = unat (if y < 2044 then y else y - 64)"
    using assms by (subst unat_plus_small) (auto simp: word_less_nat_alt word_le_nat_alt unat_sub)
  then show ?thesis by (simp only: word_unat_eq_iff)
qed

lemma sec_field:
  fixes z :: u8
  assumes "z mod 2 = 0" and "z < 64"
  shows "(ucast (2 * ucast ((z div 2) AND 0x1f) :: u16) :: u8) = z"
proof -
  have m: "(0x1f :: u8) = mask 5" by (simp add: masks)
  have h: "unat (z div 2) = unat z div 2" by (simp add: unat_div)
  have "unat (z mod 2) = unat z mod 2" by (simp add: unat_mod)
  then have z: "unat z mod 2 = 0" "unat z < 64" using assms by (simp_all add: word_less_nat_alt)
  have "z div 2 < 2 ^ 5" using h z by (simp add: word_less_nat_alt)
  then have "(z div 2) AND 0x1f = z div 2" unfolding m by (rule less_mask_eq)
  moreover have "unat (ucast (2 * ucast (z div 2) :: u16) :: u8) = unat z"
    using h z by (simp add: unsigned_ucast_eq unat_word_ariths take_bit_nat_eq_self) presburger
  ultimately show ?thesis by (metis word_unat_eq_iff)
qed

text \<open>
  Time stamps survive encoding and decoding (to the even second) for the years 1980 to 2043; a later
  year comes back 64 years early, because both directions keep six bits of the year.
\<close>

theorem timestamp_roundtrip:
  assumes "ts_hour ts < 32" and "ts_min ts < 64" and "ts_sec ts < 64" and "ts_sec ts mod 2 = 0"
    and "ts_day ts < 32" and "ts_month ts < 16" and "1980 \<le> ts_year ts" and "ts_year ts < 2108"
  shows "case encode_timestamp ts of (date, time) \<Rightarrow>
    decode_timestamp date time = (if ts_year ts < 2044 then ts else ts\<lparr>ts_year := ts_year ts - 64\<rparr>)"
proof -
  have m: "(0x3f :: u8) = mask 6" "(0xf :: u8) = mask 4" "(0x1f :: u8) = mask 5" by (simp_all add: masks)
  have "ts_hour ts AND 0x1f = ts_hour ts" "ts_min ts AND 0x3f = ts_min ts" "ts_day ts AND 0x1f = ts_day ts"
      "ts_month ts AND 0xf = ts_month ts"
    unfolding m using assms by (simp_all add: less_mask_eq)
  then show ?thesis
    unfolding encode_timestamp_def decode_timestamp_def prod.case date_fields time_fields
      sec_field [OF assms(4,3)] year_field [OF assms(7,8)]
    by simp
qed

theorem timestamp_roundtrip_witness:
  "decode_timestamp (fst (encode_timestamp \<lparr>ts_hour = 23, ts_min = 59, ts_sec = 58, ts_day = 31, ts_month = 12, ts_year = 2025\<rparr>))
     (snd (encode_timestamp \<lparr>ts_hour = 23, ts_min = 59, ts_sec = 58, ts_day = 31, ts_month = 12, ts_year = 2025\<rparr>))
   = \<lparr>ts_hour = 23, ts_min = 59, ts_sec = 58, ts_day = 31, ts_month = 12, ts_year = 2025\<rparr>"
  using timestamp_roundtrip
    [of "\<lparr>ts_hour = 23, ts_min = 59, ts_sec = 58, ts_day = 31, ts_month = 12, ts_year = 2025\<rparr>"]
  by (simp add: case_prod_beta)

text \<open>
  The look-up of a mounted volume walks the list of volumes and stops at the first one whose name has
  the requested length and \<^emph>\<open>differs\<close> from the requested name, because the kernel's \<^verbatim>\<open>memcmp\<close> answers
  true for equal blocks: a volume is never found under its own name.
\<close>

theorem find_fat_volume_inverted:
  assumes "flist (\<lambda>p. f_next (vol s p)) (g_fat_list s) ps"
    and "\<forall>p \<in> set ps. length (f_name (vol s p)) = 32 \<and> f_name_len (vol s p) \<le> 32"
  shows "find_fat_volume name (length name) s =
    Some (case find (\<lambda>p. length name = unat (f_name_len (vol s p)) \<and> name \<noteq> take (length name) (f_name (vol s p))) ps
          of None \<Rightarrow> 0 | Some p \<Rightarrow> p)"
proof -
  define match where "match = (\<lambda>p. length name = unat (f_name_len (vol s p))
    \<and> name \<noteq> take (length name) (f_name (vol s p)))"
  have step: "(int (length name) = uint (f_name_len (vol s p)) \<and> \<not> memcmp name (f_name (vol s p)) (length name))
      \<longleftrightarrow> match p" if "p \<in> set ps" for p
  proof (cases "length name = unat (f_name_len (vol s p))")
    case True
    then have "length name \<le> length (f_name (vol s p))" using assms(2) that by (simp add: word_le_nat_alt)
    with True show ?thesis by (simp add: match_def memcmp_iff_take)
  next
    case False
    then have "int (length name) \<noteq> uint (f_name_len (vol s p))" by (metis nat_int unat_eq_nat_uint)
    with False show ?thesis by (simp add: match_def)
  qed
  have "find_volume_from name (length name) it s = Some (case find match qs of None \<Rightarrow> 0 | Some p \<Rightarrow> p)"
    if "flist (\<lambda>p. f_next (vol s p)) it qs" "set qs \<subseteq> set ps" for it qs
    using that
  proof (induction qs arbitrary: it)
    case Nil
    then show ?case by (subst find_volume_from.simps) simp
  next
    case (Cons p qs)
    then have it: "it = p" "p \<noteq> 0" "p \<in> set ps" by auto
    have "find_volume_from name (length name) it s =
        (if match p then Some p else find_volume_from name (length name) (f_next (vol s p)) s)"
      unfolding it(1) using it(2) step [OF it(3)] by (subst find_volume_from.simps) simp
    with Cons show ?case by simp
  qed
  from this [OF assms(1)] show ?thesis by (simp add: find_fat_volume_def flip: match_def)
qed

definition fat_blank :: "'d DiskOps \<Rightarrow> u8 list \<Rightarrow> 'd Fat" where
  "fat_blank ops name = \<lparr>f_next = 0, f_ops = ops, f_clust_msk = 0, f_clust_cnt = 70000, f_info_sect = 1,
     f_fat_sect0 = 32, f_fat_sect1 = 0, f_data_sect = 600, f_root_clust = 2, f_last_used = 2, f_free_cnt = 69990,
     f_sect = 0, f_buf = replicate 512 0, f_flags = 0, f_clust_shift = 0, f_name_len = of_nat (length name),
     f_name = name @ replicate (32 - length name) 0\<rparr>"

definition fs_with :: "'d Fat \<Rightarrow> 'd \<Rightarrow> 'd fs" where
  "fs_with f d = \<lparr>g_fat_list = 1, vol = (\<lambda>_. f), g_buf = replicate 512 0, g_len = 0, g_crc = 0, dev = d,
     uninit = 0\<rparr>"

text \<open>One volume mounted as "disk0": it is not found as "disk0" but found as "disk1".\<close>

definition no_disk :: "unit DiskOps" where
  "no_disk = \<lparr>ops_read = (\<lambda>b n d. (False, b, d)), ops_write = (\<lambda>b n d. (False, d))\<rparr>"

definition fs_disk0 :: "unit fs" where
  "fs_disk0 = fs_with (fat_blank no_disk (bytes ''disk0'')) ()"

lemma fs_disk0_simps:
  "g_fat_list fs_disk0 = 1" "f_next (vol fs_disk0 p) = 0" "f_name_len (vol fs_disk0 p) = 5"
  "f_name (vol fs_disk0 p) = bytes ''disk0'' @ replicate 27 0"
  by (simp_all add: fs_disk0_def fs_with_def fat_blank_def)

theorem find_fat_volume_inverted_witness:
  "find_fat_volume (bytes ''disk0'') (length (bytes ''disk0'')) fs_disk0 = Some 0
   \<and> find_fat_volume (bytes ''disk1'') (length (bytes ''disk1'')) fs_disk0 = Some 1"
  using find_fat_volume_inverted [of fs_disk0 "[1]" "bytes ''disk0''"]
    find_fat_volume_inverted [of fs_disk0 "[1]" "bytes ''disk1''"]
  by (simp add: fs_disk0_simps bytes_def)

end
