(* ===== verification/Fat32_Table.thy ===== *)
theory Fat32_Table
  imports Fat32_Base
begin

text \<open>
  The sector cache and the file allocation table of \<^verbatim>\<open>fat32.c\<close>: \<^verbatim>\<open>sync_buf\<close> to \<^verbatim>\<open>clust_clear\<close>.
  Every function takes the volume's address and the state and returns the error code and the state;
  out-parameters are passed in and returned, so that their value on an error path is visible.
  The loops that follow links found on the disk are partial functions: \<^const>\<open>None\<close> means that
  the loop does not end.

  The locale \<^verbatim>\<open>block_dev\<close> is the contract of a disk behind \<^verbatim>\<open>DiskOps\<close>.  Inside it: the write-back
  cache is transparent (the volume's \<^emph>\<open>logical\<close> sectors, cache over disk, are what every operation
  reads and writes, errors included), reading and writing table entries refines a map from clusters to
  28-bit values with the upper nibble and the mirror copy maintained, freeing and extending cluster
  chains are map updates, and the search for a free cluster ends.
\<close>

section \<open>The sector cache\<close>

definition sync_buf :: "u64 \<Rightarrow> 'd fs \<Rightarrow> int \<times> 'd fs" where
  "sync_buf p s =
     (let f = vol s p
      in if f_flags f AND FAT_BUF_DIRTY \<noteq> 0
         then (let (ok, d) = ops_write (f_ops f) (f_buf f) (f_sect f) (dev s);
                   s = s\<lparr>dev := d\<rparr>
               in if \<not> ok then (FAT_ERR_IO, s)
                  else (FAT_ERR_NONE, upd_vol p (clear_flag FAT_BUF_DIRTY) s))
         else (FAT_ERR_NONE, s))"

definition update_buf :: "u64 \<Rightarrow> u32 \<Rightarrow> 'd fs \<Rightarrow> int \<times> 'd fs" where
  "update_buf p sect s =
     (if f_sect (vol s p) \<noteq> sect
      then (let (err, s) = sync_buf p s
            in if err \<noteq> 0 then (err, s)
               else (let (ok, b, d) = ops_read (f_ops (vol s p)) (f_buf (vol s p)) sect (dev s);
                         s = upd_vol p (\<lambda>f. f\<lparr>f_buf := b\<rparr>) (s\<lparr>dev := d\<rparr>)
                     in if \<not> ok then (FAT_ERR_IO, s)
                        else (FAT_ERR_NONE, upd_vol p (\<lambda>f. f\<lparr>f_sect := sect\<rparr>) s)))
      else (FAT_ERR_NONE, s))"

definition sync_fs :: "u64 \<Rightarrow> 'd fs \<Rightarrow> int \<times> 'd fs" where
  "sync_fs p s =
     (let (err, s) = sync_buf p s
      in if err \<noteq> 0 then (err, s)
         else if f_flags (vol s p) AND FAT_INFO_DIRTY \<noteq> 0
         then (let (err, s) = update_buf p (f_info_sect (vol s p)) s
               in if err \<noteq> 0 then (err, s)
                  else (let s = upd_vol p (set_flag FAT_BUF_DIRTY) s;
                            s = upd_vol p (\<lambda>f. f\<lparr>f_buf := put32 (f_buf f) 492 (f_last_used f)\<rparr>) s;
                            s = upd_vol p (\<lambda>f. f\<lparr>f_buf := put32 (f_buf f) 488 (f_free_cnt f)\<rparr>) s;
                            (err, s) = sync_buf p s
                        in if err \<noteq> 0 then (err, s)
                           else (FAT_ERR_NONE, upd_vol p (clear_flag FAT_INFO_DIRTY) s)))
         else (FAT_ERR_NONE, s))"

section \<open>Table entries\<close>

definition get_fat :: "u64 \<Rightarrow> u32 \<Rightarrow> u32 \<times> u8 \<Rightarrow> 'd fs \<Rightarrow> int \<times> (u32 \<times> u8) \<times> 'd fs" where
  "get_fat p clust out s =
     (let sect = f_fat_sect0 (vol s p) + clust div 128;
          idx = clust mod 128;
          (err, s) = update_buf p sect s
      in if err \<noteq> 0 then (err, out, s)
         else let val = le32 (f_buf (vol s p)) (4 * unat idx) AND 0x0fffffff
              in if val = 0 then (FAT_ERR_NONE, (val, CLUST_FREE), s)
                 else if val = 0x0ffffff7 then (FAT_ERR_NONE, (val, CLUST_BAD), s)
                 else if 0x0ffffff8 \<le> val then (FAT_ERR_NONE, (val, CLUST_USED OR CLUST_LAST), s)
                 else if 2 \<le> val \<and> val < f_clust_cnt (vol s p) then (FAT_ERR_NONE, (val, CLUST_USED), s)
                 else (FAT_ERR_BROKEN, out, s))"

definition put_fat2 :: "u64 \<Rightarrow> u32 \<Rightarrow> u32 \<Rightarrow> u32 \<Rightarrow> 'd fs \<Rightarrow> int \<times> 'd fs" where
  "put_fat2 p fat_sect clust val s =
     (let sect = fat_sect + clust div 128;
          idx = 4 * unat (clust mod 128);
          (err, s) = update_buf p sect s
      in if err \<noteq> 0 then (err, s)
         else (let s = upd_vol p (\<lambda>f. f\<lparr>f_buf := put32 (f_buf f) idx
                    ((le32 (f_buf f) idx AND 0xf0000000) OR (val AND 0x0fffffff))\<rparr>) s
               in (FAT_ERR_NONE, upd_vol p (set_flag FAT_BUF_DIRTY) s)))"

definition put_fat :: "u64 \<Rightarrow> u32 \<Rightarrow> u32 \<Rightarrow> 'd fs \<Rightarrow> int \<times> 'd fs" where
  "put_fat p clust val s =
     (if f_fat_sect1 (vol s p) \<noteq> 0
      then (let (err, s) = put_fat2 p (f_fat_sect1 (vol s p)) clust val s
            in if err \<noteq> 0 then (err, s)
               else put_fat2 p (f_fat_sect0 (vol s p)) clust val s)
      else put_fat2 p (f_fat_sect0 (vol s p)) clust val s)"

section \<open>Cluster chains\<close>

partial_function (option) remove_loop :: "u64 \<Rightarrow> u32 \<Rightarrow> u32 \<times> u8 \<Rightarrow> 'd fs \<Rightarrow> (int \<times> 'd fs) option" where
  "remove_loop p clust out s =
     (let (err, (nxt, flags), s) = get_fat p clust out s
      in if err \<noteq> 0 then Some (err, s)
         else if flags AND (CLUST_BAD OR CLUST_FREE) \<noteq> 0 then Some (FAT_ERR_BROKEN, s)
         else let (err, s) = put_fat p clust 0 s
              in if err \<noteq> 0 then Some (err, s)
                 else let s = upd_vol p (\<lambda>f. f\<lparr>f_free_cnt := f_free_cnt f + 1\<rparr>) s
                      in if flags AND CLUST_LAST \<noteq> 0 then Some (sync_fs p s)
                         else remove_loop p nxt (nxt, flags) s)"

definition remove_chain :: "u64 \<Rightarrow> u32 \<Rightarrow> 'd fs \<Rightarrow> (int \<times> 'd fs) option" where
  "remove_chain p clust s =
     remove_loop p clust (0, uninit s) (upd_vol p (set_flag FAT_INFO_DIRTY) s)"

text \<open>\<^verbatim>\<open>if (++clust >= fat->clust_cnt) clust = 2;\<close>\<close>

definition next_clust :: "'d Fat \<Rightarrow> u32 \<Rightarrow> u32" where
  "next_clust f clust = (if f_clust_cnt f \<le> clust + 1 then 2 else clust + 1)"

text \<open>The scan for a free cluster: \<^term>\<open>Inl e\<close> is \<^verbatim>\<open>return e\<close>.  When the table cannot be read, the
  code returns \<^verbatim>\<open>flags\<close>, not the error code.\<close>

partial_function (option) stretch_scan ::
  "u64 \<Rightarrow> u32 \<Rightarrow> u32 \<times> u8 \<Rightarrow> 'd fs \<Rightarrow> ((int + u32) \<times> 'd fs) option" where
  "stretch_scan p clust out s =
     (let clust = next_clust (vol s p) clust
      in if clust = f_last_used (vol s p) then Some (Inl FAT_ERR_FULL, s)
         else let (err, (nxt, flags), s) = get_fat p clust out s
              in if err \<noteq> 0 then Some (Inl (uint flags), s)
                 else if flags AND CLUST_FREE \<noteq> 0 then Some (Inr clust, s)
                 else stretch_scan p clust (nxt, flags) s)"

text \<open>The second half of \<^verbatim>\<open>stretch_chain\<close>: mark the cluster, add the link.\<close>

definition stretch_link :: "u64 \<Rightarrow> u32 \<Rightarrow> u32 \<Rightarrow> u32 \<Rightarrow> 'd fs \<Rightarrow> int \<times> u32 \<times> 'd fs" where
  "stretch_link p prev clust out s =
     (let (err, s) = put_fat p clust 0x0fffffff s
      in if err \<noteq> 0 then (err, out, s)
         else let (err, s) = (if prev \<noteq> 0 then put_fat p prev clust s else (FAT_ERR_NONE, s))
              in if err \<noteq> 0 then (err, out, s)
                 else let s = upd_vol p (\<lambda>f. f\<lparr>f_last_used := clust, f_free_cnt := f_free_cnt f - 1\<rparr>) s;
                          (err, s) = sync_fs p s
                      in (err, clust, s))"

definition stretch_chain :: "u64 \<Rightarrow> u32 \<Rightarrow> u32 \<Rightarrow> 'd fs \<Rightarrow> (int \<times> u32 \<times> 'd fs) option" where
  "stretch_chain p prev out s =
     (let s = upd_vol p (set_flag FAT_INFO_DIRTY) s;
          clust = next_clust (vol s p) prev;
          (err, (nxt, flags), s) =
            (if prev \<noteq> 0 then get_fat p clust (0, uninit s) s else (FAT_ERR_NONE, (0, uninit s), s))
      in if err \<noteq> 0 then Some (err, out, s)
         else if prev \<noteq> 0 \<and> flags AND CLUST_FREE \<noteq> 0 then Some (stretch_link p prev clust out s)
         else do {
           (r, s) \<leftarrow> stretch_scan p (f_last_used (vol s p)) (nxt, flags) s;
           case r of Inl e \<Rightarrow> Some (e, out, s)
           | Inr clust \<Rightarrow> Some (stretch_link p prev clust out s)
         })"

definition create_chain :: "u64 \<Rightarrow> u32 \<Rightarrow> 'd fs \<Rightarrow> (int \<times> u32 \<times> 'd fs) option" where
  "create_chain p out s = stretch_chain p 0 out s"

fun clear_loop :: "nat \<Rightarrow> u64 \<Rightarrow> u32 \<Rightarrow> 'd fs \<Rightarrow> int \<times> 'd fs" where
  "clear_loop 0 p sect s = (FAT_ERR_NONE, s)"
| "clear_loop (Suc n) p sect s =
     (let s = upd_vol p (set_flag FAT_BUF_DIRTY) s;
          s = upd_vol p (\<lambda>f. f\<lparr>f_sect := sect\<rparr>) s;
          (err, s) = sync_buf p s
      in if err \<noteq> 0 then (err, s) else clear_loop n p (sect + 1) s)"

definition clust_clear :: "u64 \<Rightarrow> u32 \<Rightarrow> 'd fs \<Rightarrow> int \<times> 'd fs" where
  "clust_clear p clust s =
     (let (err, s) = sync_buf p s
      in if err \<noteq> 0 then (err, s)
         else let sect = clust_to_sect (vol s p) clust;
                  s = upd_vol p (\<lambda>f. f\<lparr>f_buf := replicate 512 0\<rparr>) s
              in clear_loop (2 ^ unat (f_clust_shift (vol s p))) p sect s)"

section \<open>The contract of the disk and of the cache\<close>

locale block_dev =
  fixes ops :: "'d DiskOps"
    and sector :: "'d \<Rightarrow> u32 \<Rightarrow> u8 list"
    and good :: "'d \<Rightarrow> bool"
  assumes sector_size: "good d \<Longrightarrow> length (sector d n) = 512"
    and read_law: "good d \<Longrightarrow> length b = 512 \<Longrightarrow> ops_read ops b n d = (r, b', d') \<Longrightarrow>
      good d' \<and> sector d' = sector d \<and> b' = (if r then sector d n else b)"
    and write_law: "good d \<Longrightarrow> length b = 512 \<Longrightarrow> ops_write ops b n d = (r, d') \<Longrightarrow>
      good d' \<and> (\<forall>m. m \<noteq> n \<longrightarrow> sector d' m = sector d m) \<and> (r \<longrightarrow> sector d' n = b)"

definition dirty :: "'d Fat \<Rightarrow> bool" where
  "dirty f = bit (f_flags f) 0"

text \<open>The logical sectors of a volume: the cached sector where it is dirty, the disk elsewhere.\<close>

definition lsect :: "('d \<Rightarrow> u32 \<Rightarrow> u8 list) \<Rightarrow> u64 \<Rightarrow> 'd fs \<Rightarrow> u32 \<Rightarrow> u8 list" where
  "lsect sector p s n =
     (if dirty (vol s p) \<and> f_sect (vol s p) = n then f_buf (vol s p) else sector (dev s) n)"

text \<open>Sector number 0 in the cache means that nothing is cached (\<^verbatim>\<open>fat_mount\<close> leaves it so).\<close>

definition cache_inv ::
  "'d DiskOps \<Rightarrow> ('d \<Rightarrow> u32 \<Rightarrow> u8 list) \<Rightarrow> ('d \<Rightarrow> bool) \<Rightarrow> u64 \<Rightarrow> 'd fs \<Rightarrow> bool" where
  "cache_inv ops sector good p s \<longleftrightarrow>
     good (dev s) \<and> f_ops (vol s p) = ops \<and> length (f_buf (vol s p)) = 512
   \<and> (dirty (vol s p) \<longrightarrow> f_sect (vol s p) \<noteq> 0)
   \<and> (f_sect (vol s p) \<noteq> 0 \<and> \<not> dirty (vol s p) \<longrightarrow> f_buf (vol s p) = sector (dev s) (f_sect (vol s p)))"

text \<open>What the cache operations leave alone: everything but the volume's buffer, its sector number and
  its flags, and the device.\<close>

definition meta :: "'d Fat \<Rightarrow> 'd Fat" where
  "meta f = f\<lparr>f_buf := [], f_sect := 0, f_flags := 0\<rparr>"

definition frame :: "u64 \<Rightarrow> 'd fs \<Rightarrow> 'd fs \<Rightarrow> bool" where
  "frame p s s' \<longleftrightarrow> meta (vol s' p) = meta (vol s p) \<and> (\<forall>q. q \<noteq> p \<longrightarrow> vol s' q = vol s q)
     \<and> g_fat_list s' = g_fat_list s \<and> g_buf s' = g_buf s \<and> g_len s' = g_len s \<and> g_crc s' = g_crc s
     \<and> uninit s' = uninit s"

lemma frame_refl [simp, intro]: "frame p s s"
  by (simp add: frame_def)

lemma frame_trans: "frame p s t \<Longrightarrow> frame p t u \<Longrightarrow> frame p s u"
  by (simp add: frame_def)

lemma meta_fields:
  assumes "meta f = meta g"
  shows "f_next f = f_next g" "f_ops f = f_ops g" "f_clust_msk f = f_clust_msk g"
    "f_clust_cnt f = f_clust_cnt g" "f_info_sect f = f_info_sect g" "f_fat_sect0 f = f_fat_sect0 g"
    "f_fat_sect1 f = f_fat_sect1 g" "f_data_sect f = f_data_sect g" "f_root_clust f = f_root_clust g"
    "f_last_used f = f_last_used g" "f_free_cnt f = f_free_cnt g" "f_clust_shift f = f_clust_shift g"
    "f_name_len f = f_name_len g" "f_name f = f_name g"
  using assms by (cases f; cases g; simp add: meta_def)+

lemma frame_fields:
  assumes "frame p s s'"
  shows "f_clust_cnt (vol s' p) = f_clust_cnt (vol s p)" "f_info_sect (vol s' p) = f_info_sect (vol s p)"
    "f_fat_sect0 (vol s' p) = f_fat_sect0 (vol s p)" "f_fat_sect1 (vol s' p) = f_fat_sect1 (vol s p)"
    "f_last_used (vol s' p) = f_last_used (vol s p)" "f_free_cnt (vol s' p) = f_free_cnt (vol s p)"
    "f_data_sect (vol s' p) = f_data_sect (vol s p)" "f_clust_shift (vol s' p) = f_clust_shift (vol s p)"
    "f_clust_msk (vol s' p) = f_clust_msk (vol s p)" "f_root_clust (vol s' p) = f_root_clust (vol s p)"
    "f_ops (vol s' p) = f_ops (vol s p)" "uninit s' = uninit s"
  using assms by (auto simp: frame_def dest: meta_fields)

lemma and_flag_bits: "x AND 1 \<noteq> 0 \<longleftrightarrow> bit x 0" "x AND 2 \<noteq> 0 \<longleftrightarrow> bit x 1" for x :: u8
proof -
  show "x AND 1 \<noteq> 0 \<longleftrightarrow> bit x 0" by (simp add: and_one_eq bit_0 odd_iff_mod_2_eq_one)
  have "x AND 2 = (if bit x 1 then 2 else 0)" by (rule bit_word_eqI) (auto simp: bit_simps bit_2_iff)
  then show "x AND 2 \<noteq> 0 \<longleftrightarrow> bit x 1" by simp
qed

lemma flag_simps [simp]:
  "bit (f_flags (set_flag 1 f)) 0" "\<not> bit (f_flags (clear_flag 1 f)) 0"
  "bit (f_flags (set_flag 2 f)) 0 = bit (f_flags f) 0" "bit (f_flags (clear_flag 2 f)) 0 = bit (f_flags f) 0"
  "bit (f_flags (clear_flag 1 f)) (Suc 0) = bit (f_flags f) (Suc 0)" "\<not> bit (f_flags (clear_flag 2 f)) (Suc 0)"
  "f_buf (set_flag m f) = f_buf f" "f_sect (set_flag m f) = f_sect f" "f_ops (set_flag m f) = f_ops f"
  "f_buf (clear_flag m f) = f_buf f" "f_sect (clear_flag m f) = f_sect f" "f_ops (clear_flag m f) = f_ops f"
  "meta (set_flag m f) = meta f" "meta (clear_flag m f) = meta f"
  by (simp_all add: set_flag_def clear_flag_def bit_simps meta_def bit_1_iff bit_2_iff)

lemma dirty_flags [simp]:
  "dirty (set_flag 1 f)" "\<not> dirty (clear_flag 1 f)" "dirty (set_flag 2 f) = dirty f"
  "dirty (clear_flag 2 f) = dirty f" "dirty (f\<lparr>f_buf := b\<rparr>) = dirty f" "dirty (f\<lparr>f_sect := n\<rparr>) = dirty f"
  "dirty (f\<lparr>f_last_used := u\<rparr>) = dirty f" "dirty (f\<lparr>f_free_cnt := u\<rparr>) = dirty f"
  by (simp_all add: dirty_def)

lemma meta_upd [simp]: "meta (f\<lparr>f_buf := b\<rparr>) = meta f" "meta (f\<lparr>f_sect := n\<rparr>) = meta f"
  by (simp_all add: meta_def)

context block_dev
begin

abbreviation "ls \<equiv> lsect sector"
abbreviation "ci \<equiv> cache_inv ops sector good"

lemma lsect_size: "ci p s \<Longrightarrow> length (ls p s n) = 512"
  by (simp add: lsect_def cache_inv_def sector_size)

lemma sync_buf_spec:
  assumes inv: "ci p s" and run: "sync_buf p s = (e, s')"
  shows "ci p s'" "frame p s s'" "ls p s' = ls p s" "e = 0 \<Longrightarrow> \<not> dirty (vol s' p)"
    "f_sect (vol s' p) = f_sect (vol s p)" "f_buf (vol s' p) = f_buf (vol s p)" "e = 0 \<or> e = FAT_ERR_IO"
    "bit (f_flags (vol s' p)) 1 = bit (f_flags (vol s p)) 1"
proof -
  let ?f = "vol s p"
  obtain r d where w: "ops_write ops (f_buf ?f) (f_sect ?f) (dev s) = (r, d)" by (cases "ops_write ops (f_buf ?f) (f_sect ?f) (dev s)")
  have f: "f_ops ?f = ops" "length (f_buf ?f) = 512" "good (dev s)" using inv by (auto simp: cache_inv_def)
  note law = write_law [OF f(3,2) w]
  have res: "(e, s') = (if dirty ?f then (if r then (0, upd_vol p (clear_flag 1) (s\<lparr>dev := d\<rparr>)) else (- 3, s\<lparr>dev := d\<rparr>)) else (0, s))"
    using run w f(1) by (simp add: sync_buf_def Let_def and_flag_bits dirty_def split: if_splits)
  consider "dirty ?f" r "e = 0" "s' = upd_vol p (clear_flag 1) (s\<lparr>dev := d\<rparr>)"
    | "dirty ?f" "\<not> r" "e = - 3" "s' = s\<lparr>dev := d\<rparr>" | "\<not> dirty ?f" "e = 0" "s' = s"
    using res by (auto split: if_splits)
  then show "ci p s'" "frame p s s'" "ls p s' = ls p s" "e = 0 \<Longrightarrow> \<not> dirty (vol s' p)"
    "f_sect (vol s' p) = f_sect (vol s p)" "f_buf (vol s' p) = f_buf (vol s p)" "e = 0 \<or> e = FAT_ERR_IO"
    "bit (f_flags (vol s' p)) 1 = bit (f_flags (vol s p)) 1"
    by (cases; use inv law in \<open>auto simp: cache_inv_def frame_def lsect_def fun_eq_iff upd_vol_def\<close>)+
qed

lemma update_buf_spec:
  assumes inv: "ci p s" and n: "n \<noteq> 0" and run: "update_buf p n s = (e, s')"
  shows "ci p s'" "frame p s s'" "ls p s' = ls p s"
    "e = 0 \<Longrightarrow> f_sect (vol s' p) = n" "e = 0 \<Longrightarrow> f_buf (vol s' p) = ls p s n" "e = 0 \<or> e = FAT_ERR_IO"
proof -
  obtain e1 s1 where sy: "sync_buf p s = (e1, s1)" by (cases "sync_buf p s")
  note S = sync_buf_spec [OF inv sy]
  let ?f = "vol s1 p"
  obtain r b d where rd: "ops_read ops (f_buf ?f) n (dev s1) = (r, b, d)"
    by (cases "ops_read ops (f_buf ?f) n (dev s1)")
  have f: "length (f_buf ?f) = 512" "good (dev s1)" using S(1) by (auto simp: cache_inv_def)
  note law = read_law [OF f(2,1) rd]
  define s2 where "s2 = upd_vol p (\<lambda>f. f\<lparr>f_buf := b\<rparr>) (s1\<lparr>dev := d\<rparr>)"
  have ops: "f_ops ?f = ops" using S(1) by (simp add: cache_inv_def)
  have "update_buf p n s = (if f_sect (vol s p) = n then (0, s) else if e1 \<noteq> 0 then (e1, s1)
      else if r then (0, upd_vol p (\<lambda>f. f\<lparr>f_sect := n\<rparr>) s2) else (- 3, s2))"
    unfolding update_buf_def sy Let_def prod.case ops rd s2_def by simp
  note res = this [unfolded run]
  consider (hit) "f_sect (vol s p) = n" "e = 0" "s' = s"
    | (ioerr) "f_sect (vol s p) \<noteq> n" "e1 \<noteq> 0" "e = e1" "s' = s1"
    | (readerr) "f_sect (vol s p) \<noteq> n" "e1 = 0" "\<not> r" "e = - 3" "s' = s2"
    | (ok) "f_sect (vol s p) \<noteq> n" "e1 = 0" r "e = 0" "s' = upd_vol p (\<lambda>f. f\<lparr>f_sect := n\<rparr>) s2"
    using res by (auto split: if_splits)
  then have "ci p s' \<and> frame p s s' \<and> ls p s' = ls p s
    \<and> (e = 0 \<longrightarrow> f_sect (vol s' p) = n \<and> f_buf (vol s' p) = ls p s n) \<and> (e = 0 \<or> e = - 3)"
  proof cases
    case hit
    then show ?thesis using inv n by (auto simp: cache_inv_def lsect_def)
  next
    case ioerr
    then show ?thesis using S by auto
  next
    case readerr
    then have "f_buf (vol s2 p) = f_buf ?f" "sector (dev s2) = sector (dev s1)" using law by (simp_all add: s2_def)
    moreover have "frame p s s2"
      by (rule frame_trans [OF S(2)]) (simp add: frame_def s2_def upd_vol_def)
    moreover have "ls p s2 = ls p s1"
      using law readerr by (simp add: lsect_def fun_eq_iff s2_def)
    moreover have "ci p s2" using S(1) law readerr by (simp add: cache_inv_def s2_def)
    ultimately show ?thesis using S(3) readerr(4,5) by simp
  next
    case ok
    have nd: "\<not> dirty ?f" using S(4) ok by simp
    have b: "b = ls p s n" using law ok S(3) nd by (metis lsect_def)
    moreover have "frame p s s'"
      by (rule frame_trans [OF S(2)]) (use ok in \<open>simp add: frame_def s2_def upd_vol_def\<close>)
    moreover have "ls p s' = ls p s1" using law nd ok by (simp add: lsect_def fun_eq_iff s2_def)
    moreover have "ci p s'"
      using S(1) law nd ok n sector_size by (simp add: cache_inv_def s2_def)
    ultimately show ?thesis using S(3) ok by (simp add: s2_def)
  qed
  then show "ci p s'" "frame p s s'" "ls p s' = ls p s"
    "e = 0 \<Longrightarrow> f_sect (vol s' p) = n" "e = 0 \<Longrightarrow> f_buf (vol s' p) = ls p s n" "e = 0 \<or> e = FAT_ERR_IO"
    by auto
qed

text \<open>Changing the cached sector and marking it dirty is an update of the logical sectors.\<close>

lemma poke_spec:
  assumes inv: "ci p s" and n: "f_sect (vol s p) = n" "n \<noteq> 0" and b: "length (g (vol s p)) = 512"
  defines "s' \<equiv> upd_vol p (set_flag 1) (upd_vol p (\<lambda>f. f\<lparr>f_buf := g f\<rparr>) s)"
  shows "ci p s'" "frame p s s'" "ls p s' = (ls p s)(n := g (vol s p))"
  using assms(1-4) by (auto simp: cache_inv_def frame_def lsect_def fun_eq_iff s'_def upd_vol_def)

lemma sync_fs_spec:
  assumes inv: "ci p s" and i: "i = f_info_sect (vol s p)" "i \<noteq> 0" and run: "sync_fs p s = (e, s')"
  shows "ci p s'" "frame p s s'" "\<And>m. m \<noteq> i \<Longrightarrow> ls p s' m = ls p s m"
    "e = 0 \<Longrightarrow> \<not> dirty (vol s' p)" "e = 0 \<or> e = FAT_ERR_IO"
    "e = 0 \<Longrightarrow> \<not> bit (f_flags (vol s' p)) 1"
    "e = 0 \<Longrightarrow> ls p s' = (if bit (f_flags (vol s p)) 1
       then (ls p s)(i := put32 (put32 (ls p s i) 492 (f_last_used (vol s p))) 488 (f_free_cnt (vol s p))) else ls p s)"
proof -
  obtain e1 s1 where sy: "sync_buf p s = (e1, s1)" by (cases "sync_buf p s")
  note S = sync_buf_spec [OF inv sy]
  have i1: "f_info_sect (vol s1 p) = i" using i(1) S(2) by (simp add: frame_fields)
  obtain e2 s2 where up: "update_buf p i s1 = (e2, s2)" by (cases "update_buf p i s1")
  note U = update_buf_spec [OF S(1) i(2) up]
  let ?g = "\<lambda>f. put32 (put32 (f_buf f) 492 (f_last_used f)) 488 (f_free_cnt f)"
  define s3 where "s3 = upd_vol p (set_flag 1) (upd_vol p (\<lambda>f. f\<lparr>f_buf := ?g f\<rparr>) s2)"
  have s3': "upd_vol p (\<lambda>f. f\<lparr>f_buf := put32 (f_buf f) 488 (f_free_cnt f)\<rparr>)
      (upd_vol p (\<lambda>f. f\<lparr>f_buf := put32 (f_buf f) 492 (f_last_used f)\<rparr>) (upd_vol p (set_flag 1) s2)) = s3"
    unfolding s3_def upd_vol_def set_flag_def by (cases "vol s2 p") simp
  have "length (f_buf (vol s2 p)) = 512" using U(1) by (simp add: cache_inv_def)
  then have P: "ci p s3" "frame p s2 s3" "ls p s3 = (ls p s2)(i := ?g (vol s2 p))" if "e2 = 0"
    using poke_spec [OF U(1) U(4) [OF that] i(2), of ?g] unfolding s3_def by simp_all
  obtain e3 s4 where sy2: "sync_buf p s3 = (e3, s4)" by (cases "sync_buf p s3")
  have "sync_fs p s = (if e1 \<noteq> 0 then (e1, s1) else if \<not> bit (f_flags (vol s1 p)) 1 then (0, s1)
      else if e2 \<noteq> 0 then (e2, s2) else if e3 \<noteq> 0 then (e3, s4) else (0, upd_vol p (clear_flag 2) s4))"
    unfolding sync_fs_def sy Let_def prod.case i1 up s3' sy2 and_flag_bits by simp
  note res = this [unfolded run]
  consider "e1 \<noteq> 0" "e = e1" "s' = s1"
    | "e1 = 0" "\<not> bit (f_flags (vol s1 p)) 1" "e = 0" "s' = s1"
    | "e1 = 0" "e2 \<noteq> 0" "e = e2" "s' = s2"
    | "e1 = 0" "e2 = 0" "e3 \<noteq> 0" "e = e3" "s' = s4"
    | "bit (f_flags (vol s1 p)) 1" "e1 = 0" "e2 = 0" "e3 = 0" "e = 0" "s' = upd_vol p (clear_flag 2) s4"
    using res by (auto split: if_splits)
  then have "ci p s' \<and> frame p s s' \<and> (\<forall>m. m \<noteq> i \<longrightarrow> ls p s' m = ls p s m)
    \<and> (e = 0 \<longrightarrow> \<not> dirty (vol s' p)) \<and> (e = 0 \<or> e = - 3)
    \<and> (e = 0 \<longrightarrow> \<not> bit (f_flags (vol s' p)) 1 \<and> ls p s' = (if bit (f_flags (vol s p)) 1
         then (ls p s)(i := put32 (put32 (ls p s i) 492 (f_last_used (vol s p))) 488 (f_free_cnt (vol s p))) else ls p s))"
  proof cases
    case 1
    then show ?thesis using S by auto
  next
    case 2
    then show ?thesis using S by auto
  next
    case 3
    then show ?thesis using S(3) U frame_trans [OF S(2) U(2)] by auto
  next
    case 4
    note Y = sync_buf_spec [OF P(1) [OF 4(2)] sy2]
    have "frame p s s4"
      using frame_trans [OF frame_trans [OF S(2) U(2)] frame_trans [OF P(2) [OF 4(2)] Y(2)]] .
    then show ?thesis using 4 Y(1,3,4,7) S(3) U(3) P(3) [OF 4(2)] by auto
  next
    case 5
    note Y = sync_buf_spec [OF P(1) [OF 5(3)] sy2]
    have "frame p s s4"
      using frame_trans [OF frame_trans [OF S(2) U(2)] frame_trans [OF P(2) [OF 5(3)] Y(2)]] .
    moreover have "frame p s4 s'" using 5 by (simp add: frame_def upd_vol_def)
    ultimately have "frame p s s'" by (rule frame_trans)
    moreover have "ls p s' = ls p s4" "ci p s' = ci p s4"
      using 5 by (simp_all add: lsect_def fun_eq_iff cache_inv_def)
    moreover have "f_last_used (vol s2 p) = f_last_used (vol s p)" "f_free_cnt (vol s2 p) = f_free_cnt (vol s p)"
      using frame_trans [OF S(2) U(2)] by (simp_all add: frame_fields)
    ultimately show ?thesis using 5 Y(1,3,4) S(3,8) U(3,5) P(3) [OF 5(3)] by simp
  qed
  then show "ci p s'" "frame p s s'" "\<And>m. m \<noteq> i \<Longrightarrow> ls p s' m = ls p s m"
    "e = 0 \<Longrightarrow> \<not> dirty (vol s' p)" "e = 0 \<or> e = FAT_ERR_IO"
    "e = 0 \<Longrightarrow> \<not> bit (f_flags (vol s' p)) 1"
    "e = 0 \<Longrightarrow> ls p s' = (if bit (f_flags (vol s p)) 1
       then (ls p s)(i := put32 (put32 (ls p s i) 492 (f_last_used (vol s p))) 488 (f_free_cnt (vol s p))) else ls p s)"
    by auto
qed

end

section \<open>The table as a map\<close>

text \<open>The 32-bit entry of a cluster in the table that starts at sector \<^term>\<open>base\<close>, and the 28-bit value the
  driver uses, from the active table.\<close>

definition tab :: "('d \<Rightarrow> u32 \<Rightarrow> u8 list) \<Rightarrow> u32 \<Rightarrow> u64 \<Rightarrow> 'd fs \<Rightarrow> u32 \<Rightarrow> u32" where
  "tab sector base p s c = le32 (lsect sector p s (base + c div 128)) (4 * unat (c mod 128))"

definition ent :: "('d \<Rightarrow> u32 \<Rightarrow> u8 list) \<Rightarrow> u64 \<Rightarrow> 'd fs \<Rightarrow> u32 \<Rightarrow> u32" where
  "ent sector p s c = tab sector (f_fat_sect0 (vol s p)) p s c AND 0x0fffffff"

definition merge_entry :: "u32 \<Rightarrow> u32 \<Rightarrow> u32" where
  "merge_entry old val = (old AND 0xf0000000) OR (val AND 0x0fffffff)"

definition classify :: "u32 \<Rightarrow> u32 \<Rightarrow> u8 option" where
  "classify cnt val =
     (if val = 0 then Some CLUST_FREE else if val = 0x0ffffff7 then Some CLUST_BAD
      else if 0x0ffffff8 \<le> val then Some (CLUST_USED OR CLUST_LAST)
      else if 2 \<le> val \<and> val < cnt then Some CLUST_USED else None)"

text \<open>The layout: no sector of a table is sector 0 or the information sector, and the two tables do not
  overlap.\<close>

definition layout_ok :: "'d Fat \<Rightarrow> bool" where
  "layout_ok f \<longleftrightarrow> f_info_sect f \<noteq> 0 \<and> f_clust_cnt f \<le> 0x0ffffff7 \<and>
     (\<forall>c < f_clust_cnt f. f_fat_sect0 f + c div 128 \<noteq> 0 \<and> f_fat_sect0 f + c div 128 \<noteq> f_info_sect f
        \<and> (f_fat_sect1 f \<noteq> 0 \<longrightarrow> f_fat_sect1 f + c div 128 \<noteq> 0 \<and> f_fat_sect1 f + c div 128 \<noteq> f_info_sect f
             \<and> (\<forall>c' < f_clust_cnt f. f_fat_sect0 f + c div 128 \<noteq> f_fat_sect1 f + c' div 128)))"

lemma layout_frame: "frame p s s' \<Longrightarrow> layout_ok (vol s' p) = layout_ok (vol s p)"
  by (simp add: layout_ok_def frame_fields)

lemma layout_flag [simp]: "layout_ok (set_flag m f) = layout_ok f" "layout_ok (clear_flag m f) = layout_ok f"
  by (simp_all add: layout_ok_def set_flag_def clear_flag_def)

lemma merge_entry_parts [simp]:
  "merge_entry old val AND 0x0fffffff = val AND 0x0fffffff" "merge_entry old val AND 0xf0000000 = old AND 0xf0000000"
proof -
  have m: "(0x0fffffff :: u32) = mask 28" "(0xf0000000 :: u32) = NOT (mask 28)"
    by (simp_all add: mask_eq_exp_minus_1 not_eq_complement)
  show "merge_entry old val AND 0x0fffffff = val AND 0x0fffffff" "merge_entry old val AND 0xf0000000 = old AND 0xf0000000"
    unfolding merge_entry_def m by (rule bit_word_eqI; auto simp: bit_simps)+
qed

lemma div_mod_128: "c div 128 = c' div 128 \<and> c mod 128 = c' mod 128 \<longleftrightarrow> c = c'" for c c' :: u32
  by (metis div_mult_mod_eq)

lemma unat_mod_128: "unat (c mod 128) < 128" for c :: u32
  by (simp add: unat_mod)

context block_dev
begin

lemma tab_update:
  assumes inv: "ci p s" and upd: "ls p s' = (ls p s)(base + c div 128 := put32 (ls p s (base + c div 128))
      (4 * unat (c mod 128)) v)"
  shows "tab sector base p s' = (tab sector base p s)(c := v)"
proof
  fix c'
  have len: "length (ls p s n) = 512" for n by (rule lsect_size [OF inv])
  show "tab sector base p s' c' = ((tab sector base p s)(c := v)) c'"
  proof (cases "c' div 128 = c div 128")
    case same: True
    show ?thesis
    proof (cases "c' = c")
      case True
      then show ?thesis using upd len unat_mod_128 [of c] by (simp add: tab_def le32_put32)
    next
      case False
      then have "unat (c' mod 128) \<noteq> unat (c mod 128)"
        using same div_mod_128 [of c' c] by (simp add: word_unat_eq_iff)
      then have "4 * unat (c' mod 128) + 4 \<le> 4 * unat (c mod 128) \<or> 4 * unat (c mod 128) + 4 \<le> 4 * unat (c' mod 128)"
        by linarith
      then show ?thesis using False upd same by (simp add: tab_def le32_put32_other)
    qed
  next
    case False
    then have "c' \<noteq> c" by auto
    with False show ?thesis using upd by (simp add: tab_def)
  qed
qed

lemma get_fat_spec:
  assumes inv: "ci p s" and n: "f_fat_sect0 (vol s p) + c div 128 \<noteq> 0" and run: "get_fat p c out s = (e, o', s')"
  shows "ci p s'" "frame p s s'" "ls p s' = ls p s"
    "e = 0 \<Longrightarrow> classify (f_clust_cnt (vol s p)) (ent sector p s c) = Some (snd o') \<and> fst o' = ent sector p s c"
    "e \<noteq> 0 \<Longrightarrow> o' = out"
proof -
  let ?n = "f_fat_sect0 (vol s p) + c div 128"
  obtain e1 s1 where up: "update_buf p ?n s = (e1, s1)" by (cases "update_buf p ?n s")
  note U = update_buf_spec [OF inv n up]
  define v where "v = ent sector p s c"
  have v: "le32 (f_buf (vol s1 p)) (4 * unat (c mod 128)) AND 0x0fffffff = v" if "e1 = 0"
    using U(5) [OF that] by (simp add: v_def ent_def tab_def)
  have cnt: "f_clust_cnt (vol s1 p) = f_clust_cnt (vol s p)" using U(2) by (simp add: frame_fields)
  have "get_fat p c out s = (if e1 \<noteq> 0 then (e1, out, s1)
      else case classify (f_clust_cnt (vol s p)) v of None \<Rightarrow> (- 2, out, s1) | Some fl \<Rightarrow> (0, (v, fl), s1))"
    using v cnt unfolding get_fat_def up Let_def prod.case classify_def by simp
  note res = this [unfolded run, folded v_def]
  show "ci p s'" "frame p s s'" "ls p s' = ls p s"
    "e = 0 \<Longrightarrow> classify (f_clust_cnt (vol s p)) (ent sector p s c) = Some (snd o') \<and> fst o' = ent sector p s c"
    "e \<noteq> 0 \<Longrightarrow> o' = out"
    using res U(1,2,3) by (auto simp: v_def split: if_splits option.splits)
qed

lemma put_fat2_spec:
  assumes inv: "ci p s" and n: "base + c div 128 \<noteq> 0" and run: "put_fat2 p base c val s = (e, s')"
  shows "ci p s'" "frame p s s'" "e \<noteq> 0 \<Longrightarrow> ls p s' = ls p s"
    "e = 0 \<Longrightarrow> ls p s' = (ls p s)(base + c div 128 := put32 (ls p s (base + c div 128)) (4 * unat (c mod 128))
       (merge_entry (tab sector base p s c) val))"
proof -
  let ?n = "base + c div 128" and ?i = "4 * unat (c mod 128)"
  obtain e1 s1 where up: "update_buf p ?n s = (e1, s1)" by (cases "update_buf p ?n s")
  note U = update_buf_spec [OF inv n up]
  let ?g = "\<lambda>f. put32 (f_buf f) ?i ((le32 (f_buf f) ?i AND 0xf0000000) OR (val AND 0x0fffffff))"
  define s2 where "s2 = upd_vol p (set_flag 1) (upd_vol p (\<lambda>f. f\<lparr>f_buf := ?g f\<rparr>) s1)"
  have len: "length (?g (vol s1 p)) = 512" using U(1) by (simp add: cache_inv_def)
  have P: "ci p s2" "frame p s1 s2" "ls p s2 = (ls p s1)(?n := ?g (vol s1 p))" if "e1 = 0"
    using poke_spec [OF U(1) U(4) [OF that] n, of ?g, OF len] unfolding s2_def by auto
  have "put_fat2 p base c val s = (if e1 \<noteq> 0 then (e1, s1) else (0, s2))"
    unfolding put_fat2_def up Let_def prod.case s2_def by simp
  note res = this [unfolded run]
  consider "e1 \<noteq> 0" "e = e1" "s' = s1" | "e1 = 0" "e = 0" "s' = s2" using res by (auto split: if_splits)
  then show "ci p s'" "frame p s s'" "e \<noteq> 0 \<Longrightarrow> ls p s' = ls p s"
    "e = 0 \<Longrightarrow> ls p s' = (ls p s)(?n := put32 (ls p s ?n) ?i (merge_entry (tab sector base p s c) val))"
    using U(1,2,3) P frame_trans [OF U(2) P(2)] U(5) by (cases; simp add: tab_def merge_entry_def)+
qed

lemma tab_cong: "(\<And>n. n = base + c div 128 \<Longrightarrow> ls p s' n = ls p s n) \<Longrightarrow> tab sector base p s' c = tab sector base p s c"
  by (simp add: tab_def)

lemma put_fat_spec:
  assumes inv: "ci p s" and lay: "layout_ok (vol s p)" and c: "c < f_clust_cnt (vol s p)"
    and run: "put_fat p c val s = (e, s')"
  defines "b0 \<equiv> f_fat_sect0 (vol s p)" and "b1 \<equiv> f_fat_sect1 (vol s p)"
  shows "ci p s'" "frame p s s'"
    "\<And>c'. c' < f_clust_cnt (vol s p) \<Longrightarrow> tab sector b0 p s' c' =
       (if e = 0 \<and> c' = c then merge_entry (tab sector b0 p s c) val else tab sector b0 p s c')"
    "\<And>c'. b1 \<noteq> 0 \<Longrightarrow> e = 0 \<Longrightarrow> c' < f_clust_cnt (vol s p) \<Longrightarrow> tab sector b1 p s' c' =
       (if c' = c then merge_entry (tab sector b1 p s c) val else tab sector b1 p s c')"
    "\<And>n. n \<noteq> b0 + c div 128 \<Longrightarrow> (b1 \<noteq> 0 \<Longrightarrow> n \<noteq> b1 + c div 128) \<Longrightarrow> ls p s' n = ls p s n"
proof -
  have n0: "b0 + c div 128 \<noteq> 0" and n1: "b1 \<noteq> 0 \<Longrightarrow> b1 + c div 128 \<noteq> 0"
    and ne: "\<And>c'. c' < f_clust_cnt (vol s p) \<Longrightarrow> b1 \<noteq> 0 \<Longrightarrow> b0 + c' div 128 \<noteq> b1 + c div 128"
    and ne': "\<And>c'. c' < f_clust_cnt (vol s p) \<Longrightarrow> b1 \<noteq> 0 \<Longrightarrow> b1 + c' div 128 \<noteq> b0 + c div 128"
    using lay c unfolding layout_ok_def b0_def b1_def by metis+
  obtain e1 s1 where r1: "(if b1 \<noteq> 0 then put_fat2 p b1 c val s else (0, s)) = (e1, s1)" by fastforce
  have A: "ci p s1 \<and> frame p s s1 \<and> ls p s1 = (if b1 \<noteq> 0 \<and> e1 = 0 then (ls p s)(b1 + c div 128 :=
      put32 (ls p s (b1 + c div 128)) (4 * unat (c mod 128)) (merge_entry (tab sector b1 p s c) val)) else ls p s)"
  proof (cases "b1 \<noteq> 0")
    case True
    then have run1: "put_fat2 p b1 c val s = (e1, s1)" using r1 by simp
    show ?thesis using put_fat2_spec [OF inv n1 [OF True] run1] True by simp
  next
    case False
    then show ?thesis using r1 inv by simp
  qed
  have b0': "f_fat_sect0 (vol s1 p) = b0" using A by (simp add: b0_def frame_fields)
  obtain e2 s2 where r2: "put_fat2 p b0 c val s1 = (e2, s2)" by fastforce
  have B: "ci p s2" "frame p s1 s2" "ls p s2 = (if e2 = 0 then (ls p s1)(b0 + c div 128 :=
      put32 (ls p s1 (b0 + c div 128)) (4 * unat (c mod 128)) (merge_entry (tab sector b0 p s1 c) val)) else ls p s1)"
    using put_fat2_spec [OF _ n0 r2] A by auto
  have "put_fat p c val s = (if e1 \<noteq> 0 then (e1, s1) else (e2, s2))"
    using r1 r2 b0' unfolding put_fat_def b1_def [symmetric] b0_def [symmetric] by (auto simp: Let_def split: if_splits)
  note res = this [unfolded run]
  have t0: "tab sector b0 p s1 c' = tab sector b0 p s c'" if "c' < f_clust_cnt (vol s p)" for c'
    by (rule tab_cong) (use A ne [OF that] in auto)
  have t0': "tab sector b0 p s2 = (if e2 = 0 then (tab sector b0 p s1)(c := merge_entry (tab sector b0 p s1 c) val)
      else tab sector b0 p s1)"
  proof (cases "e2 = 0")
    case True
    with tab_update [of p s1 s2 b0 c] A B(3) show ?thesis by simp
  next
    case False
    with B(3) show ?thesis by (auto intro!: ext tab_cong)
  qed
  have t1: "tab sector b1 p s1 = (tab sector b1 p s)(c := merge_entry (tab sector b1 p s c) val)"
    if "b1 \<noteq> 0" "e1 = 0" using tab_update [OF inv, of s1 b1 c] A that by auto
  have t1': "tab sector b1 p s2 c' = tab sector b1 p s1 c'" if "b1 \<noteq> 0" "c' < f_clust_cnt (vol s p)" for c'
    by (rule tab_cong) (use B(3) ne' [OF that(2,1)] in auto)
  consider (1) "e1 \<noteq> 0" "e = e1" "s' = s1" | (2) "e1 = 0" "e = e2" "s' = s2" using res by (auto split: if_splits)
  note cs = this
  show "ci p s'" "frame p s s'"
    using cs A B(1) frame_trans [of p s s1 s2] B(2) by (cases; auto)+
  show "tab sector b0 p s' c' = (if e = 0 \<and> c' = c then merge_entry (tab sector b0 p s c) val else tab sector b0 p s c')"
    if "c' < f_clust_cnt (vol s p)" for c'
    using cs by cases (use t0 [OF that] t0 [OF c] t0' in auto)
  show "tab sector b1 p s' c' = (if c' = c then merge_entry (tab sector b1 p s c) val else tab sector b1 p s c')"
    if "b1 \<noteq> 0" "e = 0" "c' < f_clust_cnt (vol s p)" for c'
    using cs by cases (use t1 [OF that(1)] t1' [OF that(1,3)] that in auto)
  show "ls p s' n = ls p s n" if "n \<noteq> b0 + c div 128" "b1 \<noteq> 0 \<Longrightarrow> n \<noteq> b1 + c div 128" for n
    using cs by cases (use A B(3) that in auto)
qed

end

section \<open>Cluster chains as lists\<close>

text \<open>\<^term>\<open>chain E cnt c cs\<close>: following the table \<^term>\<open>E\<close> from cluster \<^term>\<open>c\<close> visits \<^term>\<open>cs\<close> and ends at
  an end-of-chain mark.\<close>

fun chain :: "(u32 \<Rightarrow> u32) \<Rightarrow> u32 \<Rightarrow> u32 \<Rightarrow> u32 list \<Rightarrow> bool" where
  "chain E cnt c [] \<longleftrightarrow> False"
| "chain E cnt c [x] \<longleftrightarrow> x = c \<and> c < cnt \<and> 0x0ffffff8 \<le> E c"
| "chain E cnt c (x # y # ys) \<longleftrightarrow> x = c \<and> c < cnt \<and> 2 \<le> E c \<and> E c < cnt \<and> chain E cnt (E c) (y # ys)"

lemma chain_cong: "chain E cnt c cs \<Longrightarrow> (\<And>x. x \<in> set cs \<Longrightarrow> E' x = E x) \<Longrightarrow> chain E' cnt c cs"
  by (induction E cnt c cs rule: chain.induct) auto

lemma chain_head: "chain E cnt c cs \<Longrightarrow> \<exists>ys. cs = c # ys \<and> c < cnt"
  by (cases "(E, cnt, c, cs)" rule: chain.cases) auto

lemma ent_small: "ent sector p s c \<le> 0x0fffffff"
  by (simp add: ent_def word_and_le1)

lemma classify_flags:
  assumes "classify cnt v = Some fl"
  shows "fl AND 9 = 0 \<longleftrightarrow> v \<noteq> 0 \<and> v \<noteq> 0x0ffffff7" "fl AND 4 \<noteq> 0 \<longleftrightarrow> 0x0ffffff8 \<le> v" "fl AND 1 \<noteq> 0 \<longleftrightarrow> v = 0"
    "v \<noteq> 0 \<Longrightarrow> v \<noteq> 0x0ffffff7 \<Longrightarrow> \<not> 0x0ffffff8 \<le> v \<Longrightarrow> 2 \<le> v \<and> v < cnt" "fl \<noteq> 0"
  using assms by (auto simp: classify_def split: if_splits)

definition with_counts :: "u32 \<Rightarrow> u32 \<Rightarrow> 'd Fat \<Rightarrow> 'd Fat" where
  "with_counts lu fc f = f\<lparr>f_last_used := lu, f_free_cnt := fc\<rparr>"

lemma with_counts_simps [simp]:
  "f_buf (with_counts lu fc f) = f_buf f" "f_sect (with_counts lu fc f) = f_sect f"
  "f_flags (with_counts lu fc f) = f_flags f" "f_ops (with_counts lu fc f) = f_ops f"
  "f_fat_sect0 (with_counts lu fc f) = f_fat_sect0 f" "f_fat_sect1 (with_counts lu fc f) = f_fat_sect1 f"
  "f_info_sect (with_counts lu fc f) = f_info_sect f" "f_clust_cnt (with_counts lu fc f) = f_clust_cnt f"
  "f_last_used (with_counts lu fc f) = lu" "f_free_cnt (with_counts lu fc f) = fc"
  "dirty (with_counts lu fc f) = dirty f" "layout_ok (with_counts lu fc f) = layout_ok f"
  by (simp_all add: with_counts_def dirty_def layout_ok_def)

lemma upd_counts [simp]:
  "lsect sector p (upd_vol p (with_counts lu fc) s) = lsect sector p s"
  "cache_inv ops sector good p (upd_vol p (with_counts lu fc) s) = cache_inv ops sector good p s"
  "ent sector p (upd_vol p (with_counts lu fc) s) = ent sector p s"
  by (simp_all add: lsect_def cache_inv_def ent_def tab_def fun_eq_iff)

lemma upd_info_flag [simp]:
  "lsect sector p (upd_vol p (set_flag 2) s) = lsect sector p s"
  "cache_inv ops sector good p (upd_vol p (set_flag 2) s) = cache_inv ops sector good p s"
  "frame p s (upd_vol p (set_flag 2) s)"
  by (simp_all add: lsect_def cache_inv_def fun_eq_iff frame_def)

lemma ent_frame: "frame p s s' \<Longrightarrow> lsect sector p s' = lsect sector p s \<Longrightarrow> ent sector p s' = ent sector p s"
  by (simp add: ent_def tab_def frame_fields fun_eq_iff)

context block_dev
begin

text \<open>The two table operations as operations on the map of entries.\<close>

lemma get_fat_ent:
  assumes "ci p s" and "layout_ok (vol s p)" and "c < f_clust_cnt (vol s p)"
  obtains (err) e s' where "e \<noteq> 0" "get_fat p c out s = (e, out, s')" "ci p s'" "frame p s s'" "ls p s' = ls p s"
  | (ok) fl s' where "get_fat p c out s = (0, (ent sector p s c, fl), s')" "ci p s'" "frame p s s'"
      "ls p s' = ls p s" "classify (f_clust_cnt (vol s p)) (ent sector p s c) = Some fl"
proof -
  obtain e o' s' where g: "get_fat p c out s = (e, o', s')" by (metis prod_cases3)
  have n: "f_fat_sect0 (vol s p) + c div 128 \<noteq> 0" using assms(2,3) by (simp add: layout_ok_def)
  note G = get_fat_spec [OF assms(1) n g]
  show thesis
  proof (cases "e = 0")
    case True
    then show thesis using G g ok by (cases o') auto
  next
    case False
    then show thesis using G g err by auto
  qed
qed

lemma put_fat_ent:
  assumes "ci p s" and "layout_ok (vol s p)" and "c < f_clust_cnt (vol s p)"
  obtains e s' where "put_fat p c v s = (e, s')" "ci p s'" "frame p s s'"
    "\<And>c'. c' < f_clust_cnt (vol s p) \<Longrightarrow>
       ent sector p s' c' = (if e = 0 \<and> c' = c then v AND 0x0fffffff else ent sector p s c')"
proof -
  obtain e s' where run: "put_fat p c v s = (e, s')" by fastforce
  note P = put_fat_spec [OF assms run]
  have "ent sector p s' c' = (if e = 0 \<and> c' = c then v AND 0x0fffffff else ent sector p s c')"
    if "c' < f_clust_cnt (vol s p)" for c'
    using P(3) [OF that] frame_fields(3) [OF P(2)] by (simp add: ent_def)
  with P(1,2) run show thesis by (intro that)
qed

lemma sync_fs_ent:
  assumes "ci p s" and "layout_ok (vol s p)"
  obtains e s' where "sync_fs p s = (e, s')" "ci p s'" "frame p s s'"
    "\<And>c. c < f_clust_cnt (vol s p) \<Longrightarrow> ent sector p s' c = ent sector p s c" "e = 0 \<Longrightarrow> \<not> dirty (vol s' p)"
proof -
  obtain e s' where run: "sync_fs p s = (e, s')" by fastforce
  have "f_info_sect (vol s p) \<noteq> 0" using assms(2) by (simp add: layout_ok_def)
  note S = sync_fs_spec [OF assms(1) refl this run]
  have "ent sector p s' c = ent sector p s c" if "c < f_clust_cnt (vol s p)" for c
  proof -
    have "f_fat_sect0 (vol s p) + c div 128 \<noteq> f_info_sect (vol s p)"
      using assms(2) that by (simp add: layout_ok_def)
    then show ?thesis using S(3) frame_fields(3) [OF S(2)] by (simp add: ent_def tab_def)
  qed
  with S run show thesis by (intro that)
qed

end

end
