(* ===== verification/Fat32_Chain.thy ===== *)
theory Fat32_Chain
  imports Fat32_Table
begin

text \<open>
  Correctness of the FAT32 driver's cluster chain operations (\<^verbatim>\<open>remove_chain\<close>, \<^verbatim>\<open>stretch_chain\<close>,
  \<^verbatim>\<open>create_chain\<close> of \<^verbatim>\<open>fat32.c\<close>) over the map of table entries: termination on arbitrary tables,
  the effect on the map, and what the operations return when the disk fails.
\<close>

lemma bump_free_cnt:
  "upd_vol p (\<lambda>f. f\<lparr>f_free_cnt := f_free_cnt f + 1\<rparr>) s
     = upd_vol p (with_counts (f_last_used (vol s p)) (f_free_cnt (vol s p) + 1)) s"
  unfolding upd_vol_def with_counts_def by (cases "vol s p") simp

lemma set_counts:
  "upd_vol p (\<lambda>f. f\<lparr>f_last_used := c, f_free_cnt := f_free_cnt f - 1\<rparr>) s
     = upd_vol p (with_counts c (f_free_cnt (vol s p) - 1)) s"
  unfolding upd_vol_def with_counts_def by simp

text \<open>The clusters in use, which every round of \<^verbatim>\<open>remove_chain\<close> makes smaller.\<close>

definition used :: "('d \<Rightarrow> u32 \<Rightarrow> u8 list) \<Rightarrow> u64 \<Rightarrow> 'd fs \<Rightarrow> u32 set" where
  "used sector p s = {c. c < f_clust_cnt (vol s p) \<and> ent sector p s c \<noteq> 0}"

lemma finite_used [simp]: "finite (used sector p s)"
  by (rule finite_subset [OF subset_UNIV]) simp

lemma chain_less: "chain E cnt c cs \<Longrightarrow> x \<in> set cs \<Longrightarrow> x < cnt"
  by (induction E cnt c cs rule: chain.induct) auto

context block_dev
begin

text \<open>One round of the loop of \<^verbatim>\<open>remove_chain\<close>.\<close>

lemma remove_step:
  assumes "ci p s" and "layout_ok (vol s p)" and "c < f_clust_cnt (vol s p)"
  obtains (stop) e s' where "remove_loop p c out s = Some (e, s')" "e \<noteq> 0" "ci p s'"
  | (final) e s' where "remove_loop p c out s = Some (e, s')" "ci p s'" "0x0ffffff8 \<le> ent sector p s c"
      "\<And>c'. c' < f_clust_cnt (vol s p) \<Longrightarrow> ent sector p s' c' = (if c' = c then 0 else ent sector p s c')"
      "f_free_cnt (vol s' p) = f_free_cnt (vol s p) + 1"
  | (go) fl s' where "remove_loop p c out s = remove_loop p (ent sector p s c) (ent sector p s c, fl) s'" "ci p s'"
      "layout_ok (vol s' p)" "f_clust_cnt (vol s' p) = f_clust_cnt (vol s p)" "ent sector p s c \<noteq> 0"
      "\<not> 0x0ffffff8 \<le> ent sector p s c" "ent sector p s c < f_clust_cnt (vol s p)"
      "\<And>c'. c' < f_clust_cnt (vol s p) \<Longrightarrow> ent sector p s' c' = (if c' = c then 0 else ent sector p s c')"
      "f_free_cnt (vol s' p) = f_free_cnt (vol s p) + 1"
proof (cases rule: get_fat_ent [OF assms, of out])
  case (1 e s1)
  then show thesis by (intro stop) (auto simp: remove_loop.simps)
next
  case get: (2 fl s1)
  let ?v = "ent sector p s c"
  note fl = classify_flags [OF get(5)]
  have lay1: "layout_ok (vol s1 p)" and cnt1: "f_clust_cnt (vol s1 p) = f_clust_cnt (vol s p)"
    and e1: "ent sector p s1 = ent sector p s"
    using get(3,4) assms(2) by (simp_all add: layout_frame frame_fields ent_frame)
  show thesis
  proof (cases "fl AND 9 = 0")
    case False
    then show thesis using get by (intro stop) (auto simp: remove_loop.simps)
  next
    case True
    obtain e s2 where put: "put_fat p c 0 s1 = (e, s2)" "ci p s2" "frame p s1 s2"
        "\<And>c'. c' < f_clust_cnt (vol s p) \<Longrightarrow>
           ent sector p s2 c' = (if e = 0 \<and> c' = c then 0 else ent sector p s c')"
      using put_fat_ent [OF get(2) lay1, of c 0] assms(3) cnt1 e1 by (metis zero_and_eq)
    show thesis
    proof (cases "e = 0")
      case False
      then have "remove_loop p c out s = Some (e, s2)"
        using get(1) put(1) True by (subst remove_loop.simps) simp
      then show thesis using put(2) False by (intro stop)
    next
      case ok: True
      define s3 where "s3 = upd_vol p (with_counts (f_last_used (vol s2 p)) (f_free_cnt (vol s2 p) + 1)) s2"
      have s3: "ci p s3" "layout_ok (vol s3 p)" "f_clust_cnt (vol s3 p) = f_clust_cnt (vol s p)"
          "f_free_cnt (vol s3 p) = f_free_cnt (vol s p) + 1"
        using put lay1 cnt1 get(3) by (simp_all add: s3_def layout_frame frame_fields)
      have ent3: "ent sector p s3 c' = (if c' = c then 0 else ent sector p s c')" if "c' < f_clust_cnt (vol s p)" for c'
        using put(4) [OF that] ok by (simp add: s3_def)
      have step: "remove_loop p c out s = (if 0x0ffffff8 \<le> ?v then Some (sync_fs p s3) else remove_loop p ?v (?v, fl) s3)"
        using get(1) put(1) ok True fl(2) by (subst remove_loop.simps) (simp add: bump_free_cnt s3_def)
      show thesis
      proof (cases "0x0ffffff8 \<le> ?v")
        case last: True
        obtain e4 s4 where "sync_fs p s3 = (e4, s4)" "ci p s4" "frame p s3 s4"
            "\<And>c'. c' < f_clust_cnt (vol s p) \<Longrightarrow> ent sector p s4 c' = ent sector p s3 c'"
          using sync_fs_ent [OF s3(1,2)] s3(3) by metis
        then show thesis using step last ent3 s3(4) final [of e4 s4] by (simp add: frame_fields)
      next
        case False
        then show thesis using step ent3 s3 fl True by (intro go) auto
      qed
    qed
  qed
qed

lemma remove_loop_returns:
  assumes "ci p s" and "layout_ok (vol s p)" and "c < f_clust_cnt (vol s p)"
  shows "\<exists>e s'. remove_loop p c out s = Some (e, s')"
  using assms
proof (induction "card (used sector p s)" arbitrary: s c out rule: less_induct)
  case less
  show ?case
  proof (cases rule: remove_step [OF less.prems, of out])
    case (3 fl s')
    have "used sector p s' = used sector p s - {c}" "c \<in> used sector p s"
      using 3 less.prems(3) by (auto simp: used_def split: if_splits)
    then have "card (used sector p s') < card (used sector p s)" by (metis card_Diff1_less finite_used)
    with less.hyps [OF this 3(2,3)] 3 show ?thesis by simp
  qed auto
qed

lemma remove_loop_chain:
  assumes "ci p s" and "layout_ok (vol s p)" and "chain (ent sector p s) (f_clust_cnt (vol s p)) c cs"
    and "distinct cs"
  shows "\<exists>e s'. remove_loop p c out s = Some (e, s') \<and> ci p s' \<and> (e = 0 \<longrightarrow>
      (\<forall>c' < f_clust_cnt (vol s p). ent sector p s' c' = (if c' \<in> set cs then 0 else ent sector p s c'))
      \<and> f_free_cnt (vol s' p) = f_free_cnt (vol s p) + of_nat (length cs))"
  using assms
proof (induction cs arbitrary: s c out)
  case Nil
  then show ?case by simp
next
  case (Cons x ys)
  have x: "x = c" and c: "c < f_clust_cnt (vol s p)" using chain_head [OF Cons.prems(3)] by auto
  show ?case
  proof (cases rule: remove_step [OF Cons.prems(1,2) c, of out])
    case (1 e s')
    then show ?thesis by auto
  next
    case (2 e s')
    have "f_clust_cnt (vol s p) \<le> 0x0ffffff7" using Cons.prems(2) by (simp add: layout_ok_def)
    then have "\<not> ent sector p s c < f_clust_cnt (vol s p)"
      using 2(3) by (simp add: word_le_nat_alt word_less_nat_alt)
    then have "ys = []" using Cons.prems(3) by (cases ys) auto
    with 2 x show ?thesis by auto
  next
    case (3 fl s')
    then have ne: "ys \<noteq> []" and ch: "chain (ent sector p s) (f_clust_cnt (vol s p)) (ent sector p s c) ys"
      using Cons.prems(3) by (cases ys; auto)+
    have "ent sector p s' y = ent sector p s y" if "y \<in> set ys" for y
      using 3(8) [OF chain_less [OF ch that]] Cons.prems(4) x that by auto
    then have "chain (ent sector p s') (f_clust_cnt (vol s' p)) (ent sector p s c) ys"
      using chain_cong [OF ch] 3(4) by simp
    then obtain e s'' where "remove_loop p (ent sector p s c) (ent sector p s c, fl) s' = Some (e, s'')" "ci p s''"
        "e = 0 \<longrightarrow> (\<forall>c' < f_clust_cnt (vol s p). ent sector p s'' c' = (if c' \<in> set ys then 0 else ent sector p s' c'))
      \<and> f_free_cnt (vol s'' p) = f_free_cnt (vol s' p) + of_nat (length ys)"
      using Cons.IH [OF 3(2,3), of "ent sector p s c" "(ent sector p s c, fl)"] Cons.prems(4) 3(4) by auto
    then show ?thesis using 3 x by (auto simp: algebra_simps)
  qed
qed

end

section \<open>The search for a free cluster\<close>

text \<open>\<^term>\<open>next_clust\<close> runs cyclically through the clusters from 2 to \<^verbatim>\<open>clust_cnt - 1\<close>.\<close>

lemma next_clust_cyclic:
  assumes "2 \<le> c" and "c < f_clust_cnt f"
  shows "unat ((next_clust f ^^ k) c) = 2 + (unat c - 2 + k) mod (unat (f_clust_cnt f) - 2)"
proof (induction k)
  case 0
  then show ?case using assms by (simp add: word_le_nat_alt word_less_nat_alt)
next
  case (Suc k)
  let ?N = "unat (f_clust_cnt f) - 2" and ?x = "(next_clust f ^^ k) c"
  have N: "0 < ?N" using assms by (simp add: word_le_nat_alt word_less_nat_alt)
  have less: "unat ?x < unat (f_clust_cnt f)" using Suc N mod_less_divisor [OF N, of "unat c - 2 + k"] by linarith
  then have x1: "unat (?x + 1) = unat ?x + 1"
    using unat_less_pow [of "f_clust_cnt f"] by (subst unat_plus_small) auto
  have "unat (next_clust f ?x) = (if unat (f_clust_cnt f) \<le> unat ?x + 1 then 2 else unat ?x + 1)"
    by (simp add: next_clust_def word_le_nat_alt x1)
  also have "\<dots> = 2 + Suc (unat c - 2 + k) mod ?N"
  proof -
    define m where "m = (unat c - 2 + k) mod ?N"
    have "m < ?N" unfolding m_def using N by (rule mod_less_divisor)
    moreover have "unat ?x = 2 + m" using Suc by (simp add: m_def)
    ultimately show ?thesis unfolding mod_Suc m_def [symmetric] by auto
  qed
  finally show ?case by simp
qed

lemma next_clust_range:
  assumes "2 \<le> c" and "c < f_clust_cnt f"
  shows "2 \<le> next_clust f c" "next_clust f c < f_clust_cnt f"
proof -
  have N: "0 < unat (f_clust_cnt f) - 2" using assms by (simp add: word_le_nat_alt word_less_nat_alt)
  show "2 \<le> next_clust f c" "next_clust f c < f_clust_cnt f"
    using next_clust_cyclic [OF assms, of 1] mod_less_divisor [OF N, of "unat c - 2 + 1"]
    by (auto simp: word_le_nat_alt word_less_nat_alt)
qed

text \<open>What \<^verbatim>\<open>stretch_chain\<close> promises of its results, for the volume \<^term>\<open>p\<close> in state \<^term>\<open>s\<close>.\<close>

definition grown :: "('d \<Rightarrow> u32 \<Rightarrow> u8 list) \<Rightarrow> u64 \<Rightarrow> u32 \<Rightarrow> 'd fs \<Rightarrow> u32 \<Rightarrow> 'd fs \<Rightarrow> bool" where
  "grown sector p prev s c s' \<longleftrightarrow> 2 \<le> c \<and> c < f_clust_cnt (vol s p) \<and> ent sector p s c = 0
     \<and> (\<forall>x < f_clust_cnt (vol s p). ent sector p s' x =
            (if prev \<noteq> 0 \<and> x = prev then c else if x = c then 0x0fffffff else ent sector p s x))
     \<and> f_last_used (vol s' p) = c \<and> f_free_cnt (vol s' p) = f_free_cnt (vol s p) - 1"

text \<open>The outcome of a scan from \<^term>\<open>c\<close> that meets \<^verbatim>\<open>last_used\<close> after at most \<^term>\<open>Suc k\<close> steps.\<close>

definition scan_result ::
  "('d \<Rightarrow> u32 \<Rightarrow> u8 list) \<Rightarrow> u64 \<Rightarrow> 'd fs \<Rightarrow> nat \<Rightarrow> u32 \<Rightarrow> u32 \<times> u8 \<Rightarrow> int + u32 \<Rightarrow> bool" where
  "scan_result sector p s k c out r \<longleftrightarrow>
     (case r of
        Inr c' \<Rightarrow> 2 \<le> c' \<and> c' < f_clust_cnt (vol s p) \<and> ent sector p s c' = 0
      | Inl e \<Rightarrow> (e = FAT_ERR_FULL \<longrightarrow> (\<exists>m \<le> k. (next_clust (vol s p) ^^ Suc m) c = f_last_used (vol s p)
               \<and> (\<forall>j < m. ent sector p s ((next_clust (vol s p) ^^ Suc j) c) \<noteq> 0)))
           \<and> (e = 0 \<longrightarrow> snd out = 0))"

lemma next_clust_frame: "frame p s s' \<Longrightarrow> next_clust (vol s' p) = next_clust (vol s p)"
  by (simp add: next_clust_def frame_fields fun_eq_iff)

context block_dev
begin

lemma scan_spec:
  assumes "ci p s" and "layout_ok (vol s p)" and "2 \<le> c" and "c < f_clust_cnt (vol s p)"
    and "(next_clust (vol s p) ^^ Suc k) c = f_last_used (vol s p)"
  shows "\<exists>r s'. stretch_scan p c out s = Some (r, s') \<and> ci p s' \<and> frame p s s' \<and> ls p s' = ls p s
    \<and> scan_result sector p s k c out r"
  using assms
proof (induction k arbitrary: s c out)
  case 0
  then have "stretch_scan p c out s = Some (Inl (- 8), s)" by (subst stretch_scan.simps) simp
  then show ?case using 0 by (auto simp: scan_result_def)
next
  case (Suc k)
  let ?n = "next_clust (vol s p)"
  note range = next_clust_range [OF Suc.prems(3,4)]
  show ?case
  proof (cases "?n c = f_last_used (vol s p)")
    case True
    then have "stretch_scan p c out s = Some (Inl (- 8), s)" by (subst stretch_scan.simps) simp
    then show ?thesis using True Suc.prems by (auto simp: scan_result_def)
  next
    case False
    show ?thesis
    proof (cases rule: get_fat_ent [OF Suc.prems(1,2) range(2), of out])
      case (1 e s')
      then have "stretch_scan p c out s = Some (Inl (uint (snd out)), s')"
        using False by (subst stretch_scan.simps) (cases out, simp)
      moreover have "uint (snd out) \<noteq> - 8" using uint_ge_0 [of "snd out"] by linarith
      ultimately show ?thesis using 1 by (auto simp: uint_0_iff scan_result_def)
    next
      case (2 fl s')
      note fl = classify_flags [OF 2(5)]
      have step: "stretch_scan p c out s = (if ent sector p s (?n c) = 0 then Some (Inr (?n c), s')
          else stretch_scan p (?n c) (ent sector p s (?n c), fl) s')"
        using 2(1) False fl(3) by (subst stretch_scan.simps) (simp add: Let_def)
      show ?thesis
      proof (cases "ent sector p s (?n c) = 0")
        case True
        then show ?thesis using step 2 range False by (auto simp: scan_result_def)
      next
        case used: False
        have ent': "ent sector p s' = ent sector p s" using 2 by (simp add: ent_frame)
        have "(next_clust (vol s' p) ^^ Suc k) (?n c) = f_last_used (vol s' p)"
          using Suc.prems(5) 2(3) by (simp add: next_clust_frame frame_fields funpow_swap1)
        moreover have "layout_ok (vol s' p)" "?n c < f_clust_cnt (vol s' p)"
          using Suc.prems(2) range(2) 2(3) by (simp_all add: layout_frame frame_fields)
        ultimately obtain r s'' where r: "stretch_scan p (?n c) (ent sector p s (?n c), fl) s' = Some (r, s'')"
            "ci p s''" "frame p s' s''" "ls p s'' = ls p s'" "scan_result sector p s' k (?n c) (ent sector p s (?n c), fl) r"
          using Suc.IH [OF 2(2) _ range(1)] by blast
        have "\<exists>m \<le> Suc k. (?n ^^ Suc m) c = f_last_used (vol s p) \<and> (\<forall>j < m. ent sector p s ((?n ^^ Suc j) c) \<noteq> 0)"
          if "m \<le> k" "(?n ^^ Suc m) (?n c) = f_last_used (vol s p)" "\<forall>j < m. ent sector p s ((?n ^^ Suc j) (?n c)) \<noteq> 0" for m
          using that used by (intro exI [of _ "Suc m"]) (auto simp: funpow_swap1 less_Suc_eq_0_disj)
        then have "scan_result sector p s (Suc k) c out r"
          using r(5) fl(5) ent' unfolding scan_result_def
          by (auto simp: next_clust_frame [OF 2(3)] frame_fields [OF 2(3)] split: sum.splits)
        then show ?thesis using r(1,2,4) used step 2(4) frame_trans [OF 2(3) r(3)] by auto
      qed
    qed
  qed
qed

lemma link_spec:
  assumes "ci p s" and "layout_ok (vol s p)" and "c < f_clust_cnt (vol s p)" and "prev < f_clust_cnt (vol s p)"
  shows "\<exists>e c' s'. stretch_link p prev c out s = (e, c', s') \<and> ci p s' \<and> (e = 0 \<longrightarrow> c' = c
    \<and> (\<forall>x < f_clust_cnt (vol s p). ent sector p s' x =
        (if prev \<noteq> 0 \<and> x = prev then c AND 0x0fffffff else if x = c then 0x0fffffff else ent sector p s x))
    \<and> f_last_used (vol s' p) = c \<and> f_free_cnt (vol s' p) = f_free_cnt (vol s p) - 1)"
proof -
  obtain e1 s1 where p1: "put_fat p c 0x0fffffff s = (e1, s1)" "ci p s1" "frame p s s1"
      "\<And>x. x < f_clust_cnt (vol s p) \<Longrightarrow> ent sector p s1 x = (if e1 = 0 \<and> x = c then 0x0fffffff else ent sector p s x)"
    using put_fat_ent [OF assms(1-3), of "0x0fffffff"] by (metis and.idem)
  have l1: "layout_ok (vol s1 p)" "prev < f_clust_cnt (vol s1 p)"
    using assms p1(3) by (simp_all add: layout_frame frame_fields)
  obtain e2 s2 where p2: "(if prev \<noteq> 0 then put_fat p prev c s1 else (0, s1)) = (e2, s2)" "ci p s2" "frame p s1 s2"
      "\<And>x. x < f_clust_cnt (vol s p) \<Longrightarrow>
         ent sector p s2 x = (if prev \<noteq> 0 \<and> e2 = 0 \<and> x = prev then c AND 0x0fffffff else ent sector p s1 x)"
  proof (cases "prev \<noteq> 0")
    case True
    then show thesis using put_fat_ent [OF p1(2) l1, of c] frame_fields(1) [OF p1(3)] that by metis
  next
    case False
    then show thesis using p1(2) that by auto
  qed
  define s3 where "s3 = upd_vol p (with_counts c (f_free_cnt (vol s2 p) - 1)) s2"
  have s3: "ci p s3" "layout_ok (vol s3 p)" "f_clust_cnt (vol s3 p) = f_clust_cnt (vol s p)"
    using p2(2) l1(1) p2(3) p1(3) by (simp_all add: s3_def layout_frame frame_fields)
  obtain e4 s4 where s4: "sync_fs p s3 = (e4, s4)" "ci p s4" "frame p s3 s4"
      "\<And>x. x < f_clust_cnt (vol s p) \<Longrightarrow> ent sector p s4 x = ent sector p s3 x"
    using sync_fs_ent [OF s3(1,2)] s3(3) by metis
  have fc: "f_last_used (vol s4 p) = c" "f_free_cnt (vol s4 p) = f_free_cnt (vol s p) - 1"
    using s4(3) p2(3) p1(3) by (simp_all add: frame_fields s3_def)
  have "stretch_link p prev c out s =
      (if e1 \<noteq> 0 then (e1, out, s1) else if e2 \<noteq> 0 then (e2, out, s2) else (e4, c, s4))"
    using s4(1) unfolding stretch_link_def p1(1) Let_def prod.case p2(1) set_counts s3_def by simp
  moreover have "ent sector p s4 x =
      (if prev \<noteq> 0 \<and> x = prev then c AND 0x0fffffff else if x = c then 0x0fffffff else ent sector p s x)"
    if "e1 = 0" "e2 = 0" "x < f_clust_cnt (vol s p)" for x
    using that s4(4) p2(4) p1(4) by (simp add: s3_def)
  ultimately show ?thesis using p1(2) p2(2) s4(2) fc by (cases "e1 = 0"; cases "e2 = 0") auto
qed

lemma cluster_28: "layout_ok (vol s p) \<Longrightarrow> c < f_clust_cnt (vol s p) \<Longrightarrow> c AND 0x0fffffff = c"
proof -
  assume "layout_ok (vol s p)" "c < f_clust_cnt (vol s p)"
  then have "c < 2 ^ 28" by (simp add: layout_ok_def word_less_nat_alt word_le_nat_alt)
  then have "c AND mask 28 = c" by (rule less_mask_eq)
  then show ?thesis by (simp add: mask_eq_exp_minus_1)
qed

text \<open>The scan from the hint \<^verbatim>\<open>last_used\<close> goes once around the table.\<close>

lemma scan_from_last:
  assumes "ci p s" and "layout_ok (vol s p)" and "2 \<le> f_last_used (vol s p)" and "f_last_used (vol s p) < f_clust_cnt (vol s p)"
  shows "\<exists>r s'. stretch_scan p (f_last_used (vol s p)) out s = Some (r, s') \<and> ci p s' \<and> frame p s s' \<and> ls p s' = ls p s
    \<and> (case r of
         Inr c \<Rightarrow> 2 \<le> c \<and> c < f_clust_cnt (vol s p) \<and> ent sector p s c = 0
       | Inl e \<Rightarrow> (e = FAT_ERR_FULL \<longrightarrow> (\<forall>c. 2 \<le> c \<and> c < f_clust_cnt (vol s p) \<and> c \<noteq> f_last_used (vol s p) \<longrightarrow> ent sector p s c \<noteq> 0))
           \<and> (e = 0 \<longrightarrow> snd out = 0))"
proof -
  let ?lu = "f_last_used (vol s p)" and ?nx = "next_clust (vol s p)"
  define N a where "N = unat (f_clust_cnt (vol s p)) - 2" and "a = unat ?lu - 2"
  have a: "a < N" "unat ?lu = 2 + a" using assms(3,4) by (auto simp: N_def a_def word_le_nat_alt word_less_nat_alt)
  have cyc: "unat ((?nx ^^ k) ?lu) = 2 + (a + k) mod N" for k
    using next_clust_cyclic [OF assms(3,4), of k] by (simp add: N_def a_def)
  have "unat ((?nx ^^ N) ?lu) = unat ?lu" using cyc [of N] a by simp
  moreover have N: "Suc (N - 1) = N" using a by simp
  ultimately have "(?nx ^^ Suc (N - 1)) ?lu = ?lu" unfolding N by (simp only: word_unat_eq_iff)
  note S = scan_spec [OF assms this, of out]
  have all: "ent sector p s c \<noteq> 0"
    if m: "m \<le> N - 1" "(?nx ^^ Suc m) ?lu = ?lu" "\<forall>j < m. ent sector p s ((?nx ^^ Suc j) ?lu) \<noteq> 0"
      and c: "2 \<le> c" "c < f_clust_cnt (vol s p)" "c \<noteq> ?lu" for m c
  proof -
    have "(a + Suc m) mod N = a mod N" using cyc [of "Suc m"] m(2) a by simp
    then have "N dvd a + Suc m - a" by (subst mod_eq_dvd_iff_nat [symmetric]) simp_all
    then have "N \<le> Suc m" using dvd_imp_le [of N "Suc m"] by simp
    then have mN: "Suc m = N" using m(1) a by simp
    define x where "x = unat c - 2"
    have u: "2 \<le> unat c" "unat c < unat (f_clust_cnt (vol s p))" "unat c \<noteq> unat ?lu"
      using c by (simp_all add: word_le_nat_alt word_less_nat_alt) (simp add: word_unat_eq_iff)
    then have x: "x < N" "x \<noteq> a" "unat c = 2 + x" using a(2) by (auto simp: x_def N_def)
    define j where "j = (if a < x then x - a else x + N - a)"
    have j: "0 < j" "j < N" "(a + j) mod N = x" using x a by (auto simp: j_def)
    then have "unat ((?nx ^^ j) ?lu) = unat c" using cyc [of j] x(3) by simp
    then have "(?nx ^^ j) ?lu = c" by (simp only: word_unat_eq_iff)
    moreover have "Suc (j - 1) = j" using j(1) by simp
    ultimately have "(?nx ^^ Suc (j - 1)) ?lu = c" by (simp only:)
    moreover have "j - 1 < m" using j mN by simp
    ultimately show ?thesis using m(3) by metis
  qed
  obtain r s' where r: "stretch_scan p ?lu out s = Some (r, s')" "ci p s'" "frame p s s'" "ls p s' = ls p s"
      "scan_result sector p s (N - 1) ?lu out r" using S by blast
  show ?thesis
  proof (intro exI conjI)
    show "stretch_scan p ?lu out s = Some (r, s')" "ci p s'" "frame p s s'" "ls p s' = ls p s" by (rule r)+
    show "case r of Inr c \<Rightarrow> 2 \<le> c \<and> c < f_clust_cnt (vol s p) \<and> ent sector p s c = 0
       | Inl e \<Rightarrow> (e = FAT_ERR_FULL \<longrightarrow> (\<forall>c. 2 \<le> c \<and> c < f_clust_cnt (vol s p) \<and> c \<noteq> ?lu \<longrightarrow> ent sector p s c \<noteq> 0))
           \<and> (e = 0 \<longrightarrow> snd out = 0)"
    proof (cases r)
      case (Inl e)
      then show ?thesis using r(5) all unfolding scan_result_def by (simp only: sum.case) blast
    next
      case (Inr c)
      then show ?thesis using r(5) by (simp add: scan_result_def)
    qed
  qed
qed

lemma link_grown:
  assumes lay: "layout_ok (vol s p)" and prev: "prev < f_clust_cnt (vol s p)"
    and t: "ci p t" "frame p s t" "ls p t = ls p s" and c: "2 \<le> c" "c < f_clust_cnt (vol s p)" "ent sector p s c = 0"
  obtains e c' s' where "stretch_link p prev c out t = (e, c', s')" "ci p s'" "e = 0 \<Longrightarrow> grown sector p prev s c' s'"
proof -
  have "layout_ok (vol t p)" "c < f_clust_cnt (vol t p)" "prev < f_clust_cnt (vol t p)" "ent sector p t = ent sector p s"
    using t lay c prev by (simp_all add: layout_frame frame_fields ent_frame)
  then show thesis using link_spec [OF t(1), of c prev out] cluster_28 [OF lay c(2)] t(2) c that
    by (auto simp: frame_fields grown_def)
qed

lemma scan_then_link:
  assumes lay: "layout_ok (vol s p)" and lu: "2 \<le> f_last_used (vol s p)" "f_last_used (vol s p) < f_clust_cnt (vol s p)"
    and prev: "prev < f_clust_cnt (vol s p)"
    and t: "ci p t" "frame p s t" "ls p t = ls p s" and nf: "snd nf \<noteq> 0 \<or> uninit s = 0"
  obtains e c' s' where
    "do { (r, s') \<leftarrow> stretch_scan p (f_last_used (vol t p)) nf t;
          case r of Inl e \<Rightarrow> Some (e, out, s') | Inr c \<Rightarrow> Some (stretch_link p prev c out s') } = Some (e, c', s')"
    "ci p s'" "e = 0 \<Longrightarrow> uninit s \<noteq> 0 \<Longrightarrow> grown sector p prev s c' s'"
proof -
  have l: "layout_ok (vol t p)" "2 \<le> f_last_used (vol t p)" "f_last_used (vol t p) < f_clust_cnt (vol t p)"
      "ent sector p t = ent sector p s" "f_clust_cnt (vol t p) = f_clust_cnt (vol s p)"
    using t lu lay by (simp_all add: layout_frame frame_fields ent_frame)
  from scan_from_last [OF t(1) l(1-3), of nf] obtain r u where
      r: "stretch_scan p (f_last_used (vol t p)) nf t = Some (r, u)" "ci p u" "frame p t u" "ls p u = ls p t"
    and inr: "\<And>c. r = Inr c \<Longrightarrow> 2 \<le> c \<and> c < f_clust_cnt (vol s p) \<and> ent sector p s c = 0"
    and inl: "\<And>e. r = Inl e \<Longrightarrow> e = 0 \<Longrightarrow> snd nf = 0"
    unfolding l(4,5) by (elim exE conjE) (auto split: sum.splits)
  show thesis
  proof (cases r)
    case (Inl e)
    then show thesis using that [of e out u] r inl [OF Inl] nf by auto
  next
    case (Inr c)
    obtain e c' s' where "stretch_link p prev c out u = (e, c', s')" "ci p s'" "e = 0 \<Longrightarrow> grown sector p prev s c' s'"
      using link_grown [OF lay prev r(2) frame_trans [OF t(2) r(3)], of c out] r(4) t(3) inr [OF Inr] by auto
    then show thesis using that [of e c' s'] r Inr by auto
  qed
qed

lemma stretch_spec:
  assumes inv: "ci p s" and lay: "layout_ok (vol s p)"
    and lu: "2 \<le> f_last_used (vol s p)" "f_last_used (vol s p) < f_clust_cnt (vol s p)"
    and prev: "prev = 0 \<or> 2 \<le> prev \<and> prev < f_clust_cnt (vol s p)"
  shows "\<exists>e c s'. stretch_chain p prev out s = Some (e, c, s') \<and> ci p s'
    \<and> (e = 0 \<and> uninit s \<noteq> 0 \<longrightarrow> grown sector p prev s c s')"
proof -
  have prevlt: "prev < f_clust_cnt (vol s p)" using prev lu by (auto simp: word_less_nat_alt)
  define s0 where "s0 = upd_vol p (set_flag 2) s"
  have s0: "ci p s0" "frame p s s0" "ls p s0 = ls p s" using inv by (simp_all add: s0_def)
  have f0: "layout_ok (vol s0 p)" "f_clust_cnt (vol s0 p) = f_clust_cnt (vol s p)" "uninit s0 = uninit s"
      "ent sector p s0 = ent sector p s"
    using s0 lay by (simp_all add: layout_frame frame_fields ent_frame)
  note scan = scan_then_link [OF lay lu prevlt, where out = out]
  show ?thesis
  proof (cases "prev = 0")
    case True
    obtain e c' s' where "do { (r, s') \<leftarrow> stretch_scan p (f_last_used (vol s0 p)) (0, uninit s) s0;
          case r of Inl e \<Rightarrow> Some (e, out, s') | Inr c \<Rightarrow> Some (stretch_link p prev c out s') } = Some (e, c', s')"
        "ci p s'" "e = 0 \<Longrightarrow> uninit s \<noteq> 0 \<Longrightarrow> grown sector p prev s c' s'"
      using scan [OF s0, of "(0, uninit s)"] by auto
    moreover have "stretch_chain p prev out s = do { (r, s') \<leftarrow> stretch_scan p (f_last_used (vol s0 p)) (0, uninit s) s0;
          case r of Inl e \<Rightarrow> Some (e, out, s') | Inr c \<Rightarrow> Some (stretch_link p prev c out s') }"
      unfolding stretch_chain_def s0_def [symmetric] Let_def using True f0(3) by simp
    ultimately show ?thesis by auto
  next
    case False
    let ?c = "next_clust (vol s0 p) prev"
    have c: "2 \<le> ?c" "?c < f_clust_cnt (vol s0 p)"
      using next_clust_range [of prev "vol s0 p"] prev False f0(2) by auto
    show ?thesis
    proof (cases rule: get_fat_ent [OF s0(1) f0(1) c(2), of "(0, uninit s)"])
      case (1 e t)
      then have "stretch_chain p prev out s = Some (e, out, t)"
        unfolding stretch_chain_def s0_def [symmetric] Let_def using False f0(3) by simp
      then show ?thesis using 1 by auto
    next
      case (2 fl t)
      note fl = classify_flags [OF 2(5)]
      have t: "ci p t" "frame p s t" "ls p t = ls p s" using 2 frame_trans [OF s0(2) 2(3)] s0(3) by auto
      have step: "stretch_chain p prev out s = (if ent sector p s ?c = 0 then Some (stretch_link p prev ?c out t)
          else do { (r, s') \<leftarrow> stretch_scan p (f_last_used (vol t p)) (ent sector p s ?c, fl) t;
            case r of Inl e \<Rightarrow> Some (e, out, s') | Inr c \<Rightarrow> Some (stretch_link p prev c out s') })"
        unfolding stretch_chain_def s0_def [symmetric] Let_def using False f0(3,4) 2(1) fl(3) by simp
      show ?thesis
      proof (cases "ent sector p s ?c = 0")
        case True
        obtain e c' s' where "stretch_link p prev ?c out t = (e, c', s')" "ci p s'" "e = 0 \<Longrightarrow> grown sector p prev s c' s'"
          using link_grown [OF lay prevlt t c(1) c(2) [unfolded f0(2)] True, of out] by blast
        then show ?thesis using step True by auto
      next
        case no: False
        have "snd (ent sector p s ?c, fl) \<noteq> 0 \<or> uninit s = 0" using fl(5) by simp
        from scan [OF t this] obtain e c' s' where
          "do { (r, s') \<leftarrow> stretch_scan p (f_last_used (vol t p)) (ent sector p s ?c, fl) t;
             case r of Inl e \<Rightarrow> Some (e, out, s') | Inr c \<Rightarrow> Some (stretch_link p prev c out s') } = Some (e, c', s')"
          "ci p s'" "e = 0 \<Longrightarrow> uninit s \<noteq> 0 \<Longrightarrow> grown sector p prev s c' s'" by blast
        then show ?thesis unfolding step using no by auto
      qed
    qed
  qed
qed

end

section \<open>Disks that do not fail\<close>

text \<open>A disk on which transfers of the sectors in \<^verbatim>\<open>reach\<close> always succeed.\<close>

locale reliable_dev = block_dev +
  fixes reach :: "'a \<Rightarrow> u32 \<Rightarrow> bool"
  assumes read_ok: "good d \<Longrightarrow> length b = 512 \<Longrightarrow> reach d n \<Longrightarrow> fst (ops_read ops b n d)"
    and write_ok: "good d \<Longrightarrow> length b = 512 \<Longrightarrow> reach d n \<Longrightarrow> fst (ops_write ops b n d)"
    and read_reach: "good d \<Longrightarrow> length b = 512 \<Longrightarrow> ops_read ops b n d = (r, b', d') \<Longrightarrow> reach d' = reach d"
    and write_reach: "good d \<Longrightarrow> length b = 512 \<Longrightarrow> ops_write ops b n d = (r, d') \<Longrightarrow> reach d' = reach d"

text \<open>The cached sector can be written back.\<close>

definition flushable :: "('d \<Rightarrow> u32 \<Rightarrow> bool) \<Rightarrow> u64 \<Rightarrow> 'd fs \<Rightarrow> bool" where
  "flushable reach p s \<longleftrightarrow> (dirty (vol s p) \<longrightarrow> reach (dev s) (f_sect (vol s p)))"

context reliable_dev
begin

lemma sync_buf_ok:
  assumes "ci p s" and "flushable reach p s"
  shows "\<exists>s'. sync_buf p s = (0, s') \<and> reach (dev s') = reach (dev s)"
proof -
  let ?f = "vol s p"
  obtain r d where w: "ops_write ops (f_buf ?f) (f_sect ?f) (dev s) = (r, d)" by fastforce
  have f: "f_ops ?f = ops" "length (f_buf ?f) = 512" "good (dev s)" using assms(1) by (auto simp: cache_inv_def)
  have "r" if "dirty ?f" using write_ok [OF f(3,2), of "f_sect ?f"] assms(2) that w by (simp add: flushable_def)
  then show ?thesis
    using w f(1) write_reach [OF f(3,2) w] by (auto simp: sync_buf_def and_flag_bits dirty_def Let_def)
qed

lemma update_buf_ok:
  assumes inv: "ci p s" and fl: "flushable reach p s" and n: "n \<noteq> 0" "reach (dev s) n"
  obtains s' where "update_buf p n s = (0, s')" "flushable reach p s'" "reach (dev s') = reach (dev s)"
proof -
  obtain s1 where sy: "sync_buf p s = (0, s1)" "reach (dev s1) = reach (dev s)" using sync_buf_ok [OF inv fl] by blast
  note S = sync_buf_spec [OF inv sy(1)]
  have f: "f_ops (vol s1 p) = ops" "length (f_buf (vol s1 p)) = 512" "good (dev s1)" using S(1) by (auto simp: cache_inv_def)
  obtain r b d where rd: "ops_read ops (f_buf (vol s1 p)) n (dev s1) = (r, b, d)" by (metis prod_cases3)
  have r: "r" using read_ok [OF f(3,2), of n] n(2) sy(2) rd by simp
  have rr: "reach d = reach (dev s1)" by (rule read_reach [OF f(3,2) rd])
  define s2 where "s2 = upd_vol p (\<lambda>f. f\<lparr>f_sect := n\<rparr>) (upd_vol p (\<lambda>f. f\<lparr>f_buf := b\<rparr>) (s1\<lparr>dev := d\<rparr>))"
  have "update_buf p n s = (0, if f_sect (vol s p) = n then s else s2)"
    using r unfolding update_buf_def sy(1) Let_def prod.case f(1) rd s2_def by simp
  moreover have "reach (dev s2) = reach (dev s)" using rr sy(2) by (simp add: s2_def)
  ultimately obtain s' where s': "update_buf p n s = (0, s')" "reach (dev s') = reach (dev s)" by metis
  have "flushable reach p s'" using update_buf_spec(4) [OF inv n(1) s'(1)] n(2) s'(2) by (simp add: flushable_def)
  with s' show thesis by (intro that)
qed

lemma sync_fs_ok:
  assumes inv: "ci p s" and fl: "flushable reach p s" and i: "f_info_sect (vol s p) \<noteq> 0" "reach (dev s) (f_info_sect (vol s p))"
  shows "\<exists>s'. sync_fs p s = (0, s')"
proof -
  let ?i = "f_info_sect (vol s p)"
  let ?g = "\<lambda>f. put32 (put32 (f_buf f) 492 (f_last_used f)) 488 (f_free_cnt f)"
  obtain s1 where sy: "sync_buf p s = (0, s1)" "reach (dev s1) = reach (dev s)" using sync_buf_ok [OF inv fl] by blast
  note S = sync_buf_spec [OF inv sy(1)]
  have i1: "f_info_sect (vol s1 p) = ?i" using S(2) by (simp add: frame_fields)
  have "flushable reach p s1" using S(4) by (simp add: flushable_def)
  then obtain s2 where up: "update_buf p ?i s1 = (0, s2)" "reach (dev s2) = reach (dev s1)"
    using update_buf_ok [OF S(1) _ i(1)] i(2) sy(2) by metis
  note U = update_buf_spec [OF S(1) i(1) up(1)]
  define s3 where "s3 = upd_vol p (set_flag 1) (upd_vol p (\<lambda>f. f\<lparr>f_buf := ?g f\<rparr>) s2)"
  have s3': "upd_vol p (\<lambda>f. f\<lparr>f_buf := put32 (f_buf f) 488 (f_free_cnt f)\<rparr>)
      (upd_vol p (\<lambda>f. f\<lparr>f_buf := put32 (f_buf f) 492 (f_last_used f)\<rparr>) (upd_vol p (set_flag 1) s2)) = s3"
    unfolding s3_def upd_vol_def set_flag_def by (cases "vol s2 p") simp
  have "length (f_buf (vol s2 p)) = 512" using U(1) by (simp add: cache_inv_def)
  then have c3: "ci p s3" using poke_spec(1) [OF U(1) U(4) i(1), of ?g] unfolding s3_def by simp
  have "flushable reach p s3" using U(4) i(2) sy(2) up(2) by (simp add: s3_def flushable_def)
  then obtain s4 where "sync_buf p s3 = (0, s4)" using sync_buf_ok [OF c3] by blast
  then show ?thesis unfolding sync_fs_def sy(1) Let_def prod.case i1 up(1) s3' by simp
qed

lemma put_fat2_ok:
  assumes inv: "ci p s" and fl: "flushable reach p s" and n: "base + c div 128 \<noteq> 0" "reach (dev s) (base + c div 128)"
  obtains s' where "put_fat2 p base c val s = (0, s')" "flushable reach p s'" "reach (dev s') = reach (dev s)"
proof -
  obtain s1 where u: "update_buf p (base + c div 128) s = (0, s1)" "reach (dev s1) = reach (dev s)"
    using update_buf_ok [OF inv fl n] by blast
  have "f_sect (vol s1 p) = base + c div 128" using update_buf_spec(4) [OF inv n(1) u(1)] by simp
  then show thesis using u n(2) that by (simp add: put_fat2_def flushable_def Let_def)
qed

lemma put_fat_ok:
  assumes inv: "ci p s" and fl: "flushable reach p s" and lay: "layout_ok (vol s p)" and c: "c < f_clust_cnt (vol s p)"
    and r0: "reach (dev s) (f_fat_sect0 (vol s p) + c div 128)"
    and r1: "f_fat_sect1 (vol s p) \<noteq> 0 \<Longrightarrow> reach (dev s) (f_fat_sect1 (vol s p) + c div 128)"
  shows "\<exists>s'. put_fat p c val s = (0, s') \<and> flushable reach p s' \<and> reach (dev s') = reach (dev s)"
proof -
  have n0: "f_fat_sect0 (vol s p) + c div 128 \<noteq> 0"
    and n1: "f_fat_sect1 (vol s p) \<noteq> 0 \<Longrightarrow> f_fat_sect1 (vol s p) + c div 128 \<noteq> 0"
    using lay c by (simp_all add: layout_ok_def)
  show ?thesis
  proof (cases "f_fat_sect1 (vol s p) = 0")
    case True
    obtain s' where "put_fat2 p (f_fat_sect0 (vol s p)) c val s = (0, s')" "flushable reach p s'"
        "reach (dev s') = reach (dev s)" using put_fat2_ok [OF inv fl n0 r0] by blast
    then show ?thesis using True by (simp add: put_fat_def)
  next
    case False
    obtain s1 where s1: "put_fat2 p (f_fat_sect1 (vol s p)) c val s = (0, s1)" "flushable reach p s1"
        "reach (dev s1) = reach (dev s)" using put_fat2_ok [OF inv fl n1 [OF False] r1 [OF False]] by blast
    note P = put_fat2_spec [OF inv n1 [OF False] s1(1)]
    have b0: "f_fat_sect0 (vol s1 p) = f_fat_sect0 (vol s p)" using P(2) by (simp add: frame_fields)
    obtain s2 where "put_fat2 p (f_fat_sect0 (vol s p)) c val s1 = (0, s2)" "flushable reach p s2"
        "reach (dev s2) = reach (dev s1)" using put_fat2_ok [OF P(1) s1(2) n0, unfolded s1(3), OF r0] s1(3) by auto
    then show ?thesis using False s1 b0 by (simp add: put_fat_def)
  qed
qed

lemma get_fat_ok:
  assumes inv: "ci p s" and fl: "flushable reach p s" and n: "f_fat_sect0 (vol s p) + c div 128 \<noteq> 0"
    and r: "reach (dev s) (f_fat_sect0 (vol s p) + c div 128)"
  shows "\<exists>s'. get_fat p c out s = (case classify (f_clust_cnt (vol s p)) (ent sector p s c) of
      None \<Rightarrow> (FAT_ERR_BROKEN, out, s') | Some cls \<Rightarrow> (0, (ent sector p s c, cls), s'))"
proof -
  let ?n = "f_fat_sect0 (vol s p) + c div 128"
  obtain s1 where u: "update_buf p ?n s = (0, s1)" using update_buf_ok [OF inv fl n r] by blast
  note U = update_buf_spec [OF inv n u]
  define v where "v = ent sector p s c"
  have v: "le32 (f_buf (vol s1 p)) (4 * unat (c mod 128)) AND 0x0fffffff = v"
    using U(5) by (simp add: v_def ent_def tab_def)
  have cnt: "f_clust_cnt (vol s1 p) = f_clust_cnt (vol s p)" using U(2) by (simp add: frame_fields)
  have "get_fat p c out s = (case classify (f_clust_cnt (vol s p)) v of None \<Rightarrow> (- 2, out, s1) | Some fl \<Rightarrow> (0, (v, fl), s1))"
    using v cnt unfolding get_fat_def u Let_def prod.case classify_def by simp
  then show ?thesis unfolding v_def by blast
qed

end

end
