(* ===== verification/Fat32_Dir.thy ===== *)
theory Fat32_Dir
  imports Fat32_Chain
begin

text \<open>
  Directories of \<^verbatim>\<open>fat32.c\<close>: \<^verbatim>\<open>dir_at_clust\<close> to \<^verbatim>\<open>dir_add\<close>.  A \<^verbatim>\<open>Dir\<close> is a position (cluster, sector, byte
  index); \<^verbatim>\<open>dir_ptr\<close> is the part of the volume's sector buffer from the index on, so that the
  structures \<^verbatim>\<open>Sfn\<close> and \<^verbatim>\<open>Lfn\<close> are read from the buffer as it is at that moment, as the C pointers do.

  Shown: long names survive being written to and parsed from directory entries, a short name is
  known byte by byte, positions advance through a sector entry by entry, and the comparisons of
  names are inverted.
\<close>

section \<open>Positions\<close>

definition dir_at_clust :: "u32 \<Rightarrow> Dir \<Rightarrow> 'd fs \<Rightarrow> Dir" where
  "dir_at_clust clust dir s =
     dir\<lparr>d_clust := clust, d_sect := clust_to_sect (vol s (d_fat dir)) clust, d_idx := 0\<rparr>"

definition dir_enter :: "u32 \<Rightarrow> Dir \<Rightarrow> 'd fs \<Rightarrow> Dir" where
  "dir_enter clust dir s =
     (let clust = (if clust = 0 then f_root_clust (vol s (d_fat dir)) else clust)
      in dir_at_clust clust (dir\<lparr>d_sclust := clust\<rparr>) s)"

definition dir_next :: "Dir \<Rightarrow> 'd fs \<Rightarrow> int \<times> Dir \<times> 'd fs" where
  "dir_next dir s =
     (let dir = dir\<lparr>d_idx := d_idx dir + 32\<rparr>
      in if d_idx dir < 512 then (FAT_ERR_NONE, dir, s)
         else let dir = dir\<lparr>d_idx := 0, d_sect := d_sect dir + 1\<rparr>
              in if d_sect dir AND f_clust_msk (vol s (d_fat dir)) \<noteq> 0 then (FAT_ERR_NONE, dir, s)
                 else let (err, (nxt, flags), s) = get_fat (d_fat dir) (d_clust dir) (0, uninit s) s
                      in if err \<noteq> 0 then (err, dir, s)
                         else if flags AND (CLUST_BAD OR CLUST_FREE) \<noteq> 0 then (FAT_ERR_BROKEN, dir, s)
                         else if flags AND CLUST_LAST \<noteq> 0 then (FAT_ERR_EOF, dir, s)
                         else (FAT_ERR_NONE, dir_at_clust nxt dir s, s))"

fun dir_advance :: "nat \<Rightarrow> Dir \<Rightarrow> 'd fs \<Rightarrow> int \<times> Dir \<times> 'd fs" where
  "dir_advance 0 dir s = (FAT_ERR_NONE, dir, s)"
| "dir_advance (Suc n) dir s =
     (let (err, dir, s) = dir_next dir s in if err \<noteq> 0 then (err, dir, s) else dir_advance n dir s)"

definition dir_next_stretch :: "Dir \<Rightarrow> 'd fs \<Rightarrow> (int \<times> Dir \<times> 'd fs) option" where
  "dir_next_stretch dir s =
     (let (err, dir, s) = dir_next dir s
      in if err \<noteq> FAT_ERR_EOF then Some (err, dir, s)
         else do {
           (err, nxt, s) \<leftarrow> stretch_chain (d_fat dir) (d_clust dir) 0 s;
           if err \<noteq> 0 then Some (err, dir, s)
           else let dir = dir_at_clust nxt dir s;
                    (err, s) = clust_clear (d_fat dir) (d_clust dir) s
                in Some (err, dir, s)
         })"

definition dir_ptr :: "Dir \<Rightarrow> 'd fs \<Rightarrow> u8 list" where
  "dir_ptr dir s = drop (unat (d_idx dir)) (f_buf (vol s (d_fat dir)))"

section \<open>Entries\<close>

definition sfn_is_last :: "u8 list \<Rightarrow> bool" where
  "sfn_is_last sfn = (sfn ! 0 = SFN_LAST)"

definition sfn_is_free :: "u8 list \<Rightarrow> bool" where
  "sfn_is_free sfn = (sfn ! 0 = SFN_LAST \<or> sfn ! 0 = SFN_FREE)"

definition sfn_is_lfn :: "u8 list \<Rightarrow> bool" where
  "sfn_is_lfn sfn = (sfn ! 11 = FAT_ATTR_LFN)"

definition sfn_cluster :: "u8 list \<Rightarrow> u32" where
  "sfn_cluster sfn = push_bit 16 (ucast (le16 sfn 20)) OR ucast (le16 sfn 26)"

definition sfn_special :: "u8 list" where
  "sfn_special = map of_char ''!#$%&'' @ [39] @ map of_char ''()-@^_`{}~ ''"

definition sfn_char :: "u8 \<Rightarrow> u8" where
  "sfn_char c =
     (let c = to_upper c
      in if 65 \<le> sint c \<and> sint c \<le> 90 then c
         else if c \<in> set sfn_special then c
         else 95)"

text \<open>\<^verbatim>\<open>while (i < len && name[i++] != '.');\<close>\<close>

fun skip_stem :: "u8 list \<Rightarrow> u8 list" where
  "skip_stem [] = []"
| "skip_stem (c # cs) = (if c \<noteq> 46 then skip_stem cs else cs)"

definition put_sfn_name :: "u8 list \<Rightarrow> nat \<Rightarrow> u8 list" where
  "put_sfn_name name len =
     (let stem = takeWhile (\<lambda>c. c \<noteq> 46) (take (min len 8) name);
          ext = take 3 (skip_stem (drop (length stem) (take len name)))
      in map sfn_char stem @ replicate (8 - length stem) SFN_PAD
         @ map sfn_char ext @ replicate (3 - length ext) SFN_PAD)"

definition parse_sfn_name :: "u8 list \<Rightarrow> 'd fs \<Rightarrow> 'd fs" where
  "parse_sfn_name sfn_name s =
     (let nm = takeWhile (\<lambda>c. c \<noteq> SFN_PAD) (take 8 sfn_name)
               @ (if sfn_name ! 8 \<noteq> SFN_PAD then [46] else [])
               @ takeWhile (\<lambda>c. c \<noteq> SFN_PAD) (take 3 (drop 8 sfn_name))
      in s\<lparr>g_buf := overwrite (g_buf s) 0 nm, g_len := of_nat (length nm)\<rparr>)"

definition put_lfn_name_frag :: "u8 list \<Rightarrow> u8 list \<Rightarrow> nat \<Rightarrow> u8 list" where
  "put_lfn_name_frag lfn name len =
     (let lfn = fold (\<lambda>i raw. raw[g_lfn_indices ! i := name ! i, g_lfn_indices ! i + 1 := 0x00]) [0..<len] lfn
      in if len < 13
         then fold (\<lambda>i raw. raw[g_lfn_indices ! i := 0xff, g_lfn_indices ! i + 1 := 0xff]) [len + 1..<13]
                (lfn[g_lfn_indices ! len := 0x00, g_lfn_indices ! len + 1 := 0x00])
         else lfn)"

text \<open>The inner loop of \<^verbatim>\<open>parse_lfn_name\<close> from character \<^term>\<open>i\<close> on.  The test for \<^verbatim>\<open>0xff\<close> compares a
  signed \<^verbatim>\<open>char\<close> with 255.\<close>

function lfn_chars :: "u8 list \<Rightarrow> nat \<Rightarrow> nat \<Rightarrow> 'd fs \<Rightarrow> int \<times> 'd fs" where
  "lfn_chars lfn cnt i s =
     (if i < 13
      then let c = lfn ! (g_lfn_indices ! i)
           in if sint c = 0xff then (FAT_ERR_BROKEN, s)
              else if c = 0 then (FAT_ERR_NONE, s)
              else lfn_chars lfn cnt (i + 1) (s\<lparr>g_buf := (g_buf s)[13 * cnt + i := c], g_len := g_len s + 1\<rparr>)
      else (FAT_ERR_NONE, s))"
  by pat_completeness auto
termination
  by (relation "measure (\<lambda>(lfn, cnt, i, s). 13 - i)") auto

declare lfn_chars.simps [simp del]

fun lfn_loop :: "nat \<Rightarrow> Dir \<Rightarrow> 'd fs \<Rightarrow> int \<times> Dir \<times> 'd fs" where
  "lfn_loop 0 dir s = (if g_len s \<le> 255 then FAT_ERR_NONE else FAT_ERR_BROKEN, dir, s)"
| "lfn_loop (Suc cnt) dir s =
     (let lfn = dir_ptr dir s
      in if lfn ! 11 \<noteq> FAT_ATTR_LFN \<or> lfn ! 13 \<noteq> g_crc s then (FAT_ERR_BROKEN, dir, s)
         else let (err, s) = lfn_chars lfn cnt 0 s
              in if err \<noteq> 0 then (err, dir, s)
                 else let (err, dir, s) = dir_next dir s
                      in if err \<noteq> 0 then (err, dir, s)
                         else let (err, s) = update_buf (d_fat dir) (d_sect dir) s
                              in if err \<noteq> 0 then (err, dir, s) else lfn_loop cnt dir s)"

definition parse_lfn_name :: "Dir \<Rightarrow> 'd fs \<Rightarrow> int \<times> Dir \<times> 'd fs" where
  "parse_lfn_name dir s =
     (let (err, s) = update_buf (d_fat dir) (d_sect dir) s
      in if err \<noteq> 0 then (err, dir, s)
         else let lfn = dir_ptr dir s;
                  s = s\<lparr>g_crc := lfn ! 13, g_len := 0\<rparr>
              in if lfn ! 0 AND LFN_HEAD_MSK = 0 then (FAT_ERR_BROKEN, dir, s)
                 else let cnt = unat (lfn ! 0 AND LFN_SEQ_MSK)
                      in if 20 < cnt then (FAT_ERR_BROKEN, dir, s) else lfn_loop cnt dir s)"

section \<open>Search\<close>

text \<open>The body of the loop of \<^verbatim>\<open>dir_search\<close>: \<^term>\<open>Some e\<close> is \<^verbatim>\<open>return e\<close>, \<^const>\<open>None\<close> goes on.  \<^verbatim>\<open>loc\<close> is a nullable
  pointer.\<close>

definition search_step ::
  "u8 list \<Rightarrow> nat \<Rightarrow> u8 list \<Rightarrow> Loc option \<Rightarrow> Dir \<Rightarrow> 'd fs \<Rightarrow> int option \<times> Loc option \<times> Dir \<times> 'd fs" where
  "search_step name len sfn_name loc dir s =
     (let (err, s) = update_buf (d_fat dir) (d_sect dir) s
      in if err \<noteq> 0 then (Some err, loc, dir, s)
         else let sfn = dir_ptr dir s
         in if sfn_is_last sfn then (Some FAT_ERR_EOF, loc, dir, s)
         else if sfn_is_free sfn then (None, loc, dir, s)
         else let loc = map_option (\<lambda>_. \<lparr>l_sect = d_sect dir, l_idx = d_idx dir\<rparr>) loc
         in if sfn_is_lfn sfn
            then (let (err, dir, s) = parse_lfn_name dir s
                  in if err \<noteq> 0 then (Some err, loc, dir, s)
                     else let sfn = dir_ptr dir s
                     in if sfn_is_free sfn \<or> sfn_is_lfn sfn \<or> g_crc s \<noteq> get_crc sfn
                        then (Some FAT_ERR_BROKEN, loc, dir, s)
                        else if uint (g_len s) = int len \<and> \<not> memcmp (g_buf s) name len
                        then (Some FAT_ERR_NONE, loc, dir, s)
                        else (None, loc, dir, s))
            else if \<not> memcmp sfn_name sfn 11 then (Some FAT_ERR_NONE, loc, dir, s)
            else (None, loc, dir, s))"

partial_function (option) search_loop ::
  "u8 list \<Rightarrow> nat \<Rightarrow> u8 list \<Rightarrow> Loc option \<Rightarrow> Dir \<Rightarrow> 'd fs \<Rightarrow> (int \<times> Loc option \<times> Dir \<times> 'd fs) option" where
  "search_loop name len sfn_name loc dir s =
     (let (r, loc, dir, s) = search_step name len sfn_name loc dir s
      in case r of Some e \<Rightarrow> Some (e, loc, dir, s)
         | None \<Rightarrow> let (err, dir, s) = dir_next dir s
                   in if err \<noteq> 0 then Some (err, loc, dir, s) else search_loop name len sfn_name loc dir s)"

definition dir_search ::
  "Dir \<Rightarrow> u8 list \<Rightarrow> nat \<Rightarrow> Loc option \<Rightarrow> 'd fs \<Rightarrow> (int \<times> Loc option \<times> Dir \<times> 'd fs) option" where
  "dir_search dir name len loc s =
     search_loop name len (put_sfn_name name len) loc (dir_at_clust (d_sclust dir) dir s) s"

definition dir_at_root :: "Dir \<Rightarrow> 'd fs \<Rightarrow> bool" where
  "dir_at_root dir s =
     (let f = vol s (d_fat dir)
      in d_clust dir = f_root_clust f \<and> d_sect dir = clust_to_sect f (f_root_clust f) \<and> d_idx dir = 0)"

partial_function (option) follow_loop ::
  "u32 \<Rightarrow> bool \<Rightarrow> Dir \<Rightarrow> u8 list \<Rightarrow> Loc option \<Rightarrow> 'd fs \<Rightarrow> (int \<times> Dir \<times> u8 list \<times> Loc option \<times> 'd fs) option" where
  "follow_loop dir_clust dir_enterable dir str loc s =
     (let str = skip_slashes str;
          len = subpath_len str
      in if len = 0 then Some (FAT_ERR_NONE, dir, str, loc, s)
         else if \<not> dir_enterable then Some (FAT_ERR_PATH, dir, str, loc, s)
         else do {
           (err, loc, dir, s) \<leftarrow> dir_search (dir_enter dir_clust dir s) str len loc s;
           if err \<noteq> 0 then Some (err, dir, str, loc, s)
           else let sfn = dir_ptr dir s
                in follow_loop (sfn_cluster sfn) (sfn ! 11 AND FAT_ATTR_DIR \<noteq> 0) dir (drop len str) loc s
         })"

definition follow_path ::
  "Dir \<Rightarrow> u8 list \<Rightarrow> Loc option \<Rightarrow> 'd fs \<Rightarrow> (int \<times> Dir \<times> u8 list \<times> Loc option \<times> 'd fs) option" where
  "follow_path dir path loc s =
     (if first_char path \<noteq> 47 then Some (FAT_ERR_PATH, dir, path, loc, s)
      else let str = tl path;
               len = subpath_len str
           in if len = 0 then Some (FAT_ERR_PATH, dir, path, loc, s)
              else do {
                p \<leftarrow> find_fat_volume str len s;
                let dir = dir\<lparr>d_fat := p\<rparr>;
                if p = 0 then Some (FAT_ERR_PATH, dir, path, loc, s)
                else let dir = dir_enter (f_root_clust (vol s p)) dir s
                     in follow_loop (d_clust dir) True dir (drop len str) loc s
              })"

section \<open>Changing directories\<close>

text \<open>Write bytes at an offset of the entry \<^verbatim>\<open>dir\<close> points to.\<close>

definition put_entry :: "nat \<Rightarrow> u8 list \<Rightarrow> Dir \<Rightarrow> 'd fs \<Rightarrow> 'd fs" where
  "put_entry off bs dir s =
     upd_vol (d_fat dir) (\<lambda>f. f\<lparr>f_buf := overwrite (f_buf f) (unat (d_idx dir) + off) bs\<rparr>) s"

partial_function (option) remove_entries_loop :: "u32 \<Rightarrow> u16 \<Rightarrow> Dir \<Rightarrow> 'd fs \<Rightarrow> (int \<times> Dir \<times> 'd fs) option" where
  "remove_entries_loop sect idx dir s =
     (let (err, s) = update_buf (d_fat dir) (d_sect dir) s
      in if err \<noteq> 0 then Some (err, dir, s)
         else let s = put_entry 0 [SFN_FREE] dir s;
                  s = upd_vol (d_fat dir) (set_flag FAT_BUF_DIRTY) s
              in if d_sect dir = sect \<and> d_idx dir = idx then Some (FAT_ERR_NONE, dir, s)
                 else let (err, dir, s) = dir_next dir s
                      in if err \<noteq> 0 then Some (err, dir, s) else remove_entries_loop sect idx dir s)"

definition remove_entries :: "Dir \<Rightarrow> Loc \<Rightarrow> 'd fs \<Rightarrow> (int \<times> Dir \<times> 'd fs) option" where
  "remove_entries dir loc s =
     remove_entries_loop (d_sect dir) (d_idx dir)
       (dir\<lparr>d_clust := sect_to_clust (vol s (d_fat dir)) (l_sect loc), d_sect := l_sect loc, d_idx := l_idx loc\<rparr>) s"

text \<open>The first loop of \<^verbatim>\<open>dir_add\<close>: find \<^term>\<open>need\<close> consecutive free entries.  \<^term>\<open>sect\<close>, \<^term>\<open>idx\<close> is the first.\<close>

partial_function (option) find_free ::
  "nat \<Rightarrow> nat \<Rightarrow> bool \<Rightarrow> u32 \<Rightarrow> u16 \<Rightarrow> Dir \<Rightarrow> 'd fs \<Rightarrow> (int \<times> bool \<times> u32 \<times> u16 \<times> Dir \<times> 'd fs) option" where
  "find_free need cnt eod sect idx dir s =
     (if cnt < need
      then let (err, s) = update_buf (d_fat dir) (d_sect dir) s
           in if err \<noteq> 0 then Some (err, eod, sect, idx, dir, s)
              else let sfn = dir_ptr dir s;
                       fr = (eod \<or> sfn_is_free sfn);
                       (sect, idx) = (if fr \<and> cnt = 0 then (d_sect dir, d_idx dir) else (sect, idx));
                       cnt = (if fr then cnt + 1 else 0);
                       eod = (if sfn_is_last sfn then True else eod)
                   in do {
                     (err, dir, s) \<leftarrow> dir_next_stretch dir s;
                     if err \<noteq> 0 then Some (err, eod, sect, idx, dir, s)
                     else find_free need cnt eod sect idx dir s
                   }
      else Some (FAT_ERR_NONE, eod, sect, idx, dir, s))"

text \<open>The second loop: the long-name entries, from the last fragment to the first.\<close>

fun add_lfns :: "nat \<Rightarrow> u8 \<Rightarrow> u8 list \<Rightarrow> nat \<Rightarrow> u8 \<Rightarrow> Dir \<Rightarrow> 'd fs \<Rightarrow> int \<times> Dir \<times> 'd fs" where
  "add_lfns 0 msk name len crc dir s = (FAT_ERR_NONE, dir, s)"
| "add_lfns (Suc k) msk name len crc dir s =
     (let (err, s) = update_buf (d_fat dir) (d_sect dir) s
      in if err \<noteq> 0 then (err, dir, s)
         else let s = upd_vol (d_fat dir) (set_flag FAT_BUF_DIRTY) s;
                  pos = 13 * k;
                  lfn = put_lfn_name_frag (take 32 (dir_ptr dir s)) (drop pos name) (min (len - pos) 13);
                  lfn = lfn[11 := FAT_ATTR_LFN, 0 := msk OR of_nat (Suc k), 13 := crc, 12 := 0];
                  lfn = put16 lfn 26 0;
                  s = put_entry 0 lfn dir s;
                  (err, dir, s) = dir_next dir s
              in if err \<noteq> 0 then (err, dir, s) else add_lfns k 0 name len crc dir s)"

text \<open>The fields of the new short entry, in the order the code writes them.\<close>

definition new_sfn :: "u8 list \<Rightarrow> u8 \<Rightarrow> u32 \<Rightarrow> u16 \<Rightarrow> u16 \<Rightarrow> u8 list \<Rightarrow> u8 list" where
  "new_sfn sfn_name attr clust date time sfn =
     (let sfn = overwrite sfn 0 sfn_name;
          sfn = put16 sfn 20 (ucast (drop_bit 16 clust));
          sfn = put16 sfn 26 (ucast (clust AND 0xffff));
          sfn = sfn[11 := attr, 12 := 0, 13 := 0];
          sfn = put16 sfn 14 time;
          sfn = put16 sfn 22 time;
          sfn = put16 sfn 16 date;
          sfn = put16 sfn 24 date;
          sfn = put16 sfn 18 date
      in put32 sfn 28 0)"

definition dir_add :: "Dir \<Rightarrow> u8 list \<Rightarrow> nat \<Rightarrow> u8 \<Rightarrow> u32 \<Rightarrow> 'd fs \<Rightarrow> (int \<times> Dir \<times> 'd fs) option" where
  "dir_add dir name len attr clust s =
     (if len = 0 \<or> 255 < len then Some (FAT_ERR_PARAM, dir, s)
      else let lfns = (len + 12) div 13
           in do {
             (err, eod, sect, idx, dir, s) \<leftarrow> find_free (lfns + 1) 0 False 0 0 (dir_enter (d_sclust dir) dir s) s;
             if err \<noteq> 0 then Some (err, dir, s)
             else let (err, s) = (if eod then update_buf (d_fat dir) (d_sect dir) s else (FAT_ERR_NONE, s))
             in if err \<noteq> 0 then Some (err, dir, s)
             else let s = (if eod then upd_vol (d_fat dir) (set_flag FAT_BUF_DIRTY) (put_entry 0 [0] dir s) else s);
                      dir = dir\<lparr>d_clust := sect_to_clust (vol s (d_fat dir)) sect, d_sect := sect, d_idx := idx\<rparr>;
                      sfn_name = put_sfn_name name len;
                      crc = get_crc sfn_name;
                      (err, dir, s) = add_lfns lfns LFN_HEAD_MSK name len crc dir s
             in if err \<noteq> 0 then Some (err, dir, s)
             else let (date, time) = encode_timestamp fat_get_timestamp;
                      (err, s) = update_buf (d_fat dir) (d_sect dir) s
             in if err \<noteq> 0 then Some (err, dir, s)
             else let s = upd_vol (d_fat dir) (set_flag FAT_BUF_DIRTY) s
             in Some (FAT_ERR_NONE, dir,
                  put_entry 0 (new_sfn sfn_name attr clust date time (take 32 (dir_ptr dir s))) dir s)
           })"

section \<open>Long-name fragments\<close>

lemma g_lfn_indices_apart:
  assumes "t < 13" and "i < 13"
  shows "g_lfn_indices ! t + 1 < 32" "g_lfn_indices ! t = g_lfn_indices ! i \<longleftrightarrow> t = i"
    "g_lfn_indices ! t \<noteq> g_lfn_indices ! i + 1"
    "g_lfn_indices ! t \<notin> {0, 11, 12, 13, 26, 27}"
proof -
  have g: "length g_lfn_indices = 13" "distinct g_lfn_indices"
    "\<forall>x \<in> set g_lfn_indices. x + 1 < 32 \<and> x + 1 \<notin> set g_lfn_indices \<and> x \<notin> {0, 11, 12, 13, 26, 27}"
    by (simp_all add: g_lfn_indices_def)
  have m: "g_lfn_indices ! t \<in> set g_lfn_indices" "g_lfn_indices ! i \<in> set g_lfn_indices"
    using assms g(1) by simp_all
  show "g_lfn_indices ! t + 1 < 32" "g_lfn_indices ! t \<notin> {0, 11, 12, 13, 26, 27}"
    using g(3) m(1) by blast+
  show "g_lfn_indices ! t \<noteq> g_lfn_indices ! i + 1" using g(3) m by metis
  show "g_lfn_indices ! t = g_lfn_indices ! i \<longleftrightarrow> t = i"
    using g(1,2) assms by (simp add: nth_eq_iff_index_eq)
qed

lemma lfn_fold_length:
  "length (fold (\<lambda>i raw. raw[g_lfn_indices ! i := f i, Suc (g_lfn_indices ! i) := z]) is raw) = length raw"
  by (induction "is" arbitrary: raw) auto

lemma lfn_fold_nth:
  assumes "b \<le> 13" and "t < 13" and "length raw = 32"
  shows "fold (\<lambda>i raw. raw[g_lfn_indices ! i := f i, Suc (g_lfn_indices ! i) := z]) [a..<b] raw ! (g_lfn_indices ! t) =
      (if a \<le> t \<and> t < b then f t else raw ! (g_lfn_indices ! t))"
  using assms(1)
proof (induction b)
  case (Suc b)
  let ?r = "fold (\<lambda>i raw. raw[g_lfn_indices ! i := f i, Suc (g_lfn_indices ! i) := z]) [a..<b] raw"
  have ap: "g_lfn_indices ! b < 32" "g_lfn_indices ! t = g_lfn_indices ! b \<longleftrightarrow> t = b"
    "g_lfn_indices ! t \<noteq> Suc (g_lfn_indices ! b)"
    using Suc.prems assms(2) g_lfn_indices_apart [of t b] g_lfn_indices_apart [of b b] by simp_all
  have len: "length ?r = 32" by (simp add: lfn_fold_length assms(3))
  have "?r[g_lfn_indices ! b := f b, Suc (g_lfn_indices ! b) := z] ! (g_lfn_indices ! t) =
      (if t = b then f b else ?r ! (g_lfn_indices ! t))"
    using ap len by (cases "t = b") simp_all
  then show ?case using Suc by (cases "a \<le> b") (auto simp: less_Suc_eq)
qed simp

text \<open>The fragment number \<^term>\<open>j\<close> of a name stored at byte \<^term>\<open>i\<close> of a sector.\<close>

definition frag_at :: "u8 list \<Rightarrow> nat \<Rightarrow> nat \<Rightarrow> u8 list \<Rightarrow> u8 \<Rightarrow> bool" where
  "frag_at b i j nm crc \<longleftrightarrow>
     b ! (i + 11) = FAT_ATTR_LFN \<and> b ! (i + 13) = crc \<and>
     (\<forall>t < min (length nm - 13 * j) 13. b ! (i + g_lfn_indices ! t) = nm ! (13 * j + t)) \<and>
     (length nm - 13 * j < 13 \<longrightarrow> b ! (i + g_lfn_indices ! (length nm - 13 * j)) = 0)"

lemma put_lfn_name_frag_nth:
  assumes "length raw = 32" and "n \<le> 13"
  shows "length (put_lfn_name_frag raw name n) = 32"
    and "t < n \<Longrightarrow> put_lfn_name_frag raw name n ! (g_lfn_indices ! t) = name ! t"
    and "n < 13 \<Longrightarrow> put_lfn_name_frag raw name n ! (g_lfn_indices ! n) = 0"
proof -
  let ?l = "fold (\<lambda>i raw. raw[g_lfn_indices ! i := name ! i, Suc (g_lfn_indices ! i) := 0]) [0..<n] raw"
  let ?z = "?l[g_lfn_indices ! n := 0, Suc (g_lfn_indices ! n) := 0]"
  let ?w = "fold (\<lambda>i raw. raw[g_lfn_indices ! i := 0xff, Suc (g_lfn_indices ! i) := 0xff]) [Suc n..<13] ?z"
  have eq: "put_lfn_name_frag raw name n = (if n < 13 then ?w else ?l)"
    by (simp add: put_lfn_name_frag_def)
  have len: "length ?l = 32" "length ?z = 32" "length ?w = 32" using assms by (simp_all add: lfn_fold_length)
  then show "length (put_lfn_name_frag raw name n) = 32" unfolding eq by simp
  have w: "?w ! (g_lfn_indices ! t) = ?z ! (g_lfn_indices ! t)" if "t \<le> n" "t < 13" for t
    using that lfn_fold_nth [of 13 t ?z "\<lambda>_. 0xff" "0xff" "Suc n"] len(2) by simp
  have l: "?l ! (g_lfn_indices ! t) = name ! t" if "t < n" for t
    using that assms lfn_fold_nth [of n t raw "(!) name" 0 0] by simp
  show "put_lfn_name_frag raw name n ! (g_lfn_indices ! t) = name ! t" if "t < n"
  proof (cases "n < 13")
    case True
    then show ?thesis using that w [of t] l g_lfn_indices_apart [of t n] unfolding eq by simp
  qed (use that l eq in simp)
  show "put_lfn_name_frag raw name n ! (g_lfn_indices ! n) = 0" if "n < 13"
    using that w [of n] len(1) g_lfn_indices_apart [of n n] unfolding eq by simp
qed

lemma overwrite_step:
  "off < length b \<Longrightarrow> overwrite (b[off := c]) (Suc off) xs = overwrite b off (c # xs)"
  by (simp add: overwrite_def take_Suc_conv_app_nth upd_conv_take_nth_drop add.commute)

lemma overwrite_Nil [simp]: "overwrite b off [] = b"
  by (simp add: overwrite_def)

lemma sint_u8: "sint (c :: u8) \<noteq> 255"
  using sint_lt [of c] by auto

lemma lfn_chars_frag:
  assumes "n \<le> 13" and "i \<le> n" and "\<And>t. t < n \<Longrightarrow> lfn ! (g_lfn_indices ! t) = nm ! t \<and> nm ! t \<noteq> 0"
    and "n < 13 \<Longrightarrow> lfn ! (g_lfn_indices ! n) = 0" and "13 * cnt + n \<le> length (g_buf s)" and "n \<le> length nm"
  shows "lfn_chars lfn cnt i s =
    (FAT_ERR_NONE, s\<lparr>g_buf := overwrite (g_buf s) (13 * cnt + i) (drop i (take n nm)), g_len := g_len s + of_nat (n - i)\<rparr>)"
  using assms(2,5)
proof (induction "n - i" arbitrary: i s)
  case 0
  then show ?case using assms by (subst lfn_chars.simps) auto
next
  case (Suc m)
  then have i: "i < n" "Suc i \<le> n" by auto
  have d: "drop i (take n nm) = nm ! i # drop (Suc i) (take n nm)"
    using i assms(6) by (subst Cons_nth_drop_Suc [symmetric]) auto
  have n: "n - i = Suc (n - Suc i)" using i by simp
  have o: "overwrite ((g_buf s)[13 * cnt + i := nm ! i]) (Suc (13 * cnt + i)) (drop (Suc i) (take n nm))
      = overwrite (g_buf s) (13 * cnt + i) (drop i (take n nm))"
    unfolding d using i Suc.prems by (intro overwrite_step) simp
  have "lfn_chars lfn cnt i s =
      lfn_chars lfn cnt (Suc i) (s\<lparr>g_buf := (g_buf s)[13 * cnt + i := nm ! i], g_len := g_len s + 1\<rparr>)"
    using i assms(1) assms(3) [OF i(1)] by (subst lfn_chars.simps) (auto simp: sint_u8)
  also have "\<dots> = (FAT_ERR_NONE, s\<lparr>g_buf := overwrite (g_buf s) (13 * cnt + i) (drop i (take n nm)), g_len := g_len s + of_nat (n - i)\<rparr>)"
    using Suc.hyps(1) [of "Suc i" "s\<lparr>g_buf := (g_buf s)[13 * cnt + i := nm ! i], g_len := g_len s + 1\<rparr>"]
      Suc.hyps(2) Suc.prems i o by (simp add: n)
  finally show ?case .
qed

section \<open>Entries within one sector\<close>

abbreviation at_idx :: "Dir \<Rightarrow> nat \<Rightarrow> Dir" where
  "at_idx dir i \<equiv> dir\<lparr>d_idx := of_nat i\<rparr>"

definition set_buf :: "u64 \<Rightarrow> u8 list \<Rightarrow> u8 \<Rightarrow> 'd fs \<Rightarrow> 'd fs" where
  "set_buf p b fl s = upd_vol p (\<lambda>f. f\<lparr>f_buf := b, f_flags := fl\<rparr>) s"

lemma set_buf_simps [simp]:
  "f_buf (vol (set_buf p b fl s) p) = b" "f_flags (vol (set_buf p b fl s) p) = fl"
  "f_sect (vol (set_buf p b fl s) q) = f_sect (vol s q)"
  "q \<noteq> p \<Longrightarrow> vol (set_buf p b fl s) q = vol s q"
  "sect_to_clust (vol (set_buf p b fl s) p) = sect_to_clust (vol s p)"
  "g_buf (set_buf p b fl s) = g_buf s" "dev (set_buf p b fl s) = dev s"
  "set_buf p b fl (set_buf p b' fl' s) = set_buf p b fl s"
  by (auto simp: set_buf_def sect_to_clust_def upd_vol_def fun_eq_iff)

lemma set_buf_id: "set_buf p (f_buf (vol s p)) (f_flags (vol s p)) s = s"
  by (simp add: set_buf_def upd_vol_def)

lemma set_dirty: "upd_vol p (set_flag m) s = set_buf p (f_buf (vol s p)) (f_flags (vol s p) OR m) s"
  by (simp add: set_buf_def upd_vol_def set_flag_def)

lemma put_entry_set_buf:
  "i < 512 \<Longrightarrow> put_entry off bs (at_idx dir i) s =
     set_buf (d_fat dir) (overwrite (f_buf (vol s (d_fat dir))) (i + off) bs) (f_flags (vol s (d_fat dir))) s"
  by (simp add: put_entry_def set_buf_def upd_vol_def unat_of_nat_small)

lemma update_buf_hit: "f_sect (vol s p) = sect \<Longrightarrow> update_buf p sect s = (FAT_ERR_NONE, s)"
  by (simp add: update_buf_def)

lemma dir_next_at: "i + 32 < 512 \<Longrightarrow> dir_next (at_idx dir i) s = (FAT_ERR_NONE, at_idx dir (i + 32), s)"
  by (simp add: dir_next_def Let_def word_less_nat_alt unat_plus_small unat_of_nat_small)

lemma dir_ptr_at: "i < 512 \<Longrightarrow> dir_ptr (at_idx dir i) s = drop i (f_buf (vol s (d_fat dir)))"
  by (simp add: dir_ptr_def unat_of_nat_small)

lemma overwrite_nth:
  "off + length xs \<le> length b \<Longrightarrow> i < length b \<Longrightarrow>
     overwrite b off xs ! i = (if off \<le> i \<and> i < off + length xs then xs ! (i - off) else b ! i)"
  by (auto simp: overwrite_def nth_append)

lemma frag_at_move:
  assumes "frag_at b i j nm crc" and "\<And>t. t < 32 \<Longrightarrow> b' ! (i' + t) = b ! (i + t)"
  shows "frag_at b' i' j nm crc"
proof -
  have "b' ! (i' + g_lfn_indices ! t) = b ! (i + g_lfn_indices ! t)" if "t < 13" for t
    using assms(2) g_lfn_indices_apart(1) [OF that that] by simp
  then show ?thesis using assms by (simp add: frag_at_def)
qed

text \<open>One long-name entry as \<^const>\<open>add_lfns\<close> writes it.\<close>

definition lfn_entry :: "u8 \<Rightarrow> nat \<Rightarrow> u8 list \<Rightarrow> nat \<Rightarrow> u8 \<Rightarrow> u8 list \<Rightarrow> u8 list" where
  "lfn_entry msk k name len crc raw =
     put16 ((put_lfn_name_frag raw (drop (13 * k) name) (min (len - 13 * k) 13))
       [11 := FAT_ATTR_LFN, 0 := msk OR of_nat (Suc k), 13 := crc, 12 := 0]) 26 0"

lemma lfn_entry_frag:
  assumes "length raw = 32" and "len \<le> length name" and "13 * k < len"
  shows "length (lfn_entry msk k name len crc raw) = 32"
    and "lfn_entry msk k name len crc raw ! 0 = msk OR of_nat (Suc k)"
    and "frag_at (lfn_entry msk k name len crc raw) 0 k (take len name) crc"
proof -
  let ?n = "min (len - 13 * k) 13"
  note f = put_lfn_name_frag_nth [OF assms(1), where n = ?n and name = "drop (13 * k) name"]
  have keep: "lfn_entry msk k name len crc raw ! (g_lfn_indices ! t) =
      put_lfn_name_frag raw (drop (13 * k) name) ?n ! (g_lfn_indices ! t)" if "t < 13" for t
    using g_lfn_indices_apart(4) [OF that that] by (simp add: lfn_entry_def put16_def)
  show l: "length (lfn_entry msk k name len crc raw) = 32" using f(1) by (simp add: lfn_entry_def)
  show "lfn_entry msk k name len crc raw ! 0 = msk OR of_nat (Suc k)"
    using f(1) by (simp add: lfn_entry_def put16_def)
  show "frag_at (lfn_entry msk k name len crc raw) 0 k (take len name) crc"
    unfolding frag_at_def
  proof (intro conjI allI impI)
    show "lfn_entry msk k name len crc raw ! (0 + 11) = FAT_ATTR_LFN"
      "lfn_entry msk k name len crc raw ! (0 + 13) = crc"
      using f(1) by (simp_all add: lfn_entry_def put16_def)
    fix t assume "t < min (length (take len name) - 13 * k) 13"
    then have t: "t < ?n" "t < 13" "13 * k + t < len" using assms by auto
    show "lfn_entry msk k name len crc raw ! (0 + g_lfn_indices ! t) = take len name ! (13 * k + t)"
      using keep [OF t(2)] f(2) [of t] t assms by simp
  next
    assume "length (take len name) - 13 * k < 13"
    then have n: "?n = len - 13 * k" "len - 13 * k < 13" using assms by auto
    show "lfn_entry msk k name len crc raw ! (0 + g_lfn_indices ! (length (take len name) - 13 * k)) = 0"
      using keep [OF n(2)] f(3) n assms by simp
  qed
qed

lemma add_lfns_step:
  assumes "f_sect (vol s (d_fat dir)) = d_sect dir" and "length (f_buf (vol s (d_fat dir))) = 512" and "i + 32 < 512"
  shows "add_lfns (Suc k) msk name len crc (at_idx dir i) s =
    add_lfns k 0 name len crc (at_idx dir (i + 32))
      (set_buf (d_fat dir)
        (overwrite (f_buf (vol s (d_fat dir))) i
          (lfn_entry msk k name len crc (take 32 (drop i (f_buf (vol s (d_fat dir)))))))
        (f_flags (vol s (d_fat dir)) OR FAT_BUF_DIRTY) s)"
  using assms
  by (simp add: dir_next_at update_buf_hit set_dirty dir_ptr_at put_entry_set_buf lfn_entry_def Let_def)

text \<open>What \<^const>\<open>add_lfns\<close> leaves in the sector: one fragment per entry, the last fragment first.\<close>

lemma add_lfns_writes:
  assumes "f_sect (vol s (d_fat dir)) = d_sect dir" and "length (f_buf (vol s (d_fat dir))) = 512"
    and "i + 32 * k < 512" and "len \<le> length name" and "k = 0 \<or> 13 * (k - 1) < len"
  shows "\<exists>b. add_lfns k msk name len crc (at_idx dir i) s =
        (FAT_ERR_NONE, at_idx dir (i + 32 * k),
         set_buf (d_fat dir) b (if k = 0 then f_flags (vol s (d_fat dir)) else f_flags (vol s (d_fat dir)) OR FAT_BUF_DIRTY) s)
      \<and> length b = 512 \<and> (k > 0 \<longrightarrow> b ! i = msk OR of_nat k)
      \<and> (\<forall>t < 512. t < i \<or> i + 32 * k \<le> t \<longrightarrow> b ! t = f_buf (vol s (d_fat dir)) ! t)
      \<and> (\<forall>j < k. frag_at b (i + 32 * (k - 1 - j)) j (take len name) crc)"
  using assms
proof (induction k arbitrary: i s msk)
  case 0
  then show ?case by (auto intro!: exI [of _ "f_buf (vol s (d_fat dir))"] simp: set_buf_id)
next
  case (Suc k)
  let ?b0 = "f_buf (vol s (d_fat dir))" and ?p = "d_fat dir"
  let ?e = "lfn_entry msk k name len crc (take 32 (drop i ?b0))"
  let ?s = "set_buf ?p (overwrite ?b0 i ?e) (f_flags (vol s ?p) OR FAT_BUF_DIRTY) s"
  have raw: "length (take 32 (drop i ?b0)) = 32" using Suc.prems by simp
  have kl: "13 * k < len" using Suc.prems by simp
  note e = lfn_entry_frag [OF raw Suc.prems(4) kl, where msk = msk and crc = crc]
  have ob: "length (overwrite ?b0 i ?e) = 512" using e(1) Suc.prems by simp
  have "k = 0 \<or> 13 * (k - 1) < len" using kl by (cases k) auto
  then obtain b where b: "add_lfns k 0 name len crc (at_idx dir (i + 32)) ?s =
        (FAT_ERR_NONE, at_idx dir (i + 32 + 32 * k),
         set_buf ?p b (if k = 0 then f_flags (vol ?s ?p) else f_flags (vol ?s ?p) OR FAT_BUF_DIRTY) ?s)"
      "length b = 512" "\<And>t. t < 512 \<Longrightarrow> t < i + 32 \<or> i + 32 + 32 * k \<le> t \<Longrightarrow> b ! t = overwrite ?b0 i ?e ! t"
      "\<And>j. j < k \<Longrightarrow> frag_at b (i + 32 + 32 * (k - 1 - j)) j (take len name) crc"
    using Suc.IH [of ?s "i + 32" 0] Suc.prems ob by auto
  have in_e: "b ! (i + t) = ?e ! t" if "t < 32" for t
    using b(3) [of "i + t"] Suc.prems that e(1) by (simp add: overwrite_nth)
  have frag: "frag_at b i k (take len name) crc"
    by (rule frag_at_move [OF e(3)]) (simp add: in_e)
  show ?case
  proof (rule exI [of _ b], intro conjI allI impI)
    show "add_lfns (Suc k) msk name len crc (at_idx dir i) s =
      (FAT_ERR_NONE, at_idx dir (i + 32 * Suc k),
       set_buf ?p b (if Suc k = 0 then f_flags (vol s ?p) else f_flags (vol s ?p) OR FAT_BUF_DIRTY) s)"
      using Suc.prems b(1) by (subst add_lfns_step) (simp_all add: or.assoc add.assoc)
    show "length b = 512" by (rule b(2))
    show "b ! i = msk OR of_nat (Suc k)" using in_e [of 0] e(2) by simp
    show "b ! t = ?b0 ! t" if "t < 512" "t < i \<or> i + 32 * Suc k \<le> t" for t
      using that b(3) [of t] Suc.prems e(1) by (auto simp: overwrite_nth)
    show "frag_at b (i + 32 * (Suc k - 1 - j)) j (take len name) crc" if "j < Suc k" for j
    proof (cases "j = k")
      case False
      then have "i + 32 * (k - j) = i + 32 + 32 * (k - 1 - j)" using that by simp
      then show ?thesis using b(4) [of j] that False by (simp add: add.assoc)
    qed (use frag in simp)
  qed
qed

lemma overwrite_join:
  assumes "k \<le> length nm" and "length nm \<le> length b"
  shows "overwrite (overwrite b k (take n (drop k nm))) 0 (take k nm) = overwrite b 0 (take (k + n) nm)"
  using assms by (auto simp: overwrite_def take_add min_def)

text \<open>What \<^const>\<open>lfn_loop\<close> reads back.\<close>

lemma lfn_loop_reads:
  assumes "f_sect (vol s (d_fat dir)) = d_sect dir" and "i + 32 * k < 512" and "k = 0 \<or> 13 * (k - 1) < length nm"
    and "\<And>j. j < k \<Longrightarrow> frag_at (f_buf (vol s (d_fat dir))) (i + 32 * (k - 1 - j)) j nm (g_crc s)"
    and "0 \<notin> set nm" and "length nm \<le> length (g_buf s)" and "length (f_buf (vol s (d_fat dir))) = 512"
    and "g_len s + of_nat (min (13 * k) (length nm)) \<le> 255"
  shows "lfn_loop k (at_idx dir i) s = (FAT_ERR_NONE, at_idx dir (i + 32 * k),
      s\<lparr>g_buf := overwrite (g_buf s) 0 (take (13 * k) nm), g_len := g_len s + of_nat (min (13 * k) (length nm))\<rparr>)"
  using assms(1-4,6-8)
proof (induction k arbitrary: i s)
  case (Suc k)
  let ?p = "d_fat dir"
  let ?n = "min (length nm - 13 * k) 13"
  let ?s = "s\<lparr>g_buf := overwrite (g_buf s) (13 * k) (take ?n (drop (13 * k) nm)), g_len := g_len s + of_nat ?n\<rparr>"
  let ?lfn = "drop i (f_buf (vol s ?p))"
  have kl: "13 * k < length nm" "k = 0 \<or> 13 * (k - 1) < length nm" using Suc.prems(3) by (cases k; simp)+
  have fr: "frag_at (f_buf (vol s ?p)) i k nm (g_crc s)" using Suc.prems(4) [of k] by simp
  have at: "?lfn ! t = f_buf (vol s ?p) ! (i + t)" for t using Suc.prems(2,6) by simp
  have chars: "lfn_chars ?lfn k 0 s = (FAT_ERR_NONE, ?s)"
    using lfn_chars_frag [of ?n 0 ?lfn "drop (13 * k) nm" k s] fr at Suc.prems(2,5,6) kl assms(5)
    by (auto simp: frag_at_def min_def in_set_conv_nth)
  have step: "lfn_loop (Suc k) (at_idx dir i) s = lfn_loop k (at_idx dir (i + 32)) ?s"
    using fr at Suc.prems(1,2) chars by (simp add: dir_ptr_at dir_next_at update_buf_hit frag_at_def Let_def)
  have "?n + min (13 * k) (length nm) = min (13 * Suc k) (length nm)" using kl by simp
  then have num: "of_nat ?n + of_nat (min (13 * k) (length nm)) = (of_nat (min (13 * Suc k) (length nm)) :: u16)"
    by (metis of_nat_add)
  have "frag_at (f_buf (vol s ?p)) (i + 32 + 32 * (k - 1 - j)) j nm (g_crc s)" if "j < k" for j
  proof -
    have eq: "i + 32 + 32 * (k - 1 - j) = i + 32 * (Suc k - 1 - j)" using that by simp
    show ?thesis unfolding eq by (rule Suc.prems(4)) (use that in simp)
  qed
  then have "lfn_loop k (at_idx dir (i + 32)) ?s = (FAT_ERR_NONE, at_idx dir (i + 32 + 32 * k),
      ?s\<lparr>g_buf := overwrite (g_buf ?s) 0 (take (13 * k) nm), g_len := g_len ?s + of_nat (min (13 * k) (length nm))\<rparr>)"
    using Suc.prems kl num by (intro Suc.IH) (simp_all add: add.assoc)
  moreover have "overwrite (g_buf ?s) 0 (take (13 * k) nm) = overwrite (g_buf s) 0 (take (13 * Suc k) nm)"
  proof -
    have "take ?n (drop (13 * k) nm) = take 13 (drop (13 * k) nm)" by (cases "length nm - 13 * k \<le> 13") simp_all
    then show ?thesis using overwrite_join [of "13 * k" nm "g_buf s" 13] kl Suc.prems(5) by (simp add: add.commute)
  qed
  ultimately show ?case using step num by (simp add: add.assoc)
qed simp

section \<open>Short names\<close>

lemma sfn_special_eq: "sfn_special = [33, 35, 36, 37, 38, 39, 40, 41, 45, 64, 94, 95, 96, 123, 125, 126, 32]"
  by (simp add: sfn_special_def of_char_def)

definition sfn_allowed :: "u8 set" where
  "sfn_allowed = {c. 65 \<le> sint c \<and> sint c \<le> 90} \<union> set sfn_special"

lemma sfn_char_allowed: "sfn_char c \<in> sfn_allowed"
  by (simp add: sfn_char_def sfn_allowed_def Let_def) (simp add: sfn_special_eq)

lemma sfn_allowed_not_free: "c \<in> sfn_allowed \<Longrightarrow> c \<noteq> SFN_FREE \<and> c \<noteq> SFN_LAST"
  by (auto simp: sfn_allowed_def sfn_special_eq)

lemma put_sfn_name_length [simp]: "length (put_sfn_name name len) = 11"
proof -
  have "length (takeWhile (\<lambda>c. c \<noteq> 46) (take (min len 8) name)) \<le> 8"
    using length_takeWhile_le [of _ "take (min len 8) name"] by (metis le_trans length_take min.cobounded2 min.cobounded1)
  then show ?thesis by (simp add: put_sfn_name_def Let_def)
qed

lemma put_sfn_name_allowed: "set (put_sfn_name name len) \<subseteq> sfn_allowed"
proof -
  have "SFN_PAD \<in> sfn_allowed" by (simp add: sfn_allowed_def sfn_special_eq)
  then show ?thesis by (auto simp: put_sfn_name_def Let_def sfn_char_allowed)
qed

lemma get_crc_cong: "(\<And>i. i < 11 \<Longrightarrow> a ! i = b ! i) \<Longrightarrow> get_crc a = get_crc b"
  unfolding get_crc_def by (rule fold_cong) auto

lemma clust_halves: "push_bit 16 (ucast (ucast (drop_bit 16 c) :: u16)) OR ucast (ucast (c AND 0xffff) :: u16) = (c :: u32)"
proof (rule bit_word_eqI)
  have m: "(0xffff :: u32) = mask 16" by (simp add: masks)
  fix n
  assume "n < LENGTH(32)"
  then show "bit (push_bit 16 (ucast (ucast (drop_bit 16 c) :: u16) :: u32) OR ucast (ucast (c AND 0xffff) :: u16)) n = bit c n"
    unfolding m by (cases "n < 16") (auto simp: bit_simps)
qed

lemma new_sfn_fields:
  assumes "length raw = 32" and "length nm = 11"
  shows "length (new_sfn nm attr clust date time raw) = 32"
    and "i < 11 \<Longrightarrow> new_sfn nm attr clust date time raw ! i = nm ! i"
    and "new_sfn nm attr clust date time raw ! 11 = attr"
    and "sfn_cluster (new_sfn nm attr clust date time raw) = clust"
proof -
  define r where "r = overwrite raw 0 nm"
  have r: "length r = 32" "\<And>i. i < 11 \<Longrightarrow> r ! i = nm ! i"
    using assms by (simp_all add: r_def overwrite_nth)
  note d = new_sfn_def r_def [symmetric] Let_def
  show "length (new_sfn nm attr clust date time raw) = 32" using r by (simp add: d)
  show "i < 11 \<Longrightarrow> new_sfn nm attr clust date time raw ! i = nm ! i" using r by (simp add: d put16_def put32_def)
  show "new_sfn nm attr clust date time raw ! 11 = attr" using r by (simp add: d put16_def put32_def)
  have "le16 (new_sfn nm attr clust date time raw) 20 = ucast (drop_bit 16 clust)"
    "le16 (new_sfn nm attr clust date time raw) 26 = ucast (clust AND 0xffff)"
    using r by (simp_all only: d le16_def put16_def put32_def) (simp_all add: bytes_join16)
  then show "sfn_cluster (new_sfn nm attr clust date time raw) = clust"
    by (simp only: sfn_cluster_def clust_halves)
qed

section \<open>Adding an entry\<close>

lemma dir_next_stretch_at:
  "i + 32 < 512 \<Longrightarrow> dir_next_stretch (at_idx dir i) s = Some (FAT_ERR_NONE, at_idx dir (i + 32), s)"
  by (simp add: dir_next_stretch_def dir_next_at)

lemma find_free_skip:
  assumes "f_sect (vol s (d_fat dir)) = d_sect dir" and "\<And>e. e < d \<Longrightarrow> \<not> sfn_is_free (drop (i + 32 * e) (f_buf (vol s (d_fat dir))))"
    and "i + 32 * d < 512" and "0 < need"
  shows "find_free need 0 False sect idx (at_idx dir i) s = find_free need 0 False sect idx (at_idx dir (i + 32 * d)) s"
  using assms(2,3)
proof (induction d arbitrary: i)
  case (Suc d)
  have "\<not> sfn_is_free (drop i (f_buf (vol s (d_fat dir))))" using Suc.prems(1) [of 0] by simp
  then have "find_free need 0 False sect idx (at_idx dir i) s = find_free need 0 False sect idx (at_idx dir (i + 32)) s"
    using assms(1,4) Suc.prems(2)
    by (subst find_free.simps) (simp add: update_buf_hit dir_ptr_at dir_next_stretch_at sfn_is_free_def sfn_is_last_def)
  also have "\<dots> = find_free need 0 False sect idx (at_idx dir (i + 32 + 32 * d)) s"
  proof (rule Suc.IH)
    show "\<not> sfn_is_free (drop (i + 32 + 32 * e) (f_buf (vol s (d_fat dir))))" if "e < d" for e
      using Suc.prems(1) [of "Suc e"] that by (simp add: add.assoc)
  qed (use Suc.prems in simp)
  finally show ?case by (simp add: add.assoc)
qed simp

lemma find_free_count:
  assumes "f_sect (vol s (d_fat dir)) = d_sect dir" and "i + 32 * d < 512" and "0 < cnt"
  shows "find_free (cnt + d) cnt True sect idx (at_idx dir i) s =
    Some (FAT_ERR_NONE, True, sect, idx, at_idx dir (i + 32 * d), s)"
  using assms(2,3)
proof (induction d arbitrary: i cnt)
  case (Suc d)
  have "find_free (cnt + Suc d) cnt True sect idx (at_idx dir i) s = find_free (Suc cnt + d) (Suc cnt) True sect idx (at_idx dir (i + 32)) s"
    using assms(1) Suc.prems
    by (subst find_free.simps) (simp add: update_buf_hit dir_ptr_at dir_next_stretch_at)
  then show ?case using Suc.IH [of "i + 32" "Suc cnt"] Suc.prems by (simp add: add.assoc)
qed (simp add: find_free.simps)

lemma find_free_first:
  assumes "f_sect (vol s (d_fat dir)) = d_sect dir" and "sfn_is_last (drop i (f_buf (vol s (d_fat dir))))" and "i + 32 < 512"
  shows "find_free (Suc n) 0 False sect idx (at_idx dir i) s =
    find_free (Suc n) 1 True (d_sect dir) (of_nat i) (at_idx dir (i + 32)) s"
  using assms
  by (subst find_free.simps) (simp add: update_buf_hit dir_ptr_at dir_next_stretch_at sfn_is_free_def sfn_is_last_def)

lemma find_free_at_end:
  assumes "f_sect (vol s (d_fat dir)) = d_sect dir" and "\<And>e. e < j \<Longrightarrow> \<not> sfn_is_free (drop (32 * e) (f_buf (vol s (d_fat dir))))"
    and "sfn_is_last (drop (32 * j) (f_buf (vol s (d_fat dir))))" and "j + n + 1 < 16"
  shows "find_free (n + 1) 0 False sect idx (at_idx dir 0) s =
    Some (FAT_ERR_NONE, True, d_sect dir, of_nat (32 * j), at_idx dir (32 * (j + n + 1)), s)"
proof -
  have "find_free (n + 1) 0 False sect idx (at_idx dir 0) s = find_free (n + 1) 0 False sect idx (at_idx dir (32 * j)) s"
    using find_free_skip [of s dir j 0 "n + 1"] assms by simp
  also have "\<dots> = find_free (1 + n) 1 True (d_sect dir) (of_nat (32 * j)) (at_idx dir (32 * j + 32)) s"
    using find_free_first [OF assms(1,3)] assms(4) by simp
  also have "\<dots> = Some (FAT_ERR_NONE, True, d_sect dir, of_nat (32 * j), at_idx dir (32 * j + 32 + 32 * n), s)"
    using assms(1,4) by (intro find_free_count) auto
  finally show ?thesis by (simp add: algebra_simps)
qed

lemma parse_lfn_reads:
  assumes "f_sect (vol s (d_fat dir)) = d_sect dir" and "i + 32 * k < 512" and "0 < k" and "k \<le> 20"
    and "13 * (k - 1) < length nm" and "length nm \<le> 13 * k" and "length nm \<le> 255"
    and "\<And>j. j < k \<Longrightarrow> frag_at (f_buf (vol s (d_fat dir))) (i + 32 * (k - 1 - j)) j nm crc"
    and "f_buf (vol s (d_fat dir)) ! i = LFN_HEAD_MSK OR of_nat k"
    and "0 \<notin> set nm" and "length nm \<le> length (g_buf s)" and "length (f_buf (vol s (d_fat dir))) = 512"
  shows "parse_lfn_name (at_idx dir i) s = (FAT_ERR_NONE, at_idx dir (i + 32 * k),
      s\<lparr>g_crc := crc, g_buf := overwrite (g_buf s) 0 nm, g_len := of_nat (length nm)\<rparr>)"
proof -
  have "list_all (\<lambda>k. ((0x40 OR of_nat k) AND 0x40 :: u8) \<noteq> 0 \<and> unat ((0x40 OR of_nat k) AND 0x1f :: u8) = k) [0..<21]"
    by code_simp
  then have hd: "((0x40 OR of_nat k) AND 0x40 :: u8) \<noteq> 0" "unat ((0x40 OR of_nat k) AND 0x1f :: u8) = k"
    using assms(4) by (simp_all add: list_all_iff)
  have crc: "f_buf (vol s (d_fat dir)) ! (i + 13) = crc"
    using assms(8) [of "k - 1"] assms(3) by (simp add: frag_at_def)
  have len: "(of_nat (length nm) :: u16) \<le> 255"
    using assms(7) by (simp add: word_le_nat_alt unat_of_nat_small)
  have "lfn_loop k (at_idx dir i) (s\<lparr>g_crc := crc, g_len := 0\<rparr>) = (FAT_ERR_NONE, at_idx dir (i + 32 * k),
      s\<lparr>g_crc := crc, g_len := 0, g_buf := overwrite (g_buf s) 0 nm, g_len := of_nat (length nm)\<rparr>)"
    using lfn_loop_reads [of "s\<lparr>g_crc := crc, g_len := 0\<rparr>" dir i k nm] assms len by (simp add: min_def)
  then show ?thesis
    using assms hd crc by (simp add: parse_lfn_name_def update_buf_hit dir_ptr_at Let_def)
qed

text \<open>The state in which \<^const>\<open>dir_add\<close> starts: the first sector of the directory is cached, it holds
  \<^term>\<open>j\<close> used entries and then the end marker.\<close>

definition dir_open_at :: "Dir \<Rightarrow> nat \<Rightarrow> 'd fs \<Rightarrow> bool" where
  "dir_open_at dir j s \<longleftrightarrow>
     (let b = f_buf (vol s (d_fat dir))
      in length b = 512 \<and> f_sect (vol s (d_fat dir)) = d_sect (dir_enter (d_sclust dir) dir s)
         \<and> (\<forall>e < j. \<not> sfn_is_free (drop (32 * e) b)) \<and> sfn_is_last (drop (32 * j) b))"

definition entry_dir :: "Dir \<Rightarrow> 'd fs \<Rightarrow> Dir" where
  "entry_dir dir s =
     (let d = dir_enter (d_sclust dir) dir s in d\<lparr>d_clust := sect_to_clust (vol s (d_fat dir)) (d_sect d)\<rparr>)"

lemma dir_enter_simps [simp]:
  "d_fat (dir_enter c dir s) = d_fat dir" "(dir_enter c dir s)\<lparr>d_idx := 0\<rparr> = dir_enter c dir s"
  "d_fat (entry_dir dir s) = d_fat dir" "d_sect (entry_dir dir s) = d_sect (dir_enter (d_sclust dir) dir s)"
  by (simp_all add: dir_enter_def dir_at_clust_def entry_dir_def Let_def)

lemma dir_add_writes:
  assumes "dir_open_at dir j s" and "0 < len" and "len \<le> length name" and "n = (len + 12) div 13" and "j + n + 1 < 16"
  shows "\<exists>b2 b. dir_add dir name len attr clust s =
        Some (FAT_ERR_NONE, at_idx (entry_dir dir s) (32 * (j + n)), set_buf (d_fat dir) b (f_flags (vol s (d_fat dir)) OR FAT_BUF_DIRTY) s)
      \<and> length b2 = 512 \<and> b2 ! (32 * j) = LFN_HEAD_MSK OR of_nat n
      \<and> (\<forall>t < 512. t < 32 * j \<or> 32 * (j + n) \<le> t \<and> t < 32 * (j + n + 1) \<longrightarrow> b2 ! t = f_buf (vol s (d_fat dir)) ! t)
      \<and> b2 ! (32 * (j + n + 1)) = 0
      \<and> (\<forall>i < n. frag_at b2 (32 * j + 32 * (n - 1 - i)) i (take len name) (get_crc (put_sfn_name name len)))
      \<and> (\<exists>date time. b = overwrite b2 (32 * (j + n))
            (new_sfn (put_sfn_name name len) attr clust date time (take 32 (drop (32 * (j + n)) b2))))"
proof -
  let ?p = "d_fat dir" and ?D = "dir_enter (d_sclust dir) dir s" and ?E = "entry_dir dir s"
  let ?b = "f_buf (vol s ?p)" and ?fl = "f_flags (vol s ?p) OR FAT_BUF_DIRTY" and ?crc = "get_crc (put_sfn_name name len)"
  define i where "i = 32 * j"
  define e where "e = 32 * (j + n)"
  define m where "m = 32 * (j + n + 1)"
  let ?s1 = "set_buf ?p (overwrite ?b m [0]) ?fl s"
  have op: "length ?b = 512" "f_sect (vol s ?p) = d_sect ?D" "\<And>e. e < j \<Longrightarrow> \<not> sfn_is_free (drop (32 * e) ?b)"
    "sfn_is_last (drop (32 * j) ?b)" using assms(1) by (auto simp: dir_open_at_def Let_def)
  have n: "0 < n" "13 * (n - 1) < len" "len \<le> 255" "(len + 12) div 13 = n" using assms(2,4,5) by auto
  have lt: "i < 512" "e < 512" "m < 512" "i + 32 * n = e" "e + 32 = m" using assms(5) by (auto simp: i_def e_def m_def)
  have ff: "find_free (n + 1) 0 False 0 0 ?D s = Some (FAT_ERR_NONE, True, d_sect ?D, of_nat i, at_idx ?D m, s)"
    using find_free_at_end [of s ?D j n 0 0] op assms(5) by (simp add: i_def m_def)
  have rew: "?D\<lparr>d_clust := sect_to_clust (vol s ?p) (d_sect ?D), d_idx := of_nat i\<rparr> = at_idx ?E i"
    by (simp add: entry_dir_def Let_def)
  have one: "length (overwrite ?b m [0]) = 512" using op(1) lt by simp
  then obtain b2 where b2: "add_lfns n LFN_HEAD_MSK name len ?crc (at_idx ?E i) ?s1 =
        (FAT_ERR_NONE, at_idx ?E e, set_buf ?p b2 ?fl s)"
      "length b2 = 512" "b2 ! i = LFN_HEAD_MSK OR of_nat n"
      "\<And>t. t < 512 \<Longrightarrow> t < i \<or> e \<le> t \<Longrightarrow> b2 ! t = overwrite ?b m [0] ! t"
      "\<And>k. k < n \<Longrightarrow> frag_at b2 (i + 32 * (n - 1 - k)) k (take len name) ?crc"
    using add_lfns_writes [of ?s1 ?E i n len name LFN_HEAD_MSK ?crc] op n assms(3) lt by (auto simp: or.assoc)
  have ow: "overwrite ?b m [0] ! t = (if t = m then 0 else ?b ! t)" if "t < 512" for t
    using that op(1) lt by (auto simp: overwrite_nth)
  obtain date time where ts: "encode_timestamp fat_get_timestamp = (date, time)" by (metis prod.exhaust)
  have run: "dir_add dir name len attr clust s = Some (FAT_ERR_NONE, at_idx ?E e,
      set_buf ?p (overwrite b2 e (new_sfn (put_sfn_name name len) attr clust date time (take 32 (drop e b2)))) ?fl s)"
    unfolding dir_add_def n(4)
    using assms(2) n(3) ff op(1,2) lt(1-3) b2(1) rew ts
    by (simp add: update_buf_hit put_entry_set_buf dir_ptr_at set_dirty Let_def or.assoc)
  show ?thesis unfolding i_def [symmetric] e_def [symmetric] m_def [symmetric]
  proof (rule exI [of _ b2], rule exI, intro conjI allI impI exI)
    show "b2 ! m = 0" using b2(4) [of m] ow [of m] lt by simp
    show "b2 ! t = ?b ! t" if "t < 512" "t < i \<or> e \<le> t \<and> t < m" for t
      using that b2(4) [of t] ow [of t] lt by auto
    show "frag_at b2 (i + 32 * (n - 1 - k)) k (take len name) ?crc" if "k < n" for k
      by (rule b2(5) [OF that])
  qed (rule run b2(2,3) refl)+
qed

text \<open>The entries from \<^term>\<open>first\<close> to \<^term>\<open>lst\<close> parse as the long name \<^term>\<open>nm\<close> followed by a short entry that
  passes the checks of \<^const>\<open>dir_search\<close>.\<close>

definition entry_reads_as :: "Dir \<Rightarrow> Dir \<Rightarrow> u8 list \<Rightarrow> u8 \<Rightarrow> u32 \<Rightarrow> 'd fs \<Rightarrow> bool" where
  "entry_reads_as first lst nm attr clust s \<longleftrightarrow>
     (let (err, d, t) = parse_lfn_name first s; sfn = dir_ptr d t
      in err = FAT_ERR_NONE \<and> d = lst \<and> take (unat (g_len t)) (g_buf t) = nm \<and> \<not> sfn_is_free sfn
         \<and> sfn ! 11 = attr \<and> get_crc sfn = g_crc t \<and> sfn_cluster sfn = clust)"

text \<open>C20: Directory entries round trip.  When the directory's sector holds \<^term>\<open>j\<close> used entries
  followed by the end marker and there is room, \<^const>\<open>dir_add\<close> succeeds without touching the device or the
  earlier entries, writes a new end marker behind the new entries, and \<^const>\<open>parse_lfn_name\<close> from
  the first new entry gives back the name, the attributes, the first cluster and a matching checksum.\<close>

theorem dir_add_reads_back:
  assumes "dir_open_at dir j s" and "0 < len" and "len \<le> length name" and "0 \<notin> set (take len name)"
    and "j + (len + 12) div 13 + 1 < 16" and "256 \<le> length (g_buf s)"
  defines "n \<equiv> (len + 12) div 13"
  shows "\<exists>s'. dir_add dir name len attr clust s = Some (FAT_ERR_NONE, at_idx (entry_dir dir s) (32 * (j + n)), s')
      \<and> dev s' = dev s \<and> f_flags (vol s' (d_fat dir)) = f_flags (vol s (d_fat dir)) OR FAT_BUF_DIRTY
      \<and> take (32 * j) (f_buf (vol s' (d_fat dir))) = take (32 * j) (f_buf (vol s (d_fat dir)))
      \<and> sfn_is_last (drop (32 * (j + n + 1)) (f_buf (vol s' (d_fat dir))))
      \<and> entry_reads_as (at_idx (entry_dir dir s) (32 * j)) (at_idx (entry_dir dir s) (32 * (j + n)))
          (take len name) attr clust s'"
proof -
  let ?p = "d_fat dir" and ?E = "entry_dir dir s" and ?nm = "put_sfn_name name len"
  obtain b2 b date time where
    w: "dir_add dir name len attr clust s =
        Some (FAT_ERR_NONE, at_idx ?E (32 * (j + n)), set_buf ?p b (f_flags (vol s ?p) OR FAT_BUF_DIRTY) s)"
      "length b2 = 512" "b2 ! (32 * j) = LFN_HEAD_MSK OR of_nat n"
      "\<And>t. t < 512 \<Longrightarrow> t < 32 * j \<or> 32 * (j + n) \<le> t \<and> t < 32 * (j + n + 1) \<Longrightarrow> b2 ! t = f_buf (vol s ?p) ! t"
      "b2 ! (32 * (j + n + 1)) = 0"
      "\<And>i. i < n \<Longrightarrow> frag_at b2 (32 * j + 32 * (n - 1 - i)) i (take len name) (get_crc ?nm)"
      "b = overwrite b2 (32 * (j + n)) (new_sfn ?nm attr clust date time (take 32 (drop (32 * (j + n)) b2)))"
    using dir_add_writes [of dir j s len name n attr clust] assms(1-3,5) unfolding n_def by blast
  define e where "e = 32 * (j + n)"
  let ?sfn = "new_sfn ?nm attr clust date time (take 32 (drop e b2))"
  let ?s' = "set_buf ?p b (f_flags (vol s ?p) OR FAT_BUF_DIRTY) s"
  have n: "0 < n" "n \<le> 20" "13 * (n - 1) < len" "len \<le> 13 * n" "len \<le> 255" "j + n + 1 < 16" "e + 32 < 512"
    using assms(2,5) unfolding n_def e_def by auto
  have op: "length (f_buf (vol s ?p)) = 512" "f_sect (vol s ?p) = d_sect ?E"
    using assms(1) by (auto simp: dir_open_at_def Let_def)
  have raw: "length (take 32 (drop e b2)) = 32" using w(2) n(7) by simp
  have nl: "length ?nm = 11" by simp
  note sfn = new_sfn_fields [OF raw nl, where attr = attr and clust = clust and date = date and time = time]
  have b: "b = overwrite b2 e ?sfn" "length b = 512" using w(2,7) sfn(1) n(7) by (simp_all add: e_def)
  have nth: "b ! t = (if e \<le> t \<and> t < e + 32 then ?sfn ! (t - e) else b2 ! t)" if "t < 512" for t
    unfolding b(1) using that w(2) sfn(1) n(7) by (simp add: overwrite_nth)
  have slice: "drop e b ! t = ?sfn ! t" if "t < 32" for t using nth [of "e + t"] that n(7) b(2) by simp
  have frag: "frag_at b (32 * j + 32 * (n - 1 - i)) i (take len name) (get_crc ?nm)" if "i < n" for i
    by (rule frag_at_move [OF w(6) [OF that]]) (use that n nth in \<open>auto simp: e_def\<close>)
  have hd: "b ! (32 * j) = LFN_HEAD_MSK OR of_nat n" using nth [of "32 * j"] n w(3) by (simp add: e_def)
  have parse: "parse_lfn_name (at_idx ?E (32 * j)) ?s' = (FAT_ERR_NONE, at_idx ?E (32 * j + 32 * n),
      ?s'\<lparr>g_crc := get_crc ?nm, g_buf := overwrite (g_buf s) 0 (take len name), g_len := of_nat (length (take len name))\<rparr>)"
    using parse_lfn_reads [of ?s' ?E "32 * j" n "take len name" "get_crc ?nm"] assms(3,4,6) n op frag hd b(2)
    by (simp add: min_def)
  have crc: "get_crc (drop e b) = get_crc ?nm" by (rule get_crc_cong) (simp add: slice sfn(2))
  have cl: "sfn_cluster (drop e b) = clust" using sfn(4) by (simp add: sfn_cluster_def le16_def slice)
  have "?sfn ! 0 \<in> set ?nm" using sfn(2) [of 0] by (metis nth_mem put_sfn_name_length zero_less_numeral)
  then have fr: "\<not> sfn_is_free (drop e b)"
    using sfn_allowed_not_free put_sfn_name_allowed slice [of 0] unfolding sfn_is_free_def by (metis subsetD zero_less_numeral)
  have "entry_reads_as (at_idx ?E (32 * j)) (at_idx ?E (32 * (j + n))) (take len name) attr clust ?s'"
  proof -
    have ix: "32 * j + 32 * n = e" "32 * (j + n) = e" "e < 512" using n(7) by (simp_all add: e_def)
    show ?thesis unfolding entry_reads_as_def parse ix
      using ix(3) crc cl fr slice [of 11] sfn(3) assms(3) n(5)
      by (simp add: dir_ptr_at Let_def unat_of_nat_small overwrite_def)
  qed
  moreover have "take (32 * j) b = take (32 * j) (f_buf (vol s ?p))"
    by (rule nth_equalityI) (use n nth w(4) b(2) op(1) in \<open>auto simp: e_def\<close>)
  moreover have "sfn_is_last (drop (32 * (j + n + 1)) b)"
    using nth [of "32 * (j + n + 1)"] w(5) n b(2) by (simp add: sfn_is_last_def e_def)
  ultimately show ?thesis using w(1) by (intro exI [of _ ?s']) simp
qed

definition fs_empty_dir :: "unit fs" where
  "fs_empty_dir = fs_with ((fat_blank no_disk (bytes ''disk0''))\<lparr>f_sect := 600\<rparr>) ()"

definition dir_root :: Dir where
  "dir_root = \<lparr>d_fat = 1, d_sclust = 2, d_clust = 2, d_sect = 600, d_idx = 0\<rparr>"

theorem dir_add_reads_back_witness:
  "\<exists>s'. dir_add dir_root (bytes ''notes-2026.txt'') 14 FAT_ATTR_ARCHIVE 7 fs_empty_dir =
       Some (FAT_ERR_NONE, at_idx (entry_dir dir_root fs_empty_dir) 64, s')
     \<and> entry_reads_as (at_idx (entry_dir dir_root fs_empty_dir) 0) (at_idx (entry_dir dir_root fs_empty_dir) 64)
          (bytes ''notes-2026.txt'') FAT_ATTR_ARCHIVE 7 s'"
proof -
  have "dir_open_at dir_root 0 fs_empty_dir"
    by (simp add: dir_open_at_def dir_root_def fs_empty_dir_def fs_with_def fat_blank_def dir_enter_def
        dir_at_clust_def clust_to_sect_def sfn_is_last_def Let_def)
  then show ?thesis
    using dir_add_reads_back [of dir_root 0 fs_empty_dir 14 "bytes ''notes-2026.txt''" FAT_ATTR_ARCHIVE 7]
    by (auto simp: fs_empty_dir_def fs_with_def bytes_def of_char_def)
qed

text \<open>The character of a short name that stands for a character of a name: letters become capitals, the permitted special
  characters stay, everything else, digits too, is an underscore.\<close>

definition short_char :: "u8 \<Rightarrow> u8" where
  "short_char c =
     (if 97 \<le> c \<and> c \<le> 122 then c - 32
      else if 65 \<le> c \<and> c \<le> 90 \<or> c \<in> {32, 33, 35, 36, 37, 38, 39, 40, 41, 45, 64, 94, 95, 96, 123, 125, 126} then c
      else 95)"

lemma sint_ascii: "sint c = (if c < 128 then uint c else uint c - 256)" for c :: u8
proof (cases "c < 128")
  case True
  then have "uint c < 128" by (simp add: word_less_def)
  then show ?thesis
    using True order_trans [OF _ uint_ge_0, of "- 128" c] by (simp add: sint_uint signed_take_bit_int_eq_self_iff)
next
  case False
  then have "128 \<le> uint c" by (simp add: word_less_def)
  moreover have "uint c < 256" using uint_bounded [of c] by simp
  ultimately have "(uint c - 128 + 256) mod 256 = uint c - 128" by (simp only: mod_add_self2) simp
  then show ?thesis using False
    by (simp add: sint_uint signed_take_bit_eq_take_bit_shift take_bit_eq_mod add.commute)
qed

lemma letter_range: "65 \<le> sint c \<and> sint c \<le> 90 \<longleftrightarrow> 65 \<le> c \<and> c \<le> 90" "97 \<le> sint c \<and> sint c \<le> 122 \<longleftrightarrow> 97 \<le> c \<and> c \<le> 122"
  for c :: u8
  using uint_bounded [of c] by (auto simp: sint_ascii word_le_def word_less_def)

lemma capital_letter:
  assumes "97 \<le> c" "c \<le> 122"
  shows "to_upper c = c - 32 \<and> 65 \<le> c - 32 \<and> c - 32 \<le> 90"
proof -
  have all: "list_all (\<lambda>c. to_upper c = c - 32 \<and> 65 \<le> c - 32 \<and> c - 32 \<le> 90) (map of_nat [97..<123])" by code_simp
  have "unat c \<in> set [97..<123]" unfolding set_upt atLeastLessThan_iff using assms by (simp add: word_le_nat_alt)
  then have "of_nat (unat c) \<in> set (map of_nat [97..<123] :: u8 list)" unfolding set_map by (rule imageI)
  then show ?thesis using all by (simp only: list_all_iff of_nat_unat ucast_id)
qed

lemma sfn_char_short: "sfn_char c = short_char c"
proof (cases "97 \<le> c \<and> c \<le> 122")
  case True
  then show ?thesis using capital_letter [of c] by (simp only: sfn_char_def short_char_def letter_range Let_def) simp
next
  case False
  then have "to_upper c = c" by (simp only: to_upper_def letter_range if_False)
  then show ?thesis using False by (auto simp only: sfn_char_def short_char_def letter_range Let_def sfn_special_eq list.set split: if_splits)
qed

lemma skip_stem_tl: "skip_stem xs = tl (dropWhile (\<lambda>c. c \<noteq> 46) xs)"
  by (induction xs) auto

lemma skip_stem_drop:
  assumes "\<And>i. i < dot \<Longrightarrow> xs ! i \<noteq> 46" and "dot < length xs \<Longrightarrow> xs ! dot = 46" and "k \<le> dot" "dot \<le> length xs"
  shows "skip_stem (drop k xs) = drop (dot + 1) xs"
proof -
  have "takeWhile (\<lambda>c. c \<noteq> 46) (drop k xs) = take (dot - k) (drop k xs)"
    using assms by (intro takeWhile_eq_take_P_nth) auto
  then have "dropWhile (\<lambda>c. c \<noteq> 46) (drop k xs) = drop dot xs"
    using assms(3,4) by (simp add: dropWhile_eq_drop min_def)
  then show ?thesis by (simp add: skip_stem_tl drop_Suc tl_drop)
qed

text \<open>
  C39: The short name of a name, byte by byte.  With the first dot at position \<^term>\<open>dot\<close> (the length of the name if there is none),
  the first eight bytes are the characters before the dot, the last three those after it, both cut to fit and padded with
  spaces, each character replaced as \<^const>\<open>short_char\<close> says.  No byte of it marks a directory entry as free or as the last.
\<close>

theorem put_sfn_name_bytes:
  assumes "len \<le> length name" and "dot \<le> len" and "\<And>i. i < dot \<Longrightarrow> name ! i \<noteq> 46" and "dot < len \<Longrightarrow> name ! dot = 46"
  shows "length (put_sfn_name name len) = 11
   \<and> (\<forall>i < 8. put_sfn_name name len ! i = (if i < dot then short_char (name ! i) else 0x20))
   \<and> (\<forall>i < 3. put_sfn_name name len ! (8 + i) = (if dot + 1 + i < len then short_char (name ! (dot + 1 + i)) else 0x20))
   \<and> SFN_FREE \<notin> set (put_sfn_name name len) \<and> SFN_LAST \<notin> set (put_sfn_name name len)"
proof -
  define stem where "stem = take (min dot 8) name"
  define ext where "ext = take 3 (drop (dot + 1) (take len name))"
  have "takeWhile (\<lambda>c. c \<noteq> 46) (take (min len 8) name) = take (min dot 8) (take (min len 8) name)"
    using assms by (intro takeWhile_eq_take_P_nth) (auto simp: min_def split: if_splits)
  then have st: "takeWhile (\<lambda>c. c \<noteq> 46) (take (min len 8) name) = stem"
    using assms(2) by (simp add: stem_def min_def)
  have ls: "length stem = min dot 8" using assms(1,2) by (simp add: stem_def)
  have "skip_stem (drop (length stem) (take len name)) = drop (dot + 1) (take len name)"
    using assms ls by (intro skip_stem_drop) auto
  then have eq: "put_sfn_name name len = map sfn_char stem @ replicate (8 - length stem) SFN_PAD
      @ map sfn_char ext @ replicate (3 - length ext) SFN_PAD"
    unfolding put_sfn_name_def Let_def st ext_def by simp
  have le: "length ext = min 3 (len - (dot + 1))" using assms(1) by (simp add: ext_def min_def)
  have "put_sfn_name name len ! i = (if i < dot then short_char (name ! i) else 0x20)" if "i < 8" for i
  proof (cases "i < length stem")
    case True
    then show ?thesis using ls by (simp add: eq nth_append sfn_char_short stem_def)
  next
    case False
    then have "put_sfn_name name len ! i = (replicate (8 - length stem) SFN_PAD @ map sfn_char ext @ replicate (3 - length ext) SFN_PAD) ! (i - length stem)"
      by (simp add: eq nth_append)
    moreover have "i - length stem < 8 - length stem" "\<not> i < dot" using False that ls by linarith+
    ultimately show ?thesis by (simp add: nth_append)
  qed
  moreover have "put_sfn_name name len ! (8 + i) = (if dot + 1 + i < len then short_char (name ! (dot + 1 + i)) else 0x20)" if "i < 3" for i
  proof -
    have "8 + i - length stem - (8 - length stem) = i" "8 - length stem \<le> 8 + i - length stem" "length stem \<le> 8 + i" using ls by simp_all
    then have "put_sfn_name name len ! (8 + i) = (map sfn_char ext @ replicate (3 - length ext) SFN_PAD) ! i"
      unfolding eq by (simp add: nth_append)
    then show ?thesis using that le assms(1) by (auto simp: nth_append sfn_char_short ext_def min_def split: if_splits)
  qed
  moreover have "SFN_FREE \<notin> set (put_sfn_name name len)" "SFN_LAST \<notin> set (put_sfn_name name len)"
    using put_sfn_name_allowed [of name len] sfn_allowed_not_free by blast+
  ultimately show ?thesis by simp
qed

theorem put_sfn_name_bytes_witness:
  "put_sfn_name (bytes ''LongStem_2.text'') 15 ! 7 = of_char (CHR ''M'') \<and> put_sfn_name (bytes ''LongStem_2.text'') 15 ! 8 = of_char (CHR ''T'')
   \<and> put_sfn_name (bytes ''LongStem_2.text'') 15 ! 10 = of_char (CHR ''X'') \<and> put_sfn_name (bytes ''v1'') 2 ! 0 = of_char (CHR ''V'')
   \<and> put_sfn_name (bytes ''v1'') 2 ! 1 = of_char (CHR ''_'') \<and> put_sfn_name (bytes ''v1'') 2 ! 8 = 0x20"
proof -
  let ?a = "bytes ''LongStem_2.text''" and ?b = "bytes ''v1''"
  have "46 \<notin> set (take 10 ?a)" "10 < length ?a" by (simp_all add: bytes_def of_char_def)
  then have d: "?a ! i \<noteq> 46" if "i < 10" for i using that by (auto simp: in_set_conv_nth)
  have a: "15 \<le> length ?a" "10 \<le> (15 :: nat)" "10 < (15 :: nat) \<Longrightarrow> ?a ! 10 = 46"
    by (simp_all add: bytes_def of_char_def)
  have b: "2 \<le> length ?b" "2 \<le> (2 :: nat)" "\<And>i. i < 2 \<Longrightarrow> ?b ! i \<noteq> 46" "2 < (2 :: nat) \<Longrightarrow> ?b ! 2 = 46"
    by (auto simp: bytes_def of_char_def less_2_cases_iff)
  have v: "?a ! 7 = 109" "?a ! 11 = 116" "?a ! 13 = 120" "?b ! 0 = 118" "?b ! Suc 0 = 49" by (simp_all add: bytes_def of_char_def)
  have A: "put_sfn_name ?a 15 ! i = short_char (?a ! i)" if "i < 8" for i
    using put_sfn_name_bytes [OF a(1,2) d a(3)] that by auto
  have E: "put_sfn_name ?a 15 ! (8 + i) = short_char (?a ! (11 + i))" if "i < 3" for i
    using put_sfn_name_bytes [OF a(1,2) d a(3)] that by auto
  have B: "put_sfn_name ?b 2 ! i = (if i < 2 then short_char (?b ! i) else 0x20)" if "i < 8" for i
    using put_sfn_name_bytes [OF b] that by auto
  have P: "put_sfn_name ?b 2 ! (8 + i) = 0x20" if "i < 3" for i using put_sfn_name_bytes [OF b] that by auto
  show ?thesis using A [of 7] E [of 0] E [of 2] B [of 0] B [of 1] P [of 0] by (simp add: v short_char_def of_char_def)
qed

section \<open>Searching\<close>

text \<open>Entry \<^term>\<open>e\<close> of a directory sector is a short entry.\<close>

definition short_entry :: "u8 list \<Rightarrow> nat \<Rightarrow> bool" where
  "short_entry b e \<longleftrightarrow> \<not> sfn_is_free (drop (32 * e) b) \<and> \<not> sfn_is_lfn (drop (32 * e) b)"

definition entry_loc :: "Dir \<Rightarrow> nat \<Rightarrow> Loc" where
  "entry_loc dir e = \<lparr>l_sect = d_sect dir, l_idx = of_nat (32 * e)\<rparr>"

lemma search_step_short:
  assumes "f_sect (vol s (d_fat dir)) = d_sect dir" and "e < 16" and "b = f_buf (vol s (d_fat dir))" and "length b = 512"
    and "length nm = 11"
  shows "short_entry b e \<Longrightarrow> search_step name len nm loc (at_idx dir (32 * e)) s =
      (if take 11 (drop (32 * e) b) = nm then None else Some FAT_ERR_NONE,
       map_option (\<lambda>_. entry_loc dir e) loc, at_idx dir (32 * e), s)"
    and "b ! (32 * e) = SFN_FREE \<Longrightarrow> search_step name len nm loc (at_idx dir (32 * e)) s =
      (None, loc, at_idx dir (32 * e), s)"
    and "b ! (32 * e) = SFN_LAST \<Longrightarrow> search_step name len nm loc (at_idx dir (32 * e)) s =
      (Some FAT_ERR_EOF, loc, at_idx dir (32 * e), s)"
proof -
  define i where "i = 32 * e"
  have i: "i < 512" "i + 11 \<le> 512" using assms(2) by (auto simp: i_def)
  have ptr: "dir_ptr (at_idx dir i) s = drop i b" using i assms(3) by (simp add: dir_ptr_at)
  have cmp: "memcmp nm (drop i b) 11 \<longleftrightarrow> take 11 (drop i b) = nm"
    using assms(4,5) i by (auto simp: memcmp_iff_take)
  note d = search_step_def Let_def entry_loc_def short_entry_def
  show "short_entry b e \<Longrightarrow> search_step name len nm loc (at_idx dir (32 * e)) s =
      (if take 11 (drop (32 * e) b) = nm then None else Some FAT_ERR_NONE,
       map_option (\<lambda>_. entry_loc dir e) loc, at_idx dir (32 * e), s)"
    unfolding d i_def [symmetric] using assms(1) ptr cmp
    by (simp add: update_buf_hit sfn_is_free_def sfn_is_last_def)
  show "b ! (32 * e) = SFN_FREE \<Longrightarrow> search_step name len nm loc (at_idx dir (32 * e)) s =
      (None, loc, at_idx dir (32 * e), s)"
    unfolding d i_def [symmetric] using assms(1,4) ptr i
    by (simp add: update_buf_hit sfn_is_free_def sfn_is_last_def)
  show "b ! (32 * e) = SFN_LAST \<Longrightarrow> search_step name len nm loc (at_idx dir (32 * e)) s =
      (Some FAT_ERR_EOF, loc, at_idx dir (32 * e), s)"
    unfolding d i_def [symmetric] using assms(1,4) ptr i
    by (simp add: update_buf_hit sfn_is_free_def sfn_is_last_def)
qed

lemma search_loop_skip:
  assumes "f_sect (vol s (d_fat dir)) = d_sect dir" and "b = f_buf (vol s (d_fat dir))" and "length b = 512"
    and "length nm = 11" and "j < 16" and "e \<le> j"
    and "\<And>k. e \<le> k \<Longrightarrow> k < j \<Longrightarrow> b ! (32 * k) = SFN_FREE \<or> short_entry b k \<and> take 11 (drop (32 * k) b) = nm"
  shows "\<exists>loc'. (loc = None \<longleftrightarrow> loc' = None) \<and>
    search_loop name len nm loc (at_idx dir (32 * e)) s = search_loop name len nm loc' (at_idx dir (32 * j)) s"
  using assms(5-7)
proof (induction "j - e" arbitrary: e loc)
  case 0
  then have "e = j" by simp
  then show ?case by blast
next
  case (Suc d)
  then have e: "e < j" "e < 16" "32 * e + 32 < 512" "32 * e + 32 = 32 * Suc e" by auto
  then obtain l where l: "loc = None \<longleftrightarrow> l = None"
      "search_step name len nm loc (at_idx dir (32 * e)) s = (None, l, at_idx dir (32 * e), s)"
    using search_step_short [OF assms(1) e(2) assms(2,3,4)] Suc.prems(3) [of e] by force
  have "search_loop name len nm loc (at_idx dir (32 * e)) s = search_loop name len nm l (at_idx dir (32 * Suc e)) s"
    using l(2) dir_next_at [OF e(3), of dir s] e(4) by (subst search_loop.simps) simp
  moreover have "\<exists>loc'. (l = None \<longleftrightarrow> loc' = None) \<and>
    search_loop name len nm l (at_idx dir (32 * Suc e)) s = search_loop name len nm loc' (at_idx dir (32 * j)) s"
    using Suc.hyps Suc.prems e(1) by (intro Suc.hyps(1)) auto
  ultimately show ?case using l(1) by auto
qed

text \<open>The comparison of short names is inverted.  In a directory of short entries the search passes
  over every entry whose name is the name looked for and stops, with success, at the first entry whose
  name \<^emph>\<open>differs\<close>; a directory holding only the name looked for yields \<^verbatim>\<open>FAT_ERR_EOF\<close>.\<close>

theorem dir_search_inverted:
  assumes "D = dir_at_clust (d_sclust dir) dir s" and "b = f_buf (vol s (d_fat dir))" and "length b = 512"
    and "f_sect (vol s (d_fat dir)) = d_sect D" and "j < 16"
    and "\<And>k. k < j \<Longrightarrow> b ! (32 * k) = SFN_FREE \<or> short_entry b k \<and> take 11 (drop (32 * k) b) = put_sfn_name name len"
  shows "(short_entry b j \<and> take 11 (drop (32 * j) b) \<noteq> put_sfn_name name len \<longrightarrow>
        dir_search dir name len loc s = Some (FAT_ERR_NONE, map_option (\<lambda>_. entry_loc D j) loc, at_idx D (32 * j), s))
      \<and> (b ! (32 * j) = SFN_LAST \<longrightarrow> (\<exists>loc'. dir_search dir name len loc s = Some (FAT_ERR_EOF, loc', at_idx D (32 * j), s)))"
proof -
  let ?nm = "put_sfn_name name len"
  have D: "d_fat D = d_fat dir" "at_idx D (32 * 0) = D" using assms(1) by (simp_all add: dir_at_clust_def)
  obtain loc' where l: "loc = None \<longleftrightarrow> loc' = None"
      "search_loop name len ?nm loc (at_idx D (32 * 0)) s = search_loop name len ?nm loc' (at_idx D (32 * j)) s"
    using search_loop_skip [of s D b ?nm j 0 loc name len] assms(2-6) D(1) by (auto simp del: of_nat_mult of_nat_add)
  have map_loc: "map_option (\<lambda>_. x) loc' = map_option (\<lambda>_. x) loc" for x :: Loc using l(1) by (cases loc; cases loc') auto
  have run: "dir_search dir name len loc s = search_loop name len ?nm loc' (at_idx D (32 * j)) s"
    using l(2) D(2) assms(1) by (simp add: dir_search_def)
  note st = search_step_short [of s D j b ?nm name len loc']
  show ?thesis
    unfolding run using st assms(2-5) D(1) map_loc by (subst (1 2) search_loop.simps) auto
qed

text \<open>A directory with the single short entry \<^verbatim>\<open>A.TXT\<close>: a search for \<^verbatim>\<open>B.TXT\<close> finds it, a search for \<^verbatim>\<open>A.TXT\<close>
  ends with \<^verbatim>\<open>FAT_ERR_EOF\<close>.\<close>

definition fs_one_file :: "unit fs" where
  "fs_one_file = fs_with ((fat_blank no_disk (bytes ''disk0''))\<lparr>f_sect := 600,
     f_buf := bytes ''A       TXT'' @ [FAT_ATTR_ARCHIVE] @ replicate 500 0\<rparr>) ()"

lemma fs_one_file_simps:
  "f_sect (vol fs_one_file 1) = d_sect (dir_at_clust (d_sclust dir_root) dir_root fs_one_file)"
  "length (f_buf (vol fs_one_file 1)) = 512" "d_fat dir_root = 1"
  "take 11 (f_buf (vol fs_one_file 1)) = bytes ''A       TXT''" "f_buf (vol fs_one_file 1) ! 32 = 0"
  "short_entry (f_buf (vol fs_one_file 1)) 0"
  by (simp_all add: fs_one_file_def fs_with_def fat_blank_def dir_root_def dir_at_clust_def clust_to_sect_def
      short_entry_def sfn_is_free_def sfn_is_lfn_def bytes_def of_char_def nth_append)

lemma put_sfn_name_samples:
  "put_sfn_name (bytes ''A.TXT'') 5 = bytes ''A       TXT''" "put_sfn_name (bytes ''B.TXT'') 5 = bytes ''B       TXT''"
  by code_simp+

theorem dir_search_inverted_witness:
  "dir_search dir_root (bytes ''B.TXT'') 5 None fs_one_file =
     Some (FAT_ERR_NONE, None, at_idx (dir_at_clust 2 dir_root fs_one_file) 0, fs_one_file)
   \<and> (\<exists>loc'. dir_search dir_root (bytes ''A.TXT'') 5 None fs_one_file =
        Some (FAT_ERR_EOF, loc', at_idx (dir_at_clust 2 dir_root fs_one_file) 32, fs_one_file))"
proof -
  have d: "d_sclust dir_root = 2" by (simp add: dir_root_def)
  have ne: "bytes ''A       TXT'' \<noteq> bytes ''B       TXT''" by (simp add: bytes_def of_char_def)
  show ?thesis
    using dir_search_inverted [OF refl refl, of fs_one_file dir_root 0 "bytes ''B.TXT''" 5 None]
      dir_search_inverted [OF refl refl, of fs_one_file dir_root 1 "bytes ''A.TXT''" 5 None]
    using fs_one_file_simps put_sfn_name_samples ne d by simp
qed

end
