(* ===== verification/Fat32_File.thy ===== *)
theory Fat32_File
  imports Fat32_Dir
begin

text \<open>
  The public interface of \<^verbatim>\<open>fat32.c\<close>: probing, mounting, files and directories
  (\<^verbatim>\<open>get_part_lba\<close> to \<^verbatim>\<open>fat_ls\<close>).  Output structures are passed in and returned; the uninitialised locals
  \<^verbatim>\<open>Dir dir\<close>, \<^verbatim>\<open>Loc loc\<close> and \<^verbatim>\<open>DirInfo info\<close> are arguments, so that a result that depends on them is visible.
  Lengths of reads and writes are non-negative.  Messages for the console are returned by
  \<^verbatim>\<open>fat_ls\<close> as the list of the printed structures and not recorded by \<^verbatim>\<open>fat_mount\<close>.
\<close>

section \<open>Probing and mounting\<close>

definition get_part_lba :: "u8 list \<Rightarrow> nat \<Rightarrow> u32 \<Rightarrow> bool \<times> u32" where
  "get_part_lba buf part lba =
     (if le16 buf 510 \<noteq> 0xaa55 then (False, lba)
      else let type = buf ! (446 + 16 * part + 4)
           in if type \<noteq> 0x0b \<and> type \<noteq> 0x0c then (False, lba)
              else (True, le32 buf (446 + 16 * part + 8)))"

text \<open>The number of clusters, as both \<^verbatim>\<open>check_fat\<close> and \<^verbatim>\<open>fat_mount\<close> compute it.\<close>

definition bpb_clust_cnt :: "u8 list \<Rightarrow> u32" where
  "bpb_clust_cnt bpb =
     (let data_sect = le32 bpb 32 - (ucast (le16 bpb 14) + ucast (bpb ! 16) * le32 bpb 36)
      in data_sect div ucast (bpb ! 13))"

definition check_fat :: "u8 list \<Rightarrow> bool" where
  "check_fat bpb =
     (if bpb ! 0 \<noteq> 0xeb \<and> bpb ! 0 \<noteq> 0xe9 then False
      else if le16 bpb 11 \<noteq> 512 then False
      else if bpb ! 13 = 0 then False
      else if le32 bpb 36 = 0 then False
      else 65525 \<le> bpb_clust_cnt bpb)"

text \<open>\<^verbatim>\<open>ops->read(g_buf, sect)\<close>.\<close>

definition read_g_buf :: "'d DiskOps \<Rightarrow> u32 \<Rightarrow> 'd fs \<Rightarrow> bool \<times> 'd fs" where
  "read_g_buf ops sect s =
     (let (ok, b, d) = ops_read ops (g_buf s) sect (dev s) in (ok, s\<lparr>g_buf := b, dev := d\<rparr>))"

definition probe :: "'d DiskOps \<Rightarrow> nat \<Rightarrow> 'd fs \<Rightarrow> int \<times> u32 \<times> 'd fs" where
  "probe ops part s =
     (let lba = 0;
          (ok, s) = read_g_buf ops lba s
      in if \<not> ok then (FAT_ERR_IO, lba, s)
         else if check_fat (g_buf s) then (if part = 0 then FAT_ERR_NONE else FAT_ERR_NOFAT, lba, s)
         else let (found, lba) = get_part_lba (g_buf s) part lba
              in if \<not> found then (FAT_ERR_NOFAT, lba, s)
                 else let (ok, s) = read_g_buf ops lba s
                      in if \<not> ok then (FAT_ERR_IO, lba, s)
                         else (if check_fat (g_buf s) then FAT_ERR_NONE else FAT_ERR_NOFAT, lba, s))"

definition fat_probe :: "'d DiskOps \<Rightarrow> nat \<Rightarrow> 'd fs \<Rightarrow> int \<times> 'd fs" where
  "fat_probe ops part s = (let (err, _, s) = probe ops part s in (err, s))"

text \<open>\<^verbatim>\<open>__builtin_ctz\<close> of a byte that is not zero.\<close>

definition ctz8 :: "u8 \<Rightarrow> u8" where
  "ctz8 v = of_nat (length (takeWhile (\<lambda>i. \<not> bit v i) [0..<8]))"

definition mount_geometry :: "u8 list \<Rightarrow> u32 \<Rightarrow> 'd Fat \<Rightarrow> 'd Fat" where
  "mount_geometry bpb lba fat =
     (let mirror = (le16 bpb 40 AND EXT_FLAG_MIRROR \<noteq> 0);
          use_first = (le16 bpb 40 AND EXT_FLAG_SECOND = 0);
          fat_0 = lba + ucast (le16 bpb 14);
          fat_1 = lba + ucast (le16 bpb 14) + le32 bpb 36
      in fat\<lparr>f_clust_shift := ctz8 (bpb ! 13),
             f_clust_msk := ucast (bpb ! 13) - 1,
             f_clust_cnt := bpb_clust_cnt bpb,
             f_root_clust := le32 bpb 44,
             f_fat_sect0 := (if use_first then fat_0 else fat_1),
             f_fat_sect1 := (if mirror then (if use_first then fat_1 else fat_0) else 0),
             f_info_sect := lba + ucast (le16 bpb 48),
             f_data_sect := lba + ucast (le16 bpb 14) + ucast (bpb ! 16) * le32 bpb 36\<rparr>)"

definition mount_info :: "u8 list \<Rightarrow> 'd Fat \<Rightarrow> 'd Fat" where
  "mount_info info fat =
     (if le32 info 508 = FSINFO_TAIL_SIG \<and> le32 info 0 = FSINFO_HEAD_SIG \<and> le32 info 484 = FSINFO_STRUCT_SIG
      then fat\<lparr>f_last_used := (if le32 info 492 = 0xffffffff then 2 else le32 info 492),
               f_free_cnt := le32 info 488\<rparr>
      else fat\<lparr>f_last_used := 2, f_free_cnt := 0xffffffff\<rparr>)"

definition fat_mount :: "'d DiskOps \<Rightarrow> nat \<Rightarrow> u64 \<Rightarrow> u8 list \<Rightarrow> 'd fs \<Rightarrow> int \<times> 'd fs" where
  "fat_mount ops part fat name s =
     (let (err, lba, s) = probe ops part s
      in if err \<noteq> 0 then (err, s)
         else let s = upd_vol fat (mount_geometry (g_buf s) lba) s;
                  (ok, s) = read_g_buf ops (f_info_sect (vol s fat)) s
              in if \<not> ok then (FAT_ERR_IO, s)
                 else let s = upd_vol fat (mount_info (g_buf s)) s;
                          name_len = length name
                      in if 32 < name_len then (FAT_ERR_PARAM, s)
                         else let s = upd_vol fat (\<lambda>f. f\<lparr>f_name := name @ replicate (32 - name_len) 0,
                                        f_name_len := of_nat name_len, f_ops := ops, f_sect := 0,
                                        f_next := g_fat_list s\<rparr>) s
                              in (FAT_ERR_NONE, s\<lparr>g_fat_list := fat\<rparr>))"

text \<open>The loop of \<^verbatim>\<open>fat_umount\<close>: \<^const>\<open>None\<close> stands for \<^verbatim>\<open>&g_fat_list\<close>, \<^term>\<open>Some q\<close> for \<^verbatim>\<open>&q->next\<close>.\<close>

definition get_link :: "u64 option \<Rightarrow> 'd fs \<Rightarrow> u64" where
  "get_link it s = (case it of None \<Rightarrow> g_fat_list s | Some q \<Rightarrow> f_next (vol s q))"

definition set_link :: "u64 option \<Rightarrow> u64 \<Rightarrow> 'd fs \<Rightarrow> 'd fs" where
  "set_link it v s = (case it of None \<Rightarrow> s\<lparr>g_fat_list := v\<rparr> | Some q \<Rightarrow> upd_vol q (\<lambda>f. f\<lparr>f_next := v\<rparr>) s)"

partial_function (option) umount_find :: "u64 \<Rightarrow> u64 option \<Rightarrow> 'd fs \<Rightarrow> u64 option option" where
  "umount_find fat it s =
     (if get_link it s \<noteq> 0 \<and> get_link it s \<noteq> fat then umount_find fat (Some (get_link it s)) s else Some it)"

definition fat_umount :: "u64 \<Rightarrow> 'd fs \<Rightarrow> (int \<times> 'd fs) option" where
  "fat_umount fat s = do {
     it \<leftarrow> umount_find fat None s;
     if get_link it s = 0 then Some (FAT_ERR_PARAM, s)
     else Some (sync_fs fat (set_link it (f_next (vol s fat)) s))
   }"

definition fat_sync :: "u64 \<Rightarrow> 'd fs \<Rightarrow> int \<times> 'd fs" where
  "fat_sync fat s = sync_fs fat s"

section \<open>Directories\<close>

partial_function (option) dir_read_loop :: "Dir \<Rightarrow> DirInfo \<Rightarrow> 'd fs \<Rightarrow> (int \<times> Dir \<times> DirInfo \<times> 'd fs) option" where
  "dir_read_loop dir info s =
     (let (err, s) = update_buf (d_fat dir) (d_sect dir) s
      in if err \<noteq> 0 then Some (err, dir, info, s)
         else if sfn_is_last (dir_ptr dir s) then Some (FAT_ERR_EOF, dir, info, s)
         else if sfn_is_free (dir_ptr dir s)
         then (let (err, dir, s) = dir_next dir s
               in if err \<noteq> 0 then Some (err, dir, info, s) else dir_read_loop dir info s)
         else let (err, dir, s) =
                (if sfn_is_lfn (dir_ptr dir s)
                 then (let (err, dir, s) = parse_lfn_name dir s
                       in if err \<noteq> 0 then (err, dir, s)
                          else let (err, s) = update_buf (d_fat dir) (d_sect dir) s
                               in if err \<noteq> 0 then (err, dir, s)
                                  else if sfn_is_free (dir_ptr dir s) \<or> g_crc s \<noteq> get_crc (dir_ptr dir s)
                                  then (FAT_ERR_BROKEN, dir, s)
                                  else (FAT_ERR_NONE, dir, s))
                 else (FAT_ERR_NONE, dir, parse_sfn_name (dir_ptr dir s) s))
              in if err \<noteq> 0 then Some (err, dir, info, s)
                 else let sfn = dir_ptr dir s
                      in Some (FAT_ERR_NONE, dir,
                           info\<lparr>di_name := overwrite (di_name info) 0 (take (unat (g_len s)) (g_buf s)),
                                di_name_len := ucast (g_len s),
                                di_created := decode_timestamp (le16 sfn 16) (le16 sfn 14),
                                di_modified := decode_timestamp (le16 sfn 24) (le16 sfn 22),
                                di_size := le32 sfn 28,
                                di_attr := sfn ! 11\<rparr>, s))"

definition fat_dir_read :: "Dir \<Rightarrow> DirInfo \<Rightarrow> 'd fs \<Rightarrow> (int \<times> Dir \<times> DirInfo \<times> 'd fs) option" where
  "fat_dir_read dir info s =
     (if d_fat dir = 0 then Some (FAT_ERR_PARAM, dir, info, s) else dir_read_loop dir info s)"

definition fat_dir_next :: "Dir \<Rightarrow> 'd fs \<Rightarrow> int \<times> Dir \<times> 'd fs" where
  "fat_dir_next dir s = (if d_fat dir = 0 then (FAT_ERR_PARAM, dir, s) else dir_next dir s)"

definition fat_dir_rewind :: "Dir \<Rightarrow> 'd fs \<Rightarrow> int \<times> Dir" where
  "fat_dir_rewind dir s =
     (if d_fat dir = 0 then (FAT_ERR_PARAM, dir) else (FAT_ERR_NONE, dir_at_clust (d_sclust dir) dir s))"

definition fat_dir_open :: "Dir \<Rightarrow> u8 list \<Rightarrow> 'd fs \<Rightarrow> (int \<times> Dir \<times> 'd fs) option" where
  "fat_dir_open dir path s = do {
     (err, dir, path, _, s) \<leftarrow> follow_path dir path None s;
     if err \<noteq> 0 then Some (err, dir, s)
     else if dir_at_root dir s then Some (FAT_ERR_NONE, dir, s)
     else let (err, s) = update_buf (d_fat dir) (d_sect dir) s
          in if err \<noteq> 0 then Some (err, dir, s)
             else let sfn = dir_ptr dir s
                  in if sfn ! 11 AND FAT_ATTR_DIR = 0 then Some (FAT_ERR_PATH, dir, s)
                     else Some (FAT_ERR_NONE, dir_enter (sfn_cluster sfn) dir s, s)
   }"

text \<open>The entries \<^verbatim>\<open>.\<close> and \<^verbatim>\<open>..\<close> of a new directory, written over the first two entries of its sector.\<close>

definition dot_entries :: "u32 \<Rightarrow> u32 \<Rightarrow> u16 \<Rightarrow> u16 \<Rightarrow> u8 list \<Rightarrow> u8 list" where
  "dot_entries clust parent date time b =
     (let b = overwrite b 0 (replicate 11 32);
          b = b[0 := 46, 11 := FAT_ATTR_DIR];
          b = put16 b 20 (ucast (drop_bit 16 clust));
          b = put16 b 26 (ucast (clust AND 0xffff));
          b = put16 b 16 date;
          b = put16 b 14 time;
          b = put16 b 24 date;
          b = put16 b 22 time;
          b = put16 b 18 date;
          b = overwrite b 32 (take 32 b);
          b = b[33 := 46];
          b = put16 b 52 (ucast (drop_bit 16 parent))
      in put16 b 58 (ucast (parent AND 0xffff)))"

definition fat_dir_create :: "Dir \<Rightarrow> u8 list \<Rightarrow> 'd fs \<Rightarrow> (int \<times> Dir \<times> 'd fs) option" where
  "fat_dir_create dir path s = do {
     (err, dir, path, _, s) \<leftarrow> follow_path dir path None s;
     if err \<noteq> FAT_ERR_EOF then Some (err, dir, s)
     else let len = last_subpath_len path
     in if len = 0 then Some (FAT_ERR_PATH, dir, s)
     else do {
       (err, clust, s) \<leftarrow> create_chain (d_fat dir) 0 s;
       if err \<noteq> 0 then Some (err, dir, s)
       else let (err, s) = clust_clear (d_fat dir) clust s
       in if err \<noteq> 0 then Some (err, dir, s)
       else let (date, time) = encode_timestamp fat_get_timestamp;
                (err, s) = update_buf (d_fat dir) (clust_to_sect (vol s (d_fat dir)) clust) s
       in if err \<noteq> 0 then Some (err, dir, s)
       else let s = upd_vol (d_fat dir) (set_flag FAT_BUF_DIRTY) s;
                parent = (if d_sclust dir = f_root_clust (vol s (d_fat dir)) then 0 else d_sclust dir);
                s = upd_vol (d_fat dir) (\<lambda>f. f\<lparr>f_buf := dot_entries clust parent date time (f_buf f)\<rparr>) s
       in do {
         (err, dir, s) \<leftarrow> dir_add dir path len FAT_ATTR_DIR clust s;
         if err \<noteq> 0 then Some (err, dir, s)
         else let dir = dir_enter clust dir s;
                  (err, s) = sync_fs (d_fat dir) s
              in Some (err, dir, s)
       }
     }
   }"

section \<open>Status and removal\<close>

definition fat_stat :: "u8 list \<Rightarrow> DirInfo \<Rightarrow> Dir \<Rightarrow> Loc \<Rightarrow> 'd fs \<Rightarrow> (int \<times> DirInfo \<times> 'd fs) option" where
  "fat_stat path info dir loc s = do {
     (err, dir, path, loc', s) \<leftarrow> follow_path dir path (Some loc) s;
     if err \<noteq> 0 then Some (err, info, s)
     else if subpath_len path \<noteq> 0 then Some (FAT_ERR_PATH, info, s)
     else let loc = the loc';
              dir = dir\<lparr>d_clust := sect_to_clust (vol s (d_fat dir)) (l_sect loc), d_sect := l_sect loc, d_idx := l_idx loc\<rparr>
          in do {
            (err, dir, info, s) \<leftarrow> fat_dir_read dir info s;
            Some (err, info, s)
          }
   }"

text \<open>The check of \<^verbatim>\<open>fat_unlink\<close> that a directory is empty; \<^term>\<open>FAT_ERR_NONE\<close> is the \<^verbatim>\<open>break\<close>.\<close>

partial_function (option) unlink_empty :: "Dir \<Rightarrow> 'd fs \<Rightarrow> (int \<times> 'd fs) option" where
  "unlink_empty tmp s =
     (let (err, s) = update_buf (d_fat tmp) (d_sect tmp) s
      in if err \<noteq> 0 then Some (err, s)
         else if sfn_is_last (dir_ptr tmp s) then Some (FAT_ERR_NONE, s)
         else if \<not> sfn_is_free (dir_ptr tmp s) then Some (FAT_ERR_DENIED, s)
         else let (err, tmp, s) = dir_next tmp s
              in if err \<noteq> 0 then Some (err, s) else unlink_empty tmp s)"

definition fat_unlink :: "u8 list \<Rightarrow> Dir \<Rightarrow> Loc \<Rightarrow> 'd fs \<Rightarrow> (int \<times> 'd fs) option" where
  "fat_unlink path dir loc s = do {
     (err, dir, path, loc', s) \<leftarrow> follow_path dir path (Some loc) s;
     if err \<noteq> 0 then Some (err, s)
     else if dir_at_root dir s then Some (FAT_ERR_DENIED, s)
     else let sfn = dir_ptr dir s;
              clust = sfn_cluster sfn
     in if sfn ! 11 AND (FAT_ATTR_RO OR FAT_ATTR_SYS OR FAT_ATTR_LABEL) \<noteq> 0 then Some (FAT_ERR_DENIED, s)
     else do {
       (err, s) \<leftarrow> (if sfn ! 11 AND FAT_ATTR_DIR \<noteq> 0
                    then (let (err, tmp, s) = dir_advance 2 (dir_enter clust dir s) s
                          in if err \<noteq> 0 then Some (err, s) else unlink_empty tmp s)
                    else Some (FAT_ERR_NONE, s));
       if err \<noteq> 0 then Some (err, s)
       else do {
         (err, s) \<leftarrow> remove_chain (d_fat dir) clust s;
         if err \<noteq> 0 then Some (err, s)
         else do {
           (err, dir, s) \<leftarrow> remove_entries dir (the loc') s;
           if err \<noteq> 0 then Some (err, s) else Some (sync_fs (d_fat dir) s)
         }
       }
     }
   }"

section \<open>Files\<close>

text \<open>The loop of \<^verbatim>\<open>fat_file_seek\<close> along the cluster chain.\<close>

fun seek_chain :: "nat \<Rightarrow> File \<Rightarrow> 'd fs \<Rightarrow> (int \<times> File \<times> 'd fs) option" where
  "seek_chain 0 file s = Some (FAT_ERR_NONE, file, s)"
| "seek_chain (Suc n) file s =
     (let (err, (nxt, flags), s) = get_fat (fl_fat file) (fl_clust file) (0, uninit s) s
      in if err \<noteq> 0 then Some (err, file, s)
         else if flags AND (CLUST_BAD OR CLUST_FREE) \<noteq> 0 then Some (FAT_ERR_BROKEN, file, s)
         else do {
           (err, nxt, s) \<leftarrow> (if flags AND CLUST_LAST \<noteq> 0 then stretch_chain (fl_fat file) (fl_clust file) nxt s
                             else Some (FAT_ERR_NONE, nxt, s));
           if err \<noteq> 0 then Some (err, file, s) else seek_chain n (file\<lparr>fl_clust := nxt\<rparr>) s
         })"

text \<open>The end of \<^verbatim>\<open>fat_file_seek\<close>: exchange the file's sector buffer.\<close>

definition seek_buffer :: "u32 \<Rightarrow> File \<Rightarrow> 'd fs \<Rightarrow> int \<times> File \<times> 'd fs" where
  "seek_buffer ssect file s =
     (let ops = f_ops (vol s (fl_fat file))
      in if fl_sect file \<noteq> ssect
         then let dirty = (fl_flags file AND FAT_FILE_DIRTY \<noteq> 0);
                  (ok, d) = (if dirty then ops_write ops (fl_buf file) ssect (dev s) else (True, dev s));
                  s = s\<lparr>dev := d\<rparr>
              in if \<not> ok then (FAT_ERR_IO, file, s)
                 else let file = (if dirty then file\<lparr>fl_flags := fl_flags file AND NOT FAT_FILE_DIRTY\<rparr> else file);
                          (ok, b, d) = ops_read ops (fl_buf file) (fl_sect file) (dev s);
                          file = file\<lparr>fl_buf := b\<rparr>;
                          s = s\<lparr>dev := d\<rparr>
                      in if \<not> ok then (FAT_ERR_IO, file, s) else (FAT_ERR_NONE, file, s)
         else (FAT_ERR_NONE, file, s))"

text \<open>The offset is a C \<^verbatim>\<open>int\<close>: for its values, from \<open>-2\<^sup>3\<^sup>1\<close> to \<open>2\<^sup>3\<^sup>1 - 1\<close>, the sum in \<^verbatim>\<open>off64\<close> is exact.  The calls
  inside the driver pass 0 or the length of a piece of one sector; for other integers no call of the C function stands.\<close>

definition fat_file_seek :: "File \<Rightarrow> int \<Rightarrow> fat_seek \<Rightarrow> 'd fs \<Rightarrow> (int \<times> File \<times> 'd fs) option" where
  "fat_file_seek file offset seek s =
     (let ssect = fl_sect file
      in if fl_fat file = 0 then Some (FAT_ERR_PARAM, file, s)
         else let off64 = (case seek of FAT_SEEK_START \<Rightarrow> 0 | FAT_SEEK_CURR \<Rightarrow> uint (fl_offset file)
                             | FAT_SEEK_END \<Rightarrow> uint (fl_size file)) + offset
         in if off64 < 0 \<or> 0xffffffff < off64 then Some (FAT_ERR_EOF, file, s)
         else let fat = vol s (fl_fat file);
                  off = (of_int off64 :: u32);
                  clust_size = push_bit (unat (f_clust_shift fat)) 512;
                  dst_clust = off div clust_size;
                  src_clust = fl_offset file div clust_size;
                  (file, src_clust) =
                    (if dst_clust < src_clust
                     then (file\<lparr>fl_clust := fl_sclust file, fl_sect := clust_to_sect fat (fl_sclust file), fl_offset := 0\<rparr>, 0)
                     else (file, src_clust))
         in do {
           (err, file, s) \<leftarrow> seek_chain (unat (dst_clust - src_clust)) file s;
           if err \<noteq> 0 then Some (err, file, s)
           else let fat = vol s (fl_fat file);
                    file = file\<lparr>fl_sect := clust_to_sect fat (fl_clust file) + ((off div 512) AND f_clust_msk fat),
                                fl_offset := off\<rparr>
                in Some (seek_buffer ssect file s)
         })"

text \<open>The loop of \<^verbatim>\<open>fat_file_read\<close>: \<^term>\<open>out\<close> are the bytes stored so far, its length is \<^verbatim>\<open>*bytes\<close>.\<close>

partial_function (option) read_loop ::
  "nat \<Rightarrow> u8 list \<Rightarrow> File \<Rightarrow> 'd fs \<Rightarrow> (int \<times> u8 list \<times> File \<times> 'd fs) option" where
  "read_loop len out file s =
     (if len \<noteq> 0 \<and> fl_offset file < fl_size file
      then let idx = unat (fl_offset file) mod 512;
               cnt = min len (min (512 - idx) (unat (fl_size file - fl_offset file)));
               out = out @ take cnt (drop idx (fl_buf file))
           in do {
             (err, file, s) \<leftarrow> fat_file_seek file (int cnt) FAT_SEEK_CURR s;
             if err \<noteq> 0 then Some (err, out, file, s) else read_loop (len - cnt) out file s
           }
      else Some (FAT_ERR_NONE, out, file, s))"

definition fat_file_read :: "File \<Rightarrow> nat \<Rightarrow> 'd fs \<Rightarrow> (int \<times> u8 list \<times> File \<times> 'd fs) option" where
  "fat_file_read file len s =
     (if fl_fat file = 0 then Some (FAT_ERR_PARAM, [], file, s)
      else if fl_flags file AND FAT_READ = 0 then Some (FAT_ERR_DENIED, [], file, s)
      else read_loop len [] (file\<lparr>fl_flags := fl_flags file OR FAT_ACCESSED\<rparr>) s)"

text \<open>The loop of \<^verbatim>\<open>fat_file_write\<close> over the bytes still to write; \<^term>\<open>bytes\<close> counts the bytes copied.  An
  error of the seek ends the loop and is lost: it is stored in a variable of the loop's block.\<close>

partial_function (option) write_loop :: "u8 list \<Rightarrow> nat \<Rightarrow> File \<Rightarrow> 'd fs \<Rightarrow> (nat \<times> File \<times> 'd fs) option" where
  "write_loop src n file s =
     (if src \<noteq> []
      then let idx = unat (fl_offset file) mod 512;
               cnt = min (length src) (512 - idx);
               file = file\<lparr>fl_buf := overwrite (fl_buf file) idx (take cnt src),
                           fl_flags := fl_flags file OR FAT_FILE_DIRTY\<rparr>
           in do {
             (err, file, s) \<leftarrow> fat_file_seek file (int cnt) FAT_SEEK_CURR s;
             if err \<noteq> 0 then Some (n + cnt, file, s) else write_loop (drop cnt src) (n + cnt) file s
           }
      else Some (n, file, s))"

definition fat_file_write :: "File \<Rightarrow> u8 list \<Rightarrow> 'd fs \<Rightarrow> (int \<times> nat \<times> File \<times> 'd fs) option" where
  "fat_file_write file buf s =
     (if fl_fat file = 0 then Some (FAT_ERR_PARAM, 0, file, s)
      else if fl_flags file AND FAT_WRITE = 0 then Some (FAT_ERR_DENIED, 0, file, s)
      else do {
        (n, file, s) \<leftarrow> write_loop buf 0 (file\<lparr>fl_flags := fl_flags file OR (FAT_MODIFIED OR FAT_ACCESSED)\<rparr>) s;
        Some (FAT_ERR_NONE, n,
          if fl_size file < fl_offset file then file\<lparr>fl_size := fl_offset file\<rparr> else file, s)
      })"

definition fat_file_sync :: "File \<Rightarrow> 'd fs \<Rightarrow> int \<times> File \<times> 'd fs" where
  "fat_file_sync file s =
     (if fl_fat file = 0 then (FAT_ERR_PARAM, file, s)
      else let p = fl_fat file;
               (ok, d) = ops_write (f_ops (vol s p)) (fl_buf file) (fl_sect file) (dev s);
               s = s\<lparr>dev := d\<rparr>
      in if \<not> ok then (FAT_ERR_IO, file, s)
      else let (err, s) =
             (if fl_flags file AND (FAT_ACCESSED OR FAT_MODIFIED) \<noteq> 0
              then (let (err, s) = update_buf p (fl_dir_sect file) s
                    in if err \<noteq> 0 then (err, s)
                       else let s = upd_vol p (set_flag FAT_BUF_DIRTY) s;
                                i = unat (fl_dir_idx file);
                                (date, time) = encode_timestamp fat_get_timestamp;
                                b = f_buf (vol s p);
                                b = (if fl_flags file AND FAT_ACCESSED \<noteq> 0 then put16 b (i + 18) date else b);
                                b = (if fl_flags file AND FAT_MODIFIED \<noteq> 0
                                     then (let b = b[i + 11 := b ! (i + 11) OR FAT_ATTR_ARCHIVE];
                                               b = put32 b (i + 28) (fl_size file);
                                               b = put16 b (i + 24) date
                                           in put16 b (i + 22) time)
                                     else b)
                            in (FAT_ERR_NONE, upd_vol p (\<lambda>f. f\<lparr>f_buf := b\<rparr>) s))
              else (FAT_ERR_NONE, s))
      in if err \<noteq> 0 then (err, file, s)
      else let (err, s) = sync_fs p s
      in if err \<noteq> 0 then (err, file, s)
         else (FAT_ERR_NONE, file\<lparr>fl_flags := fl_flags file AND NOT (FAT_ACCESSED OR FAT_MODIFIED)\<rparr>, s))"

definition fat_file_close :: "File \<Rightarrow> 'd fs \<Rightarrow> int \<times> File \<times> 'd fs" where
  "fat_file_close file s = (if fl_fat file = 0 then (FAT_ERR_PARAM, file, s) else fat_file_sync file s)"

text \<open>The fields \<^verbatim>\<open>fat_file_open\<close> fills in from the directory entry.\<close>

definition open_fields :: "Dir \<Rightarrow> u8 list \<Rightarrow> u8 \<Rightarrow> File \<Rightarrow> File" where
  "open_fields dir sfn flags file =
     (let file = file\<lparr>fl_fat := d_fat dir, fl_dir_sect := d_sect dir, fl_dir_idx := d_idx dir,
            fl_sclust := sfn_cluster sfn, fl_clust := sfn_cluster sfn, fl_sect := 0xffffffff, fl_offset := 0,
            fl_attr := sfn ! 11, fl_size := le32 sfn 28, fl_flags := flags\<rparr>
      in if fl_size file \<noteq> 0 \<and> flags AND FAT_TRUNC \<noteq> 0
         then file\<lparr>fl_size := 0, fl_flags := fl_flags file OR FAT_MODIFIED\<rparr>
         else file)"

definition fat_file_open :: "File \<Rightarrow> u8 list \<Rightarrow> u8 \<Rightarrow> Dir \<Rightarrow> 'd fs \<Rightarrow> (int \<times> File \<times> 'd fs) option" where
  "fat_file_open file path flags dir s = do {
     (err, dir, path, _, s) \<leftarrow> follow_path (dir\<lparr>d_fat := 0\<rparr>) path None s;
     if err \<noteq> 0 \<and> err \<noteq> FAT_ERR_EOF then Some (err, file, s)
     else do {
       (err, dir, s) \<leftarrow>
         (if err = FAT_ERR_EOF
          then if flags AND FAT_CREATE = 0 then Some (FAT_ERR_DENIED, dir, s)
               else let len = last_subpath_len path
               in if len = 0 then Some (FAT_ERR_PATH, dir, s)
               else do {
                 (err, clust, s) \<leftarrow> create_chain (d_fat dir) 0 s;
                 if err \<noteq> 0 then Some (err, dir, s)
                 else dir_add dir path len FAT_ATTR_ARCHIVE clust s
               }
          else Some (FAT_ERR_NONE, dir, s));
       if err \<noteq> 0 then Some (err, file, s)
       else fat_file_seek (open_fields dir (dir_ptr dir s) flags file) 0
              (if flags AND FAT_APPEND \<noteq> 0 then FAT_SEEK_END else FAT_SEEK_START) s
     }
   }"

text \<open>\<^verbatim>\<open>fat_ls\<close> returns its code and the structures it prints, one per round of its loop.\<close>

partial_function (option) ls_loop :: "Dir \<Rightarrow> DirInfo \<Rightarrow> DirInfo list \<Rightarrow> 'd fs \<Rightarrow> (DirInfo list \<times> 'd fs) option" where
  "ls_loop dir info out s =
     (let out = out @ [info];
          (r, dir, s) = fat_dir_next dir s
      in if r = 0 then ls_loop dir info out s else Some (out, s))"

definition fat_ls :: "u8 list \<Rightarrow> Dir \<Rightarrow> DirInfo \<Rightarrow> 'd fs \<Rightarrow> (int \<times> DirInfo list \<times> 'd fs) option" where
  "fat_ls path dir info s = do {
     (r, dir, s) \<leftarrow> fat_dir_open dir path s;
     if r \<noteq> 0 then Some (r, [], s)
     else do {
       (r, dir, info, s) \<leftarrow> fat_dir_read dir info s;
       if r \<noteq> 0 then Some (0, [], s)
       else do {
         (out, s) \<leftarrow> ls_loop dir info [] s;
         Some (0, out, s)
       }
     }
   }"

section \<open>Properties\<close>

lemma upd_list [simp]: "g_fat_list (snd (sync_buf p s)) = g_fat_list s" "g_fat_list (snd (update_buf p n s)) = g_fat_list s"
proof -
  show b: "g_fat_list (snd (sync_buf p s)) = g_fat_list s" for s :: "'a fs"
    by (simp add: sync_buf_def Let_def split: prod.split)
  obtain e t where sy: "sync_buf p s = (e, t)" by fastforce
  have "g_fat_list t = g_fat_list s" using b [of s] sy by simp
  then show "g_fat_list (snd (update_buf p n s)) = g_fat_list s"
    by (simp add: update_buf_def sy Let_def split: prod.split)
qed

lemma sync_fs_list [simp]: "g_fat_list (snd (sync_fs p s)) = g_fat_list s"
proof -
  obtain e t where sy: "sync_buf p s = (e, t)" by fastforce
  obtain e2 t2 where up: "update_buf p (f_info_sect (vol t p)) t = (e2, t2)" by fastforce
  define t3 where "t3 = upd_vol p (\<lambda>f. f\<lparr>f_buf := put32 (f_buf f) 488 (f_free_cnt f)\<rparr>)
    (upd_vol p (\<lambda>f. f\<lparr>f_buf := put32 (f_buf f) 492 (f_last_used f)\<rparr>) (upd_vol p (set_flag FAT_BUF_DIRTY) t2))"
  obtain e4 t4 where sy2: "sync_buf p t3 = (e4, t4)" by fastforce
  have l: "g_fat_list t = g_fat_list s" "g_fat_list t2 = g_fat_list t" "g_fat_list t4 = g_fat_list t3"
    using upd_list(1) [of p s] upd_list(2) [of p "f_info_sect (vol t p)" t] upd_list(1) [of p t3] sy up sy2 by simp_all
  have "sync_fs p s = (if e \<noteq> 0 then (e, t) else if f_flags (vol t p) AND FAT_INFO_DIRTY = 0 then (0, t)
      else if e2 \<noteq> 0 then (e2, t2) else if e4 \<noteq> 0 then (e4, t4) else (0, upd_vol p (clear_flag FAT_INFO_DIRTY) t4))"
    unfolding sync_fs_def sy Let_def prod.case up t3_def [symmetric] sy2 by simp
  then show ?thesis using l by (simp add: t3_def)
qed

lemma probe_list: "probe ops part s = (e, lba, s') \<Longrightarrow> g_fat_list s' = g_fat_list s"
  by (auto simp: probe_def read_g_buf_def Let_def split: prod.splits if_splits)

lemma probe_checked: "probe ops part s = (0, lba, s') \<Longrightarrow> check_fat (g_buf s')"
  by (auto simp: probe_def Let_def split: prod.splits if_splits)

lemma check_fat_clusters: "check_fat b \<Longrightarrow> 65525 \<le> bpb_clust_cnt b"
  by (simp add: check_fat_def split: if_splits)

lemma mount_geometry_clusters: "f_clust_cnt (mount_geometry b lba f) = bpb_clust_cnt b"
  by (simp add: mount_geometry_def Let_def)

text \<open>Mounting checks the boot sector and puts the volume at the head of the list of volumes, with the old list
  behind it, an empty sector cache and at least 65525 clusters; unmounting it afterwards restores the
  old list.\<close>

theorem mount_umount:
  assumes "fat_mount ops part p name s = (FAT_ERR_NONE, s')" and "p \<noteq> 0"
  shows "g_fat_list s' = p \<and> f_next (vol s' p) = g_fat_list s \<and> f_ops (vol s' p) = ops \<and> f_sect (vol s' p) = 0
    \<and> take (length name) (f_name (vol s' p)) = name \<and> unat (f_name_len (vol s' p)) = length name
    \<and> 65525 \<le> f_clust_cnt (vol s' p)
    \<and> (\<exists>e s''. fat_umount p s' = Some (e, s'') \<and> g_fat_list s'' = g_fat_list s)"
proof -
  obtain e lba s1 where pr: "probe ops part s = (e, lba, s1)" by (metis prod_cases3)
  let ?s2 = "upd_vol p (mount_geometry (g_buf s1) lba) s1"
  obtain ok s3 where rd: "read_g_buf ops (f_info_sect (vol ?s2 p)) ?s2 = (ok, s3)" by fastforce
  have e: "e = 0" "ok" "length name \<le> 32" using assms(1) pr rd by (auto simp: fat_mount_def Let_def split: if_splits)
  have l1: "g_fat_list s1 = g_fat_list s" by (rule probe_list [OF pr])
  have s3: "g_fat_list s3 = g_fat_list s1" "vol s3 = vol ?s2"
    using rd by (auto simp: read_g_buf_def Let_def split: prod.splits)
  have cc: "65525 \<le> f_clust_cnt (vol s3 p)"
    using check_fat_clusters [OF probe_checked] pr e(1) s3(2) by (auto simp: mount_geometry_clusters)
  define v where "v = mount_info (g_buf s3) (vol s3 p)"
  have v: "f_clust_cnt v = f_clust_cnt (vol s3 p)" by (simp add: v_def mount_info_def)
  have s': "g_fat_list s' = p" "vol s' p = v\<lparr>f_name := name @ replicate (32 - length name) 0,
      f_name_len := of_nat (length name), f_ops := ops, f_sect := 0, f_next := g_fat_list s\<rparr>"
    using assms(1) pr rd e l1 s3(1) by (auto simp: fat_mount_def Let_def v_def)
  have "umount_find p None s' = Some None" by (subst umount_find.simps) (simp add: get_link_def s'(1))
  then have um: "fat_umount p s' = Some (sync_fs p (s'\<lparr>g_fat_list := g_fat_list s\<rparr>))"
    using assms(2) s' by (simp add: fat_umount_def get_link_def set_link_def)
  obtain e' s'' where "sync_fs p (s'\<lparr>g_fat_list := g_fat_list s\<rparr>) = (e', s'')" by fastforce
  then have "fat_umount p s' = Some (e', s'') \<and> g_fat_list s'' = g_fat_list s"
    using um sync_fs_list [of p "s'\<lparr>g_fat_list := g_fat_list s\<rparr>"] by simp
  then show ?thesis using s' cc v e(3) by (auto simp: unat_of_nat_small)
qed

text \<open>A volume cannot be reached under its own name: \<^verbatim>\<open>fat_stat("/name")\<close> on a system whose only volume is mounted
  as \<^verbatim>\<open>name\<close> reports \<^verbatim>\<open>FAT_ERR_PATH\<close> and touches nothing.\<close>

theorem fat_stat_own_name:
  assumes "g_fat_list s = p" and "p \<noteq> 0" and "f_next (vol s p) = 0" and "nm \<noteq> []" and "0 \<notin> set nm" and "47 \<notin> set nm"
    and "length nm \<le> 32" and "f_name (vol s p) = nm @ replicate (32 - length nm) 0" and "f_name_len (vol s p) = of_nat (length nm)"
  shows "fat_stat (47 # nm) info dir loc s = Some (FAT_ERR_PATH, info, s)"
proof -
  have len: "subpath_len nm = length nm" using assms(5,6) by (induction nm) auto
  have "memcmp nm (f_name (vol s p)) (length nm)" using assms(8) by (simp add: memcmp_iff_take)
  then have "find_fat_volume nm (length nm) s = Some 0"
    unfolding find_fat_volume_def
    by (subst find_volume_from.simps, subst find_volume_from.simps) (simp add: assms(1-3))
  then show ?thesis using assms(4) len by (simp add: fat_stat_def follow_path_def first_char_def Let_def)
qed

text \<open>\<^verbatim>\<open>fat_file_write\<close> hides errors: when moving on after copying the first piece fails (the sector
  cannot be written, the disk is full, the chain is broken), the call still returns
  \<^verbatim>\<open>FAT_ERR_NONE\<close>, with the piece counted as written.\<close>

theorem fat_file_write_hides_errors:
  assumes "fl_fat fl \<noteq> 0" and "fl_flags fl AND FAT_WRITE \<noteq> 0" and "src \<noteq> []"
    and "idx = unat (fl_offset fl) mod 512" and "cnt = min (length src) (512 - idx)"
    and "fl1 = fl\<lparr>fl_buf := overwrite (fl_buf fl) idx (take cnt src),
           fl_flags := (fl_flags fl OR (FAT_MODIFIED OR FAT_ACCESSED)) OR FAT_FILE_DIRTY\<rparr>"
    and "fat_file_seek fl1 (int cnt) FAT_SEEK_CURR s = Some (e, fl2, s2)" and "e \<noteq> 0"
  shows "\<exists>fl3. fat_file_write fl src s = Some (FAT_ERR_NONE, cnt, fl3, s2)"
  using assms by (subst fat_file_write_def) (subst write_loop.simps, simp add: Let_def)

text \<open>A disk on which every transfer fails: writing 600 bytes at the start of a file reports success.\<close>

definition file_sample :: File where
  "file_sample = \<lparr>fl_fat = 1, fl_dir_sect = 600, fl_sclust = 5, fl_clust = 5, fl_sect = 603, fl_size = 1000, fl_offset = 0,
     fl_dir_idx = 0, fl_attr = FAT_ATTR_ARCHIVE, fl_flags = 3, fl_buf = replicate 512 0\<rparr>"

definition fs_two_sects :: "unit fs" where
  "fs_two_sects = fs_with ((fat_blank no_disk (bytes ''disk0''))\<lparr>f_clust_shift := 1, f_clust_msk := 1\<rparr>) ()"

theorem fat_file_write_hides_errors_witness:
  "\<exists>fl3. fat_file_write file_sample (replicate 600 7) fs_two_sects = Some (FAT_ERR_NONE, 512, fl3, fs_two_sects)"
proof -
  define fl1 where "fl1 = file_sample\<lparr>fl_buf := overwrite (fl_buf file_sample) 0 (take 512 (replicate 600 7)),
    fl_flags := (fl_flags file_sample OR (FAT_MODIFIED OR FAT_ACCESSED)) OR FAT_FILE_DIRTY\<rparr>"
  have v: "vol fs_two_sects p = (fat_blank no_disk (bytes ''disk0''))\<lparr>f_clust_shift := 1, f_clust_msk := 1\<rparr>"
    "fs_two_sects\<lparr>dev := u\<rparr> = fs_two_sects" for p u by (simp_all add: fs_two_sects_def fs_with_def)
  have "\<exists>fl2. fat_file_seek fl1 512 FAT_SEEK_CURR fs_two_sects = Some (- 3, fl2, fs_two_sects)"
    by (simp add: fat_file_seek_def fl1_def file_sample_def v fat_blank_def clust_to_sect_def seek_buffer_def no_disk_def Let_def)
  then obtain fl2 where "fat_file_seek fl1 512 FAT_SEEK_CURR fs_two_sects = Some (- 3, fl2, fs_two_sects)" by blast
  then show ?thesis
    using fat_file_write_hides_errors [of file_sample "replicate 600 7" 0 512 fl1 fs_two_sects "- 3" fl2 fs_two_sects]
    by (simp add: fl1_def file_sample_def)
qed

theorem fat_stat_own_name_witness:
  "\<forall>info loc. fat_stat (47 # bytes ''disk0'') info dir_root loc fs_disk0 = Some (FAT_ERR_PATH, info, fs_disk0)"
  using fat_stat_own_name [of fs_disk0 1 "bytes ''disk0''" _ dir_root]
  by (simp add: fs_disk0_simps bytes_def of_char_def)

text \<open>A disk of 100000 sectors with a boot sector in sector 0.\<close>

definition boot_sample :: "u8 list" where
  "boot_sample = put32 (put32 (put16 (put16 ((replicate 512 0)[0 := 0xeb, 13 := 1, 16 := 2]) 11 512) 14 32) 32 100000) 36 600"

definition rom_disk :: "unit DiskOps" where
  "rom_disk = \<lparr>ops_read = (\<lambda>b n d. (True, if n = 0 then boot_sample else replicate 512 0, d)), ops_write = (\<lambda>b n d. (False, d))\<rparr>"

theorem mount_umount_witness:
  "\<exists>s'. fat_mount rom_disk 0 2 (bytes ''usb'') fs_disk0 = (FAT_ERR_NONE, s') \<and> g_fat_list s' = 2
    \<and> (\<exists>e s''. fat_umount 2 s' = Some (e, s'') \<and> g_fat_list s'' = 1)"
proof -
  have c: "check_fat boot_sample" by code_simp
  obtain s' where "fat_mount rom_disk 0 2 (bytes ''usb'') fs_disk0 = (FAT_ERR_NONE, s')"
    using c by (simp add: fat_mount_def probe_def read_g_buf_def rom_disk_def Let_def)
  then show ?thesis using mount_umount [of rom_disk 0 2 "bytes ''usb''" fs_disk0 s'] fs_disk0_simps(1) by simp
qed

end
