(* ===== verification/Fat32_Content.thy ===== *)
theory Fat32_Content
  imports Fat32_File
begin

text \<open>
  What the file operations of \<^verbatim>\<open>fat32.c\<close> promise: an open file is a byte array and a position in it.
  The array is made of the sectors of the file's cluster chain, with the file's own buffer in place
  of the sector it was read from when the buffer is dirty.  On a disk that does not fail, seeking to any
  position inside the allocated clusters keeps the array, reading returns a slice of it and writing
  replaces a slice.  The volume's sector cache is assumed clean, as every operation that ends in
  \<^verbatim>\<open>sync_fs\<close> leaves it.
\<close>

section \<open>The contents of a file\<close>

definition fdirty :: "File \<Rightarrow> bool" where
  "fdirty file \<longleftrightarrow> fl_flags file AND FAT_FILE_DIRTY \<noteq> 0"

abbreviation per_clust :: "'d Fat \<Rightarrow> nat" where
  "per_clust f \<equiv> 2 ^ unat (f_clust_shift f)"

definition file_sects :: "'d Fat \<Rightarrow> u32 list \<Rightarrow> u32 list" where
  "file_sects f cs = map (\<lambda>i. clust_to_sect f (cs ! (i div per_clust f)) + of_nat (i mod per_clust f))
     [0..<per_clust f * length cs]"

definition fblocks :: "('d \<Rightarrow> u32 \<Rightarrow> u8 list) \<Rightarrow> u32 list \<Rightarrow> File \<Rightarrow> 'd fs \<Rightarrow> u8 list list" where
  "fblocks sector cs file s =
     map (\<lambda>n. if fdirty file \<and> n = fl_sect file then fl_buf file else sector (dev s) n)
       (file_sects (vol s (fl_fat file)) cs)"

definition fcontent :: "('d \<Rightarrow> u32 \<Rightarrow> u8 list) \<Rightarrow> u32 list \<Rightarrow> File \<Rightarrow> 'd fs \<Rightarrow> u8 list" where
  "fcontent sector cs file s = concat (fblocks sector cs file s)"

text \<open>The volume below an open file: the cache is clean, the chain is in the table, and the data sectors are
  distinct, on the disk and apart from the table and the cached sector.\<close>

definition vol_inv ::
  "'d DiskOps \<Rightarrow> ('d \<Rightarrow> u32 \<Rightarrow> u8 list) \<Rightarrow> ('d \<Rightarrow> bool) \<Rightarrow> ('d \<Rightarrow> u32 \<Rightarrow> bool) \<Rightarrow> u64 \<Rightarrow> u32 \<Rightarrow> u32 list \<Rightarrow> 'd fs \<Rightarrow> bool" where
  "vol_inv ops sector good reach p c cs s \<longleftrightarrow>
     (let f = vol s p
      in p \<noteq> 0 \<and> cache_inv ops sector good p s \<and> \<not> dirty f \<and> layout_ok f
         \<and> chain (ent sector p s) (f_clust_cnt f) c cs \<and> distinct (file_sects f cs)
         \<and> f_clust_shift f < 8 \<and> f_clust_msk f = 2 ^ unat (f_clust_shift f) - 1
         \<and> (\<forall>x < f_clust_cnt f. reach (dev s) (f_fat_sect0 f + x div 128))
         \<and> (\<forall>n \<in> set (file_sects f cs). reach (dev s) n \<and> n \<noteq> f_sect f \<and> (\<forall>x < f_clust_cnt f. n \<noteq> f_fat_sect0 f + x div 128)))"

definition file_inv ::
  "'d DiskOps \<Rightarrow> ('d \<Rightarrow> u32 \<Rightarrow> u8 list) \<Rightarrow> ('d \<Rightarrow> bool) \<Rightarrow> ('d \<Rightarrow> u32 \<Rightarrow> bool) \<Rightarrow> u32 list \<Rightarrow> nat \<Rightarrow> File \<Rightarrow> 'd fs \<Rightarrow> bool" where
  "file_inv ops sector good reach cs pos file s \<longleftrightarrow>
     (let f = vol s (fl_fat file)
      in vol_inv ops sector good reach (fl_fat file) (fl_sclust file) cs s
         \<and> pos < 512 * (per_clust f * length cs) \<and> pos < 2 ^ 32 \<and> fl_offset file = of_nat pos
         \<and> fl_clust file = cs ! (pos div 512 div per_clust f) \<and> fl_sect file = file_sects f cs ! (pos div 512)
         \<and> length (fl_buf file) = 512 \<and> (\<not> fdirty file \<longrightarrow> fl_buf file = sector (dev s) (fl_sect file)))"

section \<open>Blocks and flags\<close>

lemma concat_take_drop:
  assumes "\<forall>b \<in> set bs. length b = n" and "q < length bs" and "r + c \<le> n"
  shows "take c (drop (n * q + r) (concat bs)) = take c (drop r (bs ! q))"
  using assms
proof (induction bs arbitrary: q)
  case (Cons b bs)
  show ?case
  proof (cases q)
    case 0
    then show ?thesis using Cons.prems by simp
  next
    case (Suc q')
    then show ?thesis using Cons by simp
  qed
qed simp

lemma concat_update:
  assumes "\<forall>b \<in> set bs. length b = n" and "q < length bs" and "r + length xs \<le> n"
  shows "concat (bs[q := overwrite (bs ! q) r xs]) = overwrite (concat bs) (n * q + r) xs"
  using assms
proof (induction bs arbitrary: q)
  case (Cons b bs)
  show ?case
  proof (cases q)
    case 0
    then show ?thesis using Cons.prems by (simp add: overwrite_def)
  next
    case (Suc q')
    then show ?thesis using Cons by (simp add: overwrite_def add.assoc)
  qed
qed simp

lemma length_concat_blocks: "\<forall>b \<in> set bs. length b = n \<Longrightarrow> length (concat bs) = n * length bs"
  by (induction bs) simp_all

lemma and_flag_7: "x AND 0x80 \<noteq> 0 \<longleftrightarrow> bit x 7" for x :: u8
proof -
  have e: "(0x80 :: u8) = 2 ^ 7" by simp
  show ?thesis unfolding e by (simp only: and_exp_eq_0_iff_not_bit not_not)
qed

lemma bit_flag_7: "bit (0x80 :: u8) 7" "\<not> bit (0x40 :: u8) 7" "\<not> bit (0x20 :: u8) 7" "\<not> bit (0x60 :: u8) 7"
  by code_simp+

lemma fdirty_flags:
  "fdirty (file\<lparr>fl_flags := fl OR 0x80\<rparr>)" "\<not> fdirty (file\<lparr>fl_flags := fl AND NOT 0x80\<rparr>)"
  "fdirty (file\<lparr>fl_flags := fl OR 0x20\<rparr>) = fdirty (file\<lparr>fl_flags := fl\<rparr>)"
  "fdirty (file\<lparr>fl_flags := fl OR (0x40 OR 0x20)\<rparr>) = fdirty (file\<lparr>fl_flags := fl\<rparr>)"
  unfolding fdirty_def and_flag_7 by (simp_all add: bit_or_iff bit_and_iff bit_not_iff bit_flag_7)

lemma read_flag:
  "(fl AND NOT 0x80) AND FAT_READ = fl AND FAT_READ" "(fl OR 0x80) AND FAT_READ = fl AND FAT_READ"
  "(fl OR 0x20) AND FAT_READ = fl AND FAT_READ" "(fl OR 0x60) AND FAT_READ = fl AND FAT_READ" for fl :: u8
proof -
  have "(NOT 0x80 AND 2 :: u8) = 2" "(0x80 AND 2 :: u8) = 0" "(0x20 AND 2 :: u8) = 0" "(0x60 AND 2 :: u8) = 0"
    by code_simp+
  then show "(fl AND NOT 0x80) AND FAT_READ = fl AND FAT_READ" "(fl OR 0x80) AND FAT_READ = fl AND FAT_READ"
    "(fl OR 0x20) AND FAT_READ = fl AND FAT_READ" "(fl OR 0x60) AND FAT_READ = fl AND FAT_READ"
    by (simp_all only: and.assoc bit.conj_disj_distrib2 or.right_neutral)
qed

lemma chain_nth:
  "chain E cnt c cs \<Longrightarrow> i < length cs \<Longrightarrow> cs ! i < cnt \<and>
     (Suc i < length cs \<longrightarrow> E (cs ! i) = cs ! Suc i \<and> 2 \<le> cs ! Suc i \<and> cs ! Suc i < cnt)"
proof (induction E cnt c cs arbitrary: i rule: chain.induct)
  case (3 E cnt c x y ys)
  have y: "y = E c" using 3(2) by (cases ys) auto
  show ?case
  proof (cases i)
    case 0
    then show ?thesis using 3(2) y by auto
  next
    case (Suc j)
    then show ?thesis using 3 by auto
  qed
qed auto

section \<open>Positions\<close>

lemma pow_shift_bound: "f_clust_shift f < 8 \<Longrightarrow> per_clust f \<le> 128"
proof -
  assume "f_clust_shift f < 8"
  then have "unat (f_clust_shift f) \<le> 7" by (simp add: word_less_nat_alt)
  then have "(2 :: nat) ^ unat (f_clust_shift f) \<le> 2 ^ 7" by (intro power_increasing) simp_all
  then show ?thesis by simp
qed

lemma clust_size_unat: "f_clust_shift f < 8 \<Longrightarrow> unat (push_bit (unat (f_clust_shift f)) 512 :: u32) = 512 * per_clust f"
proof -
  assume "f_clust_shift f < 8"
  then have "512 * per_clust f < 2 ^ 32" using pow_shift_bound [of f] by simp
  then show ?thesis
    by (simp only: unsigned_push_bit_eq) (simp add: push_bit_eq_mult take_bit_nat_eq_self mult.commute)
qed

lemma sector_in_cluster:
  assumes "f_clust_shift f < 8" and "f_clust_msk f = 2 ^ unat (f_clust_shift f) - 1" and "t < 2 ^ 32"
  shows "(of_nat t div 512 :: u32) AND f_clust_msk f = of_nat (t div 512 mod per_clust f)"
proof -
  let ?k = "unat (f_clust_shift f)"
  have m: "f_clust_msk f = mask ?k" using assms(2) by (simp add: mask_eq_exp_minus_1)
  have u: "unat (of_nat t div 512 :: u32) = t div 512" using assms(3) by (simp add: unat_div unat_of_nat_small)
  have lt: "t div 512 mod per_clust f < 2 ^ 32"
  proof -
    have "t div 512 mod per_clust f < per_clust f" by simp
    also have "\<dots> < 2 ^ 32" using pow_shift_bound [OF assms(1)] by simp
    finally show ?thesis .
  qed
  have "unat ((of_nat t div 512 :: u32) AND mask ?k) = t div 512 mod per_clust f"
    unfolding take_bit_eq_mask [symmetric] unsigned_take_bit_eq u by (simp add: take_bit_eq_mod)
  also have "\<dots> = unat (of_nat (t div 512 mod per_clust f) :: u32)" using lt by (simp add: unat_of_nat_small)
  finally show ?thesis unfolding m by (simp only: word_unat_eq_iff)
qed

section \<open>Reading the table of a clean volume\<close>

lemma file_sects_frame: "frame p s s' \<Longrightarrow> file_sects (vol s' p) = file_sects (vol s p)"
  by (simp add: file_sects_def fun_eq_iff frame_fields clust_to_sect_def)

lemma file_sects_nth:
  "i < per_clust f * length cs \<Longrightarrow>
     file_sects f cs ! i = clust_to_sect f (cs ! (i div per_clust f)) + of_nat (i mod per_clust f)"
  by (simp add: file_sects_def)

lemma length_file_sects [simp]: "length (file_sects f cs) = per_clust f * length cs"
  by (simp add: file_sects_def)

context reliable_dev
begin

abbreviation "vi \<equiv> vol_inv ops sector good reach"
abbreviation "fi \<equiv> file_inv ops sector good reach"

lemma update_buf_clean:
  assumes inv: "ci p s" and cl: "\<not> dirty (vol s p)" and n: "n \<noteq> 0" "reach (dev s) n"
  obtains s' where "update_buf p n s = (0, s')" "\<not> dirty (vol s' p)" "sector (dev s') = sector (dev s)"
    "reach (dev s') = reach (dev s)"
proof -
  have f: "f_ops (vol s p) = ops" "length (f_buf (vol s p)) = 512" "good (dev s)" using inv by (auto simp: cache_inv_def)
  obtain r b d where rd: "ops_read ops (f_buf (vol s p)) n (dev s) = (r, b, d)" by (metis prod_cases3)
  have r: "r" using read_ok [OF f(3,2) n(2)] rd by simp
  have law: "sector d = sector (dev s)" "reach d = reach (dev s)"
    using read_law [OF f(3,2) rd] read_reach [OF f(3,2) rd] by auto
  have sy: "sync_buf p s = (0, s)" using cl by (simp add: sync_buf_def and_flag_bits dirty_def)
  define s2 where "s2 = upd_vol p (\<lambda>f. f\<lparr>f_sect := n\<rparr>) (upd_vol p (\<lambda>f. f\<lparr>f_buf := b\<rparr>) (s\<lparr>dev := d\<rparr>))"
  have "update_buf p n s = (0, if f_sect (vol s p) = n then s else s2)"
    unfolding update_buf_def sy Let_def prod.case f(1) rd s2_def using r by simp
  moreover have "\<not> dirty (vol s2 p)" "sector (dev s2) = sector (dev s)" "reach (dev s2) = reach (dev s)"
    using cl law by (simp_all add: s2_def)
  ultimately show thesis using that cl by (metis (full_types))
qed

text \<open>Reading the entry of a cluster keeps everything an open file relies on.\<close>

lemma get_fat_link:
  assumes inv: "vi p c cs s" and i: "Suc i < length cs"
  obtains fl s' where "get_fat p (cs ! i) out s = (0, (cs ! Suc i, fl), s')" "fl AND 9 = 0" "fl AND 4 = 0"
    "vi p c cs s'" "frame p s s'" "sector (dev s') = sector (dev s)"
proof -
  let ?f = "vol s p"
  have v: "ci p s" "\<not> dirty ?f" "layout_ok ?f" "chain (ent sector p s) (f_clust_cnt ?f) c cs" "p \<noteq> 0"
    "\<And>x. x < f_clust_cnt ?f \<Longrightarrow> reach (dev s) (f_fat_sect0 ?f + x div 128)"
    using inv by (auto simp: vol_inv_def Let_def)
  have x: "cs ! i < f_clust_cnt ?f" "ent sector p s (cs ! i) = cs ! Suc i" "2 \<le> cs ! Suc i" "cs ! Suc i < f_clust_cnt ?f"
    using chain_nth [OF v(4), of i] i by auto
  have cnt: "f_clust_cnt ?f \<le> 0x0ffffff7" "f_fat_sect0 ?f + cs ! i div 128 \<noteq> 0" using v(3) x(1) by (auto simp: layout_ok_def)
  have cls: "classify (f_clust_cnt ?f) (cs ! Suc i) = Some 2"
  proof -
    have "cs ! Suc i < 0x0ffffff7" using x(4) cnt(1) by (rule less_le_trans)
    then have "\<not> 0x0ffffff8 \<le> cs ! Suc i" "cs ! Suc i \<noteq> 0x0ffffff7" by (auto simp: word_less_nat_alt word_le_nat_alt)
    moreover have "cs ! Suc i \<noteq> 0" using x(3) by (auto simp: word_le_nat_alt)
    ultimately show ?thesis using x(3,4) by (simp add: classify_def)
  qed
  obtain s' where u: "update_buf p (f_fat_sect0 ?f + cs ! i div 128) s = (0, s')" "\<not> dirty (vol s' p)"
      "sector (dev s') = sector (dev s)" "reach (dev s') = reach (dev s)"
    using update_buf_clean [OF v(1,2) cnt(2) v(6) [OF x(1)]] by blast
  note U = update_buf_spec [OF v(1) cnt(2) u(1)]
  have "le32 (f_buf (vol s' p)) (4 * unat (cs ! i mod 128)) AND 0x0fffffff = cs ! Suc i"
    using U(5) x(2) by (simp add: ent_def tab_def)
  then have "get_fat p (cs ! i) out s = (0, (cs ! Suc i, 2), s')"
    using cls frame_fields(1) [OF U(2)] unfolding get_fat_def u(1) Let_def prod.case classify_def
    by (simp split: if_splits)
  moreover have "vi p c cs s'"
  proof -
    have "ent sector p s' = ent sector p s" by (rule ent_frame [OF U(2,3)])
    then show ?thesis using inv U(1,4) u(2,4) x(1) layout_frame [OF U(2)]
      unfolding vol_inv_def Let_def file_sects_frame [OF U(2)] frame_fields [OF U(2)] by auto
  qed
  ultimately show thesis using U(2) u(3) by (intro that [of 2 s']) simp_all
qed

lemma seek_chain_moves:
  fixes fl :: File
  assumes "vi (fl_fat fl) c cs s" and "fl_clust fl = cs ! i" and "i + n < length cs"
  shows "\<exists>s'. seek_chain n fl s = Some (0, fl\<lparr>fl_clust := cs ! (i + n)\<rparr>, s') \<and> vi (fl_fat fl) c cs s'
    \<and> frame (fl_fat fl) s s' \<and> sector (dev s') = sector (dev s)"
  using assms
proof (induction n arbitrary: i fl s)
  case 0
  then have "fl\<lparr>fl_clust := cs ! (i + 0)\<rparr> = fl" by (cases fl) simp
  then show ?case using 0 by auto
next
  case (Suc n)
  have i: "Suc i < length cs" using Suc.prems(3) by simp
  obtain cl s1 where g: "get_fat (fl_fat fl) (cs ! i) (0, uninit s) s = (0, (cs ! Suc i, cl), s1)" "cl AND 9 = 0"
      "cl AND 4 = 0" "vi (fl_fat fl) c cs s1" "frame (fl_fat fl) s s1" "sector (dev s1) = sector (dev s)"
    using get_fat_link [OF Suc.prems(1) i] by blast
  let ?fl = "fl\<lparr>fl_clust := cs ! Suc i\<rparr>"
  obtain s' where s': "seek_chain n ?fl s1 = Some (0, ?fl\<lparr>fl_clust := cs ! (Suc i + n)\<rparr>, s')"
      "vi (fl_fat fl) c cs s'" "frame (fl_fat fl) s1 s'" "sector (dev s') = sector (dev s1)"
    using Suc.IH [of ?fl s1 "Suc i"] g(4) Suc.prems(3) by auto
  have "seek_chain (Suc n) fl s = seek_chain n ?fl s1"
    using g(1,2,3) Suc.prems(2) by simp
  then show ?case using s' g(6) frame_trans [OF g(5) s'(3)] by simp
qed

text \<open>Transfers of a data sector.\<close>

lemma ent_dev:
  assumes "\<not> dirty (vol s p)" and "sector d = (sector (dev s))(n := b)" and "n \<noteq> f_fat_sect0 (vol s p) + x div 128"
  shows "ent sector p (s\<lparr>dev := d\<rparr>) x = ent sector p s x"
  using assms by (simp add: ent_def tab_def lsect_def)

lemma vol_inv_dev:
  assumes inv: "vi p c cs s" and d: "good d" "reach d = reach (dev s)" "sector d = (sector (dev s))(n := b)"
    and n: "n \<in> set (file_sects (vol s p) cs)"
  shows "vi p c cs (s\<lparr>dev := d\<rparr>)"
proof -
  let ?f = "vol s p"
  have v: "\<not> dirty ?f" "chain (ent sector p s) (f_clust_cnt ?f) c cs" "n \<noteq> f_sect ?f"
    "\<And>x. x < f_clust_cnt ?f \<Longrightarrow> n \<noteq> f_fat_sect0 ?f + x div 128"
    using inv n by (auto simp: vol_inv_def Let_def)
  have "chain (ent sector p (s\<lparr>dev := d\<rparr>)) (f_clust_cnt ?f) c cs"
    using v(2)
  proof (rule chain_cong)
    fix x assume "x \<in> set cs"
    then have "x < f_clust_cnt ?f" using chain_nth [OF v(2)] by (metis in_set_conv_nth)
    then show "ent sector p (s\<lparr>dev := d\<rparr>) x = ent sector p s x" by (rule ent_dev [OF v(1) d(3) v(4)])
  qed
  moreover have "ci p (s\<lparr>dev := d\<rparr>)"
    using inv d(1,3) v(3) by (simp add: vol_inv_def cache_inv_def Let_def)
  ultimately show ?thesis using inv d(2) by (simp add: vol_inv_def Let_def)
qed

lemma write_data:
  assumes inv: "vi p c cs s" and n: "n \<in> set (file_sects (vol s p) cs)" and b: "length b = 512"
  obtains d where "ops_write (f_ops (vol s p)) b n (dev s) = (True, d)" "vi p c cs (s\<lparr>dev := d\<rparr>)"
    "sector d = (sector (dev s))(n := b)"
proof -
  have g: "good (dev s)" "f_ops (vol s p) = ops" "reach (dev s) n" using inv n by (auto simp: vol_inv_def cache_inv_def Let_def)
  obtain r d where w: "ops_write ops b n (dev s) = (r, d)" by fastforce
  have r: "r" using write_ok [OF g(1) b g(3)] w by simp
  have "sector d = (sector (dev s))(n := b)" using write_law [OF g(1) b w] r by auto
  moreover have "vi p c cs (s\<lparr>dev := d\<rparr>)"
    using vol_inv_dev [OF inv _ write_reach [OF g(1) b w] calculation n] write_law [OF g(1) b w] by blast
  ultimately show thesis using that w r g(2) by simp
qed

lemma read_data:
  assumes inv: "vi p c cs s" and n: "n \<in> set (file_sects (vol s p) cs)" and b: "length b = 512"
  obtains d where "ops_read (f_ops (vol s p)) b n (dev s) = (True, sector (dev s) n, d)" "vi p c cs (s\<lparr>dev := d\<rparr>)"
    "sector d = sector (dev s)"
proof -
  have g: "good (dev s)" "f_ops (vol s p) = ops" "reach (dev s) n" using inv n by (auto simp: vol_inv_def cache_inv_def Let_def)
  obtain r b' d where w: "ops_read ops b n (dev s) = (r, b', d)" by (metis prod_cases3)
  have r: "r" using read_ok [OF g(1) b g(3)] w by simp
  have law: "b' = sector (dev s) n" "sector d = sector (dev s)" "good d" using read_law [OF g(1) b w] r by auto
  have "sector d = (sector (dev s))(n := sector (dev s) n)" using law(2) by simp
  then have "vi p c cs (s\<lparr>dev := d\<rparr>)" by (rule vol_inv_dev [OF inv law(3) read_reach [OF g(1) b w] _ n])
  then show thesis using that w r g(2) law by simp
qed

text \<open>Exchanging the buffer of a file keeps its contents.\<close>

lemma seek_buffer_spec:
  assumes inv: "vi (fl_fat fl) c cs s" and n: "fl_sect fl \<in> set (file_sects (vol s (fl_fat fl)) cs)"
      "ss \<in> set (file_sects (vol s (fl_fat fl)) cs)"
    and b: "length (fl_buf fl) = 512" "\<not> fdirty fl \<Longrightarrow> fl_buf fl = sector (dev s) ss"
  obtains fl' s' where "seek_buffer ss fl s = (0, fl', s')" "vi (fl_fat fl) c cs s'" "frame (fl_fat fl) s s'"
    "fl' = fl\<lparr>fl_buf := fl_buf fl', fl_flags := fl_flags fl'\<rparr>" "length (fl_buf fl') = 512"
    "\<not> fdirty fl' \<Longrightarrow> fl_buf fl' = sector (dev s') (fl_sect fl)"
    "fcontent sector cs fl' s' = fcontent sector cs (fl\<lparr>fl_sect := ss\<rparr>) s"
    "fl_flags fl' AND FAT_READ = fl_flags fl AND FAT_READ"
proof (cases "fl_sect fl = ss")
  case True
  then have eq: "fl\<lparr>fl_sect := ss\<rparr> = fl" by (cases fl) simp
  have "fcontent sector cs fl s = fcontent sector cs (fl\<lparr>fl_sect := ss\<rparr>) s" by (simp only: eq)
  then show thesis using that [of fl s] True inv b by (simp add: seek_buffer_def)
next
  case False
  define p where "p = fl_fat fl"
  let ?w = "fdirty fl" and ?ops = "f_ops (vol s p)"
  obtain d where d: "(if ?w then ops_write ?ops (fl_buf fl) ss (dev s) else (True, dev s)) = (True, d)"
      "vi p c cs (s\<lparr>dev := d\<rparr>)" "sector d = (if ?w then (sector (dev s))(ss := fl_buf fl) else sector (dev s))"
  proof (cases ?w)
    case True
    obtain d where "ops_write ?ops (fl_buf fl) ss (dev s) = (True, d)" "vi p c cs (s\<lparr>dev := d\<rparr>)"
        "sector d = (sector (dev s))(ss := fl_buf fl)"
      using write_data [OF inv n(2) b(1)] unfolding p_def by blast
    then show thesis using True by (intro that [of d]) simp_all
  next
    case w: False
    have "s\<lparr>dev := dev s\<rparr> = s" by simp
    then show thesis using that [of "dev s"] w inv by (simp add: p_def)
  qed
  let ?s1 = "s\<lparr>dev := d\<rparr>"
  obtain d2 where d2: "ops_read ?ops (fl_buf fl) (fl_sect fl) d = (True, sector d (fl_sect fl), d2)"
      "vi p c cs (?s1\<lparr>dev := d2\<rparr>)" "sector d2 = sector d"
    using read_data [OF d(2) _ b(1), of "fl_sect fl"] n(1) by (auto simp: p_def)
  define fl1 where "fl1 = (if ?w then fl\<lparr>fl_flags := fl_flags fl AND NOT FAT_FILE_DIRTY\<rparr> else fl)"
  define fl' where "fl' = fl1\<lparr>fl_buf := sector d (fl_sect fl)\<rparr>"
  let ?s' = "s\<lparr>dev := d2\<rparr>"
  have fl1: "fl_buf fl1 = fl_buf fl" "fl_sect fl1 = fl_sect fl" "fl_fat fl1 = p" by (simp_all add: fl1_def p_def)
  have clean: "\<not> fdirty fl'"
    using fdirty_flags(2) [of "fl_flags fl" fl] by (auto simp: fl'_def fl1_def fdirty_def)
  have "seek_buffer ss fl s = (0, fl', ?s')"
    using False d(1) d2(1) fl1 unfolding seek_buffer_def p_def [symmetric] fdirty_def [symmetric] Let_def fl'_def fl1_def
    by simp
  moreover have "vi p c cs ?s'" using d2(2) by simp
  moreover have "frame p s ?s'" by (simp add: frame_def)
  moreover have "fl' = fl\<lparr>fl_buf := fl_buf fl', fl_flags := fl_flags fl'\<rparr>" by (simp add: fl'_def fl1_def)
  moreover have "length (fl_buf fl') = 512"
    using d(2) sector_size by (simp add: fl'_def vol_inv_def cache_inv_def Let_def)
  moreover have "fl_buf fl' = sector (dev ?s') (fl_sect fl)" using d2(3) by (simp add: fl'_def)
  moreover have "fcontent sector cs fl' ?s' = fcontent sector cs (fl\<lparr>fl_sect := ss\<rparr>) s"
  proof -
    have "fdirty (fl\<lparr>fl_sect := ss\<rparr>) = ?w" by (simp add: fdirty_def)
    then have "fblocks sector cs fl' ?s' = fblocks sector cs (fl\<lparr>fl_sect := ss\<rparr>) s"
      using clean d(3) d2(3) b(2) fl1(3) by (auto simp: fblocks_def fl'_def p_def)
    then show ?thesis by (simp add: fcontent_def)
  qed
  moreover have "fl_flags fl' AND FAT_READ = fl_flags fl AND FAT_READ"
  proof -
    have "fl_flags fl' = (if ?w then fl_flags fl AND NOT 0x80 else fl_flags fl)" by (simp add: fl'_def fl1_def)
    then show ?thesis by (metis read_flag(1))
  qed
  ultimately show thesis using that [of fl' ?s'] by (simp add: p_def)
qed

end

definition same_file :: "File \<Rightarrow> File \<Rightarrow> bool" where
  "same_file fl fl' \<longleftrightarrow> fl_fat fl' = fl_fat fl \<and> fl_sclust fl' = fl_sclust fl \<and> fl_size fl' = fl_size fl
     \<and> fl_dir_sect fl' = fl_dir_sect fl \<and> fl_dir_idx fl' = fl_dir_idx fl \<and> fl_attr fl' = fl_attr fl
     \<and> fl_flags fl' AND FAT_READ = fl_flags fl AND FAT_READ"

lemma same_file_trans: "same_file a b \<Longrightarrow> same_file b c \<Longrightarrow> same_file a c"
  by (simp add: same_file_def)

definition seek_base :: "fat_seek \<Rightarrow> File \<Rightarrow> int" where
  "seek_base seek fl =
     (case seek of FAT_SEEK_START \<Rightarrow> 0 | FAT_SEEK_CURR \<Rightarrow> uint (fl_offset fl) | FAT_SEEK_END \<Rightarrow> uint (fl_size fl))"

lemma cluster_index:
  assumes "f_clust_shift f < 8" and "t < 2 ^ 32"
  shows "unat (of_nat t div push_bit (unat (f_clust_shift f)) 512 :: u32) = t div 512 div per_clust f"
  using assms clust_size_unat [OF assms(1)] by (simp add: unat_div unat_of_nat_small div_mult2_eq)

context reliable_dev
begin

text \<open>A seek to any position inside the allocated clusters, forwards or backwards.\<close>

lemma seek_spec:
  assumes inv: "fi cs pos fl s" and t: "t < 512 * (per_clust (vol s (fl_fat fl)) * length cs)" "t < 2 ^ 32"
    and tgt: "seek_base seek fl + off = int t"
  obtains fl' s' where "fat_file_seek fl off seek s = Some (0, fl', s')" "fi cs t fl' s'" "same_file fl fl'"
    "frame (fl_fat fl) s s'" "fcontent sector cs fl' s' = fcontent sector cs fl s"
proof -
  define p where "p = fl_fat fl"
  define f where "f = vol s p"
  let ?k = "per_clust f"
  let ?cl = "push_bit (unat (f_clust_shift f)) 512 :: u32"
  let ?dst = "of_nat t div ?cl :: u32" and ?src = "fl_offset fl div ?cl"
  have i: "vi p (fl_sclust fl) cs s" "pos < 512 * (?k * length cs)" "pos < 2 ^ 32" "fl_offset fl = of_nat pos"
    "fl_clust fl = cs ! (pos div 512 div ?k)" "fl_sect fl = file_sects f cs ! (pos div 512)" "length (fl_buf fl) = 512"
    "\<not> fdirty fl \<Longrightarrow> fl_buf fl = sector (dev s) (fl_sect fl)"
    using inv by (auto simp: file_inv_def Let_def p_def f_def)
  have g: "p \<noteq> 0" "f_clust_shift f < 8" "f_clust_msk f = 2 ^ unat (f_clust_shift f) - 1"
    "chain (ent sector p s) (f_clust_cnt f) (fl_sclust fl) cs"
    using i(1) by (auto simp: vol_inv_def Let_def f_def)
  have ix: "unat ?dst = t div 512 div ?k" "unat ?src = pos div 512 div ?k"
    using cluster_index [OF g(2)] t(2) i(3,4) by auto
  have tk: "t div 512 < ?k * length cs" "pos div 512 < ?k * length cs" using t(1) i(2) by (auto simp: p_def f_def)
  then have tc: "t div 512 div ?k < length cs" by (simp add: less_mult_imp_div_less mult.commute)
  define rs where "rs \<longleftrightarrow> ?dst < ?src"
  define fl1 where "fl1 = (if rs then fl\<lparr>fl_clust := fl_sclust fl, fl_sect := clust_to_sect f (fl_sclust fl), fl_offset := 0\<rparr> else fl)"
  define i0 where "i0 = (if rs then 0 else pos div 512 div ?k)"
  have n: "i0 + unat (?dst - (if rs then 0 else ?src)) = t div 512 div ?k"
  proof (cases rs)
    case False
    then have le: "?src \<le> ?dst" by (simp add: rs_def)
    then have "unat ?src \<le> unat ?dst" by (simp only: word_le_nat_alt)
    then show ?thesis using False ix unat_sub [OF le] by (simp add: i0_def)
  qed (use ix in \<open>simp add: i0_def\<close>)
  have c1: "fl_clust fl1 = cs ! i0"
  proof -
    have "cs ! 0 = fl_sclust fl" using chain_head [OF g(4)] by auto
    then show ?thesis using i(5) by (simp add: fl1_def i0_def)
  qed
  have p1: "fl_fat fl1 = p" by (simp add: fl1_def p_def)
  obtain s1 where s1: "seek_chain (unat (?dst - (if rs then 0 else ?src))) fl1 s =
        Some (0, fl1\<lparr>fl_clust := cs ! (t div 512 div ?k)\<rparr>, s1)" "vi p (fl_sclust fl) cs s1" "frame p s s1"
      "sector (dev s1) = sector (dev s)"
    using seek_chain_moves [of fl1 "fl_sclust fl" cs s i0 "unat (?dst - (if rs then 0 else ?src))"] i(1) c1 n tc p1 by auto
  have fs: "file_sects (vol s1 p) = file_sects f" using file_sects_frame [OF s1(3)] by (simp add: f_def)
  define fl2 where "fl2 = fl1\<lparr>fl_clust := cs ! (t div 512 div ?k), fl_sect := file_sects f cs ! (t div 512), fl_offset := of_nat t\<rparr>"
  have nx: "clust_to_sect (vol s1 p) (cs ! (t div 512 div ?k)) + ((of_nat t div 512) AND f_clust_msk (vol s1 p))
      = file_sects f cs ! (t div 512)"
  proof -
    have "f_clust_msk (vol s1 p) = f_clust_msk f" "clust_to_sect (vol s1 p) = clust_to_sect f"
      using frame_fields [OF s1(3)] by (simp_all add: f_def clust_to_sect_def fun_eq_iff)
    then show ?thesis using sector_in_cluster [OF g(2,3) t(2)] tk(1) by (simp add: file_sects_nth)
  qed
  have mem: "fl_sect fl \<in> set (file_sects f cs)" "file_sects f cs ! (t div 512) \<in> set (file_sects f cs)"
    using tk i(6) by simp_all
  have fl2: "fl_fat fl2 = p" "fl_buf fl2 = fl_buf fl" "fl_flags fl2 = fl_flags fl" "fdirty fl2 = fdirty fl"
      "fl_sclust fl2 = fl_sclust fl" "same_file fl fl2"
    by (simp_all add: fl2_def fl1_def p_def fdirty_def same_file_def)
  obtain fl' s' where z: "seek_buffer (fl_sect fl) fl2 s1 = (0, fl', s')" "vi p (fl_sclust fl) cs s'" "frame p s1 s'"
    "fl' = fl2\<lparr>fl_buf := fl_buf fl', fl_flags := fl_flags fl'\<rparr>" "length (fl_buf fl') = 512"
    "\<not> fdirty fl' \<Longrightarrow> fl_buf fl' = sector (dev s') (fl_sect fl2)"
    "fcontent sector cs fl' s' = fcontent sector cs (fl2\<lparr>fl_sect := fl_sect fl\<rparr>) s1"
    "fl_flags fl' AND FAT_READ = fl_flags fl2 AND FAT_READ"
    using seek_buffer_spec [of fl2 "fl_sclust fl" cs s1 "fl_sect fl"] s1(2,4) fl2 mem fs i(7,8)
    by (auto simp: fl2_def)
  have run: "fat_file_seek fl off seek s = Some (0, fl', s')"
  proof -
    have o: "(case seek of FAT_SEEK_START \<Rightarrow> 0 | FAT_SEEK_CURR \<Rightarrow> uint (fl_offset fl) | FAT_SEEK_END \<Rightarrow> uint (fl_size fl)) + off = int t"
      using tgt by (simp add: seek_base_def)
    have b: "\<not> (int t < 0 \<or> 0xffffffff < int t)" using t(2) by simp
    have "(if ?dst < ?src
           then (fl\<lparr>fl_clust := fl_sclust fl, fl_sect := clust_to_sect f (fl_sclust fl), fl_offset := 0\<rparr>, 0)
           else (fl, ?src)) = (fl1, if rs then 0 else ?src)" by (simp add: fl1_def rs_def)
    then show ?thesis
      unfolding fat_file_seek_def Let_def o p_def [symmetric] f_def [symmetric] of_int_of_nat_eq
      using b g(1) s1(1) nx p1 z(1) by (simp add: fl2_def)
  qed
  have "same_file fl2 (fl2\<lparr>fl_buf := fl_buf fl', fl_flags := fl_flags fl'\<rparr>)" using z(8) by (simp add: same_file_def)
  then have "same_file fl fl'" using z(4) same_file_trans [OF fl2(6)] by simp
  moreover have fr: "frame p s s'" by (rule frame_trans [OF s1(3) z(3)])
  moreover have "fi cs t fl' s'"
  proof -
    have "file_sects (vol s' p) = file_sects f" "per_clust (vol s' p) = ?k"
      using file_sects_frame [OF fr] frame_fields [OF fr] by (simp_all add: f_def)
    moreover have "fl_fat fl' = p" "fl_sclust fl' = fl_sclust fl" "fl_offset fl' = of_nat t"
        "fl_clust fl' = cs ! (t div 512 div ?k)" "fl_sect fl' = file_sects f cs ! (t div 512)"
      by (subst z(4), simp add: fl2_def fl1_def p_def)+
    ultimately show ?thesis using z(2,5,6) t by (simp add: file_inv_def Let_def p_def f_def fl2_def)
  qed
  moreover have "fcontent sector cs fl' s' = fcontent sector cs fl s"
  proof -
    have "fblocks sector cs (fl2\<lparr>fl_sect := fl_sect fl\<rparr>) s1 = fblocks sector cs fl s"
      using fl2 fs s1(4) by (simp add: fblocks_def fdirty_def p_def f_def)
    then show ?thesis using z(7) by (simp add: fcontent_def)
  qed
  ultimately show thesis using that run by (simp add: p_def)
qed

text \<open>The current sector of the file is its buffer, and the file's position is in it.\<close>

lemma fblocks_here:
  assumes "fi cs pos fl s"
  shows "pos div 512 < length (fblocks sector cs fl s)" "fblocks sector cs fl s ! (pos div 512) = fl_buf fl"
    "\<forall>b \<in> set (fblocks sector cs fl s). length b = 512" "unat (fl_offset fl) = pos"
    "uint (fl_offset fl) = int pos"
proof -
  let ?f = "vol s (fl_fat fl)"
  have i: "pos < 512 * (per_clust ?f * length cs)" "pos < 2 ^ 32" "fl_offset fl = of_nat pos"
      "fl_sect fl = file_sects ?f cs ! (pos div 512)" "length (fl_buf fl) = 512"
      "\<not> fdirty fl \<Longrightarrow> fl_buf fl = sector (dev s) (fl_sect fl)" "good (dev s)"
    using assms by (auto simp: file_inv_def Let_def vol_inv_def cache_inv_def)
  show q: "pos div 512 < length (fblocks sector cs fl s)" using i(1) by (simp add: fblocks_def)
  show "fblocks sector cs fl s ! (pos div 512) = fl_buf fl"
    using q i(4,6) by (cases "fdirty fl") (simp_all add: fblocks_def)
  show "\<forall>b \<in> set (fblocks sector cs fl s). length b = 512" using i(5,7) sector_size by (auto simp: fblocks_def)
  show u: "unat (fl_offset fl) = pos" using i(2,3) by (simp add: unat_of_nat_small)
  show "uint (fl_offset fl) = int pos" unfolding u [symmetric] by simp
qed

lemma read_loop_spec:
  assumes "fi cs pos fl s" and "pos + len \<le> unat (fl_size fl)"
    and "pos + len < 512 * (per_clust (vol s (fl_fat fl)) * length cs)"
  shows "\<exists>fl' s'. read_loop len out fl s = Some (0, out @ take len (drop pos (fcontent sector cs fl s)), fl', s')
    \<and> fi cs (pos + len) fl' s' \<and> same_file fl fl' \<and> frame (fl_fat fl) s s' \<and> fcontent sector cs fl' s' = fcontent sector cs fl s"
  using assms
proof (induction len arbitrary: pos fl s out rule: less_induct)
  case (less len)
  let ?c = "fcontent sector cs fl s"
  show ?case
  proof (cases "len = 0")
    case True
    then show ?thesis using less.prems by (subst read_loop.simps) (simp add: same_file_def)
  next
    case False
    note here = fblocks_here [OF less.prems(1)]
    define r where "r = pos mod 512"
    define cnt where "cnt = min len (512 - r)"
    have r: "r < 512" "pos = 512 * (pos div 512) + r" by (simp_all add: r_def)
    have cnt: "0 < cnt" "cnt \<le> len" "r + cnt \<le> 512" using False r(1) by (auto simp: cnt_def)
    have lt: "fl_offset fl < fl_size fl" "unat (fl_size fl - fl_offset fl) = unat (fl_size fl) - pos"
      using less.prems(2) False here(4) by (auto simp: word_less_nat_alt unat_sub word_le_nat_alt)
    have c: "min len (min (512 - r) (unat (fl_size fl) - pos)) = cnt" using less.prems(2) by (simp add: cnt_def)
    have piece: "take cnt (drop r (fl_buf fl)) = take cnt (drop pos ?c)"
      using concat_take_drop [OF here(3,1) cnt(3)] r(2) here(2) by (simp add: fcontent_def)
    have "pos + cnt < 2 ^ 32" "seek_base FAT_SEEK_CURR fl + int cnt = int (pos + cnt)"
      using less.prems(2) cnt(2) unat_less_pow [of "fl_size fl"] here(5) by (simp_all add: seek_base_def)
    then obtain fl1 s1 where k: "fat_file_seek fl (int cnt) FAT_SEEK_CURR s = Some (0, fl1, s1)" "fi cs (pos + cnt) fl1 s1"
        "same_file fl fl1" "frame (fl_fat fl) s s1" "fcontent sector cs fl1 s1 = ?c"
      using seek_spec [OF less.prems(1), of "pos + cnt" FAT_SEEK_CURR "int cnt"] less.prems(3) cnt(2) by auto
    have sf: "fl_size fl1 = fl_size fl" "fl_fat fl1 = fl_fat fl" using k(3) by (simp_all add: same_file_def)
    have step: "read_loop len out fl s = read_loop (len - cnt) (out @ take cnt (drop pos ?c)) fl1 s1"
      using False lt here(4) c k(1) piece unfolding r_def by (subst read_loop.simps) (simp add: Let_def)
    have pre: "len - cnt < len" "pos + cnt + (len - cnt) \<le> unat (fl_size fl1)"
        "pos + cnt + (len - cnt) < 512 * (per_clust (vol s1 (fl_fat fl1)) * length cs)"
      using cnt less.prems(2,3) sf frame_fields(8) [OF k(4)] by auto
    obtain fl' s' where z: "read_loop (len - cnt) (out @ take cnt (drop pos ?c)) fl1 s1 =
          Some (0, (out @ take cnt (drop pos ?c)) @ take (len - cnt) (drop (pos + cnt) ?c), fl', s')"
        "fi cs (pos + cnt + (len - cnt)) fl' s'" "same_file fl1 fl'" "frame (fl_fat fl) s1 s'" "fcontent sector cs fl' s' = ?c"
      using less.IH [OF pre(1) k(2) pre(2,3), of "out @ take cnt (drop pos ?c)"] k(5) sf(2) by auto
    have "take cnt (drop pos ?c) @ take (len - cnt) (drop (pos + cnt) ?c) = take len (drop pos ?c)"
      using take_add [of cnt "len - cnt" "drop pos ?c"] cnt(2) by (simp add: add.commute)
    then show ?thesis
      using step z cnt(2) same_file_trans [OF k(3) z(3)] frame_trans [OF k(4) z(4)] by simp
  qed
qed

lemma overwrite_append:
  "off + length a + length b \<le> length c \<Longrightarrow> overwrite (overwrite c off a) (off + length a) b = overwrite c off (a @ b)"
  by (simp add: overwrite_def ac_simps)

text \<open>Changing bytes of the buffer changes the same bytes of the contents.\<close>

lemma poke_buffer:
  assumes inv: "fi cs pos fl s" and xs: "pos mod 512 + length xs \<le> 512"
  defines "fl1 \<equiv> fl\<lparr>fl_buf := overwrite (fl_buf fl) (pos mod 512) xs, fl_flags := fl_flags fl OR FAT_FILE_DIRTY\<rparr>"
  shows "fi cs pos fl1 s" "fcontent sector cs fl1 s = overwrite (fcontent sector cs fl s) pos xs" "same_file fl fl1"
proof -
  let ?f = "vol s (fl_fat fl)"
  note here = fblocks_here [OF inv]
  have d: "fdirty fl1" using fdirty_flags(1) by (simp add: fl1_def fdirty_def)
  have i: "distinct (file_sects ?f cs)" "fl_sect fl = file_sects ?f cs ! (pos div 512)" "length (fl_buf fl) = 512"
    using inv by (auto simp: file_inv_def vol_inv_def Let_def)
  show "fi cs pos fl1 s" using inv d xs by (simp add: file_inv_def Let_def fl1_def)
  show "same_file fl fl1" by (simp add: same_file_def fl1_def read_flag)
  have "fblocks sector cs fl1 s = (fblocks sector cs fl s)[pos div 512 := fl_buf fl1]"
  proof (rule nth_equalityI)
    fix j assume j: "j < length (fblocks sector cs fl1 s)"
    then have "file_sects ?f cs ! j = fl_sect fl \<longleftrightarrow> j = pos div 512"
      using i(1,2) here(1) by (simp add: fblocks_def nth_eq_iff_index_eq fl1_def)
    then show "fblocks sector cs fl1 s ! j = (fblocks sector cs fl s)[pos div 512 := fl_buf fl1] ! j"
      using j d here(1) by (cases "j = pos div 512") (simp_all add: fblocks_def fl1_def)
  qed (simp add: fblocks_def fl1_def)
  then have "fcontent sector cs fl1 s = concat ((fblocks sector cs fl s)
      [pos div 512 := overwrite (fblocks sector cs fl s ! (pos div 512)) (pos mod 512) xs])"
    using here(2) by (simp add: fcontent_def fl1_def)
  also have "\<dots> = overwrite (fcontent sector cs fl s) (512 * (pos div 512) + pos mod 512) xs"
    unfolding fcontent_def by (rule concat_update [OF here(3,1) xs])
  finally show "fcontent sector cs fl1 s = overwrite (fcontent sector cs fl s) pos xs" by simp
qed

lemma write_loop_spec:
  assumes "fi cs pos fl s" and "pos + length src < 2 ^ 32"
    and "pos + length src < 512 * (per_clust (vol s (fl_fat fl)) * length cs)"
  shows "\<exists>fl' s'. write_loop src n fl s = Some (n + length src, fl', s') \<and> fi cs (pos + length src) fl' s' \<and> same_file fl fl'
    \<and> frame (fl_fat fl) s s' \<and> fcontent sector cs fl' s' = overwrite (fcontent sector cs fl s) pos src"
  using assms
proof (induction "length src" arbitrary: src pos fl s n rule: less_induct)
  case less
  let ?c = "fcontent sector cs fl s"
  show ?case
  proof (cases "src = []")
    case True
    then show ?thesis using less.prems by (subst write_loop.simps) (simp add: same_file_def)
  next
    case False
    note here = fblocks_here [OF less.prems(1)]
    define cnt where "cnt = min (length src) (512 - pos mod 512)"
    define a where "a = take cnt src"
    define b where "b = drop cnt src"
    have ab: "src = a @ b" "length a = cnt" "length b < length src" "0 < cnt" "pos mod 512 + length a \<le> 512"
      using False by (auto simp: a_def b_def cnt_def)
    define fl1 where "fl1 = fl\<lparr>fl_buf := overwrite (fl_buf fl) (pos mod 512) a, fl_flags := fl_flags fl OR FAT_FILE_DIRTY\<rparr>"
    note pk = poke_buffer [OF less.prems(1) ab(5), folded fl1_def]
    have sf1: "fl_fat fl1 = fl_fat fl" by (simp add: fl1_def)
    have "pos + cnt < 2 ^ 32" "pos + cnt < 512 * (per_clust (vol s (fl_fat fl1)) * length cs)"
        "seek_base FAT_SEEK_CURR fl1 + int cnt = int (pos + cnt)"
      using less.prems(2,3) here(5) ab(1,2) by (simp_all add: seek_base_def fl1_def)
    then obtain fl2 s1 where k: "fat_file_seek fl1 (int cnt) FAT_SEEK_CURR s = Some (0, fl2, s1)" "fi cs (pos + cnt) fl2 s1"
        "same_file fl1 fl2" "frame (fl_fat fl) s s1" "fcontent sector cs fl2 s1 = overwrite ?c pos a"
      using seek_spec [OF pk(1), of "pos + cnt" FAT_SEEK_CURR "int cnt"] pk(2) sf1 by metis
    have sf2: "fl_fat fl2 = fl_fat fl" using k(3) sf1 by (simp add: same_file_def)
    have step: "write_loop src n fl s = write_loop b (n + cnt) fl2 s1"
      using False k(1) here(4) unfolding fl1_def a_def b_def cnt_def by (subst write_loop.simps) (simp add: Let_def)
    have pre: "pos + cnt + length b < 2 ^ 32" "pos + cnt + length b < 512 * (per_clust (vol s1 (fl_fat fl2)) * length cs)"
      using less.prems(2,3) ab(1,2) sf2 frame_fields(8) [OF k(4)] by (simp_all add: add.assoc)
    obtain fl' s' where z: "write_loop b (n + cnt) fl2 s1 = Some (n + cnt + length b, fl', s')" "fi cs (pos + cnt + length b) fl' s'"
        "same_file fl2 fl'" "frame (fl_fat fl) s1 s'" "fcontent sector cs fl' s' = overwrite (overwrite ?c pos a) (pos + cnt) b"
      using less.hyps [OF ab(3) k(2) pre, of "n + cnt"] k(5) sf2 by auto
    have "length ?c = 512 * (per_clust (vol s (fl_fat fl)) * length cs)"
      using length_concat_blocks [OF here(3)] by (simp add: fcontent_def fblocks_def)
    then have "overwrite (overwrite ?c pos a) (pos + cnt) b = overwrite ?c pos src"
      using overwrite_append [of pos a b ?c] ab(1,2) less.prems(3) by simp
    then show ?thesis
      using step z ab(1,2) same_file_trans [OF same_file_trans [OF pk(3) k(3)] z(3)] frame_trans [OF k(4) z(4)]
      by (simp add: add.assoc)
  qed
qed

text \<open>The interface of an open file: reading, writing, and reading back what was written.\<close>

lemma set_flags:
  assumes "fdirty (fl\<lparr>fl_flags := g\<rparr>) = fdirty fl"
  shows "fi cs pos (fl\<lparr>fl_flags := g\<rparr>) s = fi cs pos fl s"
    "fcontent sector cs (fl\<lparr>fl_flags := g\<rparr>) s = fcontent sector cs fl s"
  using assms by (simp_all add: file_inv_def Let_def fcontent_def fblocks_def cong: if_cong)

lemma fat_file_read_spec:
  assumes "fi cs pos fl s" and "fl_flags fl AND FAT_READ \<noteq> 0" and "pos + len \<le> unat (fl_size fl)"
    and "pos + len < 512 * (per_clust (vol s (fl_fat fl)) * length cs)"
  shows "\<exists>fl' s'. fat_file_read fl len s = Some (0, take len (drop pos (fcontent sector cs fl s)), fl', s')
    \<and> fi cs (pos + len) fl' s' \<and> same_file fl fl' \<and> frame (fl_fat fl) s s' \<and> fcontent sector cs fl' s' = fcontent sector cs fl s"
proof -
  let ?fl = "fl\<lparr>fl_flags := fl_flags fl OR FAT_ACCESSED\<rparr>"
  have d: "fdirty ?fl = fdirty fl" using fdirty_flags(3) by (simp add: fdirty_def)
  have "fi cs pos ?fl s" "fcontent sector cs ?fl s = fcontent sector cs fl s" using assms(1) set_flags [OF d] by auto
  moreover have "same_file fl ?fl" "fl_fat fl \<noteq> 0"
    using assms(1) by (simp_all add: file_inv_def Let_def same_file_def read_flag vol_inv_def)
  ultimately show ?thesis using read_loop_spec [of cs pos ?fl s len "[]"] assms(2-4)
    by (auto simp: fat_file_read_def intro: same_file_trans)
qed

lemma fat_file_write_spec:
  assumes "fi cs pos fl s" and "fl_flags fl AND FAT_WRITE \<noteq> 0" and "pos + length src < 2 ^ 32"
    and "pos + length src < 512 * (per_clust (vol s (fl_fat fl)) * length cs)"
  shows "\<exists>fl' s'. fat_file_write fl src s = Some (0, length src, fl', s') \<and> fi cs (pos + length src) fl' s'
    \<and> unat (fl_size fl') = max (unat (fl_size fl)) (pos + length src) \<and> fl_fat fl' = fl_fat fl
    \<and> fl_flags fl' AND FAT_READ = fl_flags fl AND FAT_READ \<and> frame (fl_fat fl) s s'
    \<and> fcontent sector cs fl' s' = overwrite (fcontent sector cs fl s) pos src"
proof -
  let ?fl = "fl\<lparr>fl_flags := fl_flags fl OR (FAT_MODIFIED OR FAT_ACCESSED)\<rparr>"
  have d: "fdirty ?fl = fdirty fl" using fdirty_flags(4) by (simp add: fdirty_def)
  have h: "fi cs pos ?fl s" "fcontent sector cs ?fl s = fcontent sector cs fl s" "fl_fat fl \<noteq> 0"
    using assms(1) set_flags [OF d] by (auto simp: file_inv_def Let_def vol_inv_def)
  obtain fl1 s' where w: "write_loop src 0 ?fl s = Some (length src, fl1, s')" "fi cs (pos + length src) fl1 s'"
      "same_file ?fl fl1" "frame (fl_fat fl) s s'" "fcontent sector cs fl1 s' = overwrite (fcontent sector cs fl s) pos src"
    using write_loop_spec [OF h(1) assms(3), of 0] assms(4) h(2) by auto
  define fl' where "fl' = (if fl_size fl1 < fl_offset fl1 then fl1\<lparr>fl_size := fl_offset fl1\<rparr> else fl1)"
  have off: "unat (fl_offset fl1) = pos + length src" by (rule fblocks_here(4) [OF w(2)])
  have sz: "fl_size fl1 = fl_size fl" "fl_fat fl1 = fl_fat fl" "fl_flags fl1 AND FAT_READ = fl_flags fl AND FAT_READ"
    using w(3) by (simp_all add: same_file_def read_flag)
  have "fat_file_write fl src s = Some (0, length src, fl', s')"
    using h(3) assms(2) w(1) by (simp add: fat_file_write_def fl'_def)
  moreover have "fi cs (pos + length src) fl' s'" "fcontent sector cs fl' s' = fcontent sector cs fl1 s'"
    using w(2) by (simp_all add: fl'_def file_inv_def fcontent_def fblocks_def fdirty_def Let_def cong: if_cong)
  moreover have "unat (fl_size fl') = max (unat (fl_size fl)) (pos + length src)"
    using off sz(1) by (simp add: fl'_def word_less_nat_alt max_def)
  moreover have "fl_fat fl' = fl_fat fl" "fl_flags fl' AND FAT_READ = fl_flags fl AND FAT_READ"
    using sz by (simp_all add: fl'_def)
  ultimately show ?thesis using w(4,5) by auto
qed

lemma fat_file_write_read_spec:
  assumes "fi cs pos fl s" and "fl_flags fl AND FAT_WRITE \<noteq> 0" and "fl_flags fl AND FAT_READ \<noteq> 0"
    and "pos + length src < 2 ^ 32" and "pos + length src < 512 * (per_clust (vol s (fl_fat fl)) * length cs)"
  shows "\<exists>fl1 s1 fl2 s2 fl3 s3. fat_file_write fl src s = Some (0, length src, fl1, s1)
    \<and> fat_file_seek fl1 (int pos) FAT_SEEK_START s1 = Some (0, fl2, s2)
    \<and> fat_file_read fl2 (length src) s2 = Some (0, src, fl3, s3)"
proof -
  obtain fl1 s1 where w: "fat_file_write fl src s = Some (0, length src, fl1, s1)" "fi cs (pos + length src) fl1 s1"
      "unat (fl_size fl1) = max (unat (fl_size fl)) (pos + length src)" "fl_fat fl1 = fl_fat fl"
      "fl_flags fl1 AND FAT_READ = fl_flags fl AND FAT_READ" "frame (fl_fat fl) s s1"
      "fcontent sector cs fl1 s1 = overwrite (fcontent sector cs fl s) pos src"
    using fat_file_write_spec [OF assms(1,2,4,5)] by blast
  have pc: "per_clust (vol s1 (fl_fat fl)) = per_clust (vol s (fl_fat fl))" using frame_fields(8) [OF w(6)] by simp
  obtain fl2 s2 where k: "fat_file_seek fl1 (int pos) FAT_SEEK_START s1 = Some (0, fl2, s2)" "fi cs pos fl2 s2" "same_file fl1 fl2"
      "frame (fl_fat fl) s1 s2" "fcontent sector cs fl2 s2 = fcontent sector cs fl1 s1"
    using seek_spec [OF w(2), of pos FAT_SEEK_START "int pos"] assms(4,5) w(4) pc by (auto simp: seek_base_def)
  have e: "fl_fat fl2 = fl_fat fl" "fl_flags fl2 AND FAT_READ \<noteq> 0" "pos + length src \<le> unat (fl_size fl2)"
      "pos + length src < 512 * (per_clust (vol s2 (fl_fat fl2)) * length cs)"
    using k(3) w(3-5) assms(3,5) frame_fields(8) [OF k(4)] pc by (auto simp: same_file_def)
  have "length (fcontent sector cs fl s) = 512 * (per_clust (vol s (fl_fat fl)) * length cs)"
    using length_concat_blocks [OF fblocks_here(3) [OF assms(1)]] by (simp add: fcontent_def fblocks_def)
  then have "take (length src) (drop pos (fcontent sector cs fl2 s2)) = src"
    using k(5) w(7) assms(5) by (simp add: slice_overwrite)
  then show ?thesis using fat_file_read_spec [OF k(2) e(2-4)] w(1) k(1) by auto
qed

end

end
