(* ===== verification/Ata.thy ===== *)
theory Ata
  imports Fat32_Content
begin

text \<open>
  The ATA disk driver, \<^verbatim>\<open>drivers/sata/ata.c\<close>.  Port input and output (\<^verbatim>\<open>kernel_lib/io.h\<close>, one
  instruction each) are the four functions of the record \<^verbatim>\<open>ports\<close> on an arbitrary hardware state, so
  the driver is a function of the machine it runs on.

  \<^verbatim>\<open>pio_drive\<close> is a machine for it: a drive with 28-bit addressing that executes the four commands the
  driver uses for it and aborts every other command, as the ATA standard prescribes.  It is an ideal drive, always ready and
  never failing on a sector it has: it serves to discharge the contract of a disk for the real driver code, and the errors a
  disk can report are covered by the contract's own theorems, which allow any transfer to fail.  On this machine the driver's
  disk operations satisfy the contract \<^verbatim>\<open>block_dev\<close> of the FAT32 driver (the interpretation \<^verbatim>\<open>ata\<close>), so
  that the theorems about the file system's cache and table hold for the composition of both drivers.
\<close>

section \<open>The driver\<close>

record 'h ports =
  inb :: "u16 \<Rightarrow> 'h \<Rightarrow> u8 \<times> 'h"
  inw :: "u16 \<Rightarrow> 'h \<Rightarrow> u16 \<times> 'h"
  outb :: "u16 \<Rightarrow> u8 \<Rightarrow> 'h \<Rightarrow> 'h"
  outw :: "u16 \<Rightarrow> u16 \<Rightarrow> 'h \<Rightarrow> 'h"

abbreviation (input) ATA_SR_BSY :: u8 where "ATA_SR_BSY \<equiv> 0x80"
abbreviation (input) ATA_SR_DF :: u8 where "ATA_SR_DF \<equiv> 0x20"
abbreviation (input) ATA_SR_DRQ :: u8 where "ATA_SR_DRQ \<equiv> 0x08"
abbreviation (input) ATA_SR_ERR :: u8 where "ATA_SR_ERR \<equiv> 0x01"

abbreviation (input) ATA_CMD_READ_PIO :: u8 where "ATA_CMD_READ_PIO \<equiv> 0x20"
abbreviation (input) ATA_CMD_READ_PIO_EXT :: u8 where "ATA_CMD_READ_PIO_EXT \<equiv> 0x24"
abbreviation (input) ATA_CMD_WRITE_PIO :: u8 where "ATA_CMD_WRITE_PIO \<equiv> 0x30"
abbreviation (input) ATA_CMD_WRITE_PIO_EXT :: u8 where "ATA_CMD_WRITE_PIO_EXT \<equiv> 0x34"
abbreviation (input) ATA_CMD_CACHE_FLUSH :: u8 where "ATA_CMD_CACHE_FLUSH \<equiv> 0xE7"
abbreviation (input) ATA_CMD_CACHE_FLUSH_EXT :: u8 where "ATA_CMD_CACHE_FLUSH_EXT \<equiv> 0xEA"
abbreviation (input) ATA_CMD_IDENTIFY :: u8 where "ATA_CMD_IDENTIFY \<equiv> 0xEC"

abbreviation (input) ATA_REG_DATA :: u16 where "ATA_REG_DATA \<equiv> 0x00"
abbreviation (input) ATA_REG_SECCOUNT0 :: u16 where "ATA_REG_SECCOUNT0 \<equiv> 0x02"
abbreviation (input) ATA_REG_LBA0 :: u16 where "ATA_REG_LBA0 \<equiv> 0x03"
abbreviation (input) ATA_REG_LBA1 :: u16 where "ATA_REG_LBA1 \<equiv> 0x04"
abbreviation (input) ATA_REG_LBA2 :: u16 where "ATA_REG_LBA2 \<equiv> 0x05"
abbreviation (input) ATA_REG_HDDEVSEL :: u16 where "ATA_REG_HDDEVSEL \<equiv> 0x06"
abbreviation (input) ATA_REG_COMMAND :: u16 where "ATA_REG_COMMAND \<equiv> 0x07"
abbreviation (input) ATA_REG_STATUS :: u16 where "ATA_REG_STATUS \<equiv> 0x07"
abbreviation (input) ATA_REG_SECCOUNT1 :: u16 where "ATA_REG_SECCOUNT1 \<equiv> 0x08"
abbreviation (input) ATA_REG_LBA3 :: u16 where "ATA_REG_LBA3 \<equiv> 0x09"
abbreviation (input) ATA_REG_LBA4 :: u16 where "ATA_REG_LBA4 \<equiv> 0x0A"
abbreviation (input) ATA_REG_LBA5 :: u16 where "ATA_REG_LBA5 \<equiv> 0x0B"

text \<open>\<^verbatim>\<open>identify\<close> is the packed 512-byte structure \<^verbatim>\<open>ata_identify_t\<close>: serial at 20, model at 54, the
  28-bit capacity at 120, the 48-bit capacity at 200.\<close>

record ata_device_t =
  io_base :: u16
  control_base :: u16
  slave :: u8
  present :: bool
  lba48_supported :: bool
  identify :: "u8 list"

definition g_ata0 :: ata_device_t where
  "g_ata0 = \<lparr>io_base = 0x1F0, control_base = 0x3F6, slave = 0, present = False, lba48_supported = False,
     identify = replicate 512 0\<rparr>"

fun insw :: "'h ports \<Rightarrow> u16 \<Rightarrow> nat \<Rightarrow> 'h \<Rightarrow> u16 list \<times> 'h" where
  "insw io port 0 h = ([], h)"
| "insw io port (Suc n) h = (let (w, h) = inw io port h; (ws, h) = insw io port n h in (w # ws, h))"

fun outsw :: "'h ports \<Rightarrow> u16 \<Rightarrow> u16 list \<Rightarrow> 'h \<Rightarrow> 'h" where
  "outsw io port [] h = h"
| "outsw io port (w # ws) h = outsw io port ws (outw io port w h)"

text \<open>A byte array seen as an array of 16-bit words.\<close>

definition words_of :: "u8 list \<Rightarrow> u16 list" where
  "words_of b = map (\<lambda>i. le16 b (2 * i)) [0..<length b div 2]"

definition bytes_of :: "u16 list \<Rightarrow> u8 list" where
  "bytes_of ws = concat (map (\<lambda>w. [ucast w, ucast (drop_bit 8 w)]) ws)"

definition ata_io_wait :: "'h ports \<Rightarrow> ata_device_t \<Rightarrow> 'h \<Rightarrow> 'h" where
  "ata_io_wait io d h =
     (let h = snd (inb io (control_base d) h);
          h = snd (inb io (control_base d) h);
          h = snd (inb io (control_base d) h)
      in snd (inb io (control_base d) h))"

fun ata_poll_loop :: "nat \<Rightarrow> 'h ports \<Rightarrow> ata_device_t \<Rightarrow> 'h \<Rightarrow> 'h" where
  "ata_poll_loop 0 io d h = h"
| "ata_poll_loop (Suc n) io d h =
     (let (status, h) = inb io (io_base d + ATA_REG_STATUS) h
      in if status AND ATA_SR_BSY = 0 then h else ata_poll_loop n io d h)"

definition ATA_TIMEOUT :: nat where "ATA_TIMEOUT = 2000000"

definition ata_poll :: "'h ports \<Rightarrow> ata_device_t \<Rightarrow> bool \<Rightarrow> 'h \<Rightarrow> bool \<times> 'h" where
  "ata_poll io d check_error h =
     (let h = ata_io_wait io d h;
          h = ata_poll_loop ATA_TIMEOUT io d h;
          (status, h) = inb io (io_base d + ATA_REG_STATUS) h
      in if status AND ATA_SR_ERR \<noteq> 0 then (False, h)
         else if status AND ATA_SR_DF \<noteq> 0 then (False, h)
         else if check_error \<and> status AND ATA_SR_DRQ = 0 then (False, h)
         else (True, h))"

definition ata_soft_reset :: "'h ports \<Rightarrow> ata_device_t \<Rightarrow> 'h \<Rightarrow> 'h" where
  "ata_soft_reset io d h =
     (let h = outb io (control_base d) 0x04 h;
          h = ata_io_wait io d h;
          h = outb io (control_base d) 0x00 h;
          h = ata_io_wait io d h
      in snd (ata_poll io d False h))"

text \<open>The loops that swap the bytes of the \<^verbatim>\<open>model\<close> and \<^verbatim>\<open>serial\<close> words.\<close>

definition swap_pairs :: "nat \<Rightarrow> nat \<Rightarrow> u8 list \<Rightarrow> u8 list" where
  "swap_pairs off n b =
     fold (\<lambda>k b. b[off + 2 * k := b ! (off + 2 * k + 1), off + 2 * k + 1 := b ! (off + 2 * k)]) [0..<n div 2] b"

definition ata_identify :: "'h ports \<Rightarrow> ata_device_t \<Rightarrow> 'h \<Rightarrow> bool \<times> ata_device_t \<times> 'h" where
  "ata_identify io d h =
     (let bus = io_base d;
          slavebit = (if slave d \<noteq> 0 then 0x10 else 0x00);
          h = ata_soft_reset io d h;
          h = outb io (bus + ATA_REG_HDDEVSEL) (0xA0 OR slavebit) h;
          h = ata_io_wait io d h;
          h = outb io (bus + ATA_REG_SECCOUNT0) 0 h;
          h = outb io (bus + ATA_REG_LBA0) 0 h;
          h = outb io (bus + ATA_REG_LBA1) 0 h;
          h = outb io (bus + ATA_REG_LBA2) 0 h;
          h = outb io (bus + ATA_REG_COMMAND) ATA_CMD_IDENTIFY h;
          h = ata_io_wait io d h;
          (status, h) = inb io (bus + ATA_REG_STATUS) h
      in if status = 0 then (False, d, h)
         else let (ok, h) = ata_poll io d False h
         in if \<not> ok then (False, d, h)
         else let (cl, h) = inb io (bus + ATA_REG_LBA1) h;
                  (ch, h) = inb io (bus + ATA_REG_LBA2) h
         in if cl \<noteq> 0 \<or> ch \<noteq> 0 then (False, d, h)
         else let (ok, h) = ata_poll io d True h
         in if \<not> ok then (False, d, h)
         else let (ws, h) = insw io (bus + ATA_REG_DATA) 256 h;
                  b = swap_pairs 20 20 (swap_pairs 54 40 (bytes_of ws))
         in (True, d\<lparr>identify := b, lba48_supported := False\<rparr>, h))"

text \<open>The register writes that start a transfer are the same in both directions, except the command.\<close>

definition ata_start ::
  "'h ports \<Rightarrow> ata_device_t \<Rightarrow> u64 \<Rightarrow> u8 \<Rightarrow> u8 \<Rightarrow> u8 \<Rightarrow> 'h \<Rightarrow> 'h" where
  "ata_start io d lba sector_count cmd cmd_ext h =
     (let bus = io_base d;
          slavebit = (if slave d \<noteq> 0 then 0x10 else 0x00);
          use_lba48 = (0x0FFFFFFF < lba \<or> lba48_supported d);
          ext = (\<lambda>h. if use_lba48
                   then (let h = outb io (bus + ATA_REG_SECCOUNT1) 0 h;
                             h = outb io (bus + ATA_REG_LBA3) (ucast (drop_bit 24 lba AND 0xFF)) h;
                             h = outb io (bus + ATA_REG_LBA4) (ucast (drop_bit 32 lba AND 0xFF)) h
                         in outb io (bus + ATA_REG_LBA5) (ucast (drop_bit 40 lba AND 0xFF)) h)
                   else h);
          h = outb io (bus + ATA_REG_HDDEVSEL)
                (0xE0 OR slavebit OR (if use_lba48 then 0 else ucast (drop_bit 24 lba AND 0x0F))) h;
          h = ext h;
          h = outb io (bus + ATA_REG_SECCOUNT0) sector_count h;
          h = outb io (bus + ATA_REG_LBA0) (ucast (lba AND 0xFF)) h;
          h = outb io (bus + ATA_REG_LBA1) (ucast (drop_bit 8 lba AND 0xFF)) h;
          h = outb io (bus + ATA_REG_LBA2) (ucast (drop_bit 16 lba AND 0xFF)) h;
          h = ext h
      in outb io (bus + ATA_REG_COMMAND) (if use_lba48 then cmd_ext else cmd) h)"

fun ata_read_sectors :: "nat \<Rightarrow> nat \<Rightarrow> 'h ports \<Rightarrow> ata_device_t \<Rightarrow> u8 list \<Rightarrow> 'h \<Rightarrow> bool \<times> u8 list \<times> 'h" where
  "ata_read_sectors 0 off io d target h = (True, target, h)"
| "ata_read_sectors (Suc n) off io d target h =
     (let (ok, h) = ata_poll io d True h
      in if \<not> ok then (False, target, h)
         else let (ws, h) = insw io (io_base d + ATA_REG_DATA) 256 h
              in ata_read_sectors n (off + 512) io d (overwrite target off (bytes_of ws)) h)"

definition ata_pio_read ::
  "'h ports \<Rightarrow> ata_device_t \<Rightarrow> u64 \<Rightarrow> u8 \<Rightarrow> u8 list \<Rightarrow> 'h \<Rightarrow> bool \<times> u8 list \<times> 'h" where
  "ata_pio_read io d lba sector_count target h =
     (let h = ata_start io d lba sector_count ATA_CMD_READ_PIO ATA_CMD_READ_PIO_EXT h
      in ata_read_sectors (unat sector_count) 0 io d target h)"

fun ata_write_sectors :: "nat \<Rightarrow> nat \<Rightarrow> 'h ports \<Rightarrow> ata_device_t \<Rightarrow> u8 list \<Rightarrow> 'h \<Rightarrow> bool \<times> 'h" where
  "ata_write_sectors 0 off io d source h = (True, h)"
| "ata_write_sectors (Suc n) off io d source h =
     (let (ok, h) = ata_poll io d True h
      in if \<not> ok then (False, h)
         else let h = outsw io (io_base d + ATA_REG_DATA) (words_of (take 512 (drop off source))) h
              in ata_write_sectors n (off + 512) io d source h)"

definition ata_pio_write ::
  "'h ports \<Rightarrow> ata_device_t \<Rightarrow> u64 \<Rightarrow> u8 \<Rightarrow> u8 list \<Rightarrow> 'h \<Rightarrow> bool \<times> 'h" where
  "ata_pio_write io d lba sector_count source h =
     (let use_lba48 = (0x0FFFFFFF < lba \<or> lba48_supported d);
          h = ata_start io d lba sector_count ATA_CMD_WRITE_PIO ATA_CMD_WRITE_PIO_EXT h;
          (ok, h) = ata_write_sectors (unat sector_count) 0 io d source h
      in if \<not> ok then (False, h)
         else let h = outb io (io_base d + ATA_REG_COMMAND)
                        (if use_lba48 then ATA_CMD_CACHE_FLUSH_EXT else ATA_CMD_CACHE_FLUSH) h;
                  h = snd (ata_poll io d False h)
              in (True, h))"

text \<open>The device seen by \<^verbatim>\<open>DiskOps\<close>: the global \<^verbatim>\<open>g_ata0\<close> and the hardware.\<close>

definition ata_disk_read :: "'h ports \<Rightarrow> u8 list \<Rightarrow> u32 \<Rightarrow> ata_device_t \<times> 'h \<Rightarrow> bool \<times> u8 list \<times> ata_device_t \<times> 'h" where
  "ata_disk_read io buf sect dh =
     (case dh of (d, h) \<Rightarrow> let (ok, b, h) = ata_pio_read io d (ucast sect) 1 buf h in (ok, b, d, h))"

definition ata_disk_write :: "'h ports \<Rightarrow> u8 list \<Rightarrow> u32 \<Rightarrow> ata_device_t \<times> 'h \<Rightarrow> bool \<times> ata_device_t \<times> 'h" where
  "ata_disk_write io buf sect dh =
     (case dh of (d, h) \<Rightarrow> let (ok, h) = ata_pio_write io d (ucast sect) 1 buf h in (ok, d, h))"

definition ata_init :: "'h ports \<Rightarrow> ata_device_t \<times> 'h \<Rightarrow> bool \<times> ata_device_t \<times> 'h" where
  "ata_init io dh =
     (case dh of (d, h) \<Rightarrow>
        let (ok, d, h) = ata_identify io (d\<lparr>identify := replicate 512 0\<rparr>) h
        in (ok, d\<lparr>present := ok\<rparr>, h))"

text \<open>\<^const>\<open>None\<close> is the result \<^verbatim>\<open>false\<close>; the pointer given by the caller is never NULL in the kernel.\<close>

definition ata_get_disk_ops :: "'h ports \<Rightarrow> ata_device_t \<Rightarrow> (ata_device_t \<times> 'h) DiskOps option" where
  "ata_get_disk_ops io d =
     (if \<not> present d then None
      else Some \<lparr>ops_read = ata_disk_read io, ops_write = ata_disk_write io\<rparr>)"

definition ata_get_total_sectors :: "ata_device_t \<Rightarrow> u64" where
  "ata_get_total_sectors d =
     (if \<not> present d then 0
      else let id = identify d;
               lba48 = push_bit 48 (ucast (le16 id 206)) OR push_bit 32 (ucast (le16 id 204))
                 OR push_bit 16 (ucast (le16 id 202)) OR ucast (le16 id 200);
               lba28 = push_bit 16 (ucast (le16 id 122) :: u32) OR ucast (le16 id 120)
           in if lba48_supported d \<and> 0 < lba48 then lba48 else ucast lba28)"

definition ata_get_total_space_bytes :: "ata_device_t \<Rightarrow> u64" where
  "ata_get_total_space_bytes d = ata_get_total_sectors d * 512"

section \<open>A drive\<close>

record pio_drive =
  nsect :: nat
  disk :: "nat \<Rightarrow> u8 list"
  ident :: "u16 list"
  r_sel :: u8
  r_cnt :: u8
  r_lba0 :: u8
  r_lba1 :: u8
  r_lba2 :: u8
  err :: bool
  data_in :: "u16 list"
  data_out :: "(nat \<times> u16 list) option"

definition drive_lba :: "pio_drive \<Rightarrow> nat" where
  "drive_lba h = (unat (r_sel h) mod 16) * 2 ^ 24 + unat (r_lba2 h) * 2 ^ 16 + unat (r_lba1 h) * 2 ^ 8
     + unat (r_lba0 h)"

definition drive_cmd :: "u8 \<Rightarrow> pio_drive \<Rightarrow> pio_drive" where
  "drive_cmd c h =
     (let h = h\<lparr>err := False, data_in := [], data_out := None\<rparr>;
          ok = (bit (r_sel h) 6 \<and> r_cnt h = 1 \<and> drive_lba h < nsect h)
      in if c = 0x20 \<and> ok then h\<lparr>data_in := words_of (disk h (drive_lba h))\<rparr>
         else if c = 0x30 \<and> ok then h\<lparr>data_out := Some (drive_lba h, [])\<rparr>
         else if c = 0xEC then h\<lparr>data_in := ident h, r_lba1 := 0, r_lba2 := 0\<rparr>
         else if c = 0xE7 then h
         else h\<lparr>err := True\<rparr>)"

definition drive_outb :: "u16 \<Rightarrow> u8 \<Rightarrow> pio_drive \<Rightarrow> pio_drive" where
  "drive_outb port v h =
     (if port = 0x1F2 then h\<lparr>r_cnt := v\<rparr>
      else if port = 0x1F3 then h\<lparr>r_lba0 := v\<rparr>
      else if port = 0x1F4 then h\<lparr>r_lba1 := v\<rparr>
      else if port = 0x1F5 then h\<lparr>r_lba2 := v\<rparr>
      else if port = 0x1F6 then h\<lparr>r_sel := v\<rparr>
      else if port = 0x1F7 then drive_cmd v h
      else h)"

definition drive_status :: "pio_drive \<Rightarrow> u8" where
  "drive_status h = 0x40 OR (if err h then 0x01 else 0) OR (if data_in h \<noteq> [] \<or> data_out h \<noteq> None then 0x08 else 0)"

definition drive_inb :: "u16 \<Rightarrow> pio_drive \<Rightarrow> u8 \<times> pio_drive" where
  "drive_inb port h =
     (if port = 0x1F7 \<or> port = 0x3F6 then (drive_status h, h)
      else if port = 0x1F4 then (r_lba1 h, h) else if port = 0x1F5 then (r_lba2 h, h) else (0xFF, h))"

definition drive_inw :: "u16 \<Rightarrow> pio_drive \<Rightarrow> u16 \<times> pio_drive" where
  "drive_inw port h =
     (case data_in h of w # ws \<Rightarrow> if port = 0x1F0 then (w, h\<lparr>data_in := ws\<rparr>) else (0xFFFF, h) | [] \<Rightarrow> (0xFFFF, h))"

definition drive_outw :: "u16 \<Rightarrow> u16 \<Rightarrow> pio_drive \<Rightarrow> pio_drive" where
  "drive_outw port w h =
     (case data_out h of
        Some (n, ws) \<Rightarrow>
          if port = 0x1F0 then
            (if length ws = 255 then h\<lparr>disk := (disk h)(n := bytes_of (ws @ [w])), data_out := None\<rparr>
             else h\<lparr>data_out := Some (n, ws @ [w])\<rparr>)
          else h
      | None \<Rightarrow> h)"

definition drive_io :: "pio_drive ports" where
  "drive_io = \<lparr>inb = drive_inb, inw = drive_inw, outb = drive_outb, outw = drive_outw\<rparr>"

section \<open>Words and bytes\<close>

lemma length_bytes_of [len_simps, simp]: "length (bytes_of ws) = 2 * length ws"
  by (induction ws) (auto simp: bytes_of_def)

lemma length_words_of [len_simps, simp]: "length (words_of b) = length b div 2"
  by (simp add: words_of_def)

lemma split_word: "ucast ((ucast a :: u16) OR push_bit 8 (ucast b)) = a"
    "ucast (drop_bit 8 ((ucast a :: u16) OR push_bit 8 (ucast b))) = b" for a b :: u8
  by (rule bit_word_eqI; auto simp: bit_simps dest: bit_imp_le_length)+

lemma bytes_of_Cons: "bytes_of (w # ws) = ucast w # ucast (drop_bit 8 w) # bytes_of ws"
  by (simp add: bytes_of_def)

lemma words_of_Cons2: "words_of (a # b # bs) = (ucast a OR push_bit 8 (ucast b)) # words_of bs"
proof -
  have "[0..<Suc (length bs div 2)] = 0 # map Suc [0..<length bs div 2]" by (simp add: map_Suc_upt upt_conv_Cons)
  then show ?thesis by (simp add: words_of_def le16_def)
qed

lemma bytes_of_words_of: "even (length b) \<Longrightarrow> bytes_of (words_of b) = b"
proof (induction b rule: induct_list012)
  case (3 a b bs)
  then show ?case by (simp only: words_of_Cons2 bytes_of_Cons split_word) simp
qed (simp_all add: words_of_def bytes_of_def)

section \<open>Runs of the driver on the drive\<close>

text \<open>The device record of a mounted drive.\<close>

definition on_drive :: "ata_device_t \<Rightarrow> bool" where
  "on_drive d \<longleftrightarrow> io_base d = 0x1F0 \<and> control_base d = 0x3F6 \<and> slave d = 0 \<and> \<not> lba48_supported d"

lemma drive_io_simps [simp]:
  "inb drive_io = drive_inb" "inw drive_io = drive_inw" "outb drive_io = drive_outb" "outw drive_io = drive_outw"
  by (simp_all add: drive_io_def)

lemma drive_io_wait [simp]: "on_drive d \<Longrightarrow> ata_io_wait drive_io d h = h"
  by (simp add: ata_io_wait_def on_drive_def drive_inb_def)

lemma drive_status_bits:
  "drive_status h AND 0x80 = 0" "drive_status h AND 0x20 = 0" "drive_status h AND 0x01 \<noteq> 0 \<longleftrightarrow> err h"
  "drive_status h AND 0x08 = 0 \<longleftrightarrow> data_in h = [] \<and> data_out h = None"
  by (cases "data_out h"; auto simp: drive_status_def)+

lemma drive_poll [simp]:
  assumes "on_drive d"
  shows "ata_poll drive_io d chk h = (\<not> err h \<and> (chk \<longrightarrow> data_in h \<noteq> [] \<or> data_out h \<noteq> None), h)"
proof -
  have "ata_poll_loop (Suc n) drive_io d h = h" for n
    using assms by (simp add: on_drive_def drive_inb_def drive_status_bits)
  from this [of "ATA_TIMEOUT - 1"] have "ata_poll_loop ATA_TIMEOUT drive_io d h = h" by (simp add: ATA_TIMEOUT_def)
  then show ?thesis
    using assms by (simp add: ata_poll_def on_drive_def drive_inb_def drive_status_bits)
qed

lemma drive_insw: "length ws = n \<Longrightarrow> data_in h = ws @ rest \<Longrightarrow> insw drive_io 0x1F0 n h = (ws, h\<lparr>data_in := rest\<rparr>)"
proof (induction ws arbitrary: h n)
  case Nil
  then show ?case by (cases h) auto
next
  case (Cons w ws)
  then obtain m where "n = Suc m" "length ws = m" by auto
  with Cons show ?case by (simp add: drive_inw_def)
qed

lemma drive_outsw:
  assumes "length ws + length us = 256" and "us \<noteq> []" and "data_out h = Some (n, ws)"
  shows "outsw drive_io 0x1F0 us h = h\<lparr>disk := (disk h)(n := bytes_of (ws @ us)), data_out := None\<rparr>"
  using assms
proof (induction us arbitrary: ws h)
  case Nil
  then show ?case by simp
next
  case (Cons u us)
  show ?case
  proof (cases "us = []")
    case True
    with Cons.prems show ?thesis by (simp add: drive_outw_def fun_upd_def)
  next
    case False
    then have "length ws \<noteq> 255" using Cons.prems(1) by (cases us) auto
    then have "drive_outw 0x1F0 u h = h\<lparr>data_out := Some (n, ws @ [u])\<rparr>"
      using Cons.prems(3) by (simp add: drive_outw_def)
    with Cons.IH [of "ws @ [u]" "h\<lparr>data_out := Some (n, ws @ [u])\<rparr>"] Cons.prems(1) False show ?thesis by simp
  qed
qed

section \<open>The driver meets the contract of the file system\<close>

definition drive_ops :: "(ata_device_t \<times> pio_drive) DiskOps" where
  "drive_ops = \<lparr>ops_read = ata_disk_read drive_io, ops_write = ata_disk_write drive_io\<rparr>"

text \<open>A drive of at most \<open>2\<^sup>28\<close> sectors of 512 bytes, attached as the primary master.  The contract is
  stated for such devices: the state is a pair with this property.\<close>

definition drive_ok :: "ata_device_t \<times> pio_drive \<Rightarrow> bool" where
  "drive_ok dh \<longleftrightarrow> on_drive (fst dh) \<and> nsect (snd dh) \<le> 2 ^ 28 \<and> (\<forall>n. length (disk (snd dh) n) = 512)"

lemma unat_field:
  fixes lba :: u64
  assumes "k \<le> 8"
  shows "unat (ucast (drop_bit j lba AND mask k) :: u8) = unat lba div 2 ^ j mod 2 ^ k"
proof -
  have "unat (ucast (drop_bit j lba AND mask k) :: u8) = take_bit 8 (take_bit k (drop_bit j (unat lba)))"
    by (simp only: unsigned_ucast_eq take_bit_eq_mask [symmetric] unsigned_take_bit_eq unat_drop_bit_eq) (simp add: min.commute)
  also have "\<dots> = take_bit k (drop_bit j (unat lba))" using assms by (simp add: min_absorb1)
  finally show ?thesis by (simp add: take_bit_eq_mod drop_bit_eq_div)
qed

lemma sel_field: "unat ((0xE0 :: u8) OR x) mod 16 = unat x mod 16" "bit ((0xE0 :: u8) OR x) 6" for x :: u8
proof -
  have e: "(0xE0 :: u8) = push_bit 5 7" by simp
  have "take_bit 4 ((0xE0 :: u8) OR x) = take_bit 4 x"
    unfolding e by (rule bit_word_eqI) (auto simp: bit_simps simp del: push_bit_numeral)
  then have "unat (take_bit 4 ((0xE0 :: u8) OR x)) = unat (take_bit 4 x)" by (rule arg_cong)
  then show "unat ((0xE0 :: u8) OR x) mod 16 = unat x mod 16"
    unfolding unsigned_take_bit_eq by (simp add: take_bit_eq_mod)
  show "bit ((0xE0 :: u8) OR x) 6" by (simp add: bit_simps bit_numeral_rec)
qed

lemma base_256:
  fixes n :: nat
  assumes "n < 2 ^ 28"
  shows "(n div 2 ^ 24 mod 2 ^ 4 mod 16) * 2 ^ 24 + n div 2 ^ 16 mod 2 ^ 8 * 2 ^ 16
    + n div 2 ^ 8 mod 2 ^ 8 * 2 ^ 8 + n div 2 ^ 0 mod 2 ^ 8 = n"
proof -
  define a b c where "a = n div 256" and "b = a div 256" and "c = b div 256"
  have d: "n div 2 ^ 8 = a" "n div 2 ^ 16 = b" "n div 2 ^ 24 = c"
    by (simp_all add: a_def b_def c_def flip: div_mult2_eq)
  have "n = a * 256 + n mod 256" "a = b * 256 + a mod 256" "b = c * 256 + b mod 256"
    by (simp_all add: a_def b_def c_def)
  moreover have "c < 16" using assms by (simp add: c_def b_def a_def flip: div_mult2_eq) 
  ultimately show ?thesis unfolding d by simp
qed

lemma lba_parts:
  fixes lba :: u64
  assumes "lba < 2 ^ 28"
  shows "(unat ((0xE0 :: u8) OR ucast (drop_bit 24 lba AND 0x0F)) mod 16) * 2 ^ 24
      + unat (ucast (drop_bit 16 lba AND 0xFF) :: u8) * 2 ^ 16 + unat (ucast (drop_bit 8 lba AND 0xFF) :: u8) * 2 ^ 8
      + unat (ucast (lba AND 0xFF) :: u8) = unat lba"
proof -
  have m: "(0x0F :: u64) = mask 4" "(0xFF :: u64) = mask 8" by (simp_all add: mask_eq_exp_minus_1)
  have "unat (ucast (lba AND mask 8) :: u8) = unat lba div 2 ^ 0 mod 2 ^ 8"
    using unat_field [of 8 0 lba] by simp
  then show ?thesis
    unfolding m sel_field using unat_field [of 4 24 lba] unat_field [of 8 16 lba] unat_field [of 8 8 lba]
      base_256 [of "unat lba"] assms by (simp only: word_less_nat_alt) simp
qed

text \<open>Starting a transfer on the drive: the registers hold the address and the command runs.\<close>

definition loaded :: "u64 \<Rightarrow> pio_drive \<Rightarrow> pio_drive" where
  "loaded lba h = h\<lparr>r_sel := 0xE0 OR ucast (drop_bit 24 lba AND 0x0F), r_cnt := 1, r_lba0 := ucast (lba AND 0xFF),
     r_lba1 := ucast (drop_bit 8 lba AND 0xFF), r_lba2 := ucast (drop_bit 16 lba AND 0xFF)\<rparr>"

lemma loaded_simps [simp]:
  "nsect (loaded lba h) = nsect h" "disk (loaded lba h) = disk h" "r_cnt (loaded lba h) = 1"
  "bit (r_sel (loaded lba h)) 6" "lba < 2 ^ 28 \<Longrightarrow> drive_lba (loaded lba h) = unat lba"
  using sel_field(2) lba_parts by (simp_all add: loaded_def drive_lba_def)

lemma drive_lba_upd [simp]:
  "drive_lba (h\<lparr>err := e\<rparr>) = drive_lba h" "drive_lba (h\<lparr>data_in := i\<rparr>) = drive_lba h"
  "drive_lba (h\<lparr>data_out := q\<rparr>) = drive_lba h"
  by (simp_all add: drive_lba_def)

lemma start_28:
  assumes "on_drive d" and "lba < 2 ^ 28"
  shows "ata_start drive_io d lba 1 c cx h = drive_cmd c (loaded lba h)"
proof -
  have "\<not> 0x0FFFFFFF < lba" using assms(2) by (simp add: word_less_nat_alt)
  then show ?thesis
    using assms(1) by (simp add: ata_start_def on_drive_def drive_outb_def loaded_def Let_def)
qed

lemma start_48:
  assumes "on_drive d" and "\<not> lba < 2 ^ 28" and "cx \<notin> {0x20, 0x30, 0xEC, 0xE7}"
  obtains h' where "ata_start drive_io d lba 1 c cx h = h'" "err h'" "disk h' = disk h" "nsect h' = nsect h"
proof -
  have "0x0FFFFFFF < lba" using assms(2) by (simp add: word_less_nat_alt)
  then show thesis
    using assms(1,3) that by (auto simp: ata_start_def on_drive_def drive_outb_def drive_cmd_def Let_def)
qed

text \<open>A transfer is accepted exactly for the sectors of the drive; otherwise the command is aborted.\<close>

lemma start_cases:
  fixes n :: u32
  assumes ok: "drive_ok (d, h)" and c: "c = 0x20 \<and> cx = 0x24 \<or> c = 0x30 \<and> cx = 0x34"
  obtains (run) h' where "unat n < nsect h" "ata_start drive_io d (ucast n) 1 c cx h = h'" "\<not> err h'"
      "disk h' = disk h" "nsect h' = nsect h"
      "data_in h' = (if c = 0x20 then words_of (disk h (unat n)) else [])"
      "data_out h' = (if c = 0x20 then None else Some (unat n, []))"
  | (abort) h' where "\<not> unat n < nsect h" "ata_start drive_io d (ucast n) 1 c cx h = h'" "err h'"
      "disk h' = disk h" "nsect h' = nsect h"
proof -
  have d: "on_drive d" and sz: "nsect h \<le> 2 ^ 28" using ok by (auto simp: drive_ok_def)
  let ?lba = "ucast n :: u64"
  have small: "?lba < 2 ^ 28 \<longleftrightarrow> unat n < 2 ^ 28" using unat_ucast_32_64 [of n] by (simp add: word_less_nat_alt)
  show thesis
  proof (cases "unat n < 2 ^ 28")
    case True
    then have s: "ata_start drive_io d ?lba 1 c cx h = drive_cmd c (loaded ?lba h)" "drive_lba (loaded ?lba h) = unat n"
      using small start_28 [OF d] unat_ucast_32_64 [of n] by auto
    show thesis
    proof (cases "unat n < nsect h")
      case True
      with s c show thesis
        using run [of "drive_cmd c (loaded ?lba h)"] by (auto simp: drive_cmd_def Let_def)
    next
      case False
      with s c show thesis
        using abort [of "drive_cmd c (loaded ?lba h)"] by (auto simp: drive_cmd_def Let_def)
    qed
  next
    case False
    then have "\<not> ?lba < 2 ^ 28" "\<not> unat n < nsect h" using small sz by auto
    moreover have "cx \<notin> {0x20, 0x30, 0xEC, 0xE7}" using c by auto
    ultimately show thesis using start_48 [OF d, of ?lba cx c h] abort by metis
  qed
qed

lemma overwrite_all: "length b = length src \<Longrightarrow> overwrite b 0 src = src"
  by (simp add: overwrite_def)

lemma ata_read_law:
  assumes ok: "drive_ok (d, h)" and b: "length b = 512" and run: "ata_disk_read drive_io b n (d, h) = (r, b', dh')"
  shows "drive_ok dh'" "disk (snd dh') = disk h" "nsect (snd dh') = nsect h" "r \<longleftrightarrow> unat n < nsect h"
    "b' = (if r then disk h (unat n) else b)"
proof -
  have d: "on_drive d" "io_base d = 0x1F0" and sz: "length (disk h m) = 512" "nsect h \<le> 2 ^ 28" for m
    using ok by (auto simp: drive_ok_def on_drive_def)
  have "drive_ok dh' \<and> disk (snd dh') = disk h \<and> nsect (snd dh') = nsect h \<and> (r \<longleftrightarrow> unat n < nsect h)
      \<and> b' = (if r then disk h (unat n) else b)"
  proof (cases rule: start_cases [OF ok, where c = "0x20" and cx = "0x24" and n = n])
    case 1
    then show ?case by simp
  next
    case (2 h1)
    let ?ws = "words_of (disk h (unat n))"
    have len: "length ?ws = 256" using sz(1) by simp
    then have ne: "?ws \<noteq> []" by (metis list.size(3) zero_neq_numeral)
    have "insw drive_io 0x1F0 256 h1 = (?ws, h1\<lparr>data_in := []\<rparr>)" using drive_insw [OF len] 2(6) by simp
    moreover have "bytes_of ?ws = disk h (unat n)" using sz(1) by (intro bytes_of_words_of) simp
    ultimately have "(r, b', dh') = (True, disk h (unat n), d, h1\<lparr>data_in := []\<rparr>)"
      using run 2 d ne b sz(1)
      by (simp add: ata_disk_read_def ata_pio_read_def overwrite_all)
    then show ?thesis using 2 ok by (simp add: drive_ok_def)
  next
    case (3 h1)
    then have "(r, b', dh') = (False, b, d, h1)"
      using run d by (simp add: ata_disk_read_def ata_pio_read_def)
    then show ?thesis using 3 ok by (simp add: drive_ok_def)
  qed
  then show "drive_ok dh'" "disk (snd dh') = disk h" "nsect (snd dh') = nsect h" "r \<longleftrightarrow> unat n < nsect h"
    "b' = (if r then disk h (unat n) else b)" by auto
qed

lemma ata_write_law:
  assumes ok: "drive_ok (d, h)" and b: "length b = 512" and run: "ata_disk_write drive_io b n (d, h) = (r, dh')"
  shows "drive_ok dh'" "disk (snd dh') = (if r then (disk h)(unat n := b) else disk h)" "nsect (snd dh') = nsect h"
    "r \<longleftrightarrow> unat n < nsect h"
proof -
  have d: "on_drive d" "io_base d = 0x1F0" and sz: "length (disk h m) = 512" "nsect h \<le> 2 ^ 28" for m
    using ok by (auto simp: drive_ok_def on_drive_def)
  have nb: "\<not> 0x0FFFFFFF < (ucast n :: u64)" if "unat n < nsect h"
    using that sz(2) unat_ucast_32_64 [of n] by (simp add: word_less_nat_alt)
  have "drive_ok dh' \<and> disk (snd dh') = (if r then (disk h)(unat n := b) else disk h) \<and> nsect (snd dh') = nsect h
      \<and> (r \<longleftrightarrow> unat n < nsect h)"
  proof (cases rule: start_cases [OF ok, where c = "0x30" and cx = "0x34" and n = n])
    case 1
    then show ?case by simp
  next
    case (2 h1)
    have len: "length (words_of b) = 256" using b by simp
    then have ne: "words_of b \<noteq> []" by (metis list.size(3) zero_neq_numeral)
    let ?h2 = "h1\<lparr>disk := (disk h1)(unat n := bytes_of (words_of b)), data_out := None\<rparr>"
    have o: "outsw drive_io 0x1F0 (words_of b) h1 = ?h2"
      using drive_outsw [of "[]" "words_of b" h1 "unat n"] len ne 2(7) by simp
    define h3 where "h3 = drive_cmd 0xE7 ?h2"
    have h3: "disk h3 = (disk h)(unat n := b)" "nsect h3 = nsect h"
      using 2 bytes_of_words_of [of b] b by (simp_all add: h3_def drive_cmd_def Let_def)
    have "(r, dh') = (True, d, h3)"
      using run 2 d b o nb [OF 2(1)] unfolding h3_def
      by (simp add: ata_disk_write_def ata_pio_write_def on_drive_def [of d] drive_outb_def)
    then show ?thesis using 2(1) ok h3 b by (simp add: drive_ok_def)
  next
    case (3 h1)
    then have "(r, dh') = (False, d, h1)"
      using run d by (simp add: ata_disk_write_def ata_pio_write_def)
    then show ?thesis using 3 ok by (simp add: drive_ok_def)
  qed
  then show "drive_ok dh'" "disk (snd dh') = (if r then (disk h)(unat n := b) else disk h)" "nsect (snd dh') = nsect h"
    "r \<longleftrightarrow> unat n < nsect h" by auto
qed

text \<open>The sectors of the drive as the file system addresses them.\<close>

definition drive_sector :: "ata_device_t \<times> pio_drive \<Rightarrow> u32 \<Rightarrow> u8 list" where
  "drive_sector dh n = disk (snd dh) (unat n)"

interpretation ata: block_dev drive_ops drive_sector drive_ok
proof
  fix dh :: "ata_device_t \<times> pio_drive" and n
  assume "drive_ok dh"
  then show "length (drive_sector dh n) = 512" by (simp add: drive_ok_def drive_sector_def)
next
  fix dh dh' :: "ata_device_t \<times> pio_drive" and b b' n r
  assume a: "drive_ok dh" "length b = 512" "ops_read drive_ops b n dh = (r, b', dh')"
  obtain d h where "dh = (d, h)" by (cases dh)
  with a show "drive_ok dh' \<and> drive_sector dh' = drive_sector dh \<and> b' = (if r then drive_sector dh n else b)"
    using ata_read_law [of d h b n r b' dh'] by (simp add: drive_ops_def drive_sector_def fun_eq_iff)
next
  fix dh dh' :: "ata_device_t \<times> pio_drive" and b n r
  assume a: "drive_ok dh" "length b = 512" "ops_write drive_ops b n dh = (r, dh')"
  obtain d h where "dh = (d, h)" by (cases dh)
  with a show "drive_ok dh' \<and> (\<forall>m. m \<noteq> n \<longrightarrow> drive_sector dh' m = drive_sector dh m) \<and> (r \<longrightarrow> drive_sector dh' n = b)"
    using ata_write_law [of d h b n r dh'] by (auto simp: drive_ops_def drive_sector_def word_unat_eq_iff)
qed

definition drive_reach :: "ata_device_t \<times> pio_drive \<Rightarrow> u32 \<Rightarrow> bool" where
  "drive_reach dh n = (unat n < nsect (snd dh))"

interpretation atar: reliable_dev drive_ops drive_sector drive_ok drive_reach
proof
  fix dh :: "ata_device_t \<times> pio_drive" and b :: "u8 list" and n
  assume a: "drive_ok dh" "length b = 512" "drive_reach dh n"
  obtain d h where dh: "dh = (d, h)" by (cases dh)
  obtain r b' dh' where "ata_disk_read drive_io b n dh = (r, b', dh')" by (metis prod_cases3)
  with a dh show "fst (ops_read drive_ops b n dh)"
    using ata_read_law(4) [of d h b n r b' dh'] by (simp add: drive_ops_def drive_reach_def)
  obtain r dh' where "ata_disk_write drive_io b n dh = (r, dh')" by (metis prod.exhaust)
  with a dh show "fst (ops_write drive_ops b n dh)"
    using ata_write_law(4) [of d h b n r dh'] by (simp add: drive_ops_def drive_reach_def)
next
  fix dh dh' :: "ata_device_t \<times> pio_drive" and b b' n r
  assume a: "drive_ok dh" "length b = 512" "ops_read drive_ops b n dh = (r, b', dh')"
  obtain d h where "dh = (d, h)" by (cases dh)
  with a show "drive_reach dh' = drive_reach dh"
    using ata_read_law(3) [of d h b n r b' dh'] by (simp add: drive_ops_def drive_reach_def fun_eq_iff)
next
  fix dh dh' :: "ata_device_t \<times> pio_drive" and b n r
  assume a: "drive_ok dh" "length b = 512" "ops_write drive_ops b n dh = (r, dh')"
  obtain d h where "dh = (d, h)" by (cases dh)
  with a show "drive_reach dh' = drive_reach dh"
    using ata_write_law(3) [of d h b n r dh'] by (simp add: drive_ops_def drive_reach_def fun_eq_iff)
qed

section \<open>Properties: the file system's table on the drive\<close>

definition mounted :: "u64 \<Rightarrow> (ata_device_t \<times> pio_drive) fs \<Rightarrow> bool" where
  "mounted p s \<longleftrightarrow> cache_inv drive_ops drive_sector drive_ok p s \<and> layout_ok (vol s p)"

text \<open>Every sector of the volume's tables and its information sector exist on the drive.\<close>

definition tables_on_drive :: "u64 \<Rightarrow> (ata_device_t \<times> pio_drive) fs \<Rightarrow> bool" where
  "tables_on_drive p s \<longleftrightarrow> flushable drive_reach p s
     \<and> (\<forall>c < f_clust_cnt (vol s p). drive_reach (dev s) (f_fat_sect0 (vol s p) + c div 128)
          \<and> (f_fat_sect1 (vol s p) \<noteq> 0 \<longrightarrow> drive_reach (dev s) (f_fat_sect1 (vol s p) + c div 128)))"

abbreviation entry :: "u64 \<Rightarrow> (ata_device_t \<times> pio_drive) fs \<Rightarrow> u32 \<Rightarrow> u32" where
  "entry \<equiv> ent drive_sector"

abbreviation copy :: "u32 \<Rightarrow> u64 \<Rightarrow> (ata_device_t \<times> pio_drive) fs \<Rightarrow> u32 \<Rightarrow> u32" where
  "copy \<equiv> tab drive_sector"

text \<open>
  C8: The file allocation table, accessed through the one-sector cache and the ATA driver, is a map: writing the
  entry of a cluster succeeds, changes this entry only (to the low 28 bits), keeps the upper
  nibble, writes the second copy when there is one, and reading it back returns the value written.
\<close>

theorem fat_table_map:
  assumes "mounted p s" and "tables_on_drive p s" and "c < f_clust_cnt (vol s p)"
    and "classify (f_clust_cnt (vol s p)) (v AND 0x0fffffff) = Some cls"
  shows "\<exists>s1 s2. put_fat p c v s = (0, s1) \<and> mounted p s1
    \<and> (\<forall>x < f_clust_cnt (vol s p). entry p s1 x = (if x = c then v AND 0x0fffffff else entry p s x))
    \<and> copy (f_fat_sect0 (vol s p)) p s1 c AND 0xf0000000 = copy (f_fat_sect0 (vol s p)) p s c AND 0xf0000000
    \<and> (f_fat_sect1 (vol s p) \<noteq> 0 \<longrightarrow> copy (f_fat_sect1 (vol s p)) p s1 c AND 0x0fffffff = v AND 0x0fffffff)
    \<and> get_fat p c out s1 = (0, (v AND 0x0fffffff, cls), s2)"
proof -
  have m: "cache_inv drive_ops drive_sector drive_ok p s" "layout_ok (vol s p)" using assms(1) by (auto simp: mounted_def)
  obtain s1 where put: "put_fat p c v s = (0, s1)" "flushable drive_reach p s1" "drive_reach (dev s1) = drive_reach (dev s)"
    using atar.put_fat_ok [OF m(1) _ m(2) assms(3), of v] assms(2,3) by (auto simp: tables_on_drive_def)
  note P = ata.put_fat_spec [OF m assms(3) put(1)]
  have f: "f_fat_sect0 (vol s1 p) = f_fat_sect0 (vol s p)" "f_clust_cnt (vol s1 p) = f_clust_cnt (vol s p)"
    using P(2) by (simp_all add: frame_fields)
  have e: "entry p s1 x = (if x = c then v AND 0x0fffffff else entry p s x)" if "x < f_clust_cnt (vol s p)" for x
    using P(3) [OF that] f(1) by (simp add: ent_def)
  have "f_fat_sect0 (vol s1 p) + c div 128 \<noteq> 0" using m(2) assms(3) f(1) by (simp add: layout_ok_def)
  moreover have "drive_reach (dev s1) (f_fat_sect0 (vol s1 p) + c div 128)"
    using assms(2,3) put(3) f(1) by (simp add: tables_on_drive_def)
  ultimately obtain s2 where "get_fat p c out s1 = (0, (v AND 0x0fffffff, cls), s2)"
    using atar.get_fat_ok [OF P(1) put(2), of c out] e [OF assms(3)] f(2) assms(4) by auto
  moreover have "mounted p s1" using P(1,2) m(2) by (simp add: mounted_def layout_frame)
  ultimately show ?thesis using put(1) e P(3) [OF assms(3)] P(4) [OF _ _ assms(3)] by auto
qed

text \<open>
  C10: \<^verbatim>\<open>remove_chain\<close> returns on every table, even on one whose links form a cycle, and on a proper
  chain, when it reports success, exactly the clusters of the chain are free afterwards and the free
  counter has grown by their number.
\<close>

theorem remove_chain_frees:
  assumes "mounted p s" and "c < f_clust_cnt (vol s p)"
  shows "\<exists>e s'. remove_chain p c s = Some (e, s') \<and>
    (\<forall>cs. chain (entry p s) (f_clust_cnt (vol s p)) c cs \<and> distinct cs \<and> e = 0 \<longrightarrow>
      (\<forall>x < f_clust_cnt (vol s p). entry p s' x = (if x \<in> set cs then 0 else entry p s x))
      \<and> f_free_cnt (vol s' p) = f_free_cnt (vol s p) + of_nat (length cs))"
proof -
  let ?s = "upd_vol p (set_flag FAT_INFO_DIRTY) s" and ?out = "(0, uninit s)"
  have m: "cache_inv drive_ops drive_sector drive_ok p s" "layout_ok (vol s p)" using assms(1) by (auto simp: mounted_def)
  have fr: "frame p s ?s" and inv: "cache_inv drive_ops drive_sector drive_ok p ?s" using m(1) by simp_all
  have f: "layout_ok (vol ?s p)" "f_clust_cnt (vol ?s p) = f_clust_cnt (vol s p)" "entry p ?s = entry p s"
      "f_free_cnt (vol ?s p) = f_free_cnt (vol s p)"
    using m(2) by (simp_all only: layout_frame [OF fr] frame_fields [OF fr] ent_frame [OF fr] upd_info_flag)
  obtain e s' where run: "remove_loop p c ?out ?s = Some (e, s')"
    using ata.remove_loop_returns [OF inv f(1), of c] assms(2) f(2) by metis
  have "(\<forall>x < f_clust_cnt (vol s p). entry p s' x = (if x \<in> set cs then 0 else entry p s x))
      \<and> f_free_cnt (vol s' p) = f_free_cnt (vol s p) + of_nat (length cs)"
    if "chain (entry p s) (f_clust_cnt (vol s p)) c cs" "distinct cs" "e = 0" for cs
    using ata.remove_loop_chain [OF inv f(1), unfolded f(2-4), OF that(1,2), of ?out] run that(3) by auto
  then show ?thesis using run by (auto simp: remove_chain_def)
qed

text \<open>
  C15: \<^verbatim>\<open>stretch_chain\<close> with a valid hint \<^verbatim>\<open>last_used\<close> always returns.  When it reports success (and the
  uninitialised local it may return on a failed read is not 0), the cluster it hands out was free, is now
  the end of a chain, is linked behind \<^verbatim>\<open>prev\<close> when there is one, no other entry has changed and
  the counters are updated.
\<close>

theorem stretch_chain_grows:
  assumes "mounted p s" and "2 \<le> f_last_used (vol s p)" and "f_last_used (vol s p) < f_clust_cnt (vol s p)"
    and "prev = 0 \<or> 2 \<le> prev \<and> prev < f_clust_cnt (vol s p)"
  shows "\<exists>e c s'. stretch_chain p prev out s = Some (e, c, s')
    \<and> (e = 0 \<and> uninit s \<noteq> 0 \<longrightarrow> 2 \<le> c \<and> c < f_clust_cnt (vol s p) \<and> entry p s c = 0
        \<and> (\<forall>x < f_clust_cnt (vol s p). entry p s' x =
            (if prev \<noteq> 0 \<and> x = prev then c else if x = c then 0x0fffffff else entry p s x))
        \<and> f_last_used (vol s' p) = c \<and> f_free_cnt (vol s' p) = f_free_cnt (vol s p) - 1)"
proof -
  have "cache_inv drive_ops drive_sector drive_ok p s" "layout_ok (vol s p)" using assms(1) by (auto simp: mounted_def)
  from ata.stretch_spec [OF this assms(2-4), of out] show ?thesis by (auto simp: grown_def)
qed

text \<open>
  C17: \<^verbatim>\<open>sync_fs\<close> fails with an I/O error only, and it succeeds when the cached sector and the information sector
  exist on the drive.  After success nothing is left in the cache, and every sector of the disk is
  known: it holds the logical contents from before the call, and the information sector, when it was
  marked dirty, has besides the volume's free counter at byte 488 and its last used cluster at byte 492; both
  dirty flags are clear.
\<close>

theorem sync_fs_writes_back:
  assumes "mounted p s"
  shows "\<exists>e s'. sync_fs p s = (e, s') \<and> mounted p s' \<and> (e = 0 \<or> e = FAT_ERR_IO)
    \<and> (flushable drive_reach p s \<and> drive_reach (dev s) (f_info_sect (vol s p)) \<longrightarrow> e = 0)
    \<and> (e = 0 \<longrightarrow> f_flags (vol s' p) AND FAT_BUF_DIRTY = 0 \<and> f_flags (vol s' p) AND FAT_INFO_DIRTY = 0
        \<and> (\<forall>n. drive_sector (dev s') n =
              (if n = f_info_sect (vol s p) \<and> f_flags (vol s p) AND FAT_INFO_DIRTY \<noteq> 0
               then put32 (put32 (lsect drive_sector p s n) 492 (f_last_used (vol s p))) 488 (f_free_cnt (vol s p))
               else lsect drive_sector p s n)))"
proof -
  have m: "cache_inv drive_ops drive_sector drive_ok p s" "layout_ok (vol s p)" "f_info_sect (vol s p) \<noteq> 0"
    using assms by (auto simp: mounted_def layout_ok_def)
  obtain e s' where run: "sync_fs p s = (e, s')" by (metis prod.exhaust)
  note S = ata.sync_fs_spec [OF m(1) refl m(3) run]
  have "mounted p s'" using S(1,2) m(2) by (simp add: mounted_def layout_frame)
  moreover have "e = 0" if "flushable drive_reach p s" "drive_reach (dev s) (f_info_sect (vol s p))"
    using atar.sync_fs_ok [OF m(1) that(1) m(3) that(2)] run by simp
  moreover have "f_flags (vol s' p) AND 1 = 0" "f_flags (vol s' p) AND 2 = 0" if "e = 0"
    using S(4,6) [OF that] and_flag_bits [of "f_flags (vol s' p)"] by (simp_all add: dirty_def)
  moreover have "drive_sector (dev s') n =
      (if n = f_info_sect (vol s p) \<and> f_flags (vol s p) AND 2 \<noteq> 0
       then put32 (put32 (lsect drive_sector p s n) 492 (f_last_used (vol s p))) 488 (f_free_cnt (vol s p))
       else lsect drive_sector p s n)" if "e = 0" for n
  proof -
    have "drive_sector (dev s') n = lsect drive_sector p s' n" using S(4) [OF that] by (simp add: lsect_def)
    then show ?thesis unfolding S(7) [OF that] and_flag_bits by simp
  qed
  ultimately show ?thesis using run S(5) by auto
qed

section \<open>Witnesses\<close>

text \<open>A drive of a million sectors whose table has the chain 5, 6; all other clusters are free.\<close>

definition fat_sector :: "u8 list" where
  "fat_sector = put32 (put32 (replicate 512 0) 20 6) 24 0x0fffffff"

definition drive_sample :: pio_drive where
  "drive_sample = \<lparr>nsect = 1000000, disk = (\<lambda>n. if n = 32 then fat_sector else replicate 512 0), ident = replicate 256 0,
     r_sel = 0, r_cnt = 0, r_lba0 = 0, r_lba1 = 0, r_lba2 = 0, err = False, data_in = [], data_out = None\<rparr>"

definition fs_sample :: "(ata_device_t \<times> pio_drive) fs" where
  "fs_sample = (fs_with (fat_blank drive_ops (bytes ''disk0'')) (g_ata0\<lparr>present := True\<rparr>, drive_sample))\<lparr>uninit := 7\<rparr>"

lemma vol_sample [simp]: "vol fs_sample p = fat_blank drive_ops (bytes ''disk0'')" "uninit fs_sample = 7"
  "dev fs_sample = (g_ata0\<lparr>present := True\<rparr>, drive_sample)"
  by (simp_all add: fs_sample_def fs_with_def)

lemma blank_simps [simp]:
  "f_clust_cnt (fat_blank ops nm) = 70000" "f_fat_sect0 (fat_blank ops nm) = 32" "f_fat_sect1 (fat_blank ops nm) = 0"
  "f_info_sect (fat_blank ops nm) = 1" "f_last_used (fat_blank ops nm) = 2" "f_free_cnt (fat_blank ops nm) = 69990"
  "f_sect (fat_blank ops nm) = 0" "\<not> dirty (fat_blank ops nm)" "f_buf (fat_blank ops nm) = replicate 512 0"
  "f_ops (fat_blank ops nm) = ops"
  by (simp_all add: fat_blank_def dirty_def)

lemma table_sector: "c < 70000 \<Longrightarrow> unat (32 + c div 128 :: u32) = 32 + unat c div 128"
  by (subst unat_plus_small) (auto simp: unat_div word_less_nat_alt)

lemma sample_mounted: "mounted p fs_sample"
proof -
  have "32 + c div 128 \<noteq> 0 \<and> 32 + c div 128 \<noteq> (1 :: u32)" if "c < 70000" for c :: u32
    using table_sector [OF that] by (metis One_nat_def add_is_0 add_is_1 unat_0 unat_1 zero_neq_numeral
        numeral_neq_zero one_eq_numeral_iff semiring_norm(85))
  then have "layout_ok (vol fs_sample p)" by (auto simp: layout_ok_def)
  moreover have "drive_ok (dev fs_sample)"
    by (simp add: drive_ok_def on_drive_def g_ata0_def drive_sample_def fat_sector_def)
  ultimately show ?thesis by (simp add: mounted_def cache_inv_def)
qed

lemma sample_tables: "tables_on_drive p fs_sample"
proof -
  have "drive_reach (dev fs_sample) (32 + c div 128)" if "c < 70000" for c
    using table_sector [OF that] that by (simp add: drive_reach_def drive_sample_def word_less_nat_alt)
  then show ?thesis by (simp add: tables_on_drive_def flushable_def)
qed

lemma sample_entries: "entry p fs_sample 5 = 6" "entry p fs_sample 6 = 0x0fffffff"
  by (simp_all add: ent_def tab_def lsect_def drive_sector_def drive_sample_def fat_sector_def
      le32_put32 le32_put32_other)

theorem fat_table_map_witness:
  "\<exists>s1 s2. put_fat 1 7 9 fs_sample = (0, s1) \<and> entry 1 s1 7 = 9 \<and> entry 1 s1 5 = 6
    \<and> get_fat 1 7 (0, 0) s1 = (0, (9, 2), s2)"
proof -
  have h: "7 < f_clust_cnt (vol fs_sample 1)" "classify (f_clust_cnt (vol fs_sample 1)) (9 AND 0x0fffffff) = Some 2"
    by (simp_all add: classify_def)
  show ?thesis
    using fat_table_map [OF sample_mounted sample_tables h, of "(0, 0)"] sample_entries(1) [of 1]
    by (auto simp del: split_paired_Ex)
qed

theorem remove_chain_frees_witness:
  "\<exists>e s'. remove_chain 1 5 fs_sample = Some (e, s')
    \<and> (e = 0 \<longrightarrow> entry 1 s' 5 = 0 \<and> entry 1 s' 6 = 0 \<and> f_free_cnt (vol s' 1) = 69992)"
proof -
  have c: "5 < f_clust_cnt (vol fs_sample 1)" by simp
  have "chain (entry 1 fs_sample) (f_clust_cnt (vol fs_sample 1)) 5 [5, 6]" by (simp add: sample_entries)
  then show ?thesis using remove_chain_frees [OF sample_mounted c] by fastforce
qed

theorem stretch_chain_grows_witness:
  "\<exists>e c s'. stretch_chain 1 6 0 fs_sample = Some (e, c, s')
    \<and> (e = 0 \<longrightarrow> entry 1 fs_sample c = 0 \<and> entry 1 s' 6 = c \<and> f_free_cnt (vol s' 1) = 69989)"
  using stretch_chain_grows [OF sample_mounted, of 1 6 0] by (simp del: split_paired_Ex) fastforce

text \<open>The same volume with sector 40 changed in the cache and the counters not yet written.\<close>

definition fs_unsynced :: "(ata_device_t \<times> pio_drive) fs" where
  "fs_unsynced = upd_vol 1 (\<lambda>f. f\<lparr>f_sect := 40, f_buf := replicate 512 7, f_flags := 3\<rparr>) fs_sample"

lemma unsynced_simps [simp]:
  "vol fs_unsynced 1 = (fat_blank drive_ops (bytes ''disk0''))\<lparr>f_sect := 40, f_buf := replicate 512 7, f_flags := 3\<rparr>"
  "dev fs_unsynced = dev fs_sample"
  by (simp_all add: fs_unsynced_def)

lemma unsynced_mounted: "mounted 1 fs_unsynced"
proof -
  have "layout_ok (vol fs_unsynced 1)" using sample_mounted [of 1] by (simp add: mounted_def layout_ok_def)
  moreover have "drive_ok (dev fs_sample)" using sample_mounted [of 1] by (simp add: mounted_def cache_inv_def)
  ultimately show ?thesis by (simp add: mounted_def cache_inv_def dirty_def)
qed

lemma unsynced_info: "put32 (put32 (replicate 512 0) 492 2) 488 69990
    = replicate 488 0 @ [0x66, 0x11, 1, 0, 2, 0, 0, 0] @ replicate 16 0"
  by code_simp

theorem sync_fs_writes_back_witness:
  "\<exists>s'. sync_fs 1 fs_unsynced = (0, s') \<and> f_flags (vol s' 1) AND 2 = 0
    \<and> drive_sector (dev s') 40 = replicate 512 7 \<and> drive_sector (dev s') 32 = fat_sector
    \<and> drive_sector (dev s') 1 = replicate 488 0 @ [0x66, 0x11, 1, 0, 2, 0, 0, 0] @ replicate 16 0"
proof -
  have r: "flushable drive_reach 1 fs_unsynced" "drive_reach (dev fs_unsynced) (f_info_sect (vol fs_unsynced 1))"
    by (simp_all add: flushable_def drive_reach_def drive_sample_def)
  obtain s' where s': "sync_fs 1 fs_unsynced = (0, s')" "f_flags (vol s' 1) AND FAT_INFO_DIRTY = 0"
    and w: "\<And>n. drive_sector (dev s') n = (if n = 1
        then put32 (put32 (lsect drive_sector 1 fs_unsynced n) 492 2) 488 69990 else lsect drive_sector 1 fs_unsynced n)"
    using sync_fs_writes_back [OF unsynced_mounted] r by auto
  have "lsect drive_sector 1 fs_unsynced 40 = replicate 512 7" "lsect drive_sector 1 fs_unsynced 32 = fat_sector"
      "lsect drive_sector 1 fs_unsynced 1 = replicate 512 0"
    by (simp_all add: lsect_def dirty_def drive_sector_def drive_sample_def)
  then show ?thesis using s' w unsynced_info by simp
qed

end
