(* ===== verification/Fat_On_Ata.thy ===== *)
theory Fat_On_Ata
  imports Ata
begin

text \<open>
  Files of a FAT32 volume on an ATA drive: the interface of an open file from \<^verbatim>\<open>Fat32_Content\<close>, instantiated
  with the driver of \<^verbatim>\<open>ata.c\<close> on the drive of \<^verbatim>\<open>Ata\<close>.
\<close>

abbreviation open_at :: "u32 list \<Rightarrow> nat \<Rightarrow> File \<Rightarrow> (ata_device_t \<times> pio_drive) fs \<Rightarrow> bool" where
  "open_at \<equiv> file_inv drive_ops drive_sector drive_ok drive_reach"

abbreviation contents :: "u32 list \<Rightarrow> File \<Rightarrow> (ata_device_t \<times> pio_drive) fs \<Rightarrow> u8 list" where
  "contents \<equiv> fcontent drive_sector"

text \<open>C5: Reading from a file: inside the file's size and strictly inside its allocated clusters,
  \<^verbatim>\<open>fat_file_read\<close> through the ATA driver returns exactly the bytes of the file at the current position,
  advances the position by their number and leaves the contents and the rest of the file's state alone.\<close>

theorem file_read_slice:
  assumes "open_at cs pos fl s" and "fl_flags fl AND FAT_READ \<noteq> 0" and "pos + len \<le> unat (fl_size fl)"
    and "pos + len < 512 * (per_clust (vol s (fl_fat fl)) * length cs)"
  shows "\<exists>fl' s'. fat_file_read fl len s = Some (FAT_ERR_NONE, take len (drop pos (contents cs fl s)), fl', s')
    \<and> open_at cs (pos + len) fl' s' \<and> same_file fl fl' \<and> contents cs fl' s' = contents cs fl s"
  using atar.fat_file_read_spec [OF assms] by blast

text \<open>C4: Writing to a file: strictly inside its allocated clusters \<^verbatim>\<open>fat_file_write\<close> replaces exactly the bytes
  at the current position, advances the position, grows the size when the position passes it, and reports
  success and the number of bytes.\<close>

theorem file_write_slice:
  assumes "open_at cs pos fl s" and "fl_flags fl AND FAT_WRITE \<noteq> 0" and "pos + length src < 2 ^ 32"
    and "pos + length src < 512 * (per_clust (vol s (fl_fat fl)) * length cs)"
  shows "\<exists>fl' s'. fat_file_write fl src s = Some (FAT_ERR_NONE, length src, fl', s') \<and> open_at cs (pos + length src) fl' s'
    \<and> unat (fl_size fl') = max (unat (fl_size fl)) (pos + length src)
    \<and> contents cs fl' s' = overwrite (contents cs fl s) pos src"
  using atar.fat_file_write_spec [OF assms] by blast

text \<open>C2: Reading back: what \<^verbatim>\<open>fat_file_write\<close> stored is what \<^verbatim>\<open>fat_file_read\<close> returns after seeking back, whatever sector
  and cluster boundaries the bytes cross.  (One call of the C function seeks to positions below \<open>2\<^sup>3\<^sup>1\<close>, the range of its \<^verbatim>\<open>int\<close>.)\<close>

theorem file_write_read_back:
  assumes "open_at cs pos fl s" and "fl_flags fl AND FAT_WRITE \<noteq> 0" and "fl_flags fl AND FAT_READ \<noteq> 0"
    and "pos + length src < 2 ^ 32" and "pos + length src < 512 * (per_clust (vol s (fl_fat fl)) * length cs)"
  shows "\<exists>fl1 s1 fl2 s2 fl3 s3. fat_file_write fl src s = Some (FAT_ERR_NONE, length src, fl1, s1)
    \<and> fat_file_seek fl1 (int pos) FAT_SEEK_START s1 = Some (FAT_ERR_NONE, fl2, s2)
    \<and> fat_file_read fl2 (length src) s2 = Some (FAT_ERR_NONE, src, fl3, s3)"
  by (rule atar.fat_file_write_read_spec [OF assms])

section \<open>Witnesses\<close>

text \<open>The file with the clusters 5 and 6 of the sample drive, open for reading and writing at its start.\<close>

lemma sample_sects: "file_sects (fat_blank drive_ops nm) [5, 6] = [603, 604]"
  by (simp add: file_sects_def fat_blank_def clust_to_sect_def upt_rec)

lemma sample_file_open: "open_at [5, 6] 0 file_sample fs_sample"
proof -
  have m: "mounted 1 fs_sample" "tables_on_drive 1 fs_sample" by (rule sample_mounted, rule sample_tables)
  have ne: "603 \<noteq> 32 + x div 128 \<and> 604 \<noteq> 32 + x div 128" if "x < 70000" for x :: u32
  proof -
    have "unat (32 + x div 128) < 603" using table_sector [OF that] that by (simp add: word_less_nat_alt)
    then show ?thesis by auto
  qed
  have "vol_inv drive_ops drive_sector drive_ok drive_reach 1 5 [5, 6] fs_sample"
    using m ne sample_entries [of 1]
    by (simp add: vol_inv_def Let_def mounted_def tables_on_drive_def sample_sects)
       (simp add: fat_blank_def drive_reach_def drive_sample_def)
  then show ?thesis
    by (simp add: file_inv_def Let_def file_sample_def sample_sects)
       (simp add: fat_blank_def drive_sector_def drive_sample_def)
qed

lemma sample_capacity: "per_clust (vol fs_sample (fl_fat file_sample)) = 1"
  by (simp add: fat_blank_def)

theorem file_read_slice_witness:
  "\<exists>bs fl' s'. fat_file_read file_sample 700 fs_sample = Some (FAT_ERR_NONE, bs, fl', s') \<and> open_at [5, 6] 700 fl' s'"
  using file_read_slice [OF sample_file_open, of 700] sample_capacity by (auto simp: file_sample_def)

theorem file_write_slice_witness:
  "\<exists>fl' s'. fat_file_write file_sample (replicate 700 65) fs_sample = Some (FAT_ERR_NONE, 700, fl', s')
    \<and> open_at [5, 6] 700 fl' s'"
  using file_write_slice [OF sample_file_open, of "replicate 700 65"] sample_capacity by (auto simp: file_sample_def)

theorem file_write_read_back_witness:
  "\<exists>fl1 s1 fl2 s2 fl3 s3. fat_file_write file_sample (replicate 700 65) fs_sample = Some (FAT_ERR_NONE, 700, fl1, s1)
    \<and> fat_file_seek fl1 0 FAT_SEEK_START s1 = Some (FAT_ERR_NONE, fl2, s2)
    \<and> fat_file_read fl2 700 s2 = Some (FAT_ERR_NONE, replicate 700 65, fl3, s3)"
  using file_write_read_back [OF sample_file_open, of "replicate 700 65"] sample_capacity by (simp add: file_sample_def)

end
