(* ===== verification/Fat32_Layout.thy ===== *)
theory Fat32_Layout
  imports Fat32_File
begin

text \<open>
  The packed structures of \<^verbatim>\<open>fat32.c\<close>: \<^verbatim>\<open>Mbr\<close>, \<^verbatim>\<open>Bpb\<close>, \<^verbatim>\<open>FsInfo\<close>, \<^verbatim>\<open>Sfn\<close>, \<^verbatim>\<open>Lfn\<close>, each as the list of its members with their
  sizes in bytes.  The driver is modelled with byte offsets; here the offsets are computed from the declarations.

  Shown: members never overlap and fill 512 or 32 bytes, so that writing one reads back and changes no other; mounting
  gives a volume the geometry that the members of its boot sector state, with the layout that the theorems
  about the allocation table need; every member of a new directory entry.
\<close>

section \<open>Layouts\<close>

type_synonym layout = "(string \<times> nat) list"

fun offset :: "layout \<Rightarrow> string \<Rightarrow> nat" where
  "offset [] f = 0"
| "offset ((g, n) # l) f = (if f = g then 0 else n + offset l f)"

definition struct_size :: "layout \<Rightarrow> nat" where
  "struct_size l = sum_list (map snd l)"

definition Mbr_part :: layout where
  "Mbr_part = [(''status'', 1), (''reserved_0'', 3), (''type'', 1), (''reserved_1'', 3), (''lba'', 4), (''size'', 4)]"

definition Mbr :: layout where
  "Mbr = [(''boot'', 446), (''part'', 4 * struct_size Mbr_part), (''sig'', 2)]"

definition Bpb :: layout where
  "Bpb = [(''jump'', 3), (''name'', 8), (''bytes_per_sect'', 2), (''sect_per_clust'', 1), (''res_sect_cnt'', 2),
     (''fat_cnt'', 1), (''root_ent_cnt'', 2), (''sect_cnt_16'', 2), (''media'', 1), (''sect_per_fat_16'', 2),
     (''sect_per_track'', 2), (''head_cnt'', 2), (''hidden_sect_cnt'', 4), (''sect_cnt_32'', 4), (''sect_per_fat_32'', 4),
     (''ext_flags'', 2), (''minor'', 1), (''major'', 1), (''root_cluster'', 4), (''info_sect'', 2),
     (''copy_bpb_sector'', 2), (''reserved_0'', 12), (''drive_num'', 1), (''reserved_1'', 1), (''boot_sig'', 1),
     (''volume_id'', 4), (''volume_label'', 11), (''fs_type'', 8), (''reserved_2'', 420), (''sign'', 2)]"

definition FsInfo :: layout where
  "FsInfo = [(''head_sig'', 4), (''reserved_0'', 480), (''struct_sig'', 4), (''free_cnt'', 4), (''next_free'', 4),
     (''reserved_1'', 12), (''tail_sig'', 4)]"

definition Sfn :: layout where
  "Sfn = [(''name'', 11), (''attr'', 1), (''reserved'', 1), (''tenth'', 1), (''cre_time'', 2), (''cre_date'', 2),
     (''acc_date'', 2), (''clust_hi'', 2), (''mod_time'', 2), (''mod_date'', 2), (''clust_lo'', 2), (''size'', 4)]"

text \<open>The structure that shares its bytes with \<^verbatim>\<open>raw\<close>.\<close>

definition Lfn :: layout where
  "Lfn = [(''seq'', 1), (''name0'', 10), (''attr'', 1), (''type'', 1), (''crc'', 1), (''name1'', 12), (''clust'', 2),
     (''name2'', 4)]"

lemmas layout_defs = Mbr_part_def Mbr_def Bpb_def FsInfo_def Sfn_def Lfn_def struct_size_def

definition structs :: "layout list" where
  "structs = [Mbr_part, Mbr, Bpb, FsInfo, Sfn, Lfn]"

text \<open>Reading and writing a member.\<close>

definition get_field :: "layout \<Rightarrow> string \<Rightarrow> u8 list \<Rightarrow> u8 list" where
  "get_field l f b = take (the (map_of l f)) (drop (offset l f) b)"

definition put_field :: "layout \<Rightarrow> string \<Rightarrow> u8 list \<Rightarrow> u8 list \<Rightarrow> u8 list" where
  "put_field l f v b = overwrite b (offset l f) v"

section \<open>Members do not overlap\<close>

lemma offset_bound: "map_of l f = Some n \<Longrightarrow> offset l f + n \<le> struct_size l"
  by (induction l f rule: offset.induct) (auto simp: struct_size_def split: if_splits)

lemma offsets_apart:
  "map_of l f = Some n \<Longrightarrow> map_of l g = Some k \<Longrightarrow> f \<noteq> g \<Longrightarrow> offset l f + n \<le> offset l g \<or> offset l g + k \<le> offset l f"
  by (induction l) (auto split: if_splits)

lemma take_drop_overwrite_other:
  assumes "off + length v \<le> length b" and "o' + n \<le> off \<or> off + length v \<le> o'"
  shows "take n (drop o' (overwrite b off v)) = take n (drop o' b)"
proof (cases "o' + n \<le> off")
  case True
  then have "take (n + o') (overwrite b off v) = take (n + o') b"
    using assms(1) by (simp add: overwrite_def min_def)
  then show ?thesis by (simp add: take_drop)
next
  case False
  then have "off + length v \<le> o'" using assms(2) by simp
  then have "drop o' (overwrite b off v) = drop o' b"
    using assms(1) by (simp add: overwrite_def)
  then show ?thesis by simp
qed

lemma get_put_field:
  assumes "map_of l f = Some (length v)" and "struct_size l \<le> length b"
  shows "get_field l f (put_field l f v b) = v"
    and "map_of l g \<noteq> None \<Longrightarrow> g \<noteq> f \<Longrightarrow> get_field l g (put_field l f v b) = get_field l g b"
proof -
  have le: "offset l f + length v \<le> length b" using offset_bound [OF assms(1)] assms(2) by simp
  then show "get_field l f (put_field l f v b) = v"
    using slice_overwrite [OF le] assms(1) by (simp add: get_field_def put_field_def)
  assume "map_of l g \<noteq> None" "g \<noteq> f"
  then obtain n where n: "map_of l g = Some n" by auto
  from offsets_apart [OF n assms(1) \<open>g \<noteq> f\<close>]
  show "get_field l g (put_field l f v b) = get_field l g b"
    using n take_drop_overwrite_other [OF le] by (auto simp: get_field_def put_field_def)
qed

section \<open>The driver's members\<close>

definition member8 :: "layout \<Rightarrow> string \<Rightarrow> u8 list \<Rightarrow> u8" where
  "member8 l f b = b ! offset l f"

definition member16 :: "layout \<Rightarrow> string \<Rightarrow> u8 list \<Rightarrow> u16" where
  "member16 l f b = le16 b (offset l f)"

definition member32 :: "layout \<Rightarrow> string \<Rightarrow> u8 list \<Rightarrow> u32" where
  "member32 l f b = le32 b (offset l f)"

lemmas member_defs = member8_def member16_def member32_def

lemma struct_sizes:
  "struct_size Mbr_part = 16" "struct_size Mbr = 512" "struct_size Bpb = 512" "struct_size FsInfo = 512"
  "struct_size Sfn = 32" "struct_size Lfn = 32"
  by (simp_all add: layout_defs)

text \<open>
  The packed structures fill their sector or directory entry exactly, and no two members overlap: a member that is
  written reads back, and every other member keeps its bytes.
\<close>

theorem struct_members:
  assumes "l \<in> set structs" and "length b = struct_size l" and "map_of l f = Some (length v)"
  shows "struct_size l \<in> {16, 32, 512} \<and> get_field l f (put_field l f v b) = v
     \<and> length (put_field l f v b) = length b
     \<and> (\<forall>g. map_of l g \<noteq> None \<and> g \<noteq> f \<longrightarrow> get_field l g (put_field l f v b) = get_field l g b)"
proof -
  have "struct_size l \<in> {16, 32, 512}" using assms(1) by (auto simp: structs_def struct_sizes)
  moreover have "length (put_field l f v b) = length b"
    unfolding put_field_def by (rule length_overwrite) (use offset_bound [OF assms(3)] assms(2) in simp)
  ultimately show ?thesis using get_put_field [OF assms(3)] assms(2) by simp
qed

theorem struct_members_witness:
  "get_field Sfn ''clust_lo'' (put_field Sfn ''clust_lo'' [5, 0] (replicate 32 7)) = [5, 0]
   \<and> get_field Sfn ''size'' (put_field Sfn ''clust_lo'' [5, 0] (replicate 32 7)) = get_field Sfn ''size'' (replicate 32 7)"
proof -
  have "Sfn \<in> set structs" "length (replicate 32 7) = struct_size Sfn" "map_of Sfn ''clust_lo'' = Some (length [5, 0 :: u8])"
    "map_of Sfn ''size'' \<noteq> None \<and> ''size'' \<noteq> ''clust_lo''" by (simp_all add: structs_def struct_sizes) (simp_all add: Sfn_def)
  with struct_members [of Sfn "replicate 32 7" "''clust_lo''" "[5, 0]"] show ?thesis by blast
qed

section \<open>The geometry of a mounted volume\<close>

text \<open>The numbers a boot sector states, from its members' names.\<close>

definition reserved_sects :: "u8 list \<Rightarrow> nat" where
  "reserved_sects b = unat (member16 Bpb ''res_sect_cnt'' b)"

definition table_sects :: "u8 list \<Rightarrow> nat" where
  "table_sects b = unat (member32 Bpb ''sect_per_fat_32'' b)"

definition data_start :: "u8 list \<Rightarrow> nat" where
  "data_start b = reserved_sects b + unat (member8 Bpb ''fat_cnt'' b) * table_sects b"

definition total_sects :: "u8 list \<Rightarrow> nat" where
  "total_sects b = unat (member32 Bpb ''sect_cnt_32'' b)"

definition clust_sects :: "u8 list \<Rightarrow> nat" where
  "clust_sects b = unat (member8 Bpb ''sect_per_clust'' b)"

definition clusters :: "u8 list \<Rightarrow> nat" where
  "clusters b = (total_sects b - data_start b) div clust_sects b"

text \<open>A volume at sector \<^term>\<open>lba\<close> whose parts fit: two tables or more with an entry for every cluster, the
  information sector among the reserved ones, a power of two sectors in a cluster.\<close>

definition sane_bpb :: "u8 list \<Rightarrow> u32 \<Rightarrow> nat \<Rightarrow> bool" where
  "sane_bpb b lba k \<longleftrightarrow> unat lba + total_sects b < 2 ^ 32 \<and> data_start b \<le> total_sects b
     \<and> 2 \<le> unat (member8 Bpb ''fat_cnt'' b) \<and> clust_sects b = 2 ^ k
     \<and> 0 < unat (member16 Bpb ''info_sect'' b) \<and> unat (member16 Bpb ''info_sect'' b) < reserved_sects b
     \<and> clusters b \<le> 128 * table_sects b \<and> clusters b \<le> 0x0ffffff7"

lemma bpb_members:
  "member8 Bpb ''jump'' b = b ! 0" "member16 Bpb ''bytes_per_sect'' b = le16 b 11" "member8 Bpb ''sect_per_clust'' b = b ! 13"
  "member16 Bpb ''res_sect_cnt'' b = le16 b 14" "member8 Bpb ''fat_cnt'' b = b ! 16" "member32 Bpb ''sect_cnt_32'' b = le32 b 32"
  "member32 Bpb ''sect_per_fat_32'' b = le32 b 36" "member16 Bpb ''ext_flags'' b = le16 b 40"
  "member32 Bpb ''root_cluster'' b = le32 b 44" "member16 Bpb ''info_sect'' b = le16 b 48"
  by (simp_all add: member_defs Bpb_def)

lemmas bpb_numbers = reserved_sects_def table_sects_def data_start_def total_sects_def clust_sects_def clusters_def bpb_members

lemma mounted_geometry:
  assumes "fat_mount ops part p name s = (FAT_ERR_NONE, s')" and "probe ops part s = (FAT_ERR_NONE, lba, s1)"
  defines "g \<equiv> mount_geometry (g_buf s1) lba (vol s1 p)"
  shows "f_clust_shift (vol s' p) = f_clust_shift g" "f_clust_msk (vol s' p) = f_clust_msk g"
    "f_clust_cnt (vol s' p) = f_clust_cnt g" "f_root_clust (vol s' p) = f_root_clust g"
    "f_fat_sect0 (vol s' p) = f_fat_sect0 g" "f_fat_sect1 (vol s' p) = f_fat_sect1 g"
    "f_info_sect (vol s' p) = f_info_sect g" "f_data_sect (vol s' p) = f_data_sect g"
proof -
  let ?s2 = "upd_vol p (mount_geometry (g_buf s1) lba) s1"
  obtain ok s3 where rd: "read_g_buf ops (f_info_sect (vol ?s2 p)) ?s2 = (ok, s3)" by fastforce
  have s3: "vol s3 = vol ?s2" using rd by (auto simp: read_g_buf_def Let_def split: prod.splits)
  have ok: "ok" "length name \<le> 32" using assms(1,2) rd by (auto simp: fat_mount_def Let_def split: if_splits)
  have "vol s' p = (mount_info (g_buf s3) g)\<lparr>f_name := name @ replicate (32 - length name) 0,
      f_name_len := of_nat (length name), f_ops := ops, f_sect := 0, f_next := g_fat_list s3\<rparr>"
    using assms(1,2) rd ok s3 by (auto simp: fat_mount_def Let_def g_def)
  then show "f_clust_shift (vol s' p) = f_clust_shift g" "f_clust_msk (vol s' p) = f_clust_msk g"
    "f_clust_cnt (vol s' p) = f_clust_cnt g" "f_root_clust (vol s' p) = f_root_clust g"
    "f_fat_sect0 (vol s' p) = f_fat_sect0 g" "f_fat_sect1 (vol s' p) = f_fat_sect1 g"
    "f_info_sect (vol s' p) = f_info_sect g" "f_data_sect (vol s' p) = f_data_sect g"
    by (simp_all add: mount_info_def)
qed

lemma ctz8_pow: "unat v = 2 ^ k \<Longrightarrow> k < 8 \<and> unat (ctz8 v) = k" for v :: u8
proof -
  assume v: "unat v = 2 ^ k"
  then have "(2::nat) ^ k < 2 ^ 8" using unat_less_pow [of v] by simp
  then have k: "k < 8" by (simp only: power_strict_increasing_iff one_less_numeral_iff semiring_norm)
  have "of_nat (unat v) = v" by simp
  then have "v = of_nat (2 ^ k)" unfolding v ..
  moreover have "\<forall>k < 8. unat (ctz8 (of_nat (2 ^ k))) = k" by code_simp
  ultimately show ?thesis using k by simp
qed

lemma unat_ucast_to_32:
  "unat (ucast x :: u32) = unat x" "unat (ucast y :: u32) = unat y" for x :: u16 and y :: u8
proof -
  have "unat x < 2 ^ 32" "unat y < 2 ^ 32" using unat_less_pow [of x] unat_less_pow [of y] by simp_all
  then show "unat (ucast x :: u32) = unat x" "unat (ucast y :: u32) = unat y"
    unfolding unsigned_ucast_eq by (simp_all add: take_bit_nat_eq_self)
qed

lemma unat_mult_small: "unat a * unat b < 2 ^ 32 \<Longrightarrow> unat (a * b) = unat a * unat b" for a b :: u32
  by (simp add: unat_word_ariths)

lemma and_bits_16: "x AND 0x80 \<noteq> 0 \<longleftrightarrow> bit x 7" "x AND 1 = 0 \<longleftrightarrow> \<not> bit x 0" for x :: u16
proof -
  have "x AND 2 ^ n = (if bit x n then 2 ^ n else 0)" for n by (rule bit_word_eqI) (auto simp: bit_simps)
  from this [of 7] have "x AND 0x80 = (if bit x 7 then 0x80 else 0)" by simp
  then show "x AND 0x80 \<noteq> 0 \<longleftrightarrow> bit x 7" by simp
  show "x AND 1 = 0 \<longleftrightarrow> \<not> bit x 0" by (simp add: and_one_eq bit_0 even_iff_mod_2_eq_zero)
qed

text \<open>The arithmetic of the code, read without wrap-around.\<close>

lemma geometry_numbers:
  assumes sane: "sane_bpb b lba k" and g: "g = mount_geometry b lba fat"
  shows "unat (f_clust_shift g) = k" "k < 8" "f_clust_msk g = 2 ^ k - 1" "unat (f_clust_cnt g) = clusters b"
    "unat (f_info_sect g) = unat lba + unat (member16 Bpb ''info_sect'' b)" "unat (f_data_sect g) = unat lba + data_start b"
    "unat (f_fat_sect0 g) = unat lba + reserved_sects b + (if bit (member16 Bpb ''ext_flags'' b) 0 then table_sects b else 0)"
    "unat (f_fat_sect1 g) = (if bit (member16 Bpb ''ext_flags'' b) 7
       then unat lba + reserved_sects b + (if bit (member16 Bpb ''ext_flags'' b) 0 then 0 else table_sects b) else 0)"
proof -
  have n: "unat lba + total_sects b < 2 ^ 32" "data_start b \<le> total_sects b" "2 \<le> unat (b ! 16)" "unat (b ! 13) = 2 ^ k"
      "unat (le16 b 48) < reserved_sects b"
    using sane by (simp_all add: sane_bpb_def bpb_members) (simp add: clust_sects_def bpb_members)
  have "1 * table_sects b \<le> unat (b ! 16) * table_sects b" using n(3) by (intro mult_le_mono1) simp
  then have d: "reserved_sects b + table_sects b \<le> data_start b" by (simp add: data_start_def bpb_members)
  let ?R = "ucast (le16 b 14) :: u32" and ?M = "ucast (b ! 16) * le32 b 36"
  have m: "unat ?R = reserved_sects b" "unat (le32 b 36) = table_sects b" "unat (le32 b 32) = total_sects b"
    by (simp_all add: bpb_numbers unat_ucast_to_32)
  have M: "unat ?M = unat (b ! 16) * table_sects b" "unat ?R + unat ?M = data_start b"
    using n(1,2) m by (simp_all add: unat_mult_small unat_ucast_to_32 data_start_def bpb_members)
  show "unat (f_clust_shift g) = k" "k < 8" using ctz8_pow [OF n(4)] by (simp_all add: g mount_geometry_def Let_def)
  have "(of_nat (unat (ucast (b ! 13) :: u32)) :: u32) = of_nat (2 ^ k)" unfolding unat_ucast_to_32 n(4) ..
  then have "(ucast (b ! 13) :: u32) = 2 ^ k" by simp
  then show "f_clust_msk g = 2 ^ k - 1" by (simp add: g mount_geometry_def Let_def)
  have RM: "unat (?R + ?M) = data_start b" using n(1,2) M(2) by (subst unat_plus_small) simp_all
  have "unat (le32 b 32 - (?R + ?M)) = total_sects b - data_start b"
    using RM m(3) n(2) by (subst unat_sub) (simp_all add: word_le_nat_alt)
  then show "unat (f_clust_cnt g) = clusters b"
    using n(4) by (simp add: g mount_geometry_clusters bpb_clust_cnt_def Let_def unat_div unat_ucast_to_32
        clusters_def clust_sects_def bpb_members)
  show "unat (f_info_sect g) = unat lba + unat (member16 Bpb ''info_sect'' b)"
    using n(1,2,5) d by (simp add: g mount_geometry_def Let_def bpb_members unat_ucast_to_32 unat_plus_small)
  have l: "unat (lba + ?R) = unat lba + reserved_sects b" using n(1,2) m d by (subst unat_plus_small) simp_all
  show "unat (f_data_sect g) = unat lba + data_start b"
    unfolding g using n(1,2) M l m by (simp add: mount_geometry_def Let_def unat_plus_small)
  have s: "unat (lba + ?R + le32 b 36) = unat lba + reserved_sects b + table_sects b"
    using n(1,2) d l m by (subst unat_plus_small) simp_all
  show "unat (f_fat_sect0 g) = unat lba + reserved_sects b + (if bit (member16 Bpb ''ext_flags'' b) 0 then table_sects b else 0)"
    "unat (f_fat_sect1 g) = (if bit (member16 Bpb ''ext_flags'' b) 7
       then unat lba + reserved_sects b + (if bit (member16 Bpb ''ext_flags'' b) 0 then 0 else table_sects b) else 0)"
    using l s by (simp_all add: g mount_geometry_def Let_def bpb_members and_bits_16)
qed

lemma cluster_sectors:
  assumes "unat (f_clust_shift f) = k" "k < 8" and c: "2 \<le> unat c" "unat c < n + 2"
    and fit: "unat (f_data_sect f) + n * 2 ^ k < 2 ^ 32"
  shows "unat (clust_to_sect f c) = unat (f_data_sect f) + (unat c - 2) * 2 ^ k"
    and "j < 2 ^ k \<Longrightarrow> sect_to_clust f (clust_to_sect f c + of_nat j) = c"
proof -
  have w: "2 \<le> c" using c(1) by (simp add: word_le_nat_alt)
  have u: "unat (c - 2) = unat c - 2" using w by (subst unat_sub) simp_all
  have "unat c - 2 \<le> n" using c(2) by linarith
  then have "(unat c - 2) * 2 ^ k \<le> n * 2 ^ k" by (rule mult_le_mono1)
  then have lt: "(unat c - 2) * 2 ^ k + unat (f_data_sect f) < 2 ^ 32" using fit by linarith
  have "unat (push_bit k (c - 2)) = take_bit 32 (push_bit k (unat c - 2))" by (simp add: unsigned_push_bit_eq u)
  then have p: "unat (push_bit k (c - 2)) = (unat c - 2) * 2 ^ k"
    using add_lessD1 [OF lt] by (simp only: push_bit_eq_mult take_bit_nat_eq_self)
  have "unat (clust_to_sect f c) = unat (push_bit k (c - 2)) + unat (f_data_sect f)"
    unfolding clust_to_sect_def assms(1) by (rule unat_plus_small) (use lt p in simp)
  then show "unat (clust_to_sect f c) = unat (f_data_sect f) + (unat c - 2) * 2 ^ k" unfolding p by (simp only: add.commute)
  assume j: "j < 2 ^ k"
  have "(2::nat) ^ k \<le> 2 ^ 8" using assms(2) by (intro power_increasing) simp_all
  then have "j < 2 ^ 8" by (rule order_less_le_trans [OF j])
  then have "j < 2 ^ 32" by simp
  then have oj: "unat (of_nat j :: u32) < 2 ^ k" using j by (subst unat_of_nat_small) simp_all
  have "unat (c - 2) * 2 ^ k < 2 ^ 32" unfolding u using lt by linarith
  then show "sect_to_clust f (clust_to_sect f c + of_nat j) = c"
    by (rule clust_sect_inverse [OF w _ assms(1) [symmetric] assms(2) oj])
qed

text \<open>The two tables of a sane volume, one of which the driver calls the first, keep clear of sector 0, of the
  information sector and of each other.\<close>

lemma sane_layout:
  assumes sane: "sane_bpb b lba k" and g: "g = mount_geometry b lba fat"
  shows "layout_ok g"
proof -
  note n = geometry_numbers [OF sane g]
  have b: "unat lba + total_sects b < 2 ^ 32" "data_start b \<le> total_sects b" "2 \<le> unat (member8 Bpb ''fat_cnt'' b)"
      "0 < unat (member16 Bpb ''info_sect'' b)" "unat (member16 Bpb ''info_sect'' b) < reserved_sects b"
      "clusters b \<le> 128 * table_sects b" "clusters b \<le> 0x0ffffff7"
    using sane by (simp_all add: sane_bpb_def)
  have "2 * table_sects b \<le> unat (member8 Bpb ''fat_cnt'' b) * table_sects b" using b(3) by (rule mult_le_mono1)
  then have d: "reserved_sects b + 2 * table_sects b \<le> data_start b" by (simp add: data_start_def)
  have q: "unat (c div 128) < table_sects b" if "c < f_clust_cnt g" for c
    using that b(6) n(4) by (simp add: word_less_nat_alt unat_div less_mult_imp_div_less)
  define B where "B = unat lba + reserved_sects b"
  have info: "0 < unat (f_info_sect g)" "unat (f_info_sect g) < B" using b(4,5) n(5) by (simp_all add: B_def)
  have t0: "B \<le> unat (f_fat_sect0 g + c div 128)" "unat (f_fat_sect0 g + c div 128) < 2 ^ 32"
      "unat (f_fat_sect0 g + c div 128) = unat (f_fat_sect0 g) + unat (c div 128)" if "c < f_clust_cnt g" for c
  proof -
    have "unat (f_fat_sect0 g) + unat (c div 128) < 2 ^ 32" using q [OF that] n(7) b(1,2) d by (auto split: if_splits)
    then show e: "unat (f_fat_sect0 g + c div 128) = unat (f_fat_sect0 g) + unat (c div 128)" by (subst unat_plus_small) simp_all
    then show "B \<le> unat (f_fat_sect0 g + c div 128)" "unat (f_fat_sect0 g + c div 128) < 2 ^ 32"
      using n(7) unat_less_pow [of "f_fat_sect0 g + c div 128"] by (simp_all add: B_def)
  qed
  have t1: "B \<le> unat (f_fat_sect1 g + c div 128)"
      "unat (f_fat_sect1 g + c div 128) = unat (f_fat_sect1 g) + unat (c div 128)"
    if "f_fat_sect1 g \<noteq> 0" "c < f_clust_cnt g" for c
  proof -
    have m: "bit (member16 Bpb ''ext_flags'' b) 7" using that(1) n(8) by (metis unat_eq_zero)
    then have "unat (f_fat_sect1 g) + unat (c div 128) < 2 ^ 32" using q [OF that(2)] n(8) b(1,2) d by (auto split: if_splits)
    then show e: "unat (f_fat_sect1 g + c div 128) = unat (f_fat_sect1 g) + unat (c div 128)" by (subst unat_plus_small) simp_all
    then show "B \<le> unat (f_fat_sect1 g + c div 128)" using n(8) m by (simp add: B_def)
  qed
  have apart: "f_fat_sect0 g + c div 128 \<noteq> f_fat_sect1 g + c' div 128"
    if "f_fat_sect1 g \<noteq> 0" "c < f_clust_cnt g" "c' < f_clust_cnt g" for c c'
  proof -
    have m: "bit (member16 Bpb ''ext_flags'' b) 7" using that(1) n(8) by (metis unat_eq_zero)
    then have "unat (f_fat_sect0 g + c div 128) \<noteq> unat (f_fat_sect1 g + c' div 128)"
      using t0(3) [OF that(2)] t1(2) [OF that(1,3)] q [OF that(2)] q [OF that(3)] n(7,8)
      by (cases "bit (member16 Bpb ''ext_flags'' b) 0") auto
    then show ?thesis by metis
  qed
  have "x \<noteq> 0 \<and> x \<noteq> f_info_sect g" if "B \<le> unat x" for x using that info by auto
  moreover have "f_info_sect g \<noteq> 0" using info(1) by auto
  moreover have "f_clust_cnt g \<le> 0x0ffffff7" using n(4) b(7) by (simp add: word_le_nat_alt)
  ultimately show ?thesis using t0(1) t1(1) apart unfolding layout_ok_def by blast
qed

text \<open>
  C32: Mounting a sane volume computes its geometry from the members of the boot sector without wrap-around, and the result is
  the layout the rest of the driver needs.  The table in use starts behind the reserved sectors, or one table later if the flags
  say so, and the other one is written too if they say so; behind all tables come the clusters, at least 65525 and as
  many as fit; cluster \<^term>\<open>c\<close> lies inside the volume at \<^term>\<open>c - 2\<close> cluster sizes from their start, and each of its sectors leads
  back to \<^term>\<open>c\<close>, so that clusters never overlap.
\<close>

theorem fat_mount_geometry:
  assumes mount: "fat_mount ops part p name s = (FAT_ERR_NONE, s')" and probe: "probe ops part s = (FAT_ERR_NONE, lba, s1)"
    and b: "b = g_buf s1" and f: "f = vol s' p" and sane: "sane_bpb b lba k" and flags: "flags = member16 Bpb ''ext_flags'' b"
  shows "member8 Bpb ''jump'' b \<in> {0xeb, 0xe9} \<and> member16 Bpb ''bytes_per_sect'' b = 512 \<and> 65525 \<le> clusters b
     \<and> unat (f_fat_sect0 f) = unat lba + reserved_sects b + (if bit flags 0 then table_sects b else 0)
     \<and> unat (f_fat_sect1 f) = (if bit flags 7 then unat lba + reserved_sects b + (if bit flags 0 then 0 else table_sects b) else 0)
     \<and> unat (f_data_sect f) = unat lba + data_start b \<and> unat (f_clust_cnt f) = clusters b
     \<and> unat (f_clust_shift f) = k \<and> f_clust_msk f = 2 ^ k - 1
     \<and> f_root_clust f = member32 Bpb ''root_cluster'' b
     \<and> unat (f_info_sect f) = unat lba + unat (member16 Bpb ''info_sect'' b) \<and> layout_ok f
     \<and> (\<forall>c. 2 \<le> unat c \<and> unat c < clusters b + 2 \<longrightarrow>
          unat (clust_to_sect f c) = unat lba + data_start b + (unat c - 2) * 2 ^ k
          \<and> unat (clust_to_sect f c) + 2 ^ k \<le> unat lba + total_sects b
          \<and> (\<forall>j < 2 ^ k. sect_to_clust f (clust_to_sect f c + of_nat j) = c))"
proof -
  define g where "g = mount_geometry b lba (vol s1 p)"
  note m = mounted_geometry [OF mount probe, folded b f, folded g_def]
  note n = geometry_numbers [OF sane g_def, folded m flags]
  have c: "check_fat b" using probe_checked [OF probe] by (simp add: b)
  have "65525 \<le> unat (f_clust_cnt g)"
    using check_fat_clusters [OF c] by (simp add: g_def mount_geometry_clusters word_le_nat_alt)
  then have head: "member8 Bpb ''jump'' b \<in> {0xeb, 0xe9}" "member16 Bpb ''bytes_per_sect'' b = 512" "65525 \<le> clusters b"
    using c n(4) m(3) by (auto simp: check_fat_def bpb_members split: if_splits)
  have "layout_ok g" by (rule sane_layout [OF sane g_def])
  then have lay: "layout_ok f" by (simp add: layout_ok_def m)
  have root: "f_root_clust f = member32 Bpb ''root_cluster'' b" by (simp add: m(4) g_def mount_geometry_def Let_def bpb_members)
  have t: "clust_sects b = 2 ^ k" "data_start b \<le> total_sects b" "unat lba + total_sects b < 2 ^ 32"
    using sane by (simp_all add: sane_bpb_def)
  have "clusters b * 2 ^ k \<le> total_sects b - data_start b" unfolding clusters_def t(1) by simp
  then have fit: "unat (f_data_sect f) + clusters b * 2 ^ k \<le> unat lba + total_sects b" using n(6) t(2) by simp
  have cl: "unat (clust_to_sect f c) = unat lba + data_start b + (unat c - 2) * 2 ^ k
          \<and> unat (clust_to_sect f c) + 2 ^ k \<le> unat lba + total_sects b
          \<and> (\<forall>j < 2 ^ k. sect_to_clust f (clust_to_sect f c + of_nat j) = c)"
    if "2 \<le> unat c" "unat c < clusters b + 2" for c
  proof -
    have "Suc (unat c - 2) * 2 ^ k \<le> clusters b * 2 ^ k" using that by (intro mult_le_mono1) linarith
    then have "unat (f_data_sect f) + (unat c - 2) * 2 ^ k + 2 ^ k \<le> unat lba + total_sects b" using fit by simp
    then show ?thesis using cluster_sectors [OF n(1,2) that] fit t(3) n(6) by simp
  qed
  show ?thesis using head n(1,3-8) root lay cl by blast
qed

definition boot_mirrored :: "u8 list" where
  "boot_mirrored = put16 (put16 (put32 (put32 (boot_sample[13 := 4]) 32 400000) 36 800) 40 0x81) 48 1"

definition mirrored_disk :: "unit DiskOps" where
  "mirrored_disk = rom_disk\<lparr>ops_read := (\<lambda>b n d. (True, if n = 0 then boot_mirrored else replicate 512 0, d))\<rparr>"

theorem fat_mount_geometry_witness:
  "\<exists>s'. fat_mount mirrored_disk 0 2 (bytes ''usb'') fs_disk0 = (FAT_ERR_NONE, s')
    \<and> unat (f_fat_sect0 (vol s' 2)) = 832 \<and> unat (f_fat_sect1 (vol s' 2)) = 32 \<and> unat (f_data_sect (vol s' 2)) = 1632
    \<and> unat (clust_to_sect (vol s' 2) 5) = 1644 \<and> sect_to_clust (vol s' 2) (clust_to_sect (vol s' 2) 5 + of_nat 3) = 5"
proof -
  have c: "check_fat boot_mirrored" by code_simp
  define s1 where "s1 = fs_disk0\<lparr>g_buf := boot_mirrored, dev := ()\<rparr>"
  have p: "probe mirrored_disk 0 fs_disk0 = (FAT_ERR_NONE, 0, s1)" "boot_mirrored = g_buf s1"
    using c by (simp_all add: probe_def read_g_buf_def mirrored_disk_def Let_def s1_def)
  then obtain s' where m: "fat_mount mirrored_disk 0 2 (bytes ''usb'') fs_disk0 = (FAT_ERR_NONE, s')"
    by (simp add: fat_mount_def read_g_buf_def mirrored_disk_def Let_def)
  have w: "le16 boot_mirrored 14 = 32" "boot_mirrored ! 16 = 2" "le32 boot_mirrored 32 = 400000" "boot_mirrored ! 13 = 4"
      "le32 boot_mirrored 36 = 800" "le16 boot_mirrored 40 = 0x81" "le16 boot_mirrored 48 = 1" by code_simp+
  have n: "reserved_sects boot_mirrored = 32" "table_sects boot_mirrored = 800" "data_start boot_mirrored = 1632"
      "clusters boot_mirrored = 99592" "total_sects boot_mirrored = 400000"
      "bit (member16 Bpb ''ext_flags'' boot_mirrored) 0" "bit (member16 Bpb ''ext_flags'' boot_mirrored) 7"
    by (simp_all add: bpb_numbers w)
  have "sane_bpb boot_mirrored 0 2" by (simp add: sane_bpb_def n) (simp add: bpb_numbers w)
  from fat_mount_geometry [OF m p refl this refl, unfolded n]
  have "unat (f_fat_sect0 (vol s' 2)) = 832" "unat (f_fat_sect1 (vol s' 2)) = 32" "unat (f_data_sect (vol s' 2)) = 1632"
    and cl: "\<And>c. 2 \<le> unat c \<Longrightarrow> unat c < 99594 \<Longrightarrow> unat (clust_to_sect (vol s' 2) c) = 1632 + (unat c - 2) * 4
      \<and> (\<forall>j < 4. sect_to_clust (vol s' 2) (clust_to_sect (vol s' 2) c + of_nat j) = c)"
    by (simp_all add: n)
  moreover have c5: "unat (clust_to_sect (vol s' 2) 5) = 1644"
      "\<forall>j < 4. sect_to_clust (vol s' 2) (clust_to_sect (vol s' 2) 5 + of_nat j) = 5"
    using cl [of 5] by simp_all
  moreover have "sect_to_clust (vol s' 2) (clust_to_sect (vol s' 2) 5 + of_nat 3) = 5"
    using spec [OF c5(2), of 3] by simp
  ultimately show ?thesis using m by blast
qed

text \<open>
  The directory entry that \<^verbatim>\<open>dir_add\<close> writes, whatever the slot held before: name, attributes and both halves of the
  cluster as given, the three dates and two times of the moment, the two reserved bytes and the size zero.
\<close>

theorem new_entry_members:
  assumes "length raw = struct_size Sfn" and "length nm = 11"
    and e: "e = new_sfn nm attr clust date time raw"
  shows "length e = struct_size Sfn \<and> get_field Sfn ''name'' e = nm \<and> member8 Sfn ''attr'' e = attr
     \<and> member8 Sfn ''reserved'' e = 0 \<and> member8 Sfn ''tenth'' e = 0
     \<and> member16 Sfn ''cre_time'' e = time \<and> member16 Sfn ''cre_date'' e = date \<and> member16 Sfn ''acc_date'' e = date
     \<and> member16 Sfn ''mod_time'' e = time \<and> member16 Sfn ''mod_date'' e = date \<and> member32 Sfn ''size'' e = 0
     \<and> push_bit 16 (ucast (member16 Sfn ''clust_hi'' e)) OR ucast (member16 Sfn ''clust_lo'' e) = clust"
proof -
  have raw: "length raw = 32" using assms(1) by (simp add: struct_sizes)
  define r where "r = overwrite raw 0 nm"
  have r: "length r = 32" "\<And>i. i < 11 \<Longrightarrow> r ! i = nm ! i" using raw assms(2) by (simp_all add: r_def overwrite_nth)
  note d = e new_sfn_def r_def [symmetric] Let_def
  have l: "length e = 32" using r by (simp add: d)
  have b: "e ! 12 = 0" "e ! 13 = 0" using r by (simp_all add: d put16_def put32_def)
  have w: "le16 e 14 = time" "le16 e 16 = date" "le16 e 18 = date" "le16 e 22 = time" "le16 e 24 = date"
    using r by (simp_all only: d le16_def put16_def put32_def) (simp_all add: bytes_join16)
  have s: "le32 e 28 = 0" unfolding d by (rule le32_put32) (simp add: r(1))
  have "take 11 e = nm"
    using l assms(2) new_sfn_fields(2) [OF raw assms(2)] by (intro nth_equalityI) (simp_all add: e)
  then show ?thesis
    using l b w s new_sfn_fields(3,4) [OF raw assms(2), of attr clust date time]
    by (simp add: get_field_def member_defs struct_sizes e [symmetric] sfn_cluster_def) (simp add: Sfn_def)
qed

theorem new_entry_members_witness:
  "member16 Sfn ''mod_date'' (new_sfn (bytes ''A       TXT'') 0x20 5 0x21 0 (replicate 32 0)) = 0x21"
  using new_entry_members [of "replicate 32 0" "bytes ''A       TXT''"
      "new_sfn (bytes ''A       TXT'') 0x20 5 0x21 0 (replicate 32 0)"]
  by (simp add: struct_sizes)

end
