(* ===== verification/Framebuffer.thy ===== *)
theory Framebuffer
  imports Libc_String "HOL-Library.Monad_Syntax"
begin

text \<open>
  Drawing on the linear framebuffer (\<^verbatim>\<open>drivers/framebuffer/fb.c\<close>, \<^verbatim>\<open>cursor.c\<close>) with the 8x8 font of
  \<^verbatim>\<open>kernel_res/fonts/font8x8/font8x8_basic.c\<close>.  Video memory is part of the byte-addressed memory, and a pixel is the
  32-bit word the code stores at the address it computes with 64-bit arithmetic.  \<^const>\<open>None\<close> marks a read
  outside the font table.

  Shown: a pixel inside the screen reads back, writing it changes no other pixel and nothing is written for a position
  outside; drawing a character sets exactly the pixels of its glyph; the text cursor stays on the screen, and when the
  last row is left the picture moves up by one text row; scaled text looks its glyphs up under a number made from the
  glyph's own rows, which lies outside the table for every letter and digit.
\<close>

section \<open>The font\<close>

definition font8x8_basic :: "u8 list list" where
  "font8x8_basic =
     [[0x00, 0x00, 0x00, 0x00, 0x00, 0x00, 0x00, 0x00], [0x00, 0x00, 0x00, 0x00, 0x00, 0x00, 0x00, 0x00],
      [0x00, 0x00, 0x00, 0x00, 0x00, 0x00, 0x00, 0x00], [0x00, 0x00, 0x00, 0x00, 0x00, 0x00, 0x00, 0x00],
      [0x00, 0x00, 0x00, 0x00, 0x00, 0x00, 0x00, 0x00], [0x00, 0x00, 0x00, 0x00, 0x00, 0x00, 0x00, 0x00],
      [0x00, 0x00, 0x00, 0x00, 0x00, 0x00, 0x00, 0x00], [0x00, 0x00, 0x00, 0x00, 0x00, 0x00, 0x00, 0x00],
      [0x00, 0x00, 0x00, 0x00, 0x00, 0x00, 0x00, 0x00], [0x00, 0x00, 0x00, 0x00, 0x00, 0x00, 0x00, 0x00],
      [0x00, 0x00, 0x00, 0x00, 0x00, 0x00, 0x00, 0x00], [0x00, 0x00, 0x00, 0x00, 0x00, 0x00, 0x00, 0x00],
      [0x00, 0x00, 0x00, 0x00, 0x00, 0x00, 0x00, 0x00], [0x00, 0x00, 0x00, 0x00, 0x00, 0x00, 0x00, 0x00],
      [0x00, 0x00, 0x00, 0x00, 0x00, 0x00, 0x00, 0x00], [0x00, 0x00, 0x00, 0x00, 0x00, 0x00, 0x00, 0x00],
      [0x00, 0x00, 0x00, 0x00, 0x00, 0x00, 0x00, 0x00], [0x00, 0x00, 0x00, 0x00, 0x00, 0x00, 0x00, 0x00],
      [0x00, 0x00, 0x00, 0x00, 0x00, 0x00, 0x00, 0x00], [0x00, 0x00, 0x00, 0x00, 0x00, 0x00, 0x00, 0x00],
      [0x00, 0x00, 0x00, 0x00, 0x00, 0x00, 0x00, 0x00], [0x00, 0x00, 0x00, 0x00, 0x00, 0x00, 0x00, 0x00],
      [0x00, 0x00, 0x00, 0x00, 0x00, 0x00, 0x00, 0x00], [0x00, 0x00, 0x00, 0x00, 0x00, 0x00, 0x00, 0x00],
      [0x00, 0x00, 0x00, 0x00, 0x00, 0x00, 0x00, 0x00], [0x00, 0x00, 0x00, 0x00, 0x00, 0x00, 0x00, 0x00],
      [0x00, 0x00, 0x00, 0x00, 0x00, 0x00, 0x00, 0x00], [0x00, 0x00, 0x00, 0x00, 0x00, 0x00, 0x00, 0x00],
      [0x00, 0x00, 0x00, 0x00, 0x00, 0x00, 0x00, 0x00], [0x00, 0x00, 0x00, 0x00, 0x00, 0x00, 0x00, 0x00],
      [0x00, 0x00, 0x00, 0x00, 0x00, 0x00, 0x00, 0x00], [0x00, 0x00, 0x00, 0x00, 0x00, 0x00, 0x00, 0x00],
      [0x00, 0x00, 0x00, 0x00, 0x00, 0x00, 0x00, 0x00], [0x18, 0x3C, 0x3C, 0x18, 0x18, 0x00, 0x18, 0x00],
      [0x36, 0x36, 0x00, 0x00, 0x00, 0x00, 0x00, 0x00], [0x36, 0x36, 0x7F, 0x36, 0x7F, 0x36, 0x36, 0x00],
      [0x0C, 0x3E, 0x03, 0x1E, 0x30, 0x1F, 0x0C, 0x00], [0x00, 0x63, 0x33, 0x18, 0x0C, 0x66, 0x63, 0x00],
      [0x1C, 0x36, 0x1C, 0x6E, 0x3B, 0x33, 0x6E, 0x00], [0x06, 0x06, 0x03, 0x00, 0x00, 0x00, 0x00, 0x00],
      [0x18, 0x0C, 0x06, 0x06, 0x06, 0x0C, 0x18, 0x00], [0x06, 0x0C, 0x18, 0x18, 0x18, 0x0C, 0x06, 0x00],
      [0x00, 0x66, 0x3C, 0xFF, 0x3C, 0x66, 0x00, 0x00], [0x00, 0x0C, 0x0C, 0x3F, 0x0C, 0x0C, 0x00, 0x00],
      [0x00, 0x00, 0x00, 0x00, 0x00, 0x0C, 0x0C, 0x06], [0x00, 0x00, 0x00, 0x3F, 0x00, 0x00, 0x00, 0x00],
      [0x00, 0x00, 0x00, 0x00, 0x00, 0x0C, 0x0C, 0x00], [0x60, 0x30, 0x18, 0x0C, 0x06, 0x03, 0x01, 0x00],
      [0x3E, 0x63, 0x73, 0x7B, 0x6F, 0x67, 0x3E, 0x00], [0x0C, 0x0E, 0x0C, 0x0C, 0x0C, 0x0C, 0x3F, 0x00],
      [0x1E, 0x33, 0x30, 0x1C, 0x06, 0x33, 0x3F, 0x00], [0x1E, 0x33, 0x30, 0x1C, 0x30, 0x33, 0x1E, 0x00],
      [0x38, 0x3C, 0x36, 0x33, 0x7F, 0x30, 0x78, 0x00], [0x3F, 0x03, 0x1F, 0x30, 0x30, 0x33, 0x1E, 0x00],
      [0x1C, 0x06, 0x03, 0x1F, 0x33, 0x33, 0x1E, 0x00], [0x3F, 0x33, 0x30, 0x18, 0x0C, 0x0C, 0x0C, 0x00],
      [0x1E, 0x33, 0x33, 0x1E, 0x33, 0x33, 0x1E, 0x00], [0x1E, 0x33, 0x33, 0x3E, 0x30, 0x18, 0x0E, 0x00],
      [0x00, 0x0C, 0x0C, 0x00, 0x00, 0x0C, 0x0C, 0x00], [0x00, 0x0C, 0x0C, 0x00, 0x00, 0x0C, 0x0C, 0x06],
      [0x18, 0x0C, 0x06, 0x03, 0x06, 0x0C, 0x18, 0x00], [0x00, 0x00, 0x3F, 0x00, 0x00, 0x3F, 0x00, 0x00],
      [0x06, 0x0C, 0x18, 0x30, 0x18, 0x0C, 0x06, 0x00], [0x1E, 0x33, 0x30, 0x18, 0x0C, 0x00, 0x0C, 0x00],
      [0x3E, 0x63, 0x7B, 0x7B, 0x7B, 0x03, 0x1E, 0x00], [0x0C, 0x1E, 0x33, 0x33, 0x3F, 0x33, 0x33, 0x00],
      [0x3F, 0x66, 0x66, 0x3E, 0x66, 0x66, 0x3F, 0x00], [0x3C, 0x66, 0x03, 0x03, 0x03, 0x66, 0x3C, 0x00],
      [0x1F, 0x36, 0x66, 0x66, 0x66, 0x36, 0x1F, 0x00], [0x7F, 0x46, 0x16, 0x1E, 0x16, 0x46, 0x7F, 0x00],
      [0x7F, 0x46, 0x16, 0x1E, 0x16, 0x06, 0x0F, 0x00], [0x3C, 0x66, 0x03, 0x03, 0x73, 0x66, 0x7C, 0x00],
      [0x33, 0x33, 0x33, 0x3F, 0x33, 0x33, 0x33, 0x00], [0x1E, 0x0C, 0x0C, 0x0C, 0x0C, 0x0C, 0x1E, 0x00],
      [0x78, 0x30, 0x30, 0x30, 0x33, 0x33, 0x1E, 0x00], [0x67, 0x66, 0x36, 0x1E, 0x36, 0x66, 0x67, 0x00],
      [0x0F, 0x06, 0x06, 0x06, 0x46, 0x66, 0x7F, 0x00], [0x63, 0x77, 0x7F, 0x7F, 0x6B, 0x63, 0x63, 0x00],
      [0x63, 0x67, 0x6F, 0x7B, 0x73, 0x63, 0x63, 0x00], [0x1C, 0x36, 0x63, 0x63, 0x63, 0x36, 0x1C, 0x00],
      [0x3F, 0x66, 0x66, 0x3E, 0x06, 0x06, 0x0F, 0x00], [0x1E, 0x33, 0x33, 0x33, 0x3B, 0x1E, 0x38, 0x00],
      [0x3F, 0x66, 0x66, 0x3E, 0x36, 0x66, 0x67, 0x00], [0x1E, 0x33, 0x07, 0x0E, 0x38, 0x33, 0x1E, 0x00],
      [0x3F, 0x2D, 0x0C, 0x0C, 0x0C, 0x0C, 0x1E, 0x00], [0x33, 0x33, 0x33, 0x33, 0x33, 0x33, 0x3F, 0x00],
      [0x33, 0x33, 0x33, 0x33, 0x33, 0x1E, 0x0C, 0x00], [0x63, 0x63, 0x63, 0x6B, 0x7F, 0x77, 0x63, 0x00],
      [0x63, 0x63, 0x36, 0x1C, 0x1C, 0x36, 0x63, 0x00], [0x33, 0x33, 0x33, 0x1E, 0x0C, 0x0C, 0x1E, 0x00],
      [0x7F, 0x63, 0x31, 0x18, 0x4C, 0x66, 0x7F, 0x00], [0x1E, 0x06, 0x06, 0x06, 0x06, 0x06, 0x1E, 0x00],
      [0x03, 0x06, 0x0C, 0x18, 0x30, 0x60, 0x40, 0x00], [0x1E, 0x18, 0x18, 0x18, 0x18, 0x18, 0x1E, 0x00],
      [0x08, 0x1C, 0x36, 0x63, 0x00, 0x00, 0x00, 0x00], [0x00, 0x00, 0x00, 0x00, 0x00, 0x00, 0x00, 0xFF],
      [0x0C, 0x0C, 0x18, 0x00, 0x00, 0x00, 0x00, 0x00], [0x00, 0x00, 0x1E, 0x30, 0x3E, 0x33, 0x6E, 0x00],
      [0x07, 0x06, 0x06, 0x3E, 0x66, 0x66, 0x3B, 0x00], [0x00, 0x00, 0x1E, 0x33, 0x03, 0x33, 0x1E, 0x00],
      [0x38, 0x30, 0x30, 0x3e, 0x33, 0x33, 0x6E, 0x00], [0x00, 0x00, 0x1E, 0x33, 0x3f, 0x03, 0x1E, 0x00],
      [0x1C, 0x36, 0x06, 0x0f, 0x06, 0x06, 0x0F, 0x00], [0x00, 0x00, 0x6E, 0x33, 0x33, 0x3E, 0x30, 0x1F],
      [0x07, 0x06, 0x36, 0x6E, 0x66, 0x66, 0x67, 0x00], [0x0C, 0x00, 0x0E, 0x0C, 0x0C, 0x0C, 0x1E, 0x00],
      [0x30, 0x00, 0x30, 0x30, 0x30, 0x33, 0x33, 0x1E], [0x07, 0x06, 0x66, 0x36, 0x1E, 0x36, 0x67, 0x00],
      [0x0E, 0x0C, 0x0C, 0x0C, 0x0C, 0x0C, 0x1E, 0x00], [0x00, 0x00, 0x33, 0x7F, 0x7F, 0x6B, 0x63, 0x00],
      [0x00, 0x00, 0x1F, 0x33, 0x33, 0x33, 0x33, 0x00], [0x00, 0x00, 0x1E, 0x33, 0x33, 0x33, 0x1E, 0x00],
      [0x00, 0x00, 0x3B, 0x66, 0x66, 0x3E, 0x06, 0x0F], [0x00, 0x00, 0x6E, 0x33, 0x33, 0x3E, 0x30, 0x78],
      [0x00, 0x00, 0x3B, 0x6E, 0x66, 0x06, 0x0F, 0x00], [0x00, 0x00, 0x3E, 0x03, 0x1E, 0x30, 0x1F, 0x00],
      [0x08, 0x0C, 0x3E, 0x0C, 0x0C, 0x2C, 0x18, 0x00], [0x00, 0x00, 0x33, 0x33, 0x33, 0x33, 0x6E, 0x00],
      [0x00, 0x00, 0x33, 0x33, 0x33, 0x1E, 0x0C, 0x00], [0x00, 0x00, 0x63, 0x6B, 0x7F, 0x7F, 0x36, 0x00],
      [0x00, 0x00, 0x63, 0x36, 0x1C, 0x36, 0x63, 0x00], [0x00, 0x00, 0x33, 0x33, 0x33, 0x3E, 0x30, 0x1F],
      [0x00, 0x00, 0x3F, 0x19, 0x0C, 0x26, 0x3F, 0x00], [0x38, 0x0C, 0x0C, 0x07, 0x0C, 0x0C, 0x38, 0x00],
      [0x18, 0x18, 0x18, 0x00, 0x18, 0x18, 0x18, 0x00], [0x07, 0x0C, 0x0C, 0x38, 0x0C, 0x0C, 0x07, 0x00],
      [0x6E, 0x3B, 0x00, 0x00, 0x00, 0x00, 0x00, 0x00], [0x00, 0x00, 0x00, 0x00, 0x00, 0x00, 0x00, 0x00]]"

section \<open>Pixels\<close>

record limine_framebuffer =
  address :: u64
  width :: u64
  height :: u64
  pitch :: u64
  bpp :: u16

definition load32 :: "mem \<Rightarrow> u64 \<Rightarrow> u32" where
  "load32 m a = le32 (load_bytes m a 4) 0"

definition store32 :: "u64 \<Rightarrow> u32 \<Rightarrow> mem \<Rightarrow> mem" where
  "store32 a v m = store_bytes m a [ucast v, ucast (drop_bit 8 v), ucast (drop_bit 16 v), ucast (drop_bit 24 v)]"

definition put_pixel_lim :: "limine_framebuffer \<Rightarrow> int \<Rightarrow> int \<Rightarrow> u32 \<Rightarrow> mem \<Rightarrow> mem" where
  "put_pixel_lim fb x y color m =
     (if x < 0 \<or> y < 0 then m
      else if width fb \<le> of_int x \<or> height fb \<le> of_int y then m
      else store32 (address fb + of_int y * pitch fb + of_int (x * (uint (bpp fb) div 8))) color m)"

text \<open>An unsigned 64-bit number passed where the callee takes an \<^verbatim>\<open>int\<close>.\<close>

definition as_int :: "nat \<Rightarrow> int" where
  "as_int n = sint (of_nat n :: u32)"

definition clear_screen_lim :: "limine_framebuffer \<Rightarrow> u32 \<Rightarrow> mem \<Rightarrow> mem" where
  "clear_screen_lim fb color m =
     fold (\<lambda>y. fold (\<lambda>x. put_pixel_lim fb (as_int x) (as_int y) color) [0..<unat (width fb)]) [0..<unat (height fb)] m"

text \<open>The glyph of a character; \<^verbatim>\<open>char\<close> is signed, so that the index of a byte above 127 is negative.\<close>

definition glyph :: "int \<Rightarrow> u8 list option" where
  "glyph i = (if 0 \<le> i \<and> i < 128 then Some (font8x8_basic ! nat i) else None)"

definition draw_char_lim :: "limine_framebuffer \<Rightarrow> int \<Rightarrow> int \<Rightarrow> u8 \<Rightarrow> u32 \<Rightarrow> mem \<Rightarrow> mem option" where
  "draw_char_lim fb x y c color m =
     do {
       g \<leftarrow> glyph (sint c);
       Some (fold (\<lambda>row. fold (\<lambda>col m. if bit (g ! row) col then put_pixel_lim fb (x + int col) (y + int row) color m else m)
                          [0..<8]) [0..<8] m)
     }"

fun draw_text_at :: "limine_framebuffer \<Rightarrow> int \<Rightarrow> int \<Rightarrow> int \<Rightarrow> u8 list \<Rightarrow> u32 \<Rightarrow> mem \<Rightarrow> mem option" where
  "draw_text_at fb x cursor_x y [] color m = Some m"
| "draw_text_at fb x cursor_x y (c # str) color m =
     (if c = 0 then Some m
      else if c = 10 then draw_text_at fb x x (y + 8) str color m
      else do {
        m \<leftarrow> draw_char_lim fb cursor_x y c color m;
        draw_text_at fb x (cursor_x + 8) y str color m
      })"

definition draw_text_lim :: "limine_framebuffer \<Rightarrow> int \<Rightarrow> int \<Rightarrow> u8 list \<Rightarrow> u32 \<Rightarrow> mem \<Rightarrow> mem option" where
  "draw_text_lim fb x y str color m = draw_text_at fb x x y str color m"

text \<open>\<^verbatim>\<open>draw_scaled_char_lim\<close> is given the glyph's rows where it expects an array of pointers: its index
  \<^verbatim>\<open>(int)(*char_lines)\<close> is the number formed by the first four rows.\<close>

definition draw_scaled_char_lim :: "limine_framebuffer \<Rightarrow> int \<Rightarrow> int \<Rightarrow> u8 list \<Rightarrow> u32 \<Rightarrow> nat \<Rightarrow> mem \<Rightarrow> mem option" where
  "draw_scaled_char_lim fb x y char_lines color scale m =
     do {
       g \<leftarrow> glyph (sint (le32 char_lines 0));
       Some (fold (\<lambda>row. fold (\<lambda>col m.
              if bit (g ! row) col
              then fold (\<lambda>dy. fold (\<lambda>dx.
                     put_pixel_lim fb (x + int col * int scale + int dx) (y + int row * int scale + int dy) color) [0..<scale]) [0..<scale] m
              else m) [0..<8]) [0..<8] m)
     }"

fun draw_scaled_text_at :: "limine_framebuffer \<Rightarrow> int \<Rightarrow> int \<Rightarrow> int \<Rightarrow> u8 list \<Rightarrow> u32 \<Rightarrow> nat \<Rightarrow> mem \<Rightarrow> mem option" where
  "draw_scaled_text_at fb x cursor_x y [] color scale m = Some m"
| "draw_scaled_text_at fb x cursor_x y (c # str) color scale m =
     (if c = 0 then Some m
      else if c = 10 then draw_scaled_text_at fb x x (y + 8 * int scale) str color scale m
      else do {
        g \<leftarrow> glyph (sint c);
        m \<leftarrow> draw_scaled_char_lim fb cursor_x y g color scale m;
        draw_scaled_text_at fb x (cursor_x + 8 * int scale) y str color scale m
      })"

definition draw_scaled_text_lim :: "limine_framebuffer \<Rightarrow> int \<Rightarrow> int \<Rightarrow> u8 list \<Rightarrow> u32 \<Rightarrow> nat \<Rightarrow> mem \<Rightarrow> mem option" where
  "draw_scaled_text_lim fb x y str color scale m = draw_scaled_text_at fb x x y str color scale m"

definition draw_square_lim :: "limine_framebuffer \<Rightarrow> int \<Rightarrow> int \<Rightarrow> nat \<Rightarrow> u32 \<Rightarrow> mem \<Rightarrow> mem" where
  "draw_square_lim fb x y n color m =
     fold (\<lambda>yy. fold (\<lambda>xx. put_pixel_lim fb (x + int xx) (y + int yy) color) [0..<n]) [0..<n] m"

definition draw_image_from_uint64_t :: "limine_framebuffer \<Rightarrow> (nat \<Rightarrow> u64) \<Rightarrow> int \<Rightarrow> int \<Rightarrow> mem \<Rightarrow> mem" where
  "draw_image_from_uint64_t fb background img_width img_height m =
     (let fb_width = as_int (unat (width fb)); fb_height = as_int (unat (height fb))
      in fold (\<lambda>y. fold (\<lambda>x m.
           if int x < img_width \<and> int y < img_height
           then put_pixel_lim fb (int x) (int y) (ucast (background (nat (int y * img_width + int x)))) m else m)
           [0..<nat fb_width]) [0..<nat fb_height] m)"

section \<open>The text cursor\<close>

record cursor_t =
  cur_x :: int
  cur_y :: int
  char_width :: int
  char_height :: int
  screen_width :: int
  screen_height :: int

definition COLOR_BLACK :: u32 where "COLOR_BLACK = 0xFF000000"

definition init_cursor :: "int \<Rightarrow> int \<Rightarrow> cursor_t" where
  "init_cursor w h = \<lparr>cur_x = 0, cur_y = 0, char_width = 8, char_height = 8, screen_width = w, screen_height = h\<rparr>"

text \<open>The body of the condition in \<^verbatim>\<open>put_char_with_cursor_lim\<close>: all pixel rows move up, the freed rows are cleared.\<close>

definition pixel_addr :: "limine_framebuffer \<Rightarrow> u64 \<Rightarrow> u64 \<Rightarrow> u64" where
  "pixel_addr fb px py = address fb + py * pitch fb + px * of_int (uint (bpp fb) div 8)"

definition scroll_lim :: "limine_framebuffer \<Rightarrow> int \<Rightarrow> mem \<Rightarrow> mem" where
  "scroll_lim fb row_pixels m =
     (let last = unat (height fb - of_int row_pixels);
          m = fold (\<lambda>py. fold (\<lambda>px m.
                store32 (pixel_addr fb (of_nat px) (of_nat py))
                  (load32 m (pixel_addr fb (of_nat px) (of_nat py + of_int row_pixels))) m) [0..<unat (width fb)]) [0..<last] m
      in fold (\<lambda>py. fold (\<lambda>px. put_pixel_lim fb (as_int px) (as_int py) COLOR_BLACK) [0..<unat (width fb)])
           [last..<unat (height fb)] m)"

definition put_char_with_cursor_lim :: "limine_framebuffer \<Rightarrow> cursor_t \<Rightarrow> u8 \<Rightarrow> u32 \<Rightarrow> mem \<Rightarrow> (cursor_t \<times> mem) option" where
  "put_char_with_cursor_lim fb cursor c color m =
     do {
       m \<leftarrow> draw_char_lim fb (cur_x cursor) (cur_y cursor) c color m;
       let cursor = cursor\<lparr>cur_x := cur_x cursor + char_width cursor\<rparr>;
       let cursor = (if screen_width cursor < cur_x cursor + char_width cursor
                     then cursor\<lparr>cur_x := 0, cur_y := cur_y cursor + char_height cursor\<rparr> else cursor);
       if screen_height cursor < cur_y cursor + char_height cursor
       then Some (cursor\<lparr>cur_y := cur_y cursor - char_height cursor\<rparr>, scroll_lim fb (char_height cursor) m)
       else Some (cursor, m)
     }"

definition fill_cursor :: "limine_framebuffer \<Rightarrow> cursor_t \<Rightarrow> u32 \<Rightarrow> mem \<Rightarrow> mem" where
  "fill_cursor fb cursor color m =
     fold (\<lambda>dy. fold (\<lambda>dx.
       store32 (pixel_addr fb (of_int (cur_x cursor + int dx)) (of_int (cur_y cursor + int dy))) color)
       [0..<nat (char_width cursor)]) [0..<nat (char_height cursor)] m"

definition render_cursor_lim :: "limine_framebuffer \<Rightarrow> cursor_t \<Rightarrow> u32 \<Rightarrow> mem \<Rightarrow> mem" where
  "render_cursor_lim fb cursor color m = fill_cursor fb cursor color m"

definition clear_cursor_lim :: "limine_framebuffer \<Rightarrow> cursor_t \<Rightarrow> mem \<Rightarrow> mem" where
  "clear_cursor_lim fb cursor m = fill_cursor fb cursor COLOR_BLACK m"

section \<open>The screen\<close>

text \<open>A framebuffer as the boot loader hands it over: 32 bits per pixel, rows that do not overlap, no wrap-around of
  addresses.\<close>

definition fb_ok :: "limine_framebuffer \<Rightarrow> bool" where
  "fb_ok fb \<longleftrightarrow> bpp fb = 32 \<and> 4 * unat (width fb) \<le> unat (pitch fb)
     \<and> unat (address fb) + unat (height fb) * unat (pitch fb) < 2 ^ 64
     \<and> unat (width fb) < 2 ^ 31 \<and> unat (height fb) < 2 ^ 31"

definition visible :: "limine_framebuffer \<Rightarrow> int \<Rightarrow> int \<Rightarrow> bool" where
  "visible fb px py \<longleftrightarrow> 0 \<le> px \<and> px < uint (width fb) \<and> 0 \<le> py \<and> py < uint (height fb)"

definition pixel :: "limine_framebuffer \<Rightarrow> mem \<Rightarrow> int \<Rightarrow> int \<Rightarrow> u32" where
  "pixel fb m px py = load32 m (pixel_addr fb (of_int px) (of_int py))"

lemma load_store32: "load32 (store32 a v m) a = v"
  by (simp add: load32_def store32_def le32_def nth_load_bytes store_bytes_def bytes_join32)

lemma store_bytes_outside: "\<not> unat (p - a) < length bs \<Longrightarrow> store_bytes m a bs p = m p"
  by (simp add: store_bytes_def)

lemma load_store32_apart:
  assumes "unat a + 4 \<le> unat b \<or> unat b + 4 \<le> unat a" "unat a + 4 < 2 ^ 64" "unat b + 4 < 2 ^ 64"
  shows "load32 (store32 a v m) b = load32 m b"
proof -
  have "\<not> unat (b + of_nat i - a) < length [b0, b1, b2, b3]" if "i < 4" for i and b0 b1 b2 b3 :: u8
  proof -
    have "unat (b + of_nat i) = unat b + i" using that assms(3) by (subst unat_plus_small) (simp_all add: unat_of_nat)
    then show ?thesis using assms that by (auto simp: unat_sub_if')
  qed
  then have "load_bytes (store32 a v m) b 4 = load_bytes m b 4"
    unfolding load_bytes_def store32_def by (intro map_cong refl store_bytes_outside) simp_all
  then show ?thesis by (simp add: load32_def)
qed

lemma visible_nat: "visible fb px py \<Longrightarrow> nat px + 1 \<le> unat (width fb) \<and> nat py + 1 \<le> unat (height fb)"
  unfolding visible_def unat_eq_nat_uint by linarith

lemma unat_pixel_addr:
  assumes "fb_ok fb" and "visible fb px py"
  shows "unat (pixel_addr fb (of_int px) (of_int py)) = unat (address fb) + nat py * unat (pitch fb) + 4 * nat px"
    and "unat (address fb) + nat py * unat (pitch fb) + 4 * nat px + 4 < 2 ^ 64"
proof -
  have n: "nat px + 1 \<le> unat (width fb)" "nat py + 1 \<le> unat (height fb)" and ok: "4 * unat (width fb) \<le> unat (pitch fb)"
    using visible_nat [OF assms(2)] assms(1) by (simp_all add: fb_ok_def)
  have "nat py * unat (pitch fb) + 4 * nat px + 4 \<le> (nat py + 1) * unat (pitch fb)" using n(1) ok by simp
  also have "\<dots> \<le> unat (height fb) * unat (pitch fb)" using n(2) by (rule mult_le_mono1)
  finally show lt: "unat (address fb) + nat py * unat (pitch fb) + 4 * nat px + 4 < 2 ^ 64"
    using assms(1) by (simp add: fb_ok_def)
  have "pixel_addr fb (of_int px) (of_int py) = of_nat (unat (address fb) + nat py * unat (pitch fb) + 4 * nat px)"
    using assms by (simp add: pixel_addr_def fb_ok_def visible_def mult.commute)
  then show "unat (pixel_addr fb (of_int px) (of_int py)) = unat (address fb) + nat py * unat (pitch fb) + 4 * nat px"
    using lt unat_of_nat_small [where 'a = 64, of "unat (address fb) + nat py * unat (pitch fb) + 4 * nat px"] by simp
qed

text \<open>Two different visible pixels occupy disjoint words.\<close>

lemma pixels_apart:
  assumes ok: "fb_ok fb" and a: "visible fb px py" and b: "visible fb qx qy" and ne: "(px, py) \<noteq> (qx, qy)"
  defines "p \<equiv> pixel_addr fb (of_int px) (of_int py)" and "q \<equiv> pixel_addr fb (of_int qx) (of_int qy)"
  shows "unat p + 4 \<le> unat q \<or> unat q + 4 \<le> unat p" "unat p + 4 < 2 ^ 64" "unat q + 4 < 2 ^ 64"
proof -
  note p = unat_pixel_addr [OF ok a] and q = unat_pixel_addr [OF ok b]
  show "unat p + 4 < 2 ^ 64" "unat q + 4 < 2 ^ 64" using p q by (simp_all add: p_def q_def)
  have row: "4 * nat ux + 4 \<le> unat (pitch fb)" if "visible fb ux uy" for ux uy
    using visible_nat [OF that] ok by (simp add: fb_ok_def)
  have step: "c * unat (pitch fb) + unat (pitch fb) \<le> d * unat (pitch fb)" if "c < d" for c d
    using mult_le_mono1 [of "Suc c" d "unat (pitch fb)"] that by simp
  consider "nat py < nat qy" | "nat qy < nat py" | "py = qy" "nat px < nat qx" | "py = qy" "nat qx < nat px"
    using ne a b unfolding visible_def by (metis nat_eq_iff2 nat_le_eq_zle linorder_neqE_nat)
  then show "unat p + 4 \<le> unat q \<or> unat q + 4 \<le> unat p"
  proof cases
    case 1 then show ?thesis using step [OF 1] row [OF a] p q by (simp add: p_def q_def)
  next
    case 2 then show ?thesis using step [OF 2] row [OF b] p q by (simp add: p_def q_def)
  qed (use p q in \<open>simp add: p_def q_def; linarith\<close>)+
qed

lemma pixel_store:
  assumes "fb_ok fb" "visible fb px py" "visible fb qx qy"
  shows "pixel fb (store32 (pixel_addr fb (of_int px) (of_int py)) v m) qx qy = (if (px, py) = (qx, qy) then v else pixel fb m qx qy)"
proof (cases "(px, py) = (qx, qy)")
  case False
  then show ?thesis using load_store32_apart [OF pixels_apart [OF assms False]] by (auto simp: pixel_def)
qed (simp add: pixel_def load_store32)

lemma put_pixel_eq:
  assumes ok: "fb_ok fb" and lt: "px < 2 ^ 63" "py < 2 ^ 63"
  shows "put_pixel_lim fb px py v m =
    (if visible fb px py then store32 (pixel_addr fb (of_int px) (of_int py)) v m else m)"
proof -
  have u: "uint (of_int p :: u64) = p" if "0 \<le> p" "p < 2 ^ 63" for p
    using that by (simp add: unsigned_of_int take_bit_int_eq_self)
  have "width fb \<le> of_int px \<longleftrightarrow> uint (width fb) \<le> px" "height fb \<le> of_int py \<longleftrightarrow> uint (height fb) \<le> py" if "0 \<le> px" "0 \<le> py"
    using that u lt by (simp_all add: word_le_def)
  then show ?thesis using ok by (auto simp: put_pixel_lim_def visible_def pixel_addr_def fb_ok_def)
qed

lemma pixel_put:
  assumes "fb_ok fb" "px < 2 ^ 63" "py < 2 ^ 63" and q: "visible fb qx qy"
  shows "pixel fb (put_pixel_lim fb px py v m) qx qy = (if px = qx \<and> py = qy then v else pixel fb m qx qy)"
  using put_pixel_eq [OF assms(1-3)] pixel_store [OF assms(1) _ q] q by auto

lemma fold_pixel:
  assumes "\<And>i m. i \<in> set is \<Longrightarrow> pixel fb (f i m) qx qy = (if Q i then v else pixel fb m qx qy)"
  shows "pixel fb (fold f is m) qx qy = (if \<exists>i\<in>set is. Q i then v else pixel fb m qx qy)"
  using assms by (induction "is" arbitrary: m) auto

text \<open>Every loop of the driver that paints in one colour.\<close>

lemma pixel_paint:
  assumes "fb_ok fb" "visible fb qx qy"
    and "\<And>i j. i \<in> set is \<Longrightarrow> j \<in> set js \<Longrightarrow> X i j < 2 ^ 63 \<and> Y i j < 2 ^ 63"
  shows "pixel fb (fold (\<lambda>i. fold (\<lambda>j m. if P i j then put_pixel_lim fb (X i j) (Y i j) v m else m) js) is m) qx qy
    = (if \<exists>i\<in>set is. \<exists>j\<in>set js. P i j \<and> X i j = qx \<and> Y i j = qy then v else pixel fb m qx qy)"
proof (intro fold_pixel)
  fix i j m
  assume "i \<in> set is" "j \<in> set js"
  then have "X i j < 2 ^ 63" "Y i j < 2 ^ 63" using assms(3) by blast+
  then show "pixel fb (if P i j then put_pixel_lim fb (X i j) (Y i j) v m else m) qx qy
      = (if P i j \<and> X i j = qx \<and> Y i j = qy then v else pixel fb m qx qy)"
    using pixel_put [OF assms(1) _ _ assms(2)] by simp
qed

lemma as_int_small: "n < 2 ^ 31 \<Longrightarrow> as_int n = int n"
  unfolding as_int_def by (simp add: signed_of_nat signed_take_bit_int_eq_self_iff)

section \<open>Characters\<close>

definition glyph_at :: "u8 \<Rightarrow> int \<Rightarrow> int \<Rightarrow> bool" where
  "glyph_at c dx dy \<longleftrightarrow> 0 \<le> dx \<and> dx < 8 \<and> 0 \<le> dy \<and> dy < 8 \<and> bit (font8x8_basic ! unat c ! nat dy) (nat dx)"

lemma glyph_ascii: "c < 128 \<Longrightarrow> glyph (sint c) = Some (font8x8_basic ! unat c)" for c :: u8
proof -
  assume "c < 128"
  then have "uint c < 128" by (simp add: word_less_def)
  moreover have "- 128 \<le> uint c" by (rule order_trans [OF _ uint_ge_0]) simp
  ultimately have "sint c = uint c" by (simp add: sint_uint signed_take_bit_int_eq_self_iff)
  then show ?thesis using \<open>uint c < 128\<close> by (simp add: glyph_def)
qed

lemma draw_char_spec:
  assumes "fb_ok fb" "c < 128" "px < 2 ^ 62" "py < 2 ^ 62"
  obtains m' where "draw_char_lim fb px py c color m = Some m'"
    "\<And>qx qy. visible fb qx qy \<Longrightarrow> pixel fb m' qx qy = (if glyph_at c (qx - px) (qy - py) then color else pixel fb m qx qy)"
proof -
  let ?g = "font8x8_basic ! unat c"
  let ?m = "fold (\<lambda>row. fold (\<lambda>col m. if bit (?g ! row) col then put_pixel_lim fb (px + int col) (py + int row) color m else m)
     [0..<8]) [0..<8] m"
  have "(\<exists>i\<in>{0..<8}. \<exists>j\<in>{0..<8}. bit (?g ! i) j \<and> px + int j = qx \<and> py + int i = qy) \<longleftrightarrow> glyph_at c (qx - px) (qy - py)" for qx qy
  proof
    assume "glyph_at c (qx - px) (qy - py)"
    then show "\<exists>i\<in>{0..<8}. \<exists>j\<in>{0..<8}. bit (?g ! i) j \<and> px + int j = qx \<and> py + int i = qy"
      by (intro bexI [of _ "nat (qy - py)"] bexI [of _ "nat (qx - px)"]) (auto simp: glyph_at_def nat_less_iff)
  qed (auto simp: glyph_at_def)
  then have "pixel fb ?m qx qy = (if glyph_at c (qx - px) (qy - py) then color else pixel fb m qx qy)" if "visible fb qx qy" for qx qy
    using assms that by (subst pixel_paint) auto
  moreover have "draw_char_lim fb px py c color m = Some ?m" using glyph_ascii [OF assms(2)] by (simp add: draw_char_lim_def)
  ultimately show thesis using that by blast
qed

section \<open>Scrolling\<close>

lemma pixel_addr_nat: "pixel_addr fb (of_nat a) (of_nat b) = pixel_addr fb (of_int (int a)) (of_int (int b))"
  by simp

definition copy_pixel :: "limine_framebuffer \<Rightarrow> nat \<Rightarrow> nat \<Rightarrow> nat \<Rightarrow> mem \<Rightarrow> mem" where
  "copy_pixel fb k py px m = store32 (pixel_addr fb (of_nat px) (of_nat py))
     (load32 m (pixel_addr fb (of_nat px) (of_nat py + of_int (int k)))) m"

lemma pixel_copy:
  assumes "fb_ok fb" "visible fb (int px) (int py)" "visible fb qx qy"
  shows "pixel fb (copy_pixel fb k py px m) qx qy
    = (if qx = int px \<and> qy = int py then pixel fb m qx (qy + int k) else pixel fb m qx qy)"
  using pixel_store [OF assms, of _ m] by (auto simp: copy_pixel_def pixel_def)

lemma visible_int: "visible fb (int a) (int b) \<longleftrightarrow> a < unat (width fb) \<and> b < unat (height fb)"
proof -
  have "a < unat (width fb) \<longleftrightarrow> int a < int (unat (width fb))" "b < unat (height fb) \<longleftrightarrow> int b < int (unat (height fb))"
    by (simp_all only: of_nat_less_iff)
  then show ?thesis by (simp add: visible_def)
qed

lemma visible_shift:
  assumes "visible fb qx qy" and "b < unat (height fb)"
  shows "visible fb qx (int b)"
proof -
  have "int b < int (unat (height fb))" using assms(2) by (simp only: of_nat_less_iff)
  then show ?thesis using assms(1) by (simp add: visible_def)
qed

lemma copy_row:
  assumes ok: "fb_ok fb" and r: "py + k < unat (height fb)" "0 < k" and "n \<le> unat (width fb)"
    and "visible fb qx qy"
  shows "pixel fb (fold (copy_pixel fb k py) [0..<n] m) qx qy
     = (if qy = int py \<and> qx < int n then pixel fb m qx (qy + int k) else pixel fb m qx qy)"
  using assms(4,5)
proof (induction n arbitrary: qx qy)
  case (Suc n)
  let ?m = "fold (copy_pixel fb k py) [0..<n] m"
  have v: "visible fb (int n) (int py)" using Suc.prems r by (simp add: visible_int)
  have step: "fold (copy_pixel fb k py) [0..<Suc n] m = copy_pixel fb k py n ?m" by simp
  have ih: "pixel fb ?m a b = (if b = int py \<and> a < int n then pixel fb m a (b + int k) else pixel fb m a b)" if "visible fb a b" for a b
    using Suc.IH [OF _ that] Suc.prems(1) by simp
  have "pixel fb ?m qx (qy + int k) = pixel fb m qx (qy + int k)" if "qy = int py"
  proof -
    have "visible fb qx (int (py + k))" using visible_shift [OF Suc.prems(2) r(1)] .
    then show ?thesis using ih [of qx "int (py + k)"] r(2) that by simp
  qed
  then show ?case unfolding step pixel_copy [OF ok v Suc.prems(2)] using ih [OF Suc.prems(2)] by auto
qed (simp add: visible_def)

lemma copy_rows:
  assumes ok: "fb_ok fb" and k: "0 < k" and "n + k \<le> unat (height fb)" and "visible fb qx qy"
  shows "pixel fb (fold (\<lambda>py. fold (copy_pixel fb k py) [0..<unat (width fb)]) [0..<n] m) qx qy
     = (if qy < int n then pixel fb m qx (qy + int k) else pixel fb m qx qy)"
  using assms(3,4)
proof (induction n arbitrary: qx qy)
  case (Suc n)
  let ?m = "fold (\<lambda>py. fold (copy_pixel fb k py) [0..<unat (width fb)]) [0..<n] m"
  have row: "pixel fb (fold (copy_pixel fb k n) [0..<unat (width fb)] ?m) qx qy
      = (if qy = int n \<and> qx < int (unat (width fb)) then pixel fb ?m qx (qy + int k) else pixel fb ?m qx qy)"
    using Suc.prems k by (intro copy_row [OF ok]) auto
  have step: "fold (\<lambda>py. fold (copy_pixel fb k py) [0..<unat (width fb)]) [0..<Suc n] m
      = fold (copy_pixel fb k n) [0..<unat (width fb)] ?m" by simp
  have ih: "pixel fb ?m a b = (if b < int n then pixel fb m a (b + int k) else pixel fb m a b)" if "visible fb a b" for a b
    using Suc.IH [OF _ that] Suc.prems(1) by simp
  have "pixel fb ?m qx (qy + int k) = pixel fb m qx (qy + int k)" if "qy = int n"
  proof -
    have "visible fb qx (int (n + k))" using visible_shift [OF Suc.prems(2), of "n + k"] Suc.prems(1) by simp
    then show ?thesis using ih [of qx "int (n + k)"] k that by simp
  qed
  moreover have "qx < int (unat (width fb))" using Suc.prems(2) by (simp add: visible_def)
  ultimately show ?case unfolding step row using ih [OF Suc.prems(2)] by auto
qed (simp add: visible_def)

lemma black_rows:
  assumes ok: "fb_ok fb" and q: "visible fb qx qy"
  shows "(\<exists>i\<in>set [n..<unat (height fb)]. \<exists>j\<in>set [0..<unat (width fb)]. True \<and> as_int j = qx \<and> as_int i = qy) \<longleftrightarrow> int n \<le> qy"
proof -
  have lt: "unat (width fb) < 2 ^ 31" "unat (height fb) < 2 ^ 31" using ok by (simp_all add: fb_ok_def)
  have v: "nat qx < unat (width fb)" "nat qy < unat (height fb)" "0 \<le> qx" "0 \<le> qy"
    using visible_nat [OF q] q by (simp_all add: visible_def)
  then have as: "as_int (nat qx) = qx" "as_int (nat qy) = qy" using lt by (simp_all add: as_int_small)
  show ?thesis
  proof
    assume "int n \<le> qy"
    then have "nat qy \<in> set [n..<unat (height fb)]" "nat qx \<in> set [0..<unat (width fb)]" using v by auto
    then show "\<exists>i\<in>set [n..<unat (height fb)]. \<exists>j\<in>set [0..<unat (width fb)]. True \<and> as_int j = qx \<and> as_int i = qy" using as by blast
  next
    assume "\<exists>i\<in>set [n..<unat (height fb)]. \<exists>j\<in>set [0..<unat (width fb)]. True \<and> as_int j = qx \<and> as_int i = qy"
    then obtain i where "n \<le> i" "i < unat (height fb)" "as_int i = qy" by auto
    then show "int n \<le> qy" using lt as_int_small [of i] by simp
  qed
qed

lemma scroll_spec:
  assumes ok: "fb_ok fb" and k: "0 < k" "k \<le> unat (height fb)" and q: "visible fb qx qy"
  shows "pixel fb (scroll_lim fb (int k) m) qx qy
     = (if qy + int k < uint (height fb) then pixel fb m qx (qy + int k) else COLOR_BLACK)"
proof -
  define n where "n = unat (height fb) - k"
  have "unat (of_nat k :: u64) = k" using k(2) unat_less_pow [of "height fb"] by (simp add: unat_of_nat_small)
  then have last: "unat (height fb - of_int (int k)) = n"
    using k(2) by (simp add: unat_sub word_le_nat_alt n_def)
  let ?m = "fold (\<lambda>py. fold (copy_pixel fb k py) [0..<unat (width fb)]) [0..<n] m"
  have "as_int j < 2 ^ 63" for j unfolding as_int_def using sint_lt [of "of_nat j :: u32"] by simp
  note paint = pixel_paint [OF ok q, of "[n..<unat (height fb)]" "[0..<unat (width fb)]" "\<lambda>i. as_int" "\<lambda>i j. as_int i" "\<lambda>_ _. True"
      COLOR_BLACK ?m, OF conjI [OF this this], unfolded black_rows [OF ok q]]
  have "scroll_lim fb (int k) m = fold (\<lambda>py. fold (\<lambda>px m. if True then put_pixel_lim fb (as_int px) (as_int py) COLOR_BLACK m else m)
      [0..<unat (width fb)]) [n..<unat (height fb)] ?m"
    unfolding scroll_lim_def Let_def last copy_pixel_def by simp
  then have "pixel fb (scroll_lim fb (int k) m) qx qy = (if int n \<le> qy then COLOR_BLACK else pixel fb ?m qx qy)" using paint by simp
  also have "pixel fb ?m qx qy = (if qy < int n then pixel fb m qx (qy + int k) else pixel fb m qx qy)"
    using k(2) by (intro copy_rows [OF ok k(1) _ q]) (simp add: n_def)
  finally show ?thesis using k(2) by (simp add: n_def of_nat_diff)
qed

section \<open>Properties\<close>

text \<open>A cursor that the screen was given to by \<^verbatim>\<open>init_cursor\<close> and whose character cell is on the screen.\<close>

definition cursor_ok :: "limine_framebuffer \<Rightarrow> cursor_t \<Rightarrow> bool" where
  "cursor_ok fb cur \<longleftrightarrow> char_width cur = 8 \<and> char_height cur = 8 \<and> screen_width cur = uint (width fb)
     \<and> screen_height cur = uint (height fb) \<and> 0 \<le> cur_x cur \<and> cur_x cur + 8 \<le> screen_width cur
     \<and> 0 \<le> cur_y cur \<and> cur_y cur + 8 \<le> screen_height cur"

text \<open>Where the cursor goes after a character, and whether the picture moves.\<close>

definition advance :: "cursor_t \<Rightarrow> cursor_t \<times> bool" where
  "advance cur =
     (if cur_x cur + 16 \<le> screen_width cur then (cur\<lparr>cur_x := cur_x cur + 8\<rparr>, False)
      else if cur_y cur + 16 \<le> screen_height cur then (cur\<lparr>cur_x := 0, cur_y := cur_y cur + 8\<rparr>, False)
      else (cur\<lparr>cur_x := 0\<rparr>, True))"

text \<open>
  C31: Printing an ASCII character with the cursor on the screen paints exactly the pixels of its glyph in the
  character cell, moves the cursor to the next cell, to the next row at the end of a row, and at the end of the last
  row moves the whole picture up by eight pixel rows over a black last row; the cursor stays on the screen.
\<close>

theorem put_char_with_cursor_spec:
  assumes ok: "fb_ok fb" and cur: "cursor_ok fb cur" and c: "c < 128"
  shows "\<exists>m'. put_char_with_cursor_lim fb cur c color m = Some (fst (advance cur), m') \<and> cursor_ok fb (fst (advance cur))
    \<and> (\<forall>qx qy. visible fb qx qy \<longrightarrow>
         pixel fb m' qx qy =
           (if snd (advance cur)
            then if qy + 8 < uint (height fb)
                 then if glyph_at c (qx - cur_x cur) (qy + 8 - cur_y cur) then color else pixel fb m qx (qy + 8)
                 else COLOR_BLACK
            else if glyph_at c (qx - cur_x cur) (qy - cur_y cur) then color else pixel fb m qx qy))"
proof -
  have big: "uint (width fb) < 2 ^ 31" "uint (height fb) < 2 ^ 31"
    using ok unfolding fb_ok_def by (metis of_nat_less_iff of_nat_numeral of_nat_power uint_nat)+
  have small: "cur_x cur < 2 ^ 62" "cur_y cur < 2 ^ 62" using cur big by (auto simp: cursor_ok_def)
  obtain m1 where m1: "draw_char_lim fb (cur_x cur) (cur_y cur) c color m = Some m1"
      and p1: "\<And>qx qy. visible fb qx qy \<Longrightarrow> pixel fb m1 qx qy = (if glyph_at c (qx - cur_x cur) (qy - cur_y cur) then color else pixel fb m qx qy)"
    using draw_char_spec [OF ok c small] by metis
  have ok': "cursor_ok fb (fst (advance cur))" using cur by (auto simp: cursor_ok_def advance_def)
  have run: "put_char_with_cursor_lim fb cur c color m = Some (fst (advance cur), if snd (advance cur) then scroll_lim fb 8 m1 else m1)"
    using cur m1 by (auto simp: put_char_with_cursor_lim_def cursor_ok_def advance_def Let_def)
  have "8 \<le> uint (height fb)" using cur by (auto simp: cursor_ok_def)
  then have h: "8 \<le> unat (height fb)" unfolding unat_eq_nat_uint by linarith
  have "pixel fb (scroll_lim fb 8 m1) qx qy = (if qy + 8 < uint (height fb)
                 then if glyph_at c (qx - cur_x cur) (qy + 8 - cur_y cur) then color else pixel fb m qx (qy + 8)
                 else COLOR_BLACK)" if v: "visible fb qx qy" for qx qy
  proof (cases "qy + 8 < uint (height fb)")
    case True
    then have "visible fb qx (qy + 8)" using v by (simp add: visible_def)
    then show ?thesis using scroll_spec [OF ok _ h v, of m1] p1 [of qx "qy + 8"] True by simp
  qed (use scroll_spec [OF ok _ h v, of m1] in simp)
  then show ?thesis using run ok' p1 by (cases "snd (advance cur)") auto
qed

definition fb_small :: limine_framebuffer where
  "fb_small = \<lparr>address = 0x1000, width = 16, height = 16, pitch = 64, bpp = 32\<rparr>"

theorem put_char_with_cursor_spec_witness:
  "\<exists>m'. put_char_with_cursor_lim fb_small ((init_cursor 16 16)\<lparr>cur_x := 8, cur_y := 8\<rparr>) 65 0xFFFFFFFF (\<lambda>_. 0)
       = Some ((init_cursor 16 16)\<lparr>cur_x := 0, cur_y := 8\<rparr>, m')
     \<and> pixel fb_small m' 10 0 = 0xFFFFFFFF \<and> pixel fb_small m' 8 0 = pixel fb_small (\<lambda>_. 0) 8 8 \<and> pixel fb_small m' 3 12 = COLOR_BLACK"
proof -
  let ?c = "(init_cursor 16 16)\<lparr>cur_x := 8, cur_y := 8\<rparr>"
  have h: "fb_ok fb_small" "cursor_ok fb_small ?c" "(65 :: u8) < 128"
    by (simp_all add: fb_small_def fb_ok_def cursor_ok_def init_cursor_def)
  have a: "advance ?c = ((init_cursor 16 16)\<lparr>cur_x := 0, cur_y := 8\<rparr>, True)" by (simp add: advance_def init_cursor_def)
  have v: "visible fb_small 10 0" "visible fb_small 8 0" "visible fb_small 3 12" by (simp_all add: visible_def fb_small_def)
  have g: "glyph_at 65 2 0" "\<not> glyph_at 65 0 0" by code_simp+
  show ?thesis
    using put_char_with_cursor_spec [OF h, of "0xFFFFFFFF" "\<lambda>_. 0"] v g unfolding a
    by (auto simp: fb_small_def init_cursor_def)
qed

lemma glyph_index_outside: "128 \<le> v \<Longrightarrow> glyph (sint v) = None" for v :: u32
proof -
  assume "128 \<le> v"
  then have "128 \<le> uint v" by (simp add: word_le_def)
  moreover have "uint v = sint v" if "0 \<le> sint v" using that sint_lt [of v] by (simp add: uint_sint take_bit_int_eq_self)
  ultimately show ?thesis by (cases "0 \<le> sint v") (simp_all add: glyph_def)
qed

text \<open>The numbers formed by the first four rows of the printable glyphs.\<close>

lemma glyph_rows:
  "list_all (\<lambda>(c, g). if c \<in> {44, 46, 95} then le32 g 0 = 0 else 128 \<le> le32 g 0)
     (zip [33..<127] (take 94 (drop 33 font8x8_basic)))"
  by code_simp

lemma numeral_unat_eq: "unat c = 44 \<longleftrightarrow> c = 44" "unat c = 46 \<longleftrightarrow> c = 46" "unat c = 95 \<longleftrightarrow> c = 95" for c :: u8
  by (simp_all add: word_unat_eq_iff)

lemma fold_idle: "(\<And>i m. i \<in> set is \<Longrightarrow> f i m = m) \<Longrightarrow> fold f is m = m"
  by (induction "is") auto

lemma draw_blank: "le32 g 0 = 0 \<Longrightarrow> draw_scaled_char_lim fb px py g color scale m = Some m"
proof -
  have "glyph 0 = Some (replicate 8 0)" by code_simp
  then show "le32 g 0 = 0 \<Longrightarrow> ?thesis" unfolding draw_scaled_char_lim_def by simp (intro fold_idle, simp)
qed

text \<open>
  \<^verbatim>\<open>draw_scaled_text_lim\<close> never draws a printable character: its index into the font lies outside the table for
  all of them but the comma, the full stop and the underscore, for which it draws nothing.
\<close>

theorem draw_scaled_text_outside:
  assumes "33 \<le> c" and "c \<le> 126"
  shows "draw_scaled_text_lim fb px py (c # str) color scale m =
    (if c \<in> {44, 46, 95} then draw_scaled_text_at fb px (px + 8 * int scale) py str color scale m else None)"
proof -
  have "c < 128" using assms(2) by (rule le_less_trans) simp
  then have g: "glyph (sint c) = Some (font8x8_basic ! unat c)" by (rule glyph_ascii)
  have n: "c \<noteq> 0" "c \<noteq> 10" using assms(1) by auto
  have i: "unat c - 33 < 94" "33 + (unat c - 33) = unat c" using assms by (simp_all add: word_le_nat_alt)
  have "length font8x8_basic = 128" by code_simp
  then have "(if unat c \<in> {44, 46, 95} then le32 (font8x8_basic ! unat c) 0 = 0 else 128 \<le> le32 (font8x8_basic ! unat c) 0)"
    using glyph_rows i unfolding list_all_length by (auto simp del: upt_rec_numeral dest!: spec [of _ "unat c - 33"])
  then have "draw_scaled_char_lim fb px py (font8x8_basic ! unat c) color scale m = (if c \<in> {44, 46, 95} then Some m else None)"
    using draw_blank glyph_index_outside by (auto simp: draw_scaled_char_lim_def numeral_unat_eq split: if_splits)
  then show ?thesis using g n by (simp add: draw_scaled_text_lim_def)
qed

theorem draw_scaled_text_outside_witness:
  "\<forall>fb px py color scale m. draw_scaled_text_lim fb px py (bytes ''NTux'') color scale m = None"
  using draw_scaled_text_outside [of 78] by (simp add: bytes_def)

end
