(* ===== verification/Kprint.thy ===== *)
theory Kprint
  imports Framebuffer "HOL-Library.Signed_Division"
begin

text \<open>
  The kernel's formatted output, \<^verbatim>\<open>drivers/framebuffer/kprint.c\<close>.  The record \<^verbatim>\<open>console\<close> is the global printer with the
  cursor it points to and the video memory.  Text is a list of bytes that ends at the first NUL or at the end of the
  list; \<^const>\<open>None\<close> is undefined behaviour: a read outside the font, the negation of the smallest \<^verbatim>\<open>int\<close>, or a
  missing or ill-typed variadic argument.

  Shown: the digits produced for a number denote that number and fit the callers' buffers; \<^verbatim>\<open>kprintf\<close> prints the
  text its format denotes; the unsigned and hexadecimal printers go wrong for numbers from \<^verbatim>\<open>0x80000000\<close> on; a
  newline on the last row moves the cursor off the screen, and text printed there is lost while each character scrolls
  the picture.
\<close>

section \<open>Numbers\<close>

datatype radix = Decimal | Hexadecimal

fun radix_base :: "radix \<Rightarrow> nat" where
  "radix_base Decimal = 10"
| "radix_base Hexadecimal = 16"

lemma radix_base_gt [simp]: "1 < radix_base b" "0 < radix_base b"
  by (cases b; simp)+

lemma radix_div_less: "num \<noteq> 0 \<Longrightarrow> num div radix_base b < num"
  by (cases b) auto

definition digit :: "int \<Rightarrow> u8" where
  "digit r = of_int (if 9 < r then r - 10 + 97 else r + 48)"

function reverse_loop :: "nat \<Rightarrow> nat \<Rightarrow> u8 list \<Rightarrow> u8 list" where
  "reverse_loop i j str = (if i < j then reverse_loop (i + 1) (j - 1) (str[i := str ! j, j := str ! i]) else str)"
  by pat_completeness auto
termination
  by (relation "measure (\<lambda>(i, j, str). j - i)") auto

declare reverse_loop.simps [simp del]

definition reverse :: "u8 list \<Rightarrow> u8 list" where
  "reverse str = reverse_loop 0 (length str - 1) str"

text \<open>The digits of a number, least significant first.\<close>

function unsigned_loop :: "radix \<Rightarrow> nat \<Rightarrow> u8 list" where
  "unsigned_loop b num =
     (if num \<noteq> 0 then digit (int (num mod radix_base b)) # unsigned_loop b (num div radix_base b) else [])"
  by pat_completeness auto
termination
  by (relation "measure snd") (use radix_div_less in auto)

declare unsigned_loop.simps [simp del]

definition itoa_unsigned :: "u64 \<Rightarrow> radix \<Rightarrow> u8 list" where
  "itoa_unsigned num b = (if num = 0 then [48] else reverse (unsigned_loop b (unat num)))"

definition itoa_signed :: "int \<Rightarrow> u8 list" where
  "itoa_signed num =
     (if num = 0 then [48]
      else if num < 0 then 45 # itoa_unsigned (of_int (- num)) Decimal
      else itoa_unsigned (of_int num) Decimal)"

text \<open>\<^verbatim>\<open>itoa\<close> divides signed numbers: quotients are rounded towards zero, remainders keep the sign.\<close>

lemma sdiv_less: "num \<noteq> 0 \<Longrightarrow> nat \<bar>num sdiv int (radix_base b)\<bar> < nat \<bar>num\<bar>" for num :: int
  by (cases b) (auto simp: signed_divide_int_def abs_mult sgn_if)

function signed_loop :: "radix \<Rightarrow> int \<Rightarrow> u8 list" where
  "signed_loop b num =
     (if num \<noteq> 0 then digit (num smod int (radix_base b)) # signed_loop b (num sdiv int (radix_base b)) else [])"
  by pat_completeness auto
termination
  by (relation "measure (\<lambda>(b, num). nat \<bar>num\<bar>)") (use sdiv_less in auto)

declare signed_loop.simps [simp del]

definition INT_MIN :: int where "INT_MIN = - (2 ^ 31)"

definition itoa :: "int \<Rightarrow> radix \<Rightarrow> u8 list option" where
  "itoa num b =
     (if num = 0 then Some [48]
      else if num < 0 \<and> b = Decimal
      then if num = INT_MIN then None else Some (reverse (signed_loop b (- num) @ [45]))
      else Some (reverse (signed_loop b num)))"

section \<open>The printer\<close>

record console =
  con_fb :: limine_framebuffer
  con_cursor :: cursor_t
  con_color :: u32
  video :: mem

definition init_kprint_global :: "limine_framebuffer \<Rightarrow> cursor_t \<Rightarrow> u32 \<Rightarrow> console \<Rightarrow> console" where
  "init_kprint_global fb cursor color s = s\<lparr>con_fb := fb, con_cursor := cursor, con_color := color\<rparr>"

fun kprintcolor :: "u8 list \<Rightarrow> u32 \<Rightarrow> console \<Rightarrow> console option" where
  "kprintcolor [] color s = Some s"
| "kprintcolor (c # text) color s =
     (if c = 0 then Some s
      else if c = 10
      then kprintcolor text color
             (s\<lparr>con_cursor := (con_cursor s)\<lparr>cur_x := 0, cur_y := cur_y (con_cursor s) + char_height (con_cursor s)\<rparr>\<rparr>)
      else do {
        (cur, m) \<leftarrow> put_char_with_cursor_lim (con_fb s) (con_cursor s) c color (video s);
        kprintcolor text color (s\<lparr>con_cursor := cur, video := m\<rparr>)
      })"

fun kprint :: "u8 list \<Rightarrow> console \<Rightarrow> console option" where
  "kprint [] s = Some s"
| "kprint (c # text) s =
     (if c = 0 then Some s
      else if c = 10
      then kprint text
             (s\<lparr>con_cursor := (con_cursor s)\<lparr>cur_x := 0, cur_y := cur_y (con_cursor s) + char_height (con_cursor s)\<rparr>\<rparr>)
      else do {
        (cur, m) \<leftarrow> put_char_with_cursor_lim (con_fb s) (con_cursor s) c (con_color s) (video s);
        kprint text (s\<lparr>con_cursor := cur, video := m\<rparr>)
      })"

definition kprint_int :: "int \<Rightarrow> console \<Rightarrow> console option" where
  "kprint_int num s = do { buffer \<leftarrow> itoa num Decimal; kprint buffer s }"

text \<open>The unsigned argument of the following functions is passed to \<^verbatim>\<open>itoa\<close> as an \<^verbatim>\<open>int\<close>.\<close>

definition kprint_uint :: "u32 \<Rightarrow> console \<Rightarrow> console option" where
  "kprint_uint num s = do { buffer \<leftarrow> itoa (sint num) Decimal; kprint buffer s }"

definition kprinthex :: "u32 \<Rightarrow> console \<Rightarrow> console option" where
  "kprinthex num s = do { buffer \<leftarrow> itoa (sint num) Hexadecimal; s \<leftarrow> kprint (bytes ''0x'') s; kprint buffer s }"

definition kprintcolor_int32 :: "int \<Rightarrow> u32 \<Rightarrow> console \<Rightarrow> console option" where
  "kprintcolor_int32 num color s = do { buffer \<leftarrow> itoa num Decimal; kprintcolor buffer color s }"

definition kprintcolor_uint32 :: "u32 \<Rightarrow> u32 \<Rightarrow> console \<Rightarrow> console option" where
  "kprintcolor_uint32 num color s = do { buffer \<leftarrow> itoa (sint num) Decimal; kprintcolor buffer color s }"

definition kprintcolorhex :: "u32 \<Rightarrow> u32 \<Rightarrow> console \<Rightarrow> console option" where
  "kprintcolorhex num color s =
     do { buffer \<leftarrow> itoa (sint num) Hexadecimal; s \<leftarrow> kprintcolor (bytes ''0x'') color s; kprintcolor buffer color s }"

definition COLOR_GREEN :: u32 where "COLOR_GREEN = 0xFF00FF00"
definition COLOR_RED :: u32 where "COLOR_RED = 0xFFFF0000"
definition COLOR_LIGHT_BLUE_SCREEN_BG :: u32 where "COLOR_LIGHT_BLUE_SCREEN_BG = 0xFF1E8CB0"

definition kprint_ok :: "u8 list \<Rightarrow> console \<Rightarrow> console option" where
  "kprint_ok text s = do {
     s \<leftarrow> kprint text s; s \<leftarrow> kprint (bytes '' '') s; s \<leftarrow> kprint (bytes ''['') s;
     s \<leftarrow> kprintcolor (bytes ''  OK  '') COLOR_GREEN s; kprint (bytes '']\<newline>'') s }"

definition kprint_error :: "u8 list \<Rightarrow> console \<Rightarrow> console option" where
  "kprint_error text s = do {
     s \<leftarrow> kprint text s; s \<leftarrow> kprint (bytes '' '') s; s \<leftarrow> kprint (bytes ''['') s;
     s \<leftarrow> kprintcolor (bytes '' ERROR '') COLOR_RED s; kprint (bytes '']\<newline>'') s }"

text \<open>The parameter stands for \<^verbatim>\<open>sleep_s(5)\<close> followed by \<^verbatim>\<open>power_reboot()\<close>.\<close>

definition trigger_blue_screen :: "(console \<Rightarrow> console option) \<Rightarrow> console \<Rightarrow> console option" where
  "trigger_blue_screen sleep_and_reboot s = do {
     let s = s\<lparr>video := clear_screen_lim (con_fb s) COLOR_LIGHT_BLUE_SCREEN_BG (video s)\<rparr>;
     let s = s\<lparr>con_cursor := (con_cursor s)\<lparr>cur_x := 3, cur_y := 10\<rparr>\<rparr>;
     s \<leftarrow> kprint (bytes '':(\<newline>'') s;
     s \<leftarrow> kprint (bytes ''\<newline>\<newline>'') s;
     s \<leftarrow> kprint (bytes ''A critical error has occurred. System halted.\<newline>s'') s;
     s \<leftarrow> kprint_error (bytes ''System will not continue.'') s;
     s \<leftarrow> kprint (bytes ''the system will reboot in 5 seconds...\<newline>'') s;
     sleep_and_reboot s }"

section \<open>Formatted output\<close>

datatype va_arg = Va_Int u64 | Va_Str "u8 list option"

fun va_int :: "va_arg list \<Rightarrow> (u64 \<times> va_arg list) option" where
  "va_int (Va_Int v # args) = Some (v, args)"
| "va_int _ = None"

fun va_str :: "va_arg list \<Rightarrow> (u8 list option \<times> va_arg list) option" where
  "va_str (Va_Str v # args) = Some (v, args)"
| "va_str _ = None"

text \<open>One conversion \<^verbatim>\<open>%f\<close>.\<close>

definition kprintf_conv :: "u8 \<Rightarrow> va_arg list \<Rightarrow> console \<Rightarrow> (va_arg list \<times> console) option" where
  "kprintf_conv f args s =
     (if f = of_char CHR ''d'' \<or> f = of_char CHR ''i'' then do {
        (v, args) \<leftarrow> va_int args;
        s \<leftarrow> kprint (itoa_signed (sint (ucast v :: u32))) s;
        Some (args, s) }
      else if f = of_char CHR ''u'' then do {
        (v, args) \<leftarrow> va_int args;
        s \<leftarrow> kprint (itoa_unsigned (ucast (ucast v :: u32)) Decimal) s;
        Some (args, s) }
      else if f = of_char CHR ''x'' \<or> f = of_char CHR ''X'' then do {
        (v, args) \<leftarrow> va_int args;
        s \<leftarrow> kprint (bytes ''0x'') s;
        s \<leftarrow> kprint (itoa_unsigned (ucast (ucast v :: u32)) Hexadecimal) s;
        Some (args, s) }
      else if f = of_char CHR ''p'' then do {
        (v, args) \<leftarrow> va_int args;
        s \<leftarrow> kprint (bytes ''0x'') s;
        s \<leftarrow> kprint (itoa_unsigned v Hexadecimal) s;
        Some (args, s) }
      else if f = of_char CHR ''s'' then do {
        (v, args) \<leftarrow> va_str args;
        s \<leftarrow> kprint (case v of Some str \<Rightarrow> str | None \<Rightarrow> bytes ''(null)'') s;
        Some (args, s) }
      else if f = of_char CHR ''c'' then do {
        (v, args) \<leftarrow> va_int args;
        s \<leftarrow> kprint [ucast v, 0] s;
        Some (args, s) }
      else if f = of_char CHR ''%'' then do {
        s \<leftarrow> kprint (bytes ''%'') s;
        Some (args, s) }
      else do {
        s \<leftarrow> kprint (bytes ''%'') s;
        s \<leftarrow> kprint [f, 0] s;
        Some (args, s) })"

fun kprintf :: "u8 list \<Rightarrow> va_arg list \<Rightarrow> console \<Rightarrow> console option" where
  "kprintf [] args s = Some s"
| "kprintf (c # format) args s =
     (if c = 0 then Some s
      else if c \<noteq> of_char CHR ''%'' then do {
        s \<leftarrow> kprint [c, 0] s;
        kprintf format args s }
      else case format of
        [] \<Rightarrow> Some s
      | f # format \<Rightarrow>
          if f = 0 then Some s
          else do {
            (args, s) \<leftarrow> kprintf_conv f args s;
            kprintf format args s })"

section \<open>Digits\<close>

lemma length_reverse_loop: "length (reverse_loop i j str) = length str"
  by (induction i j str rule: reverse_loop.induct) (subst reverse_loop.simps, simp)

lemma nth_reverse_loop:
  "j < length str \<Longrightarrow> k < length str \<Longrightarrow>
     reverse_loop i j str ! k = (if i \<le> k \<and> k \<le> j then str ! (i + j - k) else str ! k)"
proof (induction i j str rule: reverse_loop.induct)
  case (1 i j str)
  show ?case
  proof (cases "i < j")
    case True
    define s where "s = str[i := str ! j, j := str ! i]"
    have "reverse_loop i j str ! k = (if i + 1 \<le> k \<and> k \<le> j - 1 then s ! (i + 1 + (j - 1) - k) else s ! k)"
      using 1 True by (subst reverse_loop.simps) (simp add: s_def)
    moreover have "s ! n = (if n = j then str ! i else if n = i then str ! j else str ! n)" if "n < length str" for n
      using that 1(2) True by (simp add: s_def nth_list_update)
    ultimately show ?thesis using 1(2,3) True by auto
  next
    case False
    then have "i \<le> k \<and> k \<le> j \<Longrightarrow> i + j - k = k" by auto
    then show ?thesis using False by (subst reverse_loop.simps) auto
  qed
qed

lemma reverse_rev: "reverse str = rev str"
proof (cases "str = []")
  case False
  then have "0 < length str" by simp
  then show ?thesis by (intro nth_equalityI) (auto simp: reverse_def length_reverse_loop nth_reverse_loop rev_nth)
qed (simp add: reverse_def reverse_loop.simps)

text \<open>The value of a digit character and of a string of digits, most significant first.\<close>

definition digit_val :: "u8 \<Rightarrow> nat" where
  "digit_val c = (if 97 \<le> c then unat c - 87 else unat c - 48)"

definition digits_val :: "radix \<Rightarrow> u8 list \<Rightarrow> nat" where
  "digits_val b ds = foldl (\<lambda>n d. n * radix_base b + digit_val d) 0 ds"

definition is_digit :: "radix \<Rightarrow> u8 \<Rightarrow> bool" where
  "is_digit b c \<longleftrightarrow> 48 \<le> c \<and> c \<le> 57 \<or> b = Hexadecimal \<and> 97 \<le> c \<and> c \<le> 102"

lemma digit_small: "d < 16 \<Longrightarrow> digit_val (digit (int d)) = d \<and> (d < radix_base b \<longrightarrow> is_digit b (digit (int d)))"
proof -
  have "\<forall>d<16. digit_val (digit (int d)) = d \<and> is_digit Hexadecimal (digit (int d)) \<and> (d < 10 \<longrightarrow> is_digit Decimal (digit (int d)))"
    by code_simp
  then show "d < 16 \<Longrightarrow> ?thesis" by (cases b) auto
qed

lemma digits_val_snoc: "digits_val b (ds @ [d]) = digits_val b ds * radix_base b + digit_val d"
  by (simp add: digits_val_def)

lemma unsigned_loop_val: "digits_val b (rev (unsigned_loop b n)) = n"
proof (induction b n rule: unsigned_loop.induct)
  case (1 b n)
  have "n mod radix_base b < 16" by (cases b) simp_all
  then have "digit_val (digit (int (n mod radix_base b))) = n mod radix_base b" using digit_small by blast
  with 1 show ?case by (subst unsigned_loop.simps) (simp add: digits_val_snoc, simp add: digits_val_def)
qed

lemma unsigned_loop_digits: "list_all (is_digit b) (unsigned_loop b n)"
proof (induction b n rule: unsigned_loop.induct)
  case (1 b n)
  have "n mod radix_base b < radix_base b" "n mod radix_base b < 16" by (cases b; simp)+
  then have "is_digit b (digit (int (n mod radix_base b)))" using digit_small by blast
  with 1 show ?case by (subst unsigned_loop.simps) simp
qed

lemma unsigned_loop_length: "n < radix_base b ^ k \<Longrightarrow> length (unsigned_loop b n) \<le> k"
proof (induction k arbitrary: n)
  case (Suc k)
  then have "n div radix_base b < radix_base b ^ k" by (simp add: less_mult_imp_div_less mult.commute)
  with Suc.IH show ?case by (subst unsigned_loop.simps) simp
qed (simp add: unsigned_loop.simps)

lemma signed_loop_pos: "signed_loop b (int n) = unsigned_loop b n"
proof (induction b n rule: unsigned_loop.induct)
  case (1 b n)
  have "int n sdiv int (radix_base b) = int (n div radix_base b)" "int n smod int (radix_base b) = int (n mod radix_base b)"
    by (simp_all add: signed_divide_int_def signed_modulo_int_def sgn_if zdiv_int zmod_int)
  with 1 show ?case by (subst signed_loop.simps, subst unsigned_loop.simps) simp
qed

text \<open>The number a decimal string denotes.\<close>

definition decimal_val :: "u8 list \<Rightarrow> int" where
  "decimal_val s = (if s \<noteq> [] \<and> hd s = 45 then - int (digits_val Decimal (tl s)) else int (digits_val Decimal s))"

lemma itoa_unsigned_rev: "itoa_unsigned v b = (if v = 0 then [48] else rev (unsigned_loop b (unat v)))"
  by (simp add: itoa_unsigned_def reverse_rev)

lemma itoa_unsigned_val: "digits_val b (itoa_unsigned v b) = unat v" "list_all (is_digit b) (itoa_unsigned v b)"
  by (cases b; simp add: itoa_unsigned_rev unsigned_loop_val unsigned_loop_digits digits_val_def [of _ "[48]"] digit_val_def is_digit_def)+

lemma itoa_unsigned_length: "length (itoa_unsigned v b) \<le> 20"
proof -
  have "unat v < 2 ^ 64" using unat_less_pow [of v] by simp
  then have "unat v < radix_base b ^ 20" by (cases b) (simp_all add: less_le_trans)
  then show ?thesis using unsigned_loop_length by (simp add: itoa_unsigned_rev)
qed

lemma itoa_decimal: "- (2 ^ 31) < n \<Longrightarrow> n < 2 ^ 31 \<Longrightarrow> itoa n Decimal = Some (itoa_signed n)"
proof -
  assume n: "- (2 ^ 31) < n" "n < 2 ^ 31"
  have pos: "signed_loop Decimal k = unsigned_loop Decimal (nat k)" "unat (of_int k :: u64) = nat k" "(of_int k :: u64) \<noteq> 0"
    if "0 < k" "k \<le> 2 ^ 31" for k
  proof -
    show "signed_loop Decimal k = unsigned_loop Decimal (nat k)" using signed_loop_pos [of Decimal "nat k"] that by simp
    show u: "unat (of_int k :: u64) = nat k" using that by (simp add: unsigned_of_int take_bit_int_eq_self)
    show "(of_int k :: u64) \<noteq> 0" using u that by (metis unat_0 zero_less_nat_eq less_irrefl)
  qed
  show ?thesis
    using n pos [of n] pos [of "- n"]
    by (auto simp: itoa_def itoa_signed_def INT_MIN_def itoa_unsigned_rev reverse_rev)
qed

lemma itoa_unsigned_short:
  assumes "unat v < 10 ^ 10"
  shows "length (itoa_unsigned v Decimal) \<le> 10" "hd (itoa_unsigned v Decimal) \<noteq> 45" "itoa_unsigned v Decimal \<noteq> []"
proof -
  show "length (itoa_unsigned v Decimal) \<le> 10" using assms unsigned_loop_length [of "unat v" Decimal 10] by (simp add: itoa_unsigned_rev)
  show ne: "itoa_unsigned v Decimal \<noteq> []"
    by (subst itoa_unsigned_rev) (use unsigned_loop.simps [of Decimal "unat v"] in \<open>simp add: unat_eq_0\<close>)
  then have "is_digit Decimal (hd (itoa_unsigned v Decimal))" using itoa_unsigned_val(2) [of Decimal v] by (simp add: list_all_iff)
  then show "hd (itoa_unsigned v Decimal) \<noteq> 45" by (auto simp: is_digit_def)
qed

lemma itoa_signed_val:
  assumes "- (2 ^ 31) < n" "n < 2 ^ 31"
  shows "decimal_val (itoa_signed n) = n" "length (itoa_signed n) \<le> 11"
proof -
  have u: "unat (of_int k :: u64) = nat k" "unat (of_int k :: u64) < 10 ^ 10" if "0 < k" "k < 2 ^ 31" for k
    using that by (simp_all add: unsigned_of_int take_bit_int_eq_self)
  consider "n = 0" | "0 < n" | "n < 0" by linarith
  then have "decimal_val (itoa_signed n) = n \<and> length (itoa_signed n) \<le> 11"
  proof cases
    case 1
    then show ?thesis by (simp add: itoa_signed_def decimal_val_def digits_val_def digit_val_def)
  next
    case 2
    then show ?thesis using u [of n] assms itoa_unsigned_short [of "of_int n"] itoa_unsigned_val(1) [of Decimal "of_int n"]
      by (simp add: itoa_signed_def decimal_val_def)
  next
    case 3
    then show ?thesis using u [of "- n"] assms itoa_unsigned_short(1) [of "of_int (- n)"] itoa_unsigned_val(1) [of Decimal "of_int (- n)"]
      by (simp add: itoa_signed_def decimal_val_def)
  qed
  then show "decimal_val (itoa_signed n) = n" "length (itoa_signed n) \<le> 11" by simp_all
qed

text \<open>
  C40: The number conversions denote their argument: the digits of \<^verbatim>\<open>itoa_unsigned\<close> are digits of the radix, fit every
  caller's buffer and have the number as their value, and \<^verbatim>\<open>itoa\<close> and \<^verbatim>\<open>itoa_signed\<close> agree on every \<^verbatim>\<open>int\<close> but the
  smallest, on a decimal numeral of at most 11 characters that denotes the number.
\<close>

theorem itoa_denotes:
  "digits_val b (itoa_unsigned v b) = unat v \<and> list_all (is_digit b) (itoa_unsigned v b) \<and> length (itoa_unsigned v b) \<le> 20
   \<and> (- (2 ^ 31) < n \<and> n < 2 ^ 31 \<longrightarrow>
        itoa n Decimal = Some (itoa_signed n) \<and> decimal_val (itoa_signed n) = n \<and> length (itoa_signed n) \<le> 11)"
  using itoa_unsigned_val itoa_unsigned_length itoa_decimal itoa_signed_val by blast

theorem itoa_denotes_witness:
  "digits_val Hexadecimal (itoa_unsigned 0xBEEF Hexadecimal) = 0xBEEF \<and> decimal_val (itoa_signed (- 42)) = - 42"
  using itoa_denotes [of Hexadecimal "0xBEEF" "- 42"] by simp

lemma signed_loop_negative: "0 < n \<Longrightarrow> \<exists>c\<in>set (signed_loop Hexadecimal (- int n)). \<not> is_digit Hexadecimal c"
proof (induction n rule: less_induct)
  case (less n)
  have d: "(- int n) sdiv 16 = - int (n div 16)" "(- int n) smod 16 = - int (n mod 16)"
    using less.prems by (simp_all add: signed_divide_int_def signed_modulo_int_def sgn_if zdiv_int zmod_int)
  have bad: "\<forall>k\<in>{1..<16}. \<not> is_digit Hexadecimal (digit (- int k))" by code_simp
  show ?case
  proof (cases "n mod 16 = 0")
    case True
    then have "0 < n div 16" using less.prems by presburger
    then show ?thesis using less.IH [of "n div 16"] less.prems d by (subst signed_loop.simps) simp
  next
    case False
    then have "n mod 16 \<in> {1..<16}" by simp
    then show ?thesis using bad less.prems d by (subst signed_loop.simps) auto
  qed
qed

text \<open>
  The printers of unsigned numbers go wrong in the upper half of the range: from \<^verbatim>\<open>0x80000000\<close> on, the hexadecimal
  text of \<^verbatim>\<open>kprinthex\<close> contains characters that are no digits, and \<^verbatim>\<open>kprint_uint\<close> prints the negative number
  \<^term>\<open>sint v\<close>, or for \<^verbatim>\<open>0x80000000\<close> itself negates the smallest \<^verbatim>\<open>int\<close>.
\<close>

theorem unsigned_printers_upper_half:
  assumes "0x80000000 \<le> v"
  shows "(\<exists>t. itoa (sint v) Hexadecimal = Some t \<and> \<not> list_all (is_digit Hexadecimal) t
      \<and> kprinthex v s = do { s \<leftarrow> kprint (bytes ''0x'') s; kprint t s })
    \<and> kprint_uint v s = (if v = 0x80000000 then None else kprint (itoa_signed (sint v)) s) \<and> sint v < 0"
proof -
  have neg: "sint v < 0" and low: "- (2 ^ 31) \<le> sint v"
  proof -
    have "2 ^ 31 \<le> uint v" using assms by (simp add: word_le_def)
    moreover have "uint v = sint v" if "0 \<le> sint v" using that sint_lt [of v] by (simp add: uint_sint take_bit_int_eq_self)
    ultimately show "sint v < 0" using sint_lt [of v] by force
    show "- (2 ^ 31) \<le> sint v" using sint_ge [of v] by simp
  qed
  obtain n where n: "0 < n" "sint v = - int n" using neg by (metis neg_int_cases)
  define t where "t = reverse (signed_loop Hexadecimal (sint v))"
  have "itoa (sint v) Hexadecimal = Some t" using neg by (auto simp: itoa_def t_def)
  moreover have "\<not> list_all (is_digit Hexadecimal) t"
    using signed_loop_negative [OF n(1)] n(2) by (auto simp: t_def reverse_rev list_all_iff)
  moreover have m: "v = 0x80000000 \<longleftrightarrow> sint v = - (2 ^ 31)"
    using sint_eq_iff [of v "0x80000000"] by simp
  then have "kprint_uint v s = (if v = 0x80000000 then None else kprint (itoa_signed (sint v)) s)"
    using neg low itoa_decimal [of "sint v"] by (auto simp: kprint_uint_def itoa_def INT_MIN_def)
  ultimately show ?thesis using neg by (simp add: kprinthex_def)
qed

theorem unsigned_printers_upper_half_witness:
  "(0x80000000 :: u32) \<le> 0xFFFFFFFF \<and> itoa (sint (0xFFFFFFFF :: u32)) Hexadecimal = Some [47]
   \<and> (\<forall>s. kprint_uint 0xFFFFFFFF s = kprint (bytes ''-1'') s)"
proof -
  have "itoa (sint (0xFFFFFFFF :: u32)) Hexadecimal = Some [47]" "itoa_signed (sint (0xFFFFFFFF :: u32)) = bytes ''-1''" by code_simp+
  then show ?thesis using unsigned_printers_upper_half [of "0xFFFFFFFF"] by simp
qed

section \<open>Printing\<close>

text \<open>The text of a C string.\<close>

definition cstr :: "u8 list \<Rightarrow> u8 list" where
  "cstr s = takeWhile (\<lambda>c. c \<noteq> 0) s"

lemma kprint_cstr: "kprint (cstr t) s = kprint t s"
  by (induction t arbitrary: s) (auto simp: cstr_def intro!: Option.bind_cong)

lemma kprint_append: "0 \<notin> set t \<Longrightarrow> kprint (t @ u) s = kprint t s \<bind> kprint u"
  by (induction t arbitrary: s) (auto simp: Option.bind_assoc split_beta intro!: Option.bind_cong)

lemma cstr_no_nul: "0 \<notin> set (cstr t)"
  by (auto simp: cstr_def dest: set_takeWhileD)

text \<open>The text a conversion denotes.\<close>

definition conv_text :: "u8 \<Rightarrow> va_arg list \<Rightarrow> (u8 list \<times> va_arg list) option" where
  "conv_text f args =
     (if f = of_char CHR ''d'' \<or> f = of_char CHR ''i''
      then map_option (\<lambda>(v, args). (itoa_signed (sint (ucast v :: u32)), args)) (va_int args)
      else if f = of_char CHR ''u''
      then map_option (\<lambda>(v, args). (itoa_unsigned (ucast (ucast v :: u32)) Decimal, args)) (va_int args)
      else if f = of_char CHR ''x'' \<or> f = of_char CHR ''X''
      then map_option (\<lambda>(v, args). (bytes ''0x'' @ itoa_unsigned (ucast (ucast v :: u32)) Hexadecimal, args)) (va_int args)
      else if f = of_char CHR ''p''
      then map_option (\<lambda>(v, args). (bytes ''0x'' @ itoa_unsigned v Hexadecimal, args)) (va_int args)
      else if f = of_char CHR ''s''
      then map_option (\<lambda>(v, args). (case v of Some str \<Rightarrow> str | None \<Rightarrow> bytes ''(null)'', args)) (va_str args)
      else if f = of_char CHR ''c'' then map_option (\<lambda>(v, args). ([ucast v], args)) (va_int args)
      else if f = of_char CHR ''%'' then Some (bytes ''%'', args)
      else Some (bytes ''%'' @ [f], args))"

fun format_text :: "u8 list \<Rightarrow> va_arg list \<Rightarrow> u8 list option" where
  "format_text [] args = Some []"
| "format_text (c # format) args =
     (if c = 0 then Some []
      else if c \<noteq> of_char CHR ''%'' then map_option ((#) c) (format_text format args)
      else case format of
        [] \<Rightarrow> Some []
      | f # format \<Rightarrow>
          if f = 0 then Some []
          else do { (t, args) \<leftarrow> conv_text f args; map_option ((@) (cstr t)) (format_text format args) })"

lemma kprint_end: "kprint [c, 0] s = kprint [c] s"
  by (simp split: prod.splits)

lemma kprint_prefix: "kprint (bytes ''0x'' @ t) s = kprint (bytes ''0x'') s \<bind> kprint t"
    "kprint (bytes ''%'' @ t) s = kprint (bytes ''%'') s \<bind> kprint t"
  by (rule kprint_append; simp add: bytes_def)+

lemma bind_map_option_Pair: "(x \<bind> (\<lambda>s. Some (a, s))) = map_option (Pair a) x"
  by (cases x) auto

lemma map_option_of_bind: "map_option f (x \<bind> g) = x \<bind> (\<lambda>s. map_option f (g s))"
  by (cases x) auto

lemma kprintf_conv_text:
  "kprintf_conv f args s = (case conv_text f args of None \<Rightarrow> None | Some (t, args') \<Rightarrow> map_option (Pair args') (kprint (cstr t) s))"
proof -
  consider a where "va_int args = Some a" "va_str args = None" | a where "va_int args = None" "va_str args = Some a"
    | "va_int args = None" "va_str args = None"
    by (cases args rule: va_int.cases) auto
  then show ?thesis
    by cases (simp_all add: kprintf_conv_def conv_text_def kprint_cstr kprint_prefix kprint_end bind_map_option_Pair map_option_of_bind
        split: prod.splits del: kprint.simps)
qed

lemma kprintf_char:
  "c \<noteq> 0 \<Longrightarrow> c \<noteq> of_char CHR ''%'' \<Longrightarrow> kprintf (c # fmt) args s = kprint [c] s \<bind> kprintf fmt args"
  "c \<noteq> 0 \<Longrightarrow> c \<noteq> of_char CHR ''%'' \<Longrightarrow> format_text (c # fmt) args = map_option ((#) c) (format_text fmt args)"
  unfolding kprintf.simps format_text.simps kprint_end by simp_all

lemma kprintf_percent:
  "f \<noteq> 0 \<Longrightarrow> kprintf (of_char CHR ''%'' # f # fmt) args s = kprintf_conv f args s \<bind> (\<lambda>(a, s). kprintf fmt a s)"
  "f \<noteq> 0 \<Longrightarrow> format_text (of_char CHR ''%'' # f # fmt) args
     = conv_text f args \<bind> (\<lambda>(t, a). map_option ((@) (cstr t)) (format_text fmt a))"
  by simp_all

lemma kprintf_cases:
  obtains "format_text format args = Some []" "kprintf format args s = Some s"
  | c fmt where "format = c # fmt" "c \<noteq> 0" "c \<noteq> of_char CHR ''%''"
  | f fmt where "format = of_char CHR ''%'' # f # fmt" "f \<noteq> 0"
proof (cases format)
  case (Cons c fmt)
  show thesis
  proof (cases "c = of_char CHR ''%''")
    case True
    show thesis
    proof (cases fmt)
      case Nil
      then show thesis using that(1) True Cons by simp
    next
      case (Cons f fmt')
      then show thesis using that(1,3) True \<open>format = c # fmt\<close> by (cases "f = 0") simp_all
    qed
  qed (use that(1,2) Cons in \<open>cases "c = 0"; simp\<close>)
qed (use that(1) in simp)

text \<open>
  C35: \<^verbatim>\<open>kprintf\<close> prints exactly the text that its format and arguments denote: the characters of the format, with
  each conversion replaced by the numeral, string or character of the next argument.
\<close>

theorem kprintf_format: "kprintf format args s = format_text format args \<bind> (\<lambda>t. kprint t s)"
proof (induction "length format" arbitrary: format args s rule: less_induct)
  case less
  consider (stop) "format_text format args = Some []" "kprintf format args s = Some s"
    | (char) c fmt where "format = c # fmt" "c \<noteq> 0" "c \<noteq> of_char CHR ''%''"
    | (conv) f fmt where "format = of_char CHR ''%'' # f # fmt" "f \<noteq> 0"
    by (rule kprintf_cases)
  then show ?case
  proof cases
    case (char c fmt)
    have ih: "kprintf fmt args = (\<lambda>s. format_text fmt args \<bind> (\<lambda>t. kprint t s))" using less char(1) by auto
    show ?thesis
    proof (cases "format_text fmt args")
      case None
      then show ?thesis unfolding char(1) kprintf_char [OF char(2,3)] ih by (cases "kprint [c] s") simp_all
    next
      case (Some t)
      then show ?thesis unfolding char(1) kprintf_char [OF char(2,3)] ih
        using kprint_append [of "[c]" t s] char(2) by (simp del: kprint.simps)
    qed
  next
    case (conv f fmt)
    have ih: "kprintf fmt a u = format_text fmt a \<bind> (\<lambda>t. kprint t u)" for a u using less conv(1) by simp
    show ?thesis
    proof (cases "conv_text f args")
      case None
      then show ?thesis unfolding conv(1) kprintf_percent [OF conv(2)] kprintf_conv_text by simp
    next
      case (Some ta)
      obtain t a where ta: "ta = (t, a)" by (cases ta)
      show ?thesis unfolding conv(1) kprintf_percent [OF conv(2)] kprintf_conv_text Some ta
        using kprint_append [OF cstr_no_nul, of t _ s]
        by (cases "format_text fmt a"; cases "kprint (cstr t) s") (simp_all add: ih del: kprint.simps)
    qed
  qed simp
qed

section \<open>Newlines at the bottom of the screen\<close>

lemma kprint_newlines:
  "kprint (replicate n 10) s = Some (if n = 0 then s else
     s\<lparr>con_cursor := (con_cursor s)\<lparr>cur_x := 0, cur_y := cur_y (con_cursor s) + int n * char_height (con_cursor s)\<rparr>\<rparr>)"
proof (induction n arbitrary: s)
  case (Suc n)
  have "(10 :: u8) \<noteq> 0" by simp
  with Suc show ?case by (simp add: distrib_right)
qed simp

text \<open>
  A newline never scrolls.  Once newlines have moved the cursor below the screen, the next character leaves no
  mark on the screen, moves the whole picture up by one text row, and moves the cursor up by one row only, so that the
  text is lost until as many characters have been printed as there were newlines too many.
\<close>

theorem kprint_below_screen:
  assumes fb: "con_fb s = fb" "fb_ok fb" "16 \<le> uint (width fb)" and cur: "con_cursor s = cur" "cursor_ok fb cur"
    and n: "uint (height fb) \<le> cur_y cur + 8 * int n" "0 < n" "n < 2 ^ 31" and c: "c < 128" "c \<noteq> 0" "c \<noteq> 10"
  shows "\<exists>m'. kprint (replicate n 10 @ [c]) s =
       Some (s\<lparr>con_cursor := cur\<lparr>cur_x := 8, cur_y := cur_y cur + 8 * int n - 8\<rparr>, video := m'\<rparr>)
     \<and> (\<forall>qx qy. visible fb qx qy \<longrightarrow>
          pixel fb m' qx qy = (if qy + 8 < uint (height fb) then pixel fb (video s) qx (qy + 8) else COLOR_BLACK))"
proof -
  let ?cur = "cur\<lparr>cur_x := 0, cur_y := cur_y cur + 8 * int n\<rparr>"
  have "uint (height fb) < 2 ^ 31" using fb(2) unfolding fb_ok_def by (metis of_nat_less_iff of_nat_numeral of_nat_power uint_nat)
  then have small: "cur_x ?cur < 2 ^ 62" "cur_y ?cur < 2 ^ 62" using cur(2) n(3) by (auto simp: cursor_ok_def)
  obtain m1 where m1: "draw_char_lim fb (cur_x ?cur) (cur_y ?cur) c (con_color s) (video s) = Some m1"
      and p1: "\<And>qx qy. visible fb qx qy \<Longrightarrow> pixel fb m1 qx qy = (if glyph_at c (qx - cur_x ?cur) (qy - cur_y ?cur) then con_color s else pixel fb (video s) qx qy)"
    using draw_char_spec [OF fb(2) c(1) small] by metis
  have same: "pixel fb m1 qx qy = pixel fb (video s) qx qy" if "visible fb qx qy" for qx qy
    using p1 [OF that] that n(1) by (simp add: glyph_at_def visible_def)
  have "8 \<le> uint (height fb)" using cur(2) by (auto simp: cursor_ok_def)
  then have h: "8 \<le> unat (height fb)" unfolding unat_eq_nat_uint by linarith
  have "put_char_with_cursor_lim fb ?cur c (con_color s) (video s)
      = Some (cur\<lparr>cur_x := 8, cur_y := cur_y cur + 8 * int n - 8\<rparr>, scroll_lim fb 8 m1)"
    using m1 cur(2) n(1) fb(3) by (simp add: put_char_with_cursor_lim_def cursor_ok_def Let_def)
  moreover have "kprint (replicate n 10 @ [c]) s = kprint (replicate n 10) s \<bind> kprint [c]"
    by (rule kprint_append) simp
  moreover have "char_height cur = 8" using cur(2) by (simp add: cursor_ok_def)
  ultimately have "kprint (replicate n 10 @ [c]) s =
      Some (s\<lparr>con_cursor := cur\<lparr>cur_x := 8, cur_y := cur_y cur + 8 * int n - 8\<rparr>, video := scroll_lim fb 8 m1\<rparr>)"
    using kprint_newlines [of n s] n(2) c(2,3) fb(1) cur(1) by (simp add: mult.commute)
  moreover have "pixel fb (scroll_lim fb 8 m1) qx qy = (if qy + 8 < uint (height fb) then pixel fb (video s) qx (qy + 8) else COLOR_BLACK)"
    if v: "visible fb qx qy" for qx qy
    using scroll_spec [OF fb(2) _ h v, of m1] same [of qx "qy + 8"] v by (simp add: visible_def)
  ultimately show ?thesis by blast
qed

theorem kprint_below_screen_witness:
  "\<exists>m'. kprint [10, 10, 65] \<lparr>con_fb = fb_small, con_cursor = init_cursor 16 16, con_color = 0xFFFFFFFF, video = (\<lambda>_. 0)\<rparr> =
       Some \<lparr>con_fb = fb_small, con_cursor = (init_cursor 16 16)\<lparr>cur_x := 8, cur_y := 8\<rparr>, con_color = 0xFFFFFFFF, video = m'\<rparr>
     \<and> pixel fb_small m' 0 8 = COLOR_BLACK"
proof -
  let ?s = "\<lparr>con_fb = fb_small, con_cursor = init_cursor 16 16, con_color = 0xFFFFFFFF, video = (\<lambda>_. 0)\<rparr>"
  have "fb_ok fb_small" "cursor_ok fb_small (init_cursor 16 16)" "16 \<le> uint (width fb_small)" "visible fb_small 0 8"
      "uint (height fb_small) \<le> cur_y (init_cursor 16 16) + 8 * int 2"
    by (simp_all add: fb_small_def fb_ok_def cursor_ok_def init_cursor_def visible_def)
  moreover have "replicate 2 10 @ [65] = [10, 10, 65 :: u8]" by (simp add: numeral_2_eq_2)
  ultimately show ?thesis
    using kprint_below_screen [of ?s fb_small "init_cursor 16 16" 2 65] by (fastforce simp: fb_small_def init_cursor_def)
qed

end
