(* ===== verification/Rng.thy ===== *)
theory Rng
  imports Prelude "HOL-Library.Monad_Syntax"
begin

text \<open>
  The pseudo-random numbers of \<^verbatim>\<open>kernel_lib/random.c\<close>.  The record \<^verbatim>\<open>rng\<close> holds the file's static variables; the
  time-stamp counter (the instruction \<^verbatim>\<open>rdtsc\<close>) is an argument wherever the code may read it, and \<^verbatim>\<open>tsc_reads\<close>
  counts the reads.  The rejection
  loop of \<^verbatim>\<open>random_bounded_u64\<close> is a partial function.

  Shown: numbers drawn from a range lie in the range, the random bytes are the little-endian bytes of the
  successive outputs, seeding never leaves the all-zero state, and the state update is \<^emph>\<open>not\<close> the
  permutation it is meant to be: it maps 32767 states to the all-zero state, from which the generator returns 0
  for ever and from which drawing from most ranges never ends.
\<close>

section \<open>The generator\<close>

record rng =
  splitmix64_state :: u64
  s0 :: u64
  s1 :: u64
  rng_initialized :: bool
  tsc_reads :: nat

text \<open>The time-stamp counter is a function \<^term>\<open>tsc\<close> from the number of the read to the value read.\<close>

definition rdtsc64 :: "(nat \<Rightarrow> u64) \<Rightarrow> rng \<Rightarrow> u64 \<times> rng" where
  "rdtsc64 tsc r = (tsc (tsc_reads r), r\<lparr>tsc_reads := tsc_reads r + 1\<rparr>)"

definition splitmix64_next :: "rng \<Rightarrow> u64 \<times> rng" where
  "splitmix64_next r =
     (let z = splitmix64_state r + 0x9E3779B97F4A7C15;
          r = r\<lparr>splitmix64_state := z\<rparr>;
          z = (z XOR drop_bit 30 z) * 0xBF58476D1CE4E5B9;
          z = (z XOR drop_bit 27 z) * 0x94D049BB133111EB
      in (z XOR drop_bit 31 z, r))"

definition rotl :: "u64 \<Rightarrow> nat \<Rightarrow> u64" where
  "rotl x k = push_bit k x OR drop_bit (64 - k) x"

definition random_init :: "(nat \<Rightarrow> u64) \<Rightarrow> u64 \<Rightarrow> rng \<Rightarrow> rng" where
  "random_init tsc seed r =
     (let (seed, r) =
            (if seed = 0 then let (seed, r) = rdtsc64 tsc r in (if seed = 0 then 0xDEADBEEFCAFEBABE else seed, r)
             else (seed, r));
          r = r\<lparr>splitmix64_state := seed\<rparr>;
          (a, r) = splitmix64_next r;
          r = r\<lparr>s0 := a\<rparr>;
          (b, r) = splitmix64_next r;
          r = r\<lparr>s1 := b\<rparr>;
          r = (if s0 r = 0 \<and> s1 r = 0 then r\<lparr>s0 := 0x0123456789ABCDEF, s1 := 0xFEDCBA9876543210\<rparr> else r)
      in r\<lparr>rng_initialized := True\<rparr>)"

definition random_u64 :: "(nat \<Rightarrow> u64) \<Rightarrow> rng \<Rightarrow> u64 \<times> rng" where
  "random_u64 tsc r =
     (let r = (if \<not> rng_initialized r then let (seed, r) = rdtsc64 tsc r in random_init tsc seed r else r);
          result = s0 r + s1 r;
          t = push_bit 17 (s1 r);
          r = r\<lparr>s1 := s1 r XOR s0 r\<rparr>;
          r = r\<lparr>s0 := (rotl (s0 r) 49 XOR s1 r) XOR t\<rparr>;
          r = r\<lparr>s1 := rotl (s1 r) 28\<rparr>
      in (result, r))"

definition random_u32 :: "(nat \<Rightarrow> u64) \<Rightarrow> rng \<Rightarrow> u32 \<times> rng" where
  "random_u32 tsc r = (let (v, r) = random_u64 tsc r in (ucast v, r))"

definition random_is_initialized :: "rng \<Rightarrow> bool" where
  "random_is_initialized r = rng_initialized r"

text \<open>\<^verbatim>\<open>do x = random_u64(); while (x < threshold);\<close>\<close>

partial_function (option) reject_loop :: "(nat \<Rightarrow> u64) \<Rightarrow> u64 \<Rightarrow> rng \<Rightarrow> (u64 \<times> rng) option" where
  "reject_loop tsc threshold r =
     (let (x, r) = random_u64 tsc r in if x < threshold then reject_loop tsc threshold r else Some (x, r))"

definition random_bounded_u64 :: "(nat \<Rightarrow> u64) \<Rightarrow> u64 \<Rightarrow> rng \<Rightarrow> (u64 \<times> rng) option" where
  "random_bounded_u64 tsc bound r =
     (if bound = 0 then Some (0, r)
      else if bound AND (bound - 1) = 0 then let (v, r) = random_u64 tsc r in Some (v AND (bound - 1), r)
      else do {
        (x, r) \<leftarrow> reject_loop tsc ((- bound) mod bound) r;
        Some (x mod bound, r)
      })"

definition random_range_u32 :: "(nat \<Rightarrow> u64) \<Rightarrow> u32 \<Rightarrow> u32 \<Rightarrow> rng \<Rightarrow> (u32 \<times> rng) option" where
  "random_range_u32 tsc lo hi r =
     (if hi \<le> lo then Some (lo, r)
      else do {
        (v, r) \<leftarrow> random_bounded_u64 tsc (ucast hi - ucast lo + 1) r;
        Some (ucast (ucast lo + v), r)
      })"

definition random_range_u64 :: "(nat \<Rightarrow> u64) \<Rightarrow> u64 \<Rightarrow> u64 \<Rightarrow> rng \<Rightarrow> (u64 \<times> rng) option" where
  "random_range_u64 tsc lo hi r =
     (if hi \<le> lo then Some (lo, r)
      else do {
        (v, r) \<leftarrow> random_bounded_u64 tsc (hi - lo + 1) r;
        Some (lo + v, r)
      })"

text \<open>The first \<^term>\<open>n\<close> bytes of a 64-bit number.\<close>

definition bytes64 :: "nat \<Rightarrow> u64 \<Rightarrow> u8 list" where
  "bytes64 n v = map (\<lambda>i. ucast (drop_bit (8 * i) v AND 0xFF)) [0..<n]"

function random_bytes :: "(nat \<Rightarrow> u64) \<Rightarrow> nat \<Rightarrow> rng \<Rightarrow> u8 list \<times> rng" where
  "random_bytes tsc len r =
     (if 8 \<le> len
      then let (v, r) = random_u64 tsc r; (bs, r) = random_bytes tsc (len - 8) r in (bytes64 8 v @ bs, r)
      else if 0 < len then let (v, r) = random_u64 tsc r in (bytes64 len v, r)
      else ([], r))"
  by pat_completeness auto
termination
  by (relation "measure (\<lambda>(tsc, len, r). len)") auto

declare random_bytes.simps [simp del]

section \<open>Bounds\<close>

lemma and_minus_one_less: "bound \<noteq> 0 \<Longrightarrow> v AND (bound - 1) < bound" for v bound :: u64
proof -
  assume "bound \<noteq> 0"
  then have "bound - 1 < bound" by (simp add: word_less_nat_alt unat_minus_one unat_gt_0)
  then show ?thesis using word_and_le1 [of v "bound - 1"] by (rule le_less_trans [rotated])
qed

lemma mod_less_word: "bound \<noteq> 0 \<Longrightarrow> x mod bound < bound" for x bound :: u64
  by (simp add: word_less_nat_alt unat_mod unat_gt_0)

lemma random_bounded_less:
  "bound \<noteq> 0 \<Longrightarrow> random_bounded_u64 tsc bound r = Some (v, r') \<Longrightarrow> v < bound"
  by (auto simp: random_bounded_u64_def and_minus_one_less mod_less_word split: if_splits prod.splits bind_splits)

lemma unat_plus_one_nonzero: "x + 1 \<noteq> 0 \<Longrightarrow> unat (x + 1) = unat x + 1" for x :: u64
  using unatSuc [of x] by (simp add: add.commute)

lemma add_in_range:
  fixes lo hi v :: u64
  assumes "lo \<le> hi" and "hi - lo + 1 \<noteq> 0 \<Longrightarrow> v < hi - lo + 1" and "hi - lo + 1 = 0 \<Longrightarrow> v = 0"
  shows "lo \<le> lo + v \<and> lo + v \<le> hi \<and> unat (lo + v) = unat lo + unat v"
proof -
  have d: "unat (hi - lo) = unat hi - unat lo" "unat lo \<le> unat hi" using assms(1) by (simp_all add: unat_sub word_le_nat_alt)
  have "unat v \<le> unat (hi - lo)"
  proof (cases "hi - lo + 1 = 0")
    case False
    then have "unat (hi - lo + 1) = unat (hi - lo) + 1" by (simp add: unat_plus_one_nonzero)
    moreover have "unat v < unat (hi - lo + 1)" using assms(2) [OF False] by (simp only: word_less_nat_alt)
    ultimately show ?thesis by simp
  qed (use assms(3) in simp)
  then have le: "unat lo + unat v \<le> unat hi" using d by simp
  then have "unat (lo + v) = unat lo + unat v" using unat_less_pow [of hi] by (intro unat_plus_small) simp
  then show ?thesis using le by (simp add: word_le_nat_alt)
qed

lemma random_bounded_in_range:
  assumes "lo \<le> hi" and "random_bounded_u64 tsc (hi - lo + 1) r = Some (v, r')"
  shows "lo \<le> lo + v \<and> lo + v \<le> hi"
proof -
  have "v < hi - lo + 1" if "hi - lo + 1 \<noteq> 0" using random_bounded_less [OF that assms(2)] .
  moreover have "v = 0" if "hi - lo + 1 = 0" using assms(2) unfolding that by (simp add: random_bounded_u64_def)
  ultimately show ?thesis using add_in_range [OF assms(1), of v] by blast
qed

lemma random_range_u64_bounds:
  assumes "random_range_u64 tsc a b r = Some (x, r1)" and "a \<le> b"
  shows "a \<le> x \<and> x \<le> b"
proof (cases "b \<le> a")
  case False
  then obtain v r' where "random_bounded_u64 tsc (b - a + 1) r = Some (v, r')" "x = a + v"
    using assms(1) by (auto simp: random_range_u64_def bind_eq_Some_conv)
  then show ?thesis using random_bounded_in_range [OF assms(2)] by blast
qed (use assms in \<open>auto simp: random_range_u64_def\<close>)

lemma random_range_u32_bounds:
  assumes "random_range_u32 tsc c d r = Some (y, r2)" and "c \<le> d"
  shows "c \<le> y \<and> y \<le> d"
proof (cases "d \<le> c")
  case False
  have up: "(ucast c :: u64) \<le> ucast d" using assms(2) by (simp add: word_le_nat_alt unat_ucast_32_64)
  from False obtain v r' where v: "random_bounded_u64 tsc (ucast d - ucast c + 1) r = Some (v, r')" "y = ucast (ucast c + v)"
    using assms(1) by (auto simp: random_range_u32_def bind_eq_Some_conv)
  define w where "w = ucast c + v"
  have r: "ucast c \<le> w" "w \<le> ucast d" using random_bounded_in_range [OF up v(1)] by (simp_all add: w_def)
  have "unat w < 2 ^ 32" using r(2) unat_less_pow [of d] by (simp add: word_le_nat_alt unat_ucast_32_64)
  then have "unat y = unat w" using v(2) unfolding w_def [symmetric] by (simp add: unsigned_ucast_eq take_bit_nat_eq_self)
  then show ?thesis using r by (simp add: word_le_nat_alt unat_ucast_32_64)
qed (use assms in \<open>auto simp: random_range_u32_def\<close>)

text \<open>A number drawn from a range lies in the range, for 32-bit and 64-bit ranges, whatever the state of the
  generator.\<close>

theorem random_range_bounds:
  "(random_range_u64 tsc a b r = Some (x, r1) \<and> a \<le> b \<longrightarrow> a \<le> x \<and> x \<le> b)
   \<and> (random_range_u32 tsc c d r = Some (y, r2) \<and> c \<le> d \<longrightarrow> c \<le> y \<and> y \<le> d)"
  using random_range_u64_bounds random_range_u32_bounds by blast

theorem random_range_bounds_witness:
  "\<exists>x r1 y r2.
     random_range_u64 (\<lambda>_. 0) 5 8 \<lparr>splitmix64_state = 0, s0 = 7, s1 = 3, rng_initialized = True, tsc_reads = 0\<rparr> = Some (x, r1)
     \<and> random_range_u32 (\<lambda>_. 0) 5 8 \<lparr>splitmix64_state = 0, s0 = 7, s1 = 3, rng_initialized = True, tsc_reads = 0\<rparr> = Some (y, r2)
     \<and> 5 \<le> x \<and> x \<le> 8 \<and> 5 \<le> y \<and> y \<le> 8"
proof -
  let ?r = "\<lparr>splitmix64_state = 0, s0 = 7, s1 = 3, rng_initialized = True, tsc_reads = 0\<rparr>"
  obtain x r1 where x: "random_range_u64 (\<lambda>_. 0) 5 8 ?r = Some (x, r1)"
    by (auto simp: random_range_u64_def random_bounded_u64_def random_u64_def rotl_def)
  obtain y r2 where y: "random_range_u32 (\<lambda>_. 0) 5 8 ?r = Some (y, r2)"
    by (auto simp: random_range_u32_def random_bounded_u64_def random_u64_def rotl_def)
  show ?thesis
    using x y random_range_bounds [of "\<lambda>_. 0" 5 8 ?r x r1 5 8 y r2] by auto
qed

section \<open>The all-zero state\<close>

lemma random_init_nonzero: "s0 (random_init tsc seed r) \<noteq> 0 \<or> s1 (random_init tsc seed r) \<noteq> 0"
  by (auto simp: random_init_def Let_def split: prod.splits)

lemma bit_small_word: "y < 2 ^ k \<Longrightarrow> bit y n \<Longrightarrow> n < k" for y :: u64
  by (metis bit_take_bit_iff less_mask_eq take_bit_eq_mask)

lemma double_word_shift:
  fixes y :: u64
  assumes "y < 2 ^ 15" and z: "z = push_bit 32 y OR y"
  shows "rotl z 49 = push_bit 17 z"
proof (rule bit_word_eqI)
  fix n
  assume "n < LENGTH(64)"
  moreover have "n < 32" if "bit y (n - 17)" using bit_small_word [OF assms(1) that] by simp
  moreover have "\<not> bit y (15 + n)" using bit_small_word [OF assms(1), of "15 + n"] by auto
  ultimately show "bit (rotl z 49) n \<longleftrightarrow> bit (push_bit 17 z) n"
    unfolding rotl_def z by (auto simp: bit_push_bit_iff bit_drop_bit_eq bit_or_iff)
qed

lemma random_u64_zero: "rng_initialized r \<Longrightarrow> s0 r = 0 \<Longrightarrow> s1 r = 0 \<Longrightarrow> random_u64 tsc r = (0, r)"
  by (simp add: random_u64_def rotl_def)

lemma random_bytes_zero:
  "rng_initialized r \<Longrightarrow> s0 r = 0 \<Longrightarrow> s1 r = 0 \<Longrightarrow> random_bytes tsc n r = (replicate n 0, r)"
proof (induction tsc n r rule: random_bytes.induct)
  case (1 tsc n r)
  have b: "bytes64 k 0 = replicate k 0" for k by (simp add: bytes64_def map_replicate_trivial)
  have "replicate n (0 :: u8) = replicate 8 0 @ replicate (n - 8) 0" if "8 \<le> n"
    using that by (simp add: replicate_add [symmetric])
  with 1 show ?case by (subst random_bytes.simps) (simp add: random_u64_zero b)
qed

lemma reject_loop_zero:
  assumes "rng_initialized r" "s0 r = 0" "s1 r = 0" "0 < threshold"
  shows "reject_loop tsc threshold r = None"
proof -
  have "k = threshold \<longrightarrow> g = r \<longrightarrow> False" if "reject_loop t k g = Some res" for t k g res
    using that
  proof (rule reject_loop.raw_induct [rotated])
    fix f :: "(nat \<Rightarrow> u64) \<Rightarrow> u64 \<Rightarrow> rng \<Rightarrow> (u64 \<times> rng) option" and t k g res
    assume ih: "\<And>t k g res. f t k g = Some res \<Longrightarrow> k = threshold \<longrightarrow> g = r \<longrightarrow> False"
      and run: "(let (x, g) = random_u64 t g in if x < k then f t k g else Some (x, g)) = Some res"
    show "k = threshold \<longrightarrow> g = r \<longrightarrow> False"
      using run ih [of t threshold r res] assms random_u64_zero [OF assms(1-3)] by auto
  qed
  then show ?thesis by (metis not_None_eq)
qed

text \<open>
  The state update is not a permutation: from each of the 32767 states whose two words both hold the same
  15-bit number in their upper and lower halves the next state is all-zero, every later output and every random byte
  is 0, and drawing a number below any bound that does not divide \<^term>\<open>2 ^ 64 :: nat\<close> never returns.
\<close>

theorem rng_collapse:
  assumes "rng_initialized r" and "s0 r = push_bit 32 y OR y" and "s1 r = s0 r" and "y < 2 ^ 15"
  shows "\<exists>r'. snd (random_u64 tsc r) = r' \<and> s0 r' = 0 \<and> s1 r' = 0 \<and> random_u64 t r' = (0, r')
    \<and> random_bytes t n r' = (replicate n 0, r')
    \<and> (bound AND (bound - 1) \<noteq> 0 \<and> (- bound) mod bound \<noteq> 0 \<longrightarrow> random_bounded_u64 t bound r' = None)"
proof -
  define r' where "r' = snd (random_u64 tsc r)"
  have z: "rng_initialized r'" "s0 r' = 0" "s1 r' = 0"
    using assms(1,3) double_word_shift [OF assms(4,2)] by (simp_all add: r'_def random_u64_def rotl_def Let_def)
  have "random_bounded_u64 t bound r' = None" if "bound AND (bound - 1) \<noteq> 0" "(- bound) mod bound \<noteq> 0"
  proof -
    have "bound \<noteq> 0" using that(1) by auto
    moreover have "0 < (- bound) mod bound" using that(2) by (simp add: word_neq_0_conv)
    ultimately show ?thesis using that(1) reject_loop_zero [OF z, of "(- bound) mod bound" t]
      by (simp add: random_bounded_u64_def)
  qed
  then show ?thesis using z random_u64_zero [OF z] random_bytes_zero [OF z]
    unfolding r'_def [symmetric] by simp
qed

theorem rng_collapse_witness:
  "\<exists>r'. snd (random_u64 (\<lambda>_. 0) \<lparr>splitmix64_state = 0, s0 = 0x100000001, s1 = 0x100000001, rng_initialized = True, tsc_reads = 0\<rparr>) = r'
    \<and> random_bytes (\<lambda>_. 0) 4 r' = ([0, 0, 0, 0], r') \<and> random_bounded_u64 (\<lambda>_. 0) 6 r' = None"
proof -
  have "(6 :: u64) AND (6 - 1) \<noteq> 0" "(- 6 :: u64) mod 6 \<noteq> 0" "(0x100000001 :: u64) = push_bit 32 1 OR 1" "(1 :: u64) < 2 ^ 15"
    by code_simp+
  moreover have "replicate 4 (0 :: u8) = [0, 0, 0, 0]" by code_simp
  ultimately show ?thesis
    using rng_collapse [of "\<lparr>splitmix64_state = 0, s0 = 0x100000001, s1 = 0x100000001, rng_initialized = True, tsc_reads = 0\<rparr>" 1 "\<lambda>_. 0" "\<lambda>_. 0" 4 6]
    by (metis rng.select_convs)
qed

end
