(* ===== verification/Interrupts.thy ===== *)
theory Interrupts
  imports Prelude "HOL-Library.Monad_Syntax"
begin

text \<open>
  Segments, gates, interrupt requests and the timer: \<^verbatim>\<open>interrupts/gdt.c\<close>, \<^verbatim>\<open>idt.c\<close>,
  \<^verbatim>\<open>irq.c\<close> with the stubs of \<^verbatim>\<open>irq.asm\<close>, \<^verbatim>\<open>isr.c\<close>, \<^verbatim>\<open>pic.c\<close> and \<^verbatim>\<open>timer.c\<close>.  The global
  descriptor table is the run of 8-byte slots of memory that starts at \<^verbatim>\<open>gdt\<close>: the table proper is
  its first six slots, and an access past the end of the run is \<^const>\<open>None\<close>.  Writes to I/O ports
  are recorded, the latest last.  A function pointer is an address, 0 for \<^verbatim>\<open>NULL\<close>, and the
  jump to it is a parameter.
\<close>

section \<open>The global descriptor table\<close>

record gdt_entry =
  limit_low :: u16
  base_low :: u16
  base_middle :: u8
  access :: u8
  granularity :: u8
  base_high :: u8

record gdt_ptr =
  gp_limit :: u16
  gp_base :: u64

record tss_entry =
  reserved0 :: u32
  rsp0 :: u64
  rsp1 :: u64
  rsp2 :: u64
  reserved1 :: u64
  ist_stacks :: "u64 list"
  reserved2 :: u64
  reserved3 :: u16
  iomap_base :: u16

definition GDT_NULL :: int where "GDT_NULL = 0"
definition GDT_CODE64 :: int where "GDT_CODE64 = 1"
definition GDT_DATA64 :: int where "GDT_DATA64 = 2"
definition GDT_TSS :: int where "GDT_TSS = 3"
definition GDT_ENTRIES :: nat where "GDT_ENTRIES = 6"

text \<open>\<^verbatim>\<open>sizeof (struct tss_entry)\<close>, packed.\<close>

definition sizeof_tss :: nat where "sizeof_tss = 104"

text \<open>A slot of the table is updated in place.\<close>

definition upd_slot :: "int \<Rightarrow> (gdt_entry \<Rightarrow> gdt_entry) \<Rightarrow> gdt_entry list \<Rightarrow> gdt_entry list option" where
  "upd_slot num f gdt =
     (if 0 \<le> num \<and> num < int (length gdt) then Some (gdt[nat num := f (gdt ! nat num)]) else None)"

definition gdt_set_gate :: "int \<Rightarrow> u32 \<Rightarrow> u32 \<Rightarrow> u8 \<Rightarrow> u8 \<Rightarrow> gdt_entry list \<Rightarrow> gdt_entry list option" where
  "gdt_set_gate num base limit acc gran gdt =
     upd_slot num (\<lambda>e. e\<lparr>base_low := ucast (base AND 0xFFFF),
                         base_middle := ucast (drop_bit 16 base AND 0xFF),
                         base_high := ucast (drop_bit 24 base AND 0xFF),
                         limit_low := ucast (limit AND 0xFFFF),
                         granularity := ucast (drop_bit 16 limit AND 0x0F) OR (gran AND 0xF0),
                         access := acc\<rparr>) gdt"

text \<open>The 8 bytes of a slot written as one 64-bit number.\<close>

definition slot_of_u64 :: "u64 \<Rightarrow> gdt_entry" where
  "slot_of_u64 v = \<lparr>limit_low = ucast v, base_low = ucast (drop_bit 16 v), base_middle = ucast (drop_bit 32 v),
     access = ucast (drop_bit 40 v), granularity = ucast (drop_bit 48 v), base_high = ucast (drop_bit 56 v)\<rparr>"

definition new_tss :: "u64 \<Rightarrow> tss_entry" where
  "new_tss rsp = \<lparr>reserved0 = 0, rsp0 = rsp, rsp1 = 0, rsp2 = 0, reserved1 = 0, ist_stacks = replicate 7 0,
     reserved2 = 0, reserved3 = 0, iomap_base = of_nat sizeof_tss\<rparr>"

text \<open>
  \<^verbatim>\<open>gdt_init\<close> with the table and the TSS at the given addresses and the stack pointer \<^term>\<open>rsp\<close>:
  the pointer loaded with \<^verbatim>\<open>lgdt\<close>, the TSS and the slots.
\<close>

definition gdt_init :: "u64 \<Rightarrow> u64 \<Rightarrow> u64 \<Rightarrow> gdt_entry list \<Rightarrow> (gdt_ptr \<times> tss_entry \<times> gdt_entry list) option" where
  "gdt_init gdt_addr tss_base rsp gdt = do {
     let ptr = \<lparr>gp_limit = of_nat (8 * GDT_ENTRIES) - 1, gp_base = gdt_addr\<rparr>;
     gdt \<leftarrow> gdt_set_gate GDT_NULL 0 0 0 0 gdt;
     gdt \<leftarrow> gdt_set_gate GDT_CODE64 0 0xFFFFF 0x9A 0xA0 gdt;
     gdt \<leftarrow> gdt_set_gate GDT_DATA64 0 0xFFFFF 0x92 0xA0 gdt;
     let tss = new_tss rsp;
     let tss_limit = (of_nat sizeof_tss - 1 :: u32);
     gdt \<leftarrow> upd_slot GDT_TSS (\<lambda>e. e\<lparr>limit_low := ucast (tss_limit AND 0xFFFF),
                                  base_low := ucast (tss_base AND 0xFFFF),
                                  base_middle := ucast (drop_bit 16 tss_base AND 0xFF),
                                  access := 0xE9,
                                  granularity := ucast (drop_bit 16 tss_limit AND 0x0F),
                                  base_high := ucast (drop_bit 24 tss_base AND 0xFF)\<rparr>) gdt;
     gdt \<leftarrow> gdt_set_gate 6 0 0xFFFFF 0xF2 0xA0 gdt;
     gdt \<leftarrow> gdt_set_gate 5 0 0xFFFFF 0xFA 0xA0 gdt;
     gdt \<leftarrow> upd_slot (GDT_TSS + 1) (\<lambda>_. slot_of_u64 (drop_bit 32 tss_base)) gdt;
     Some (ptr, tss, gdt)
   }"

subsection \<open>Reading descriptors as the processor does\<close>

definition seg_base :: "gdt_entry \<Rightarrow> u32" where
  "seg_base e = ucast (base_low e) OR push_bit 16 (ucast (base_middle e)) OR push_bit 24 (ucast (base_high e))"

definition seg_limit :: "gdt_entry \<Rightarrow> u32" where
  "seg_limit e = ucast (limit_low e) OR push_bit 16 (ucast (granularity e AND 0x0F))"

text \<open>A system descriptor of 64-bit mode takes two slots, the upper half of its base in the second.\<close>

definition system_base :: "gdt_entry \<Rightarrow> gdt_entry \<Rightarrow> u64" where
  "system_base lo hi = ucast (seg_base lo) OR push_bit 32 (ucast (limit_low hi)) OR push_bit 48 (ucast (base_low hi))"

definition present :: "gdt_entry \<Rightarrow> bool" where
  "present e \<longleftrightarrow> bit (access e) 7"

text \<open>The descriptor a selector names: none when it lies past the limit of the table.\<close>

definition descriptor :: "gdt_ptr \<Rightarrow> gdt_entry list \<Rightarrow> u16 \<Rightarrow> gdt_entry option" where
  "descriptor ptr gdt sel =
     (let i = unat (drop_bit 3 sel) in if 8 * i + 7 \<le> unat (gp_limit ptr) \<and> i < length gdt then Some (gdt ! i) else None)"

text \<open>The round trip of a gate: the processor reads the base, the 20 bits of the limit, the access byte
  and the flags that were set, and every other slot is left alone.\<close>

lemma masks32: "(0x0F :: u32) = mask 4" "(0xFF :: u32) = mask 8" "(0xFFFF :: u32) = mask 16" "(0xFFFFF :: u32) = mask 20"
  by (simp_all add: mask_eq_exp_minus_1)

lemma masks8: "(0x0F :: u8) = mask 4" "(0xF0 :: u8) = NOT (mask 4)"
  by (simp_all add: mask_eq_exp_minus_1 not_eq_complement)

lemma seg_base_join:
  "(ucast (ucast (base AND 0xFFFF) :: u16) :: u32) OR push_bit 16 (ucast (ucast (drop_bit 16 base AND 0xFF) :: u8))
     OR push_bit 24 (ucast (ucast (drop_bit 24 base AND 0xFF) :: u8)) = base" for base :: u32
proof (rule bit_word_eqI)
  fix n
  assume "n < LENGTH(32)"
  then consider "n < 16" | "16 \<le> n" "n < 24" | "24 \<le> n" "n < 32" by force
  then show "bit ((ucast (ucast (base AND 0xFFFF) :: u16) :: u32)
     OR push_bit 16 (ucast (ucast (drop_bit 16 base AND 0xFF) :: u8))
     OR push_bit 24 (ucast (ucast (drop_bit 24 base AND 0xFF) :: u8))) n = bit base n"
    unfolding masks32 by cases (auto simp: bit_simps)
qed

lemma seg_limit_join:
  "(ucast (ucast (limit AND 0xFFFF) :: u16) :: u32)
     OR push_bit 16 (ucast ((ucast (drop_bit 16 limit AND 0x0F) OR (gran AND 0xF0) :: u8) AND 0x0F)) = limit AND 0xFFFFF"
  for limit :: u32
proof (rule bit_word_eqI)
  fix n
  assume "n < LENGTH(32)"
  then consider "n < 16" | "16 \<le> n" "n < 20" | "20 \<le> n" "n < 32" by force
  then show "bit ((ucast (ucast (limit AND 0xFFFF) :: u16) :: u32)
     OR push_bit 16 (ucast ((ucast (drop_bit 16 limit AND 0x0F) OR (gran AND 0xF0) :: u8) AND 0x0F))) n
     = bit (limit AND 0xFFFFF) n"
    unfolding masks32 masks8 by cases (auto simp: bit_simps)
qed

lemma gran_join: "(ucast (drop_bit 16 limit AND 0x0F) OR (gran AND 0xF0)) AND 0xF0 = gran AND 0xF0"
  for limit :: u32 and gran :: u8
  unfolding masks32 masks8 by (rule bit_word_eqI) (auto simp: bit_simps)

lemma gdt_set_gate_reads:
  assumes "gdt_set_gate num base limit acc gran gdt = Some gdt'"
  shows "0 \<le> num" "nat num < length gdt" "length gdt' = length gdt"
    and "seg_base (gdt' ! nat num) = base" "seg_limit (gdt' ! nat num) = limit AND 0xFFFFF"
    and "access (gdt' ! nat num) = acc" "granularity (gdt' ! nat num) AND 0xF0 = gran AND 0xF0"
    and "i \<noteq> nat num \<Longrightarrow> gdt' ! i = gdt ! i"
  using assms
  by (auto simp: gdt_set_gate_def upd_slot_def seg_base_def seg_limit_def seg_base_join seg_limit_join gran_join
      split: if_splits)

lemma system_base_join:
  "system_base \<lparr>limit_low = l, base_low = ucast (b AND 0xFFFF), base_middle = ucast (drop_bit 16 b AND 0xFF), access = a,
     granularity = g, base_high = ucast (drop_bit 24 b AND 0xFF)\<rparr> (slot_of_u64 (drop_bit 32 b)) = b" for b :: u64
proof (rule bit_word_eqI)
  fix n
  have m: "(0xFFFF :: u64) = mask 16" "(0xFF :: u64) = mask 8" by (simp_all add: mask_eq_exp_minus_1)
  assume "n < LENGTH(64)"
  then consider "n < 16" | "16 \<le> n" "n < 24" | "24 \<le> n" "n < 32" | "32 \<le> n" "n < 48" | "48 \<le> n" "n < 64" by force
  then show "bit (system_base \<lparr>limit_low = l, base_low = ucast (b AND 0xFFFF), base_middle = ucast (drop_bit 16 b AND 0xFF),
       access = a, granularity = g, base_high = ucast (drop_bit 24 b AND 0xFF)\<rparr> (slot_of_u64 (drop_bit 32 b))) n = bit b n"
    unfolding system_base_def seg_base_def slot_of_u64_def m by cases (auto simp: bit_simps)
qed

definition flat_gate :: "u8 \<Rightarrow> gdt_entry" where
  "flat_gate acc = \<lparr>limit_low = 0xFFFF, base_low = 0, base_middle = 0, access = acc, granularity = 0xAF, base_high = 0\<rparr>"

definition tss_gate :: "u64 \<Rightarrow> gdt_entry" where
  "tss_gate b = \<lparr>limit_low = 103, base_low = ucast (b AND 0xFFFF), base_middle = ucast (drop_bit 16 b AND 0xFF),
     access = 0xE9, granularity = 0, base_high = ucast (drop_bit 24 b AND 0xFF)\<rparr>"

lemma flat_gate_set: "gdt_set_gate num 0 0xFFFFF acc 0xA0 gdt = upd_slot num (\<lambda>_. flat_gate acc) gdt"
  unfolding gdt_set_gate_def by (rule arg_cong [where f = "\<lambda>f. upd_slot num f gdt"], rule ext) (simp add: flat_gate_def)

lemma null_gate_set:
  "gdt_set_gate num 0 0 0 0 gdt = upd_slot num (\<lambda>_. flat_gate 0\<lparr>limit_low := 0, granularity := 0\<rparr>) gdt"
  unfolding gdt_set_gate_def by (rule arg_cong [where f = "\<lambda>f. upd_slot num f gdt"], rule ext) (simp add: flat_gate_def)

lemma tss_gate_set:
  "e\<lparr>limit_low := ucast ((of_nat sizeof_tss - 1 :: u32) AND 0xFFFF), base_low := ucast (b AND 0xFFFF),
     base_middle := ucast (drop_bit 16 b AND 0xFF), access := 0xE9,
     granularity := ucast (drop_bit 16 (of_nat sizeof_tss - 1 :: u32) AND 0x0F),
     base_high := ucast (drop_bit 24 b AND 0xFF)\<rparr> = tss_gate b"
  by (simp add: tss_gate_def sizeof_tss_def)

lemma upd_slot_nth: "upd_slot (int i) f gdt = (if i < length gdt then Some (gdt[i := f (gdt ! i)]) else None)"
  by (simp add: upd_slot_def)

lemma upd_slot_numeral:
  "upd_slot 0 f (x # xs) = Some (f x # xs)"
  "1 < length gdt \<Longrightarrow> upd_slot 1 f gdt = Some (gdt[1 := f (gdt ! 1)])"
  "numeral k < length gdt \<Longrightarrow> upd_slot (numeral k) f gdt = Some (gdt[numeral k := f (gdt ! numeral k)])"
  using upd_slot_nth [of "numeral k"] upd_slot_nth [of 1] by (auto simp: upd_slot_def)

lemma upd_slot_length: "upd_slot num f gdt = Some gdt' \<Longrightarrow> length gdt' = length gdt"
  by (auto simp: upd_slot_def split: if_splits)

lemma upd_slot_past: "int (length gdt) \<le> num \<Longrightarrow> upd_slot num f gdt = None"
  by (simp add: upd_slot_def)

lemma gdt_init_eq:
  "gdt_init gdt_addr tss_base rsp gdt =
     (if GDT_ENTRIES < length gdt
      then Some (\<lparr>gp_limit = 47, gp_base = gdt_addr\<rparr>, new_tss rsp,
             [flat_gate 0\<lparr>limit_low := 0, granularity := 0\<rparr>, flat_gate 0x9A, flat_gate 0x92, tss_gate tss_base,
              slot_of_u64 (drop_bit 32 tss_base), flat_gate 0xFA, flat_gate 0xF2] @ drop 7 gdt)
      else None)"
proof (cases "GDT_ENTRIES < length gdt")
  case True
  then have "Suc (Suc (Suc (Suc (Suc (Suc (Suc 0)))))) \<le> length gdt" by (simp add: GDT_ENTRIES_def)
  then obtain a b c d e f g rest where "gdt = a # b # c # d # e # f # g # rest"
    unfolding Suc_le_length_iff by blast
  with True show ?thesis
    unfolding gdt_init_def flat_gate_set null_gate_set tss_gate_set Let_def
    by (simp add: upd_slot_numeral GDT_NULL_def GDT_CODE64_def GDT_DATA64_def GDT_TSS_def GDT_ENTRIES_def)
next
  case False
  have "gdt_init gdt_addr tss_base rsp gdt = None"
  proof (rule ccontr)
    assume "gdt_init gdt_addr tss_base rsp gdt \<noteq> None"
    then obtain g1 g2 g3 g4 g5 where u: "upd_slot GDT_NULL (\<lambda>_. flat_gate 0\<lparr>limit_low := 0, granularity := 0\<rparr>) gdt = Some g1"
      "upd_slot GDT_CODE64 (\<lambda>_. flat_gate 0x9A) g1 = Some g2" "upd_slot GDT_DATA64 (\<lambda>_. flat_gate 0x92) g2 = Some g3"
      "upd_slot GDT_TSS (\<lambda>_. tss_gate tss_base) g3 = Some g4" "upd_slot 6 (\<lambda>_. flat_gate 0xF2) g4 = Some g5"
      unfolding gdt_init_def flat_gate_set null_gate_set tss_gate_set Let_def by (auto simp: bind_eq_None_conv bind_eq_Some_conv)
    have "length g4 = length gdt" using u(1-4) [THEN upd_slot_length] by simp
    then have "upd_slot 6 (\<lambda>_. flat_gate 0xF2) g4 = None" using False by (intro upd_slot_past) (simp add: GDT_ENTRIES_def)
    with u(5) show False by simp
  qed
  with False show ?thesis by simp
qed

text \<open>What the selectors name; the last two are the halves of the TSS descriptor.\<close>

lemma gdt_init_loads:
  assumes "gdt_init gdt_addr tss_base rsp gdt = Some (ptr, tss, gdt')"
  shows "descriptor ptr gdt' 0x08 = Some (flat_gate 0x9A) \<and> descriptor ptr gdt' 0x10 = Some (flat_gate 0x92)
     \<and> descriptor ptr gdt' 0x2B = Some (flat_gate 0xFA)
     \<and> (\<exists>lo hi. descriptor ptr gdt' 0x18 = Some lo \<and> descriptor ptr gdt' 0x20 = Some hi
            \<and> system_base lo hi = tss_base \<and> seg_limit lo = of_nat sizeof_tss - 1
            \<and> descriptor ptr gdt' 0x23 = Some hi \<and> \<not> present hi)"
proof -
  have l: "GDT_ENTRIES < length gdt" and ptr: "ptr = \<lparr>gp_limit = 47, gp_base = gdt_addr\<rparr>"
    and g: "gdt' = [flat_gate 0\<lparr>limit_low := 0, granularity := 0\<rparr>, flat_gate 0x9A, flat_gate 0x92, tss_gate tss_base,
              slot_of_u64 (drop_bit 32 tss_base), flat_gate 0xFA, flat_gate 0xF2] @ drop 7 gdt"
    using assms by (simp_all add: gdt_init_eq split: if_splits)
  have "system_base (tss_gate tss_base) (slot_of_u64 (drop_bit 32 tss_base)) = tss_base"
    unfolding tss_gate_def by (rule system_base_join)
  moreover have "seg_limit (tss_gate tss_base) = of_nat sizeof_tss - 1"
    by (simp add: tss_gate_def seg_limit_def sizeof_tss_def)
  moreover have "\<not> present (slot_of_u64 (drop_bit 32 tss_base))"
    by (auto simp: present_def slot_of_u64_def bit_simps dest: bit_imp_le_length)
  ultimately show ?thesis using l by (simp add: descriptor_def ptr g GDT_ENTRIES_def)
qed

text \<open>
  C28: After \<^verbatim>\<open>gdt_init\<close> the selectors 0x08 and 0x10 name flat code and data segments and 0x2B flat user
  code, and the task register's two slots hold the address and limit of the TSS.  But the descriptor of
  user data is written to slot 6, past the six-slot table: it overwrites whatever follows the
  table, no selector reaches it (0x33 exceeds the limit), and 0x23, with which
  \<^verbatim>\<open>elf64_enter_ring3\<close> loads every data segment, names the second half of the TSS descriptor,
  which is not present.
\<close>

theorem gdt_init_descriptors:
  assumes "gdt_init gdt_addr tss_base rsp gdt = Some (ptr, tss, gdt')"
  shows "descriptor ptr gdt' 0x08 = Some (flat_gate 0x9A) \<and> descriptor ptr gdt' 0x10 = Some (flat_gate 0x92)
     \<and> descriptor ptr gdt' 0x2B = Some (flat_gate 0xFA)
     \<and> (\<exists>lo hi. descriptor ptr gdt' 0x18 = Some lo \<and> descriptor ptr gdt' 0x20 = Some hi
            \<and> system_base lo hi = tss_base \<and> seg_limit lo = of_nat sizeof_tss - 1
            \<and> descriptor ptr gdt' 0x23 = Some hi \<and> \<not> present hi)
     \<and> GDT_ENTRIES < length gdt \<and> gdt' ! GDT_ENTRIES = flat_gate 0xF2 \<and> descriptor ptr gdt' 0x33 = None
     \<and> drop 7 gdt' = drop 7 gdt"
proof -
  have l: "GDT_ENTRIES < length gdt" and ptr: "ptr = \<lparr>gp_limit = 47, gp_base = gdt_addr\<rparr>"
    and g: "gdt' = [flat_gate 0\<lparr>limit_low := 0, granularity := 0\<rparr>, flat_gate 0x9A, flat_gate 0x92, tss_gate tss_base,
              slot_of_u64 (drop_bit 32 tss_base), flat_gate 0xFA, flat_gate 0xF2] @ drop 7 gdt"
    using assms by (simp_all add: gdt_init_eq split: if_splits)
  have "gdt' ! GDT_ENTRIES = flat_gate 0xF2" "drop 7 gdt' = drop 7 gdt" "descriptor ptr gdt' 0x33 = None"
    using l by (simp_all add: g ptr descriptor_def GDT_ENTRIES_def)
  with gdt_init_loads [OF assms] l show ?thesis by blast
qed

theorem gdt_init_descriptors_witness:
  "\<exists>ptr tss gdt'. gdt_init 0x1000 0xFFFF800012345678 0x8000 (replicate 8 (slot_of_u64 0)) = Some (ptr, tss, gdt')
     \<and> descriptor ptr gdt' 0x33 = None \<and> gdt' ! GDT_ENTRIES = flat_gate 0xF2"
proof -
  obtain ptr tss gdt' where r: "gdt_init 0x1000 0xFFFF800012345678 0x8000 (replicate 8 (slot_of_u64 0)) = Some (ptr, tss, gdt')"
    by (simp add: gdt_init_eq GDT_ENTRIES_def)
  with gdt_init_descriptors [OF r] show ?thesis by blast
qed

section \<open>The interrupt descriptor table\<close>

record idt_entry =
  offset_low :: u16
  selector :: u16
  ist :: u8
  type_attr :: u8
  offset_mid :: u16
  offset_high :: u32
  idt_zero :: u32

record idt_ptr =
  ip_limit :: u16
  ip_base :: u64

definition IDT_ENTRIES :: nat where "IDT_ENTRIES = 256"
definition IDT_PRESENT :: u8 where "IDT_PRESENT = 0x80"
definition IDT_INT_GATE :: u8 where "IDT_INT_GATE = 0x8E"

text \<open>The index is a byte and the table has 256 entries, so no index is out of range.\<close>

definition idt_set_entry :: "u8 \<Rightarrow> u64 \<Rightarrow> idt_entry list \<Rightarrow> idt_entry list" where
  "idt_set_entry index handler idt =
     idt[unat index := \<lparr>offset_low = ucast (handler AND 0xFFFF), selector = 0x08, ist = 0,
           type_attr = IDT_PRESENT OR IDT_INT_GATE, offset_mid = ucast (drop_bit 16 handler AND 0xFFFF),
           offset_high = ucast (drop_bit 32 handler), idt_zero = 0\<rparr>]"

text \<open>\<^verbatim>\<open>idt_init\<close> with the address of \<^verbatim>\<open>isr_handler\<close> and the table of the interrupt request stubs.\<close>

definition idt_init :: "u64 \<Rightarrow> u64 \<Rightarrow> u64 list \<Rightarrow> idt_entry list \<Rightarrow> idt_ptr \<times> idt_entry list" where
  "idt_init idt_addr isr_handler irq_stub_table idt =
     (let idt = fold (\<lambda>i idt. idt[i := \<lparr>offset_low = 0, selector = 0, ist = 0, type_attr = 0, offset_mid = 0,
                                      offset_high = 0, idt_zero = 0\<rparr>]) [0..<IDT_ENTRIES] idt;
          idt = fold (\<lambda>i. idt_set_entry (of_nat i) isr_handler) [0..<256] idt;
          idt = fold (\<lambda>i. idt_set_entry (of_nat (32 + i)) (irq_stub_table ! i)) [0..<16] idt
      in (\<lparr>ip_limit = of_nat (16 * IDT_ENTRIES - 1), ip_base = idt_addr\<rparr>, idt))"

text \<open>The address a gate makes the processor jump to.\<close>

definition gate_target :: "idt_entry \<Rightarrow> u64" where
  "gate_target e = ucast (offset_low e) OR push_bit 16 (ucast (offset_mid e)) OR push_bit 32 (ucast (offset_high e))"

lemma gate_target_set:
  "unat i < length idt \<Longrightarrow> gate_target (idt_set_entry i h idt ! unat i) = h"
proof -
  have m: "(0xFFFF :: u64) = mask 16" by (simp add: mask_eq_exp_minus_1)
  have "bit ((ucast (ucast (h AND 0xFFFF) :: u16) :: u64) OR push_bit 16 (ucast (ucast (drop_bit 16 h AND 0xFFFF) :: u16))
      OR push_bit 32 (ucast (ucast (drop_bit 32 h) :: u32))) n = bit h n" if "n < 64" for n
  proof -
    from that consider "n < 16" | "16 \<le> n" "n < 32" | "32 \<le> n" "n < 64" by force
    then show ?thesis unfolding m by cases (auto simp: bit_simps)
  qed
  then have "(ucast (ucast (h AND 0xFFFF) :: u16) :: u64) OR push_bit 16 (ucast (ucast (drop_bit 16 h AND 0xFFFF) :: u16))
      OR push_bit 32 (ucast (ucast (drop_bit 32 h) :: u32)) = h" by (intro bit_word_eqI) simp
  moreover assume "unat i < length idt"
  ultimately show ?thesis by (simp add: gate_target_def idt_set_entry_def)
qed

lemma idt_set_entry_length [len_simps, simp]: "length (idt_set_entry i h idt) = length idt"
  by (simp add: idt_set_entry_def)

lemma idt_set_entry_other: "j \<noteq> unat i \<Longrightarrow> idt_set_entry i h idt ! j = idt ! j"
  by (simp add: idt_set_entry_def)

lemma idt_set_entry_gate:
  "unat i < length idt \<Longrightarrow> selector (idt_set_entry i h idt ! unat i) = 0x08
     \<and> type_attr (idt_set_entry i h idt ! unat i) = 0x8E"
  by (simp add: idt_set_entry_def IDT_PRESENT_def IDT_INT_GATE_def)

text \<open>Entry \<^term>\<open>j\<close> is an interrupt gate of the kernel's code segment that leads to \<^term>\<open>h\<close>.\<close>

definition leads_to :: "idt_entry \<Rightarrow> u64 \<Rightarrow> bool" where
  "leads_to e h \<longleftrightarrow> gate_target e = h \<and> selector e = 0x08 \<and> type_attr e = 0x8E"

lemma fold_gates:
  assumes "length idt = 256" and "a + n \<le> 256" and "j < 256"
  shows "length (fold (\<lambda>i. idt_set_entry (of_nat (a + i)) (f i)) [0..<n] idt) = 256
     \<and> (if a \<le> j \<and> j < a + n then leads_to (fold (\<lambda>i. idt_set_entry (of_nat (a + i)) (f i)) [0..<n] idt ! j) (f (j - a))
        else fold (\<lambda>i. idt_set_entry (of_nat (a + i)) (f i)) [0..<n] idt ! j = idt ! j)"
  using assms(2)
proof (induction n)
  case (Suc n)
  let ?xs = "fold (\<lambda>i. idt_set_entry (of_nat (a + i)) (f i)) [0..<n] idt"
  let ?ys = "idt_set_entry (of_nat (a + n)) (f n) ?xs"
  have u: "unat (of_nat (a + n) :: u8) = a + n" by (rule unat_of_nat_small) (use Suc.prems in simp)
  have l: "length ?xs = 256" using Suc by simp
  have "leads_to (?ys ! (a + n)) (f n)"
    using Suc.prems gate_target_set [of "of_nat (a + n)" ?xs "f n"] idt_set_entry_gate [of "of_nat (a + n)" ?xs "f n"]
    unfolding u leads_to_def l by simp
  moreover have "?ys ! j = ?xs ! j" if "j \<noteq> a + n" using that idt_set_entry_other [of j "of_nat (a + n)"] unfolding u by blast
  ultimately show ?case
    using Suc l by (cases "j = a + n") (auto simp: fold_append)
qed (use assms(1) in auto)

lemma idt_init_gates:
  assumes "length idt = IDT_ENTRIES" and "length stubs = 16" and "v < IDT_ENTRIES"
  shows "length (snd (idt_init idt_addr isr stubs idt)) = IDT_ENTRIES"
    and "32 \<le> v \<Longrightarrow> v < 48 \<Longrightarrow> leads_to (snd (idt_init idt_addr isr stubs idt) ! v) (stubs ! (v - 32))"
    and "v < 32 \<or> 48 \<le> v \<Longrightarrow> leads_to (snd (idt_init idt_addr isr stubs idt) ! v) isr"
proof -
  let ?c = "\<lparr>offset_low = 0, selector = 0, ist = 0, type_attr = 0, offset_mid = 0, offset_high = 0, idt_zero = 0\<rparr> :: idt_entry"
  let ?x = "fold (\<lambda>i idt. idt[i := ?c]) [0..<IDT_ENTRIES] idt"
  let ?y = "fold (\<lambda>i. idt_set_entry (of_nat (0 + i)) isr) [0..<256] ?x"
  have "length (fold (\<lambda>i idt. idt[i := ?c]) is idt) = length idt" for "is" by (induction "is" arbitrary: idt) auto
  then have x: "length ?x = 256" using assms(1) by (simp add: IDT_ENTRIES_def)
  have y: "length ?y = 256" "leads_to (?y ! v) isr"
    using fold_gates [OF x, of 0 256 v "\<lambda>_. isr"] assms(3) by (simp_all add: IDT_ENTRIES_def)
  note z = y(2) fold_gates [OF y(1), of 32 16 v "\<lambda>i. stubs ! i"] assms(3)
  show "length (snd (idt_init idt_addr isr stubs idt)) = IDT_ENTRIES"
    "32 \<le> v \<Longrightarrow> v < 48 \<Longrightarrow> leads_to (snd (idt_init idt_addr isr stubs idt) ! v) (stubs ! (v - 32))"
    "v < 32 \<or> 48 \<le> v \<Longrightarrow> leads_to (snd (idt_init idt_addr isr stubs idt) ! v) isr"
    using z by (auto simp: idt_init_def IDT_ENTRIES_def split: if_splits)
qed

text \<open>
  After \<^verbatim>\<open>idt_init\<close> every one of the 256 vectors has a present interrupt gate of the kernel's
  code segment: vectors 32 to 47 lead to the sixteen request stubs, in order, all others to
  \<^verbatim>\<open>isr_handler\<close>, whatever the table held before.
\<close>

theorem idt_init_dispatch:
  assumes "length idt = IDT_ENTRIES" and "length stubs = 16" and "v < IDT_ENTRIES"
  shows "leads_to (snd (idt_init idt_addr isr stubs idt) ! v) (if 32 \<le> v \<and> v < 48 then stubs ! (v - 32) else isr)
     \<and> length (snd (idt_init idt_addr isr stubs idt)) = IDT_ENTRIES"
  using idt_init_gates [OF assms, of idt_addr isr] by auto

theorem idt_init_dispatch_witness:
  "leads_to (snd (idt_init 0 7 (map of_nat [100..<116]) (replicate IDT_ENTRIES undefined)) ! 33) 101
   \<and> leads_to (snd (idt_init 0 7 (map of_nat [100..<116]) (replicate IDT_ENTRIES undefined)) ! 14) 7"
  using idt_init_dispatch [of "replicate IDT_ENTRIES undefined" "map of_nat [100..<116]" 33 0 7]
    idt_init_dispatch [of "replicate IDT_ENTRIES undefined" "map of_nat [100..<116]" 14 0 7]
  by (simp add: IDT_ENTRIES_def)

section \<open>Interrupt requests and the interrupt controllers\<close>

definition MASTER_PIC_CMD :: u16 where "MASTER_PIC_CMD = 0x20"
definition MASTER_PIC_DATA :: u16 where "MASTER_PIC_DATA = 0x21"
definition SLAVE_PIC_CMD :: u16 where "SLAVE_PIC_CMD = 0xA0"
definition SLAVE_PIC_DATA :: u16 where "SLAVE_PIC_DATA = 0xA1"

text \<open>The state: the sixteen handlers, the tick counter and the writes to I/O ports.\<close>

record irq_state =
  irq_handlers :: "u64 list"
  tick_count :: u64
  port_writes :: "(u16 \<times> u8) list"

definition out_byte :: "u16 \<Rightarrow> u8 \<Rightarrow> irq_state \<Rightarrow> irq_state" where
  "out_byte port val s = s\<lparr>port_writes := port_writes s @ [(port, val)]\<rparr>"

definition pic_send_command :: "u8 \<Rightarrow> u16 \<Rightarrow> irq_state \<Rightarrow> irq_state" where
  "pic_send_command cmd port = out_byte port cmd"

definition pic_send_data :: "u8 \<Rightarrow> u16 \<Rightarrow> irq_state \<Rightarrow> irq_state" where
  "pic_send_data data port = out_byte port data"

definition pic_init :: "irq_state \<Rightarrow> irq_state" where
  "pic_init s =
     (let s = pic_send_command 0x11 MASTER_PIC_CMD s;
          s = pic_send_command 0x11 SLAVE_PIC_CMD s;
          s = pic_send_data 0x20 MASTER_PIC_DATA s;
          s = pic_send_data 0x28 SLAVE_PIC_DATA s;
          s = pic_send_data 0x04 MASTER_PIC_DATA s;
          s = pic_send_data 0x02 SLAVE_PIC_DATA s;
          s = pic_send_data 0x01 MASTER_PIC_DATA s;
          s = pic_send_data 0x01 SLAVE_PIC_DATA s;
          s = pic_send_data 0xFE MASTER_PIC_DATA s
      in pic_send_data 0xFF SLAVE_PIC_DATA s)"

text \<open>\<^verbatim>\<open>outb\<close> takes the port first; the calls of \<^verbatim>\<open>pic_send_eoi\<close> pass 0x20 as the port and
  the controller's port number, cut to a byte, as the value.\<close>

definition pic_send_eoi :: "u8 \<Rightarrow> irq_state \<Rightarrow> irq_state" where
  "pic_send_eoi irq s =
     (let s = (if 8 \<le> irq then out_byte 0x20 (ucast SLAVE_PIC_CMD) s else s)
      in out_byte 0x20 (ucast MASTER_PIC_CMD) s)"

text \<open>There is no test for a negative number: \<^const>\<open>None\<close> is a write in front of the array.\<close>

definition irq_register_handler :: "int \<Rightarrow> u64 \<Rightarrow> irq_state \<Rightarrow> irq_state option" where
  "irq_register_handler irq handler s =
     (if irq < 16
      then if 0 \<le> irq then Some (s\<lparr>irq_handlers := (irq_handlers s)[nat irq := handler]\<rparr>) else None
      else Some s)"

text \<open>\<^verbatim>\<open>irq_handler_c\<close> reads the number of the request from the word the stub passes a pointer to.\<close>

definition irq_handler_c :: "(u64 \<Rightarrow> irq_state \<Rightarrow> irq_state) \<Rightarrow> u64 list \<Rightarrow> irq_state \<Rightarrow> irq_state" where
  "irq_handler_c jump stk s =
     (let irq = sint (ucast (stk ! 0) :: u32);
          s = (if 0 \<le> irq \<and> irq < 16 \<and> irq_handlers s ! nat irq \<noteq> 0 then jump (irq_handlers s ! nat irq) s else s)
      in pic_send_eoi (of_int irq) s)"

text \<open>The registers at an interrupt, and what the stub pushes: the request's number first, then fifteen
  registers, so that the last one pushed is on top.\<close>

record regs =
  rax :: u64
  rbx :: u64
  rcx :: u64
  rdx :: u64
  rsi :: u64
  rdi :: u64
  rbp :: u64
  r8 :: u64
  r9 :: u64
  r10 :: u64
  r11 :: u64
  r12 :: u64
  r13 :: u64
  r14 :: u64
  r15 :: u64

definition stub_pushes :: "nat \<Rightarrow> regs \<Rightarrow> u64 list" where
  "stub_pushes i r = [of_nat i, rax r, rbx r, rcx r, rdx r, rsi r, rdi r, rbp r, r8 r, r9 r, r10 r, r11 r, r12 r, r13 r,
     r14 r, r15 r]"

definition stub_pops :: "u64 list \<Rightarrow> regs" where
  "stub_pops stk = \<lparr>rax = stk ! 14, rbx = stk ! 13, rcx = stk ! 12, rdx = stk ! 11, rsi = stk ! 10, rdi = stk ! 9,
     rbp = stk ! 8, r8 = stk ! 7, r9 = stk ! 6, r10 = stk ! 5, r11 = stk ! 4, r12 = stk ! 3, r13 = stk ! 2,
     r14 = stk ! 1, r15 = stk ! 0\<rparr>"

definition irq_stub :: "(u64 \<Rightarrow> irq_state \<Rightarrow> irq_state) \<Rightarrow> nat \<Rightarrow> regs \<Rightarrow> irq_state \<Rightarrow> regs \<times> irq_state" where
  "irq_stub jump i r s =
     (let stk = fold (#) (stub_pushes i r) []
      in (stub_pops stk, irq_handler_c jump stk s))"

section \<open>The timer\<close>

definition timer_handler :: "irq_state \<Rightarrow> irq_state" where
  "timer_handler s = pic_send_eoi 0 (s\<lparr>tick_count := tick_count s + 1\<rparr>)"

definition timer_pit_config :: "irq_state \<Rightarrow> irq_state" where
  "timer_pit_config s = out_byte 0x40 0x2F (out_byte 0x40 0x9C (out_byte 0x43 0x36 s))"

text \<open>\<^verbatim>\<open>init_timer\<close> with the address of \<^verbatim>\<open>timer_handler\<close>.\<close>

definition init_timer :: "u64 \<Rightarrow> irq_state \<Rightarrow> irq_state option" where
  "init_timer timer_addr s = irq_register_handler 0 timer_addr (timer_pit_config s)"

text \<open>\<^verbatim>\<open>sleep\<close> halts until the volatile counter has advanced far enough; \<^term>\<open>t 0\<close> is the value read
  into \<^verbatim>\<open>start_tick\<close>, \<^term>\<open>t (Suc h)\<close> the value the condition reads after \<^term>\<open>h\<close> executions of \<^verbatim>\<open>hlt\<close>.  The
  result is the number of executions of \<^verbatim>\<open>hlt\<close>.\<close>

partial_function (option) sleep_loop :: "(nat \<Rightarrow> u64) \<Rightarrow> u64 \<Rightarrow> u32 \<Rightarrow> nat \<Rightarrow> nat option" where
  "sleep_loop t start ticks h =
     (if t h - start < ucast ticks then sleep_loop t start ticks (h + 1) else Some h)"

definition sleep :: "(nat \<Rightarrow> u64) \<Rightarrow> u32 \<Rightarrow> nat option" where
  "sleep t ticks = sleep_loop (\<lambda>h. t (Suc h)) (t 0) ticks 0"

definition sleep_s :: "(nat \<Rightarrow> u64) \<Rightarrow> u32 \<Rightarrow> nat option" where
  "sleep_s t seconds = sleep t (seconds * 100)"

definition sleep_m :: "(nat \<Rightarrow> u64) \<Rightarrow> u32 \<Rightarrow> nat option" where
  "sleep_m t minutes = sleep t (minutes * (60 * 100))"

section \<open>What a sequence of interrupts does\<close>

lemma irq_stub_result:
  "irq_stub jump i r s = (r, irq_handler_c jump (rev (stub_pushes i r)) s)"
proof -
  have "fold (#) xs [] = rev xs" for xs :: "u64 list" by (simp add: rev_conv_fold)
  moreover have "stub_pops (rev (stub_pushes i r)) = r" by (simp add: stub_pops_def stub_pushes_def nth_Cons')
  ultimately show ?thesis unfolding irq_stub_def Let_def by metis
qed

text \<open>The interrupted code's \<^verbatim>\<open>r15\<close>, not the number the stub pushed, is taken for the request.\<close>

definition taken_for :: "regs \<Rightarrow> u32" where
  "taken_for r = ucast (r15 r)"

lemma irq_handler_reads_r15: "ucast (rev (stub_pushes i r) ! 0) = taken_for r"
  by (simp add: stub_pushes_def taken_for_def)

lemma writes_of_eoi:
  "pic_send_eoi irq s = s\<lparr>port_writes := port_writes s @ (if 8 \<le> irq then [(0x20, 0xA0)] else []) @ [(0x20, 0x20)]\<rparr>"
  by (simp add: pic_send_eoi_def out_byte_def SLAVE_PIC_CMD_def MASTER_PIC_CMD_def)

text \<open>The only handler is the timer's, as after \<^verbatim>\<open>init_timer\<close> on the zero-initialised array.\<close>

definition timer_only :: "(u64 \<Rightarrow> irq_state \<Rightarrow> irq_state) \<Rightarrow> irq_state \<Rightarrow> bool" where
  "timer_only jump s \<longleftrightarrow> length (irq_handlers s) = 16 \<and> irq_handlers s ! 0 \<noteq> 0 \<and> jump (irq_handlers s ! 0) = timer_handler
     \<and> (\<forall>i \<in> {1..<16}. irq_handlers s ! i = 0)"

lemma init_timer_only:
  assumes "irq_handlers s = replicate 16 0" and "th \<noteq> 0" and "jump th = timer_handler"
  shows "\<exists>s'. init_timer th s = Some s' \<and> timer_only jump s'"
  using assms by (auto simp: init_timer_def irq_register_handler_def timer_pit_config_def out_byte_def timer_only_def)

lemma irq_stub_timer:
  assumes "timer_only jump s"
  shows "\<exists>ws. snd (irq_stub jump i r s) = s\<lparr>tick_count := tick_count s + (if taken_for r = 0 then 1 else 0),
           port_writes := port_writes s @ ws\<rparr> \<and> fst ` set ws \<subseteq> {0x20}"
proof -
  let ?irq = "sint (taken_for r)"
  have z: "?irq = 0 \<longleftrightarrow> taken_for r = 0" by simp
  have "irq_handlers s ! nat ?irq = 0" if "0 < ?irq" "?irq < 16"
    using assms that by (auto simp: timer_only_def nat_less_iff)
  then have nz: "\<not> (0 \<le> ?irq \<and> ?irq < 16 \<and> irq_handlers s ! nat ?irq \<noteq> 0)" if "taken_for r \<noteq> 0"
    using that z by (metis order_le_less)
  have t: "irq_handlers s ! 0 \<noteq> 0" "jump (irq_handlers s ! 0) s = timer_handler s" using assms by (simp_all add: timer_only_def)
  show ?thesis
  proof (cases "taken_for r = 0")
    case True
    with t show ?thesis
      by (intro exI [of _ "[(0x20, 0x20), (0x20, 0x20)]"])
        (simp add: irq_stub_result irq_handler_c_def irq_handler_reads_r15 timer_handler_def writes_of_eoi)
  next
    case False
    from nz [OF False] show ?thesis
      unfolding irq_stub_result irq_handler_c_def irq_handler_reads_r15 snd_conv Let_def
      by (intro exI [of _ "(if 8 \<le> (of_int ?irq :: u8) then [(0x20, 0xA0)] else []) @ [(0x20, 0x20)]"])
        (simp only: if_False writes_of_eoi, auto simp: False)
  qed
qed

lemma timer_only_update [simp]: "timer_only jump (s\<lparr>tick_count := t, port_writes := w\<rparr>) \<longleftrightarrow> timer_only jump s"
  by (simp add: timer_only_def)

definition interrupts :: "(u64 \<Rightarrow> irq_state \<Rightarrow> irq_state) \<Rightarrow> (nat \<times> regs) list \<Rightarrow> irq_state \<Rightarrow> irq_state" where
  "interrupts jump ds s = fold (\<lambda>(i, r) s. snd (irq_stub jump i r s)) ds s"

lemma interrupts_timer:
  assumes "timer_only jump s"
  shows "\<exists>ws. interrupts jump ds s = s\<lparr>tick_count := tick_count s + of_nat (length (filter (\<lambda>(i, r). taken_for r = 0) ds)),
           port_writes := port_writes s @ ws\<rparr> \<and> fst ` set ws \<subseteq> {0x20}"
proof (induction ds rule: rev_induct)
  case Nil
  show ?case by (rule exI [of _ "[]"]) (simp add: interrupts_def)
next
  case (snoc d ds)
  then obtain ws where ws: "interrupts jump ds s = s\<lparr>tick_count := tick_count s + of_nat (length (filter (\<lambda>(i, r). taken_for r = 0) ds)),
           port_writes := port_writes s @ ws\<rparr>" "fst ` set ws \<subseteq> {0x20}" by blast
  obtain i r where d: "d = (i, r)" by (cases d)
  have st: "interrupts jump (ds @ [d]) s = snd (irq_stub jump i r (interrupts jump ds s))" by (simp add: interrupts_def d)
  have "timer_only jump (interrupts jump ds s)" using assms by (simp add: ws)
  from irq_stub_timer [OF this, of i r] obtain vs where
    vs: "snd (irq_stub jump i r (interrupts jump ds s)) = (interrupts jump ds s)\<lparr>tick_count := tick_count (interrupts jump ds s)
             + (if taken_for r = 0 then 1 else 0), port_writes := port_writes (interrupts jump ds s) @ vs\<rparr>" "fst ` set vs \<subseteq> {0x20}"
    by blast
  show ?case
    unfolding st vs(1) unfolding ws(1)
    by (rule exI [of _ "ws @ vs"]) (use ws(2) vs(2) in \<open>auto simp: d\<close>)
qed

text \<open>
  C11: Whatever sequence of requests arrives once the timer is the only handler, the counter advances
  once for each interrupted code whose \<^verbatim>\<open>r15\<close> happened to hold 0 in its low half, whichever
  request it was: the number the stub pushed is never read.  Every write that acknowledges a
  request goes to the master controller, also for requests of the slave, and the interrupted
  registers come back unchanged.
\<close>

theorem irq_dispatch_on_r15:
  assumes "timer_only jump s"
  shows "tick_count (interrupts jump ds s)
       = tick_count s + of_nat (length (filter (\<lambda>(i, r). (ucast (r15 r) :: u32) = 0) ds))
     \<and> take (length (port_writes s)) (port_writes (interrupts jump ds s)) = port_writes s
     \<and> SLAVE_PIC_CMD \<notin> fst ` set (drop (length (port_writes s)) (port_writes (interrupts jump ds s)))
     \<and> fst (irq_stub jump i r s) = r \<and> irq_stub jump i r s = irq_stub jump j r s"
proof -
  obtain ws where "interrupts jump ds s = s\<lparr>tick_count := tick_count s + of_nat (length (filter (\<lambda>(i, r). taken_for r = 0) ds)),
      port_writes := port_writes s @ ws\<rparr>" "fst ` set ws \<subseteq> {0x20}"
    using interrupts_timer [OF assms] by blast
  then have "tick_count (interrupts jump ds s)
       = tick_count s + of_nat (length (filter (\<lambda>(i, r). (ucast (r15 r) :: u32) = 0) ds))"
     "take (length (port_writes s)) (port_writes (interrupts jump ds s)) = port_writes s"
     "SLAVE_PIC_CMD \<notin> fst ` set (drop (length (port_writes s)) (port_writes (interrupts jump ds s)))"
    by (auto simp: taken_for_def SLAVE_PIC_CMD_def)
  moreover have "irq_stub jump i r s = irq_stub jump j r s"
    by (simp add: irq_stub_result irq_handler_c_def irq_handler_reads_r15)
  ultimately show ?thesis by (simp add: irq_stub_result)
qed

definition regs0 :: "u64 \<Rightarrow> regs" where
  "regs0 v = \<lparr>rax = 1, rbx = 2, rcx = 3, rdx = 4, rsi = 5, rdi = 6, rbp = 7, r8 = 8, r9 = 9, r10 = 10, r11 = 11, r12 = 12,
     r13 = 13, r14 = 14, r15 = v\<rparr>"

definition timer_only_state :: irq_state where
  "timer_only_state = \<lparr>irq_handlers = 0x1000 # replicate 15 0, tick_count = 0, port_writes = []\<rparr>"

lemma timer_only_state: "timer_only (\<lambda>_. timer_handler) timer_only_state"
  by (auto simp: timer_only_def timer_only_state_def nth_Cons')

theorem irq_dispatch_on_r15_witness:
  "tick_count (interrupts (\<lambda>_. timer_handler) [(0, regs0 5), (14, regs0 0), (12, regs0 (2 ^ 32))] timer_only_state) = 2"
  using irq_dispatch_on_r15 [OF timer_only_state, of "[(0, regs0 5), (14, regs0 0), (12, regs0 (2 ^ 32))]" 0 "regs0 0" 0]
  by (simp add: regs0_def timer_only_state_def)

subsection \<open>Sleeping\<close>

lemma sleep_loop_some:
  assumes "sleep_loop t start n k = Some j"
  shows "k \<le> j \<and> ucast n \<le> t j - start \<and> (\<forall>i. k \<le> i \<and> i < j \<longrightarrow> t i - start < ucast n)"
  using assms
proof (rule sleep_loop.raw_induct [rotated])
  fix sl :: "(nat \<Rightarrow> u64) \<Rightarrow> u64 \<Rightarrow> u32 \<Rightarrow> nat \<Rightarrow> nat option" and t start n k j
  assume ih: "\<And>t start n k j. sl t start n k = Some j \<Longrightarrow>
      k \<le> j \<and> ucast n \<le> t j - start \<and> (\<forall>i. k \<le> i \<and> i < j \<longrightarrow> t i - start < ucast n)"
    and run: "(if t k - start < ucast n then sl t start n (k + 1) else Some k) = Some j"
  show "k \<le> j \<and> ucast n \<le> t j - start \<and> (\<forall>i. k \<le> i \<and> i < j \<longrightarrow> t i - start < ucast n)"
  proof (cases "t k - start < ucast n")
    case True
    with run have "sl t start n (k + 1) = Some j" by simp
    from ih [OF this] have "k + 1 \<le> j \<and> ucast n \<le> t j - start \<and> (\<forall>i. k + 1 \<le> i \<and> i < j \<longrightarrow> t i - start < ucast n)" .
    with True show ?thesis by (metis Suc_eq_plus1 Suc_leD Suc_leI le_neq_implies_less)
  qed (use run in auto)
qed

lemma sleep_loop_ends:
  "(\<forall>i. k \<le> i \<and> i < k + d \<longrightarrow> t i - start < ucast n) \<Longrightarrow> ucast n \<le> t (k + d) - start \<Longrightarrow> sleep_loop t start n k = Some (k + d)"
proof (induction d arbitrary: k)
  case 0
  then have "\<not> t k - start < ucast n" by simp
  then show ?case by (subst sleep_loop.simps) simp
next
  case (Suc d)
  then have "sleep_loop t start n (Suc k) = Some (Suc k + d)" by simp
  moreover have "t k - start < ucast n" using Suc.prems by simp
  ultimately show ?case by (subst sleep_loop.simps) simp
qed

lemma sleep_some:
  assumes "sleep t n = Some h"
  shows "ucast n \<le> t (Suc h) - t 0" and "i < h \<Longrightarrow> t (Suc i) - t 0 < ucast n"
  using sleep_loop_some [OF assms [unfolded sleep_def]] by auto

lemma sleep_never: "(\<And>h. t (Suc h) - t 0 < ucast n) \<Longrightarrow> sleep t n = None"
  using sleep_some(1) [of t n] by (metis linorder_not_less not_Some_eq)

lemma less_ticks: "k < 2 ^ 64 \<Longrightarrow> (of_nat k :: u64) < ucast n \<longleftrightarrow> k < unat n" for n :: u32
  by (simp add: word_less_nat_alt unat_ucast_32_64 unat_of_nat)

text \<open>When \<^term>\<open>e\<close> ticks come between the first read and the first test, and one with each \<^verbatim>\<open>hlt\<close>.\<close>

lemma sleep_uniform_ticks:
  assumes "\<And>h. t (Suc h) - t 0 = of_nat (e + h)" and "e < 2 ^ 32"
  shows "sleep t n = Some (unat n - e)"
proof -
  have "e + (unat n - e) < 2 ^ 64" using assms(2) unat_less_pow [of n] by simp
  then have lt: "t (Suc h) - t 0 < ucast n \<longleftrightarrow> e + h < unat n" if "h \<le> unat n - e" for h
    unfolding assms(1) using that by (intro less_ticks) simp
  have "sleep_loop (\<lambda>h. t (Suc h)) (t 0) n 0 = Some (0 + (unat n - e))"
  proof (rule sleep_loop_ends)
    show "\<forall>h. 0 \<le> h \<and> h < 0 + (unat n - e) \<longrightarrow> t (Suc h) - t 0 < ucast n" using lt by auto
    show "ucast n \<le> t (Suc (0 + (unat n - e))) - t 0" using lt [of "unat n - e"] by (simp flip: linorder_not_less)
  qed
  then show ?thesis by (simp add: sleep_def)
qed

text \<open>The counter as \<^verbatim>\<open>sleep\<close> sees it when one interrupt ends each \<^verbatim>\<open>hlt\<close> and the first \<^term>\<open>e\<close> interrupts (in
  general none) arrive between the read of \<^verbatim>\<open>start_tick\<close> and the first test of the loop.\<close>

definition arrived :: "nat \<Rightarrow> nat \<Rightarrow> nat" where
  "arrived e k = (case k of 0 \<Rightarrow> 0 | Suc h \<Rightarrow> e + h)"

definition ticks_after ::
  "(u64 \<Rightarrow> irq_state \<Rightarrow> irq_state) \<Rightarrow> (nat \<Rightarrow> nat \<times> regs) \<Rightarrow> nat \<Rightarrow> irq_state \<Rightarrow> nat \<Rightarrow> u64" where
  "ticks_after jump d e s k = tick_count (interrupts jump (map d [0..<arrived e k]) s)"

text \<open>The number of the first \<^term>\<open>k\<close> interrupts that are taken for the timer's.\<close>

definition timer_ticks :: "(nat \<Rightarrow> nat \<times> regs) \<Rightarrow> nat \<Rightarrow> nat" where
  "timer_ticks d k = card {i. i < k \<and> (ucast (r15 (snd (d i))) :: u32) = 0}"

lemma timer_ticks_Suc: "timer_ticks d (Suc k) = timer_ticks d k + (if (ucast (r15 (snd (d k))) :: u32) = 0 then 1 else 0)"
proof -
  let ?P = "\<lambda>i. (ucast (r15 (snd (d i))) :: u32) = 0"
  have "{i. i < Suc k \<and> ?P i} = (if ?P k then insert k {i. i < k \<and> ?P i} else {i. i < k \<and> ?P i})"
    by (auto simp: less_Suc_eq)
  then show ?thesis by (simp add: timer_ticks_def)
qed

lemma timer_ticks_filter: "length (filter (\<lambda>(i, r). taken_for r = 0) (map d [0..<k])) = timer_ticks d k"
proof (induction k)
  case 0
  then show ?case by (simp add: timer_ticks_def)
next
  case (Suc k)
  then show ?case by (simp add: timer_ticks_Suc taken_for_def split_beta)
qed

lemma ticks_after_timer:
  "timer_only jump s \<Longrightarrow> ticks_after jump d e s k = tick_count s + of_nat (timer_ticks d (arrived e k))"
  using interrupts_timer [of jump s "map d [0..<arrived e k]"]
  by (auto simp: ticks_after_def simp flip: timer_ticks_filter)

lemma timer_ticks_all: "(\<And>k. (ucast (r15 (snd (d k))) :: u32) = 0) \<Longrightarrow> timer_ticks d k = k"
  by (simp add: timer_ticks_def)

lemma timer_ticks_none: "(\<And>k. (ucast (r15 (snd (d k))) :: u32) \<noteq> 0) \<Longrightarrow> timer_ticks d k = 0"
  by (simp add: timer_ticks_def)

lemma timer_ticks_le: "timer_ticks d k \<le> k"
  unfolding timer_ticks_def using card_mono [of "{..<k}" "{i. i < k \<and> (ucast (r15 (snd (d i))) :: u32) = 0}"] by auto

text \<open>
  C22: Let one interrupt of any number end each \<^verbatim>\<open>hlt\<close>, after \<^term>\<open>e\<close> interrupts (normally none) between the two
  first reads of the counter.  If \<^verbatim>\<open>sleep\<close> returns after executing \<^verbatim>\<open>hlt\<close>, exactly the asked number of these
  interrupts had 0 in the low half of \<^verbatim>\<open>r15\<close>.  If all have, \<^verbatim>\<open>sleep\<close> executes \<^verbatim>\<open>hlt\<close> once for each tick asked for that
  has not come early, so never for zero ticks, and \<^verbatim>\<open>sleep_s\<close> asks for 100 times the seconds, modulo \<open>2\<^sup>3\<^sup>2\<close>.  If none
  has, a sleep of one tick or more never returns.
\<close>

theorem sleep_returns_or_hangs:
  assumes "timer_only jump s" and "e < 2 ^ 32"
  shows "(sleep (ticks_after jump d e s) n = Some h \<and> 0 < h \<and> e + h < 2 ^ 64 \<longrightarrow> timer_ticks d (e + h) = unat n)
       \<and> ((\<forall>k. (ucast (r15 (snd (d k))) :: u32) = 0) \<longrightarrow>
            sleep (ticks_after jump d e s) n = Some (unat n - e)
            \<and> sleep_s (ticks_after jump d e s) n = Some (unat n * 100 mod 2 ^ 32 - e))
       \<and> ((\<forall>k. (ucast (r15 (snd (d k))) :: u32) \<noteq> 0) \<and> 0 < n \<longrightarrow> sleep (ticks_after jump d e s) n = None)"
proof (intro conjI impI)
  have t: "ticks_after jump d e s (Suc h) - ticks_after jump d e s 0 = of_nat (timer_ticks d (e + h))" for h
    using timer_ticks_le [of d 0] by (simp add: ticks_after_timer [OF assms(1)] arrived_def)
  {
    assume a: "sleep (ticks_after jump d e s) n = Some h \<and> 0 < h \<and> e + h < 2 ^ 64"
    then obtain i where h: "h = Suc i" by (cases h) auto
    have "\<not> timer_ticks d (e + h) < unat n" "timer_ticks d (e + i) < unat n"
      using sleep_some [of "ticks_after jump d e s" n h] a less_ticks [of _ n]
        order_le_less_trans [OF timer_ticks_le, of _ "2 ^ 64" d] unfolding t h by (auto simp: not_less [symmetric])
    then show "timer_ticks d (e + h) = unat n" by (simp add: h timer_ticks_Suc split: if_splits)
  next
    assume "\<forall>k. (ucast (r15 (snd (d k))) :: u32) = 0"
    then have u: "sleep (ticks_after jump d e s) m = Some (unat m - e)" for m
      using sleep_uniform_ticks [OF _ assms(2)] t by (simp add: timer_ticks_all)
    have "unat (n * 100) = unat n * 100 mod 2 ^ 32" by (simp add: unat_word_ariths)
    with u show "sleep (ticks_after jump d e s) n = Some (unat n - e)"
        "sleep_s (ticks_after jump d e s) n = Some (unat n * 100 mod 2 ^ 32 - e)" unfolding sleep_s_def by simp_all
  next
    assume a: "(\<forall>k. (ucast (r15 (snd (d k))) :: u32) \<noteq> 0) \<and> 0 < n"
    then have "0 < (ucast n :: u64)" by (simp add: word_less_nat_alt unat_ucast_32_64)
    then show "sleep (ticks_after jump d e s) n = None" using a t by (intro sleep_never) (simp add: timer_ticks_none)
  }
qed

theorem sleep_returns_or_hangs_witness:
  "sleep_s (ticks_after (\<lambda>_. timer_handler) (\<lambda>_. (0, regs0 0)) 0 timer_only_state) 42949673 = Some 4
   \<and> sleep (ticks_after (\<lambda>_. timer_handler) (\<lambda>_. (0, regs0 0)) 0 timer_only_state) 0 = Some 0
   \<and> sleep (ticks_after (\<lambda>_. timer_handler) (\<lambda>_. (0, regs0 1)) 0 timer_only_state) 1 = None"
  using sleep_returns_or_hangs [OF timer_only_state, of 0 "\<lambda>_. (0, regs0 0)" 42949673]
    sleep_returns_or_hangs [OF timer_only_state, of 0 "\<lambda>_. (0, regs0 0)" 0]
    sleep_returns_or_hangs [OF timer_only_state, of 0 "\<lambda>_. (0, regs0 1)" 1] by (simp add: regs0_def)

end
