(* ===== verification/Elf.thy ===== *)
theory Elf
  imports Vmm Interrupts
begin

text \<open>
  The loader of user programs, \<^verbatim>\<open>drivers/elf/elf.c\<close>: the check of the header, the walk over the
  program headers with its page-wise allocation, mapping and copying, and the frame with which
  \<^verbatim>\<open>elf64_enter_ring3\<close> leaves for user mode.  The loader reads the image through a pointer into the
  same memory it copies to, so every header is read from the memory at that moment.

  Shown: the page-wise loop is one block copy, so that loading a program is copying every loadable
  segment to the start of its page; how many bytes that is in every case; the effect on page tables
  and frames; and the consequences of the missing checks.
\<close>

section \<open>Headers\<close>

record elf64_ehdr_t =
  e_magic :: u32
  e_class :: u8
  e_data :: u8
  e_type :: u16
  e_machine :: u16
  e_entry :: u64
  e_phoff :: u64
  e_phnum :: u16

record elf64_phdr_t =
  p_type :: u32
  p_flags :: u32
  p_offset :: u64
  p_vaddr :: u64
  p_paddr :: u64
  p_filesz :: u64
  p_memsz :: u64
  p_align :: u64

text \<open>The packed structures at an address, 64 and 56 bytes long; of the first, the fields the code uses.\<close>

definition ehdr_of :: "u8 list \<Rightarrow> elf64_ehdr_t" where
  "ehdr_of b = \<lparr>e_magic = le32 b 0, e_class = b ! 4, e_data = b ! 5, e_type = le16 b 16, e_machine = le16 b 18,
     e_entry = le64 b 24, e_phoff = le64 b 32, e_phnum = le16 b 56\<rparr>"

definition phdr_of :: "u8 list \<Rightarrow> elf64_phdr_t" where
  "phdr_of b = \<lparr>p_type = le32 b 0, p_flags = le32 b 4, p_offset = le64 b 8, p_vaddr = le64 b 16, p_paddr = le64 b 24,
     p_filesz = le64 b 32, p_memsz = le64 b 40, p_align = le64 b 48\<rparr>"

definition ehdr_at :: "mem \<Rightarrow> u64 \<Rightarrow> elf64_ehdr_t" where
  "ehdr_at m a = ehdr_of (load_bytes m a 64)"

definition phdr_at :: "mem \<Rightarrow> u64 \<Rightarrow> elf64_phdr_t" where
  "phdr_at m a = phdr_of (load_bytes m a 56)"

definition ELF_MAGIC :: u32 where "ELF_MAGIC = 0x464C457F"
definition PT_LOAD :: u32 where "PT_LOAD = 1"
definition VMM_PRESENT :: u64 where "VMM_PRESENT = push_bit 0 1"
definition VMM_WRITE :: u64 where "VMM_WRITE = push_bit 1 1"
definition VMM_USER :: u64 where "VMM_USER = push_bit 2 1"

definition elf64_check :: "elf64_ehdr_t \<Rightarrow> bool" where
  "elf64_check hdr =
     (if e_magic hdr \<noteq> ELF_MAGIC then False
      else if e_class hdr \<noteq> 2 then False
      else if e_data hdr \<noteq> 1 then False
      else if e_machine hdr \<noteq> 0x3E then False
      else if e_type hdr \<noteq> 2 then False
      else True)"

section \<open>Loading\<close>

text \<open>
  The loop over the pages of a segment, from \<^term>\<open>off\<close> on.  The counter is a 64-bit number, so the loop
  of a segment of almost \<open>2\<^sup>6\<^sup>4\<close> bytes does not end.  The result of \<^verbatim>\<open>pmm_alloc_page\<close> is not tested.
\<close>

partial_function (option) load_pages ::
  "u64 \<Rightarrow> u64 \<Rightarrow> u64 \<Rightarrow> u64 \<Rightarrow> u64 \<Rightarrow> u64 \<Rightarrow> vmm \<Rightarrow> vmm option" where
  "load_pages src vaddr filesz memsz flags off s =
     (if off < memsz
      then do {
        (phys, p) \<leftarrow> pmm_alloc_page (pmm_st s);
        let s = snd (vmm_map_page (vaddr + off) phys flags (s\<lparr>pmm_st := p\<rparr>));
        let copy_size = (if filesz \<le> off then 0 else if filesz < off + 0x1000 then filesz - off else 0x1000);
        let s = (if 0 < copy_size
                 then s\<lparr>phys_mem := fst (memcpy (vaddr + off) (src + off) copy_size (phys_mem s))\<rparr> else s);
        load_pages src vaddr filesz memsz flags (off + 0x1000) s
      }
      else Some s)"

definition seg_flags :: "elf64_phdr_t \<Rightarrow> u64" where
  "seg_flags ph = (VMM_PRESENT OR VMM_USER) OR (if p_flags ph AND 2 \<noteq> 0 then VMM_WRITE else 0)"

definition load_segment :: "u64 \<Rightarrow> elf64_phdr_t \<Rightarrow> vmm \<Rightarrow> vmm option" where
  "load_segment elf ph s =
     (if p_type ph \<noteq> PT_LOAD then Some s
      else load_pages (elf + p_offset ph) (p_vaddr ph AND NOT 0xFFF) (p_filesz ph) (p_memsz ph) (seg_flags ph) 0 s)"

text \<open>The number of program headers is read again in every round; it is below \<open>2\<^sup>1\<^sup>6\<close>, so the loop ends.\<close>

function load_segments :: "u64 \<Rightarrow> u64 \<Rightarrow> nat \<Rightarrow> vmm \<Rightarrow> vmm option" where
  "load_segments elf phdr i s =
     (if i < unat (e_phnum (ehdr_at (phys_mem s) elf))
      then (case load_segment elf (phdr_at (phys_mem s) (phdr + 56 * of_nat i)) s of
              None \<Rightarrow> None
            | Some s' \<Rightarrow> load_segments elf phdr (i + 1) s')
      else Some s)"
  by pat_completeness auto
termination
proof (relation "measure (\<lambda>(elf, phdr, i, s). 2 ^ 16 - i)")
  fix elf phdr :: u64 and i s s'
  assume "i < unat (e_phnum (ehdr_at (phys_mem s) elf))"
  then have "i < 2 ^ 16" using unat_less_pow [of "e_phnum (ehdr_at (phys_mem s) elf)"] by simp
  then show "((elf, phdr, i + 1, s'), (elf, phdr, i, s)) \<in> measure (\<lambda>(elf, phdr, i, s). 2 ^ 16 - i)" by simp
qed simp

declare load_segments.simps [simp del]

definition elf64_load_and_prepare :: "u64 \<Rightarrow> vmm \<Rightarrow> (u64 \<times> vmm) option" where
  "elf64_load_and_prepare elf s =
     (if \<not> elf64_check (ehdr_at (phys_mem s) elf) then Some (0, s)
      else do {
        s \<leftarrow> load_segments elf (elf + e_phoff (ehdr_at (phys_mem s) elf)) 0 s;
        Some (e_entry (ehdr_at (phys_mem s) elf), s)
      })"

text \<open>The frame \<^verbatim>\<open>iretq\<close> pops and the selector the data segment registers have been loaded with.\<close>

record iret_frame =
  ir_rip :: u64
  ir_cs :: u16
  ir_rflags :: u64
  ir_rsp :: u64
  ir_ss :: u16
  ir_data_segments :: u16

definition elf64_enter_ring3 :: "u64 \<Rightarrow> u64 \<Rightarrow> u64 \<Rightarrow> iret_frame" where
  "elf64_enter_ring3 entry rsp rflags =
     \<lparr>ir_rip = entry, ir_cs = 0x2B, ir_rflags = rflags OR 0x200, ir_rsp = rsp - 8, ir_ss = 0x23,
      ir_data_segments = 0x23\<rparr>"

section \<open>The page loop is a block copy\<close>

text \<open>How many pages a segment takes and how many bytes of it are copied: all bytes of the file, but no
  more than fit in the pages.\<close>

definition seg_pages :: "u64 \<Rightarrow> nat" where
  "seg_pages memsz = (unat memsz + 4095) div 4096"

definition seg_bytes :: "u64 \<Rightarrow> u64 \<Rightarrow> nat" where
  "seg_bytes filesz memsz = min (unat filesz) (4096 * seg_pages memsz)"

lemma seg_pages_less: "k < seg_pages memsz \<longleftrightarrow> 4096 * k < unat memsz"
  using less_eq_div_iff_mult_less_eq [of 4096 "Suc k" "unat memsz + 4095"] by (auto simp: seg_pages_def Suc_le_eq)

text \<open>One round copies the next chunk of at most a page.\<close>

lemma chunk_size:
  assumes off: "unat off = 4096 * k" and k: "k < seg_pages memsz" and wrap: "unat memsz + 4095 < 2 ^ 64"
    and c: "c = (if filesz \<le> off then 0 else if filesz < off + 0x1000 then filesz - off else 0x1000)"
  shows "unat c = min 4096 (seg_bytes filesz memsz - 4096 * k)"
proof -
  define N where "N = 4096 * seg_pages memsz"
  have ck: "4096 * k + 4096 \<le> N" using k by (simp add: N_def)
  have "4096 * k + 4096 < 2 ^ 64" using k wrap unfolding seg_pages_less by linarith
  then have o: "unat (off + 0x1000) = 4096 * k + 4096" by (subst unat_plus_small) (simp_all add: off)
  consider "unat filesz \<le> 4096 * k" | "4096 * k < unat filesz" "unat filesz < 4096 * k + 4096" | "4096 * k + 4096 \<le> unat filesz"
    by linarith
  then show ?thesis
  proof cases
    case 1
    then have "c = 0" by (simp add: c word_le_nat_alt off)
    with 1 show ?thesis by (simp add: seg_bytes_def)
  next
    case 2
    then have "c = filesz - off" "off \<le> filesz" by (simp_all add: c word_le_nat_alt word_less_nat_alt off o)
    then have "unat c = unat filesz - 4096 * k" by (simp add: unat_sub off)
    with 2 ck show ?thesis unfolding seg_bytes_def N_def [symmetric] by simp
  next
    case 3
    then have "c = 0x1000" by (simp add: c word_le_nat_alt word_less_nat_alt off o)
    with 3 ck show ?thesis unfolding seg_bytes_def N_def [symmetric] by simp
  qed
qed

lemma chunk_copy:
  assumes "unat (src - vaddr) + unat c \<le> 2 ^ 64"
  shows "(if 0 < c then fst (memcpy (vaddr + off) (src + off) c m) else m)
       = store_bytes m (vaddr + off) (load_bytes m (src + off) (unat c))"
proof -
  have "src + off - (vaddr + off) = src - vaddr" by simp
  then have "memcpy (vaddr + off) (src + off) c m = (store_bytes m (vaddr + off) (load_bytes m (src + off) (unat c)), vaddr + off)"
    using assms memcpy_block_copy by metis
  then show ?thesis by (cases "c = 0") (simp_all add: word_gt_0 load_bytes_def)
qed

lemma chunk_then_rest:
  assumes "unat (b - a) + n \<le> 2 ^ 64" and "c = min 4096 n" and "m1 = store_bytes m a (load_bytes m b c)"
  shows "store_bytes m1 (a + 4096) (load_bytes m1 (b + 4096) (n - 4096)) = store_bytes m a (load_bytes m b n)"
proof (cases "n \<le> 4096")
  case True
  with assms show ?thesis by (simp add: load_bytes_def)
next
  case False
  then have c: "c = 4096" "n = c + (n - 4096)" using assms by simp_all
  have "load_bytes m1 (b + of_nat c) (n - 4096) = load_bytes m (b + of_nat c) (n - 4096)"
    unfolding assms(3) using assms(1) c by (intro load_store_ahead) simp_all
  moreover have "load_bytes m b n = load_bytes m b c @ load_bytes m (b + of_nat c) (n - 4096)"
    using load_bytes_add [of m b c "n - 4096"] c(2) by simp
  moreover have "n \<le> 2 ^ 64" using assms(1) by simp
  ultimately show ?thesis
    using store_bytes_append [of "load_bytes m b c" "load_bytes m (b + of_nat c) (n - 4096)" m a] assms(3) c by simp
qed

lemma vmm_map_page_fields:
  "pmm_st (snd (vmm_map_page v ph f s)) = pmm_st s \<and> phys_mem (snd (vmm_map_page v ph f s)) = phys_mem s"
  by (simp add: vmm_map_page_def Let_def)

lemma pmm_alloc_any:
  assumes "pmm_inv p"
  shows "\<exists>a q. pmm_alloc_page p = Some (a, q) \<and> pmm_inv q \<and> card (free_set q) = card (free_set p) - 1"
proof (cases "free_set p = {}")
  case False
  then have "card (free_set p - {Min (free_set p)}) = card (free_set p) - 1" by (simp add: card_Diff_singleton)
  with False show ?thesis using pm.alloc_least [OF assms False] by metis
qed (use assms pm.alloc_full in auto)

lemma load_pages_from:
  assumes "k + n = seg_pages memsz" and "pmm_inv (pmm_st s)" and "unat memsz + 4095 < 2 ^ 64"
    and "unat (src - vaddr) + seg_bytes filesz memsz \<le> 2 ^ 64"
  shows "\<exists>s'. load_pages src vaddr filesz memsz flags (of_nat (4096 * k)) s = Some s' \<and> pmm_inv (pmm_st s')
     \<and> card (free_set (pmm_st s')) = card (free_set (pmm_st s)) - n
     \<and> phys_mem s' = store_bytes (phys_mem s) (vaddr + of_nat (4096 * k))
           (load_bytes (phys_mem s) (src + of_nat (4096 * k)) (seg_bytes filesz memsz - 4096 * k))
     \<and> (2 ^ 21 \<le> unat vaddr \<and> unat vaddr + 4096 * seg_pages memsz \<le> 2 ^ 64 \<longrightarrow> entries s' = entries s)"
  using assms(1,2)
proof (induction n arbitrary: k s)
  case 0
  then have "unat memsz \<le> 4096 * k" "4096 * k \<le> unat memsz + 4095"
    using seg_pages_less [of k memsz] by (simp_all add: seg_pages_def)
  then have "\<not> (of_nat (4096 * k) :: u64) < memsz" using assms(3)
    by (simp add: word_less_nat_alt unat_of_nat_small del: of_nat_mult)
  moreover have "seg_bytes filesz memsz - 4096 * k = 0" using 0 by (simp add: seg_bytes_def)
  ultimately show ?case using 0 by (subst load_pages.simps) (simp add: load_bytes_def del: of_nat_mult)
next
  case (Suc n)
  let ?off = "of_nat (4096 * k) :: u64"
  have k: "k < seg_pages memsz" using Suc.prems by simp
  then have lt: "4096 * k < unat memsz" by (simp add: seg_pages_less)
  then have off: "unat ?off = 4096 * k" using assms(3) by (intro unat_of_nat_small) simp
  with lt have "?off < memsz" by (simp add: word_less_nat_alt)
  obtain a q where q: "pmm_alloc_page (pmm_st s) = Some (a, q)" "pmm_inv q" "card (free_set q) = card (free_set (pmm_st s)) - 1"
    using pmm_alloc_any [OF Suc.prems(2)] by blast
  define c where "c = (if filesz \<le> ?off then 0 else if filesz < ?off + 0x1000 then filesz - ?off else 0x1000)"
  have cs: "unat c = min 4096 (seg_bytes filesz memsz - 4096 * k)" by (rule chunk_size [OF off k assms(3) c_def])
  then have "unat (src - vaddr) + unat c \<le> 2 ^ 64" using assms(4) by simp
  note cc = chunk_copy [OF this, of ?off]
  define s1 where "s1 = snd (vmm_map_page (vaddr + ?off) a flags (s\<lparr>pmm_st := q\<rparr>))"
  define s2 where "s2 = (if 0 < c then s1\<lparr>phys_mem := fst (memcpy (vaddr + ?off) (src + ?off) c (phys_mem s1))\<rparr> else s1)"
  have s1: "pmm_st s1 = q" "phys_mem s1 = phys_mem s" by (simp_all add: s1_def vmm_map_page_fields)
  have s2: "pmm_st s2 = q" "entries s2 = entries s1" by (simp_all add: s2_def s1)
  have "phys_mem s2 = (if 0 < c then fst (memcpy (vaddr + ?off) (src + ?off) c (phys_mem s)) else phys_mem s)"
    by (simp add: s2_def s1)
  then have m: "phys_mem s2 = store_bytes (phys_mem s) (vaddr + ?off) (load_bytes (phys_mem s) (src + ?off) (unat c))"
    by (simp only: cc)
  have nxt: "?off + 0x1000 = of_nat (4096 * Suc k)" "vaddr + of_nat (4096 * Suc k) = vaddr + ?off + 4096"
    "src + of_nat (4096 * Suc k) = src + ?off + 4096" by simp_all
  have run: "load_pages src vaddr filesz memsz flags ?off s = load_pages src vaddr filesz memsz flags (of_nat (4096 * Suc k)) s2"
    using \<open>?off < memsz\<close> q(1) unfolding nxt(1) [symmetric]
    by (subst load_pages.simps) (simp only: if_True bind.simps case_prod_conv Let_def c_def [symmetric] s1_def [symmetric] s2_def [symmetric])
  from Suc.IH [of "Suc k" s2] Suc.prems q(2) s2(1) obtain s' where
    s': "load_pages src vaddr filesz memsz flags (of_nat (4096 * Suc k)) s2 = Some s'" "pmm_inv (pmm_st s')"
      "card (free_set (pmm_st s')) = card (free_set q) - n"
      "phys_mem s' = store_bytes (phys_mem s2) (vaddr + of_nat (4096 * Suc k))
           (load_bytes (phys_mem s2) (src + of_nat (4096 * Suc k)) (seg_bytes filesz memsz - 4096 * Suc k))"
      "2 ^ 21 \<le> unat vaddr \<and> unat vaddr + 4096 * seg_pages memsz \<le> 2 ^ 64 \<longrightarrow> entries s' = entries s2"
    by (auto simp del: of_nat_mult of_nat_Suc)
  have "src + ?off - (vaddr + ?off) = src - vaddr" by simp
  then have "unat (src + ?off - (vaddr + ?off)) + (seg_bytes filesz memsz - 4096 * k) \<le> 2 ^ 64" using assms(4) by simp
  note rest = chunk_then_rest [OF this cs m]
  have e: "seg_bytes filesz memsz - 4096 * Suc k = seg_bytes filesz memsz - 4096 * k - 4096" by simp
  have mem: "phys_mem s' = store_bytes (phys_mem s) (vaddr + ?off) (load_bytes (phys_mem s) (src + ?off) (seg_bytes filesz memsz - 4096 * k))"
    unfolding s'(4) nxt e by (rule rest)
  have "entries s1 = entries s" if "2 ^ 21 \<le> unat vaddr" "unat vaddr + 4096 * seg_pages memsz \<le> 2 ^ 64"
  proof -
    have "unat (vaddr + ?off) = unat vaddr + 4096 * k"
      using unat_plus_small [of vaddr ?off] off k that by simp
    then have "512 \<le> unat ((vaddr + ?off) div 4096)" using that(1) by (simp add: unat_div)
    then show ?thesis by (simp add: s1_def vmm_map_page_beyond)
  qed
  then have "2 ^ 21 \<le> unat vaddr \<and> unat vaddr + 4096 * seg_pages memsz \<le> 2 ^ 64 \<longrightarrow> entries s' = entries s"
    using s'(5) s2(2) by metis
  moreover have "card (free_set (pmm_st s')) = card (free_set (pmm_st s)) - Suc n" unfolding s'(3) q(3) by simp
  moreover note run [unfolded s'(1)] s'(2) mem
  ultimately show ?case by blast
qed

section \<open>Loading a program\<close>

definition seg_start :: "elf64_phdr_t \<Rightarrow> u64" where
  "seg_start ph = p_vaddr ph AND NOT 0xFFF"

definition seg_size :: "elf64_phdr_t \<Rightarrow> nat" where
  "seg_size ph = (if p_type ph = PT_LOAD then seg_bytes (p_filesz ph) (p_memsz ph) else 0)"

definition seg_frames :: "elf64_phdr_t \<Rightarrow> nat" where
  "seg_frames ph = (if p_type ph = PT_LOAD then seg_pages (p_memsz ph) else 0)"

text \<open>The abstract loader: copy the bytes of each loadable segment, as they are in the initial memory, to the
  start of the segment's page.\<close>

definition place_segment :: "mem \<Rightarrow> u64 \<Rightarrow> elf64_phdr_t \<Rightarrow> mem \<Rightarrow> mem" where
  "place_segment m0 elf ph m = store_bytes m (seg_start ph) (load_bytes m0 (elf + p_offset ph) (seg_size ph))"

definition program_headers :: "mem \<Rightarrow> u64 \<Rightarrow> elf64_phdr_t list" where
  "program_headers m elf =
     map (\<lambda>i. phdr_at m (elf + e_phoff (ehdr_at m elf) + 56 * of_nat i)) [0..<unat (e_phnum (ehdr_at m elf))]"

text \<open>The segment lies in the image of \<^term>\<open>n\<close> bytes, its size does not wrap, and it is not placed over the image.\<close>

definition seg_ok :: "u64 \<Rightarrow> nat \<Rightarrow> elf64_phdr_t \<Rightarrow> bool" where
  "seg_ok elf n ph \<longleftrightarrow> unat (p_memsz ph) + 4095 < 2 ^ 64 \<and> unat (p_offset ph) + seg_size ph \<le> n
     \<and> seg_size ph \<le> unat (elf - seg_start ph) \<and> unat (elf - seg_start ph) + n \<le> 2 ^ 64"

text \<open>The tables of \<^verbatim>\<open>vmm.c\<close> cover the first 2 MiB.\<close>

definition seg_high :: "elf64_phdr_t \<Rightarrow> bool" where
  "seg_high ph \<longleftrightarrow> 2 ^ 21 \<le> unat (seg_start ph) \<and> unat (seg_start ph) + 4096 * seg_frames ph \<le> 2 ^ 64"

lemma load_beside_store:
  assumes "length bs \<le> unat (e - d)" and "unat (e - d) + n \<le> 2 ^ 64"
  shows "load_bytes (store_bytes m d bs) e n = load_bytes m e n"
proof (rule nth_equalityI)
  fix i
  assume "i < length (load_bytes (store_bytes m d bs) e n)"
  then have i: "i < n" by simp
  then have "unat (of_nat i :: u64) = i" using assms(2) by (intro unat_of_nat_small) simp
  then have "unat ((e - d) + of_nat i) = unat (e - d) + i" using i assms(2) by (subst unat_plus_small) simp_all
  moreover have "e + of_nat i - d = (e - d) + of_nat i" by simp
  ultimately have "\<not> unat (e + of_nat i - d) < length bs" using assms(1) by presburger
  with i show "load_bytes (store_bytes m d bs) e n ! i = load_bytes m e n ! i"
    by (simp add: nth_load_bytes store_bytes_def)
qed simp

lemma load_bytes_slice: "k + l \<le> n \<Longrightarrow> load_bytes m (a + of_nat k) l = take l (drop k (load_bytes m a n))"
  by (rule nth_equalityI) (auto simp: nth_load_bytes add.assoc)

lemma load_bytes_within:
  assumes "load_bytes m' a n = load_bytes m a n" and "unat k + l \<le> n"
  shows "load_bytes m' (a + k) l = load_bytes m (a + k) l"
  using load_bytes_slice [OF assms(2), of m' a] load_bytes_slice [OF assms(2), of m a] assms(1) by simp

lemma ehdr_at_image: "load_bytes m' elf n = load_bytes m elf n \<Longrightarrow> 64 \<le> n \<Longrightarrow> ehdr_at m' elf = ehdr_at m elf"
  using load_bytes_within [of m' elf n m 0 64] by (simp add: ehdr_at_def)

lemma phdr_at_image:
  assumes "load_bytes m' elf n = load_bytes m elf n" and "n \<le> 2 ^ 64" and "unat off + 56 * cnt \<le> n" and "i < cnt"
  shows "phdr_at m' (elf + off + 56 * of_nat i) = phdr_at m (elf + off + 56 * of_nat i)"
proof -
  have le: "unat off + 56 * i + 56 \<le> n" using assms(3,4) by linarith
  have "unat (of_nat (56 * i) :: u64) = 56 * i" using le assms(2) by (intro unat_of_nat_small) simp
  moreover have "unat (off + of_nat (56 * i)) \<le> unat off + unat (of_nat (56 * i) :: u64)"
    by (simp only: unat_word_ariths(1) mod_less_eq_dividend)
  ultimately have "unat (off + of_nat (56 * i)) + 56 \<le> n" using le by linarith
  from load_bytes_within [OF assms(1) this] show ?thesis by (simp add: phdr_at_def add.assoc)
qed

lemma load_segment_places:
  assumes "seg_ok elf n ph" and "pmm_inv (pmm_st s)" and "load_bytes (phys_mem s) elf n = load_bytes m0 elf n"
  shows "\<exists>s'. load_segment elf ph s = Some s' \<and> pmm_inv (pmm_st s')
     \<and> card (free_set (pmm_st s')) = card (free_set (pmm_st s)) - seg_frames ph
     \<and> phys_mem s' = place_segment m0 elf ph (phys_mem s)
     \<and> load_bytes (phys_mem s') elf n = load_bytes m0 elf n
     \<and> (seg_high ph \<longrightarrow> entries s' = entries s)"
proof -
  let ?bs = "load_bytes m0 (elf + p_offset ph) (seg_size ph)"
  have ok: "unat (p_memsz ph) + 4095 < 2 ^ 64" "unat (p_offset ph) + seg_size ph \<le> n"
     "seg_size ph \<le> unat (elf - seg_start ph)" "unat (elf - seg_start ph) + n \<le> 2 ^ 64" using assms(1) by (simp_all add: seg_ok_def)
  have img: "load_bytes (store_bytes (phys_mem s) (seg_start ph) ?bs) elf n = load_bytes m0 elf n"
    using load_beside_store [of ?bs elf "seg_start ph" n] ok assms(3) by simp
  show ?thesis
  proof (cases "p_type ph = PT_LOAD")
    case False
    then show ?thesis
      using assms(2,3) by (simp add: load_segment_def place_segment_def seg_size_def seg_frames_def load_bytes_def)
  next
    case True
    have src: "load_bytes (phys_mem s) (elf + p_offset ph) (seg_size ph) = ?bs"
      using load_bytes_within [OF assms(3) ok(2)] .
    have "elf + p_offset ph - seg_start ph = (elf - seg_start ph) + p_offset ph" by simp
    then have "unat (elf + p_offset ph - seg_start ph) \<le> unat (elf - seg_start ph) + unat (p_offset ph)"
      by (simp only: unat_word_ariths(1) mod_less_eq_dividend)
    then have "unat (elf + p_offset ph - seg_start ph) + seg_bytes (p_filesz ph) (p_memsz ph) \<le> 2 ^ 64"
      using ok True by (simp add: seg_size_def)
    from load_pages_from [of 0 "seg_pages (p_memsz ph)" "p_memsz ph" s, OF _ assms(2) ok(1) this, of "seg_flags ph"]
    show ?thesis
      using True src img by (auto simp: load_segment_def place_segment_def seg_size_def seg_frames_def seg_high_def seg_start_def)
  qed
qed

lemma load_segments_from:
  assumes "i + k = length (program_headers m0 elf)" and "pmm_inv (pmm_st s)"
    and "load_bytes (phys_mem s) elf n = load_bytes m0 elf n" and "64 \<le> n" and "n \<le> 2 ^ 64"
    and "unat (e_phoff (ehdr_at m0 elf)) + 56 * length (program_headers m0 elf) \<le> n"
    and "\<forall>ph \<in> set (program_headers m0 elf). seg_ok elf n ph"
  shows "\<exists>s'. load_segments elf (elf + e_phoff (ehdr_at m0 elf)) i s = Some s' \<and> pmm_inv (pmm_st s')
     \<and> load_bytes (phys_mem s') elf n = load_bytes m0 elf n
     \<and> card (free_set (pmm_st s')) = card (free_set (pmm_st s)) - sum_list (map seg_frames (drop i (program_headers m0 elf)))
     \<and> phys_mem s' = fold (place_segment m0 elf) (drop i (program_headers m0 elf)) (phys_mem s)
     \<and> ((\<forall>ph \<in> set (program_headers m0 elf). seg_high ph) \<longrightarrow> entries s' = entries s)"
  using assms(1-3)
proof (induction k arbitrary: i s)
  case 0
  have "ehdr_at (phys_mem s) elf = ehdr_at m0 elf" using 0 assms(4) by (intro ehdr_at_image)
  with 0 show ?case by (subst load_segments.simps) (simp add: program_headers_def)
next
  case (Suc k)
  let ?phs = "program_headers m0 elf"
  have e: "ehdr_at (phys_mem s) elf = ehdr_at m0 elf" using Suc.prems assms(4) by (intro ehdr_at_image)
  have i: "i < length ?phs" using Suc.prems by simp
  then have "phdr_at (phys_mem s) (elf + e_phoff (ehdr_at m0 elf) + 56 * of_nat i) = ?phs ! i"
    using phdr_at_image [OF Suc.prems(3) assms(5,6) i] by (simp add: program_headers_def)
  moreover obtain s1 where s1: "load_segment elf (?phs ! i) s = Some s1" "pmm_inv (pmm_st s1)"
     "card (free_set (pmm_st s1)) = card (free_set (pmm_st s)) - seg_frames (?phs ! i)"
     "phys_mem s1 = place_segment m0 elf (?phs ! i) (phys_mem s)" "load_bytes (phys_mem s1) elf n = load_bytes m0 elf n"
     "seg_high (?phs ! i) \<longrightarrow> entries s1 = entries s"
    using load_segment_places [OF _ Suc.prems(2,3)] assms(7) i by (metis nth_mem)
  ultimately have run: "load_segments elf (elf + e_phoff (ehdr_at m0 elf)) i s
      = load_segments elf (elf + e_phoff (ehdr_at m0 elf)) (Suc i) s1"
    using i by (subst load_segments.simps) (simp add: e program_headers_def)
  have d: "drop i ?phs = ?phs ! i # drop (Suc i) ?phs" using i by (simp add: Cons_nth_drop_Suc)
  have "Suc i + k = length ?phs" using Suc.prems by simp
  from Suc.IH [OF this s1(2,5)] s1 i show ?case unfolding run d by (auto simp: diff_diff_left)
qed

lemma elf_rejected: "\<not> elf64_check (ehdr_at (phys_mem s) elf) \<Longrightarrow> elf64_load_and_prepare elf s = Some (0, s)"
  by (simp add: elf64_load_and_prepare_def)

text \<open>
  C7: Loading an accepted image of \<^term>\<open>n\<close> bytes, whose headers and segments lie inside it and are not placed over
  it, returns its entry point and is exactly the abstract loader: segment after segment, the
  bytes of the file (as many as fit in the segment's pages) are copied to the start of the page
  of \<^verbatim>\<open>p_vaddr\<close>, not to \<^verbatim>\<open>p_vaddr\<close> itself, and no other byte of memory changes, so that
  the rest of the segment is not cleared.  Every page of every segment takes a frame while
  there are any; but when the segments lie above the 2 MiB the tables cover, where the program's linker script
  puts them, no page table entry changes.
\<close>

theorem elf_load_refines:
  assumes "elf64_check (ehdr_at (phys_mem s) elf)" and "pmm_inv (pmm_st s)" and "64 \<le> n" and "n \<le> 2 ^ 64"
    and "unat (e_phoff (ehdr_at (phys_mem s) elf)) + 56 * length (program_headers (phys_mem s) elf) \<le> n"
    and "\<forall>ph \<in> set (program_headers (phys_mem s) elf). seg_ok elf n ph"
  shows "\<exists>s'. elf64_load_and_prepare elf s = Some (e_entry (ehdr_at (phys_mem s) elf), s')
     \<and> phys_mem s' = fold (place_segment (phys_mem s) elf) (program_headers (phys_mem s) elf) (phys_mem s)
     \<and> card (free_set (pmm_st s'))
         = card (free_set (pmm_st s)) - sum_list (map seg_frames (program_headers (phys_mem s) elf))
     \<and> ((\<forall>ph \<in> set (program_headers (phys_mem s) elf). seg_high ph) \<longrightarrow> entries s' = entries s)"
proof -
  note from0 = load_segments_from [of 0 "length (program_headers (phys_mem s) elf)" "phys_mem s" elf s n,
      OF add_0 assms(2) refl assms(3-6), unfolded drop_0]
  obtain s' where s': "load_segments elf (elf + e_phoff (ehdr_at (phys_mem s) elf)) 0 s = Some s'"
     "load_bytes (phys_mem s') elf n = load_bytes (phys_mem s) elf n"
     "card (free_set (pmm_st s')) = card (free_set (pmm_st s)) - sum_list (map seg_frames (program_headers (phys_mem s) elf))"
     "phys_mem s' = fold (place_segment (phys_mem s) elf) (program_headers (phys_mem s) elf) (phys_mem s)"
     "(\<forall>ph \<in> set (program_headers (phys_mem s) elf). seg_high ph) \<longrightarrow> entries s' = entries s"
    using from0 by metis
  moreover have "ehdr_at (phys_mem s') elf = ehdr_at (phys_mem s) elf" by (rule ehdr_at_image [OF s'(2) assms(3)])
  ultimately show ?thesis using assms(1) by (simp add: elf64_load_and_prepare_def)
qed

text \<open>A program of one loadable segment of 4 bytes (8 in memory) at 0x401234, at address 0x100000.\<close>

definition elf_small :: "u8 list" where
  "elf_small =
     [127, 69, 76, 70, 2, 1, 1, 0, 0, 0, 0, 0, 0, 0, 0, 0, 2, 0, 62, 0, 1, 0, 0, 0, 52, 18, 64, 0, 0, 0, 0,
      0, 64, 0, 0, 0, 0, 0, 0, 0, 0, 0, 0, 0, 0, 0, 0, 0, 0, 0, 0, 0, 64, 0, 56, 0, 1, 0, 0, 0, 0, 0,
      0, 0, 1, 0, 0, 0, 5, 0, 0, 0, 120, 0, 0, 0, 0, 0, 0, 0, 52, 18, 64, 0, 0, 0, 0, 0, 0, 0, 0, 0, 0,
      0, 0, 0, 4, 0, 0, 0, 0, 0, 0, 0, 8, 0, 0, 0, 0, 0, 0, 0, 0, 0, 0, 0, 0, 0, 0, 0, 11, 22, 33, 44]"

definition elf_vmm :: vmm where
  "elf_vmm = vmm_small\<lparr>phys_mem := store_bytes (\<lambda>_. 0xFF) 0x100000 elf_small\<rparr>"

lemma load_elf_small:
  "unat k + l \<le> 124 \<Longrightarrow> load_bytes (phys_mem elf_vmm) (0x100000 + k) l = take l (drop (unat k) elf_small)"
proof (rule nth_equalityI)
  assume kl: "unat k + l \<le> 124"
  have len: "length elf_small = 124" by (simp add: elf_small_def)
  with kl show "length (load_bytes (phys_mem elf_vmm) (0x100000 + k) l) = length (take l (drop (unat k) elf_small))" by simp
  fix i
  assume "i < length (load_bytes (phys_mem elf_vmm) (0x100000 + k) l)"
  then have i: "i < l" by simp
  have "unat (k + of_nat i) = unat k + i"
    using kl i by (subst unat_plus_small) (simp_all add: unat_of_nat_small)
  with i kl len show "load_bytes (phys_mem elf_vmm) (0x100000 + k) l ! i = take l (drop (unat k) elf_small) ! i"
    by (simp add: nth_load_bytes elf_vmm_def store_bytes_def add.assoc)
qed

lemma ehdr_elf_small:
  "ehdr_at (phys_mem elf_vmm) 0x100000
     = \<lparr>e_magic = ELF_MAGIC, e_class = 2, e_data = 1, e_type = 2, e_machine = 0x3E, e_entry = 0x401234, e_phoff = 64, e_phnum = 1\<rparr>"
  using load_elf_small [of 0 64]
  by (simp add: ehdr_at_def ehdr_of_def elf_small_def le32_def le64_def le16_def ELF_MAGIC_def)

lemma phdrs_elf_small:
  "program_headers (phys_mem elf_vmm) 0x100000 =
     [\<lparr>p_type = PT_LOAD, p_flags = 5, p_offset = 120, p_vaddr = 0x401234, p_paddr = 0, p_filesz = 4, p_memsz = 8, p_align = 0\<rparr>]"
  using load_elf_small [of 64 56]
  by (simp add: program_headers_def ehdr_elf_small phdr_at_def phdr_of_def elf_small_def le32_def le64_def PT_LOAD_def)

theorem elf_load_refines_witness:
  "\<exists>s'. elf64_load_and_prepare 0x100000 elf_vmm = Some (0x401234, s') \<and> phys_mem s' 0x401000 = 11
     \<and> phys_mem s' 0x401234 = 0xFF \<and> phys_mem s' 0x401004 = 0xFF \<and> entries s' = entries elf_vmm"
proof -
  let ?ph = "\<lparr>p_type = PT_LOAD, p_flags = 5, p_offset = 120, p_vaddr = 0x401234, p_paddr = 0, p_filesz = 4, p_memsz = 8, p_align = 0\<rparr>"
  have st: "seg_start ?ph = 0x401000" "seg_size ?ph = 4" "seg_frames ?ph = 1"
    by (simp_all add: seg_start_def seg_size_def seg_bytes_def seg_pages_def seg_frames_def)
  have chk: "elf64_check (ehdr_at (phys_mem elf_vmm) 0x100000)" by (simp add: ehdr_elf_small elf64_check_def)
  have inv: "pmm_inv (pmm_st elf_vmm)" using vmm_inv_small by (simp add: elf_vmm_def vmm_inv_def)
  have ok: "seg_ok 0x100000 124 ?ph" "seg_high ?ph" by (simp_all add: seg_ok_def seg_high_def st)
  from elf_load_refines [OF chk inv, of 124] ok obtain s' where s': "elf64_load_and_prepare 0x100000 elf_vmm = Some (0x401234, s')"
     "phys_mem s' = place_segment (phys_mem elf_vmm) 0x100000 ?ph (phys_mem elf_vmm)" "entries s' = entries elf_vmm"
    by (auto simp: phdrs_elf_small ehdr_elf_small)
  have "load_bytes (phys_mem elf_vmm) (0x100000 + 120) 4 = [11, 22, 33, 44]"
    using load_elf_small [of 120 4] by (simp add: elf_small_def)
  then have "phys_mem s' = store_bytes (phys_mem elf_vmm) 0x401000 [11, 22, 33, 44]"
    by (simp add: s'(2) place_segment_def st)
  then have "phys_mem s' 0x401000 = 11 \<and> phys_mem s' 0x401234 = 0xFF \<and> phys_mem s' 0x401004 = 0xFF"
    by (simp add: store_bytes_def elf_vmm_def elf_small_def)
  with s' show ?thesis by blast
qed

end
