(* ===== verification/Info.thy ===== *)
theory Info
  imports Kprint Interrupts
begin

text \<open>
  What the shell reports about the machine: \<^verbatim>\<open>kernel_lib/info.c\<close>, \<^verbatim>\<open>kernel_lib/bool.c\<close> and the dump of the
  partition table, \<^verbatim>\<open>util/partutil.c\<close>.  The \<^verbatim>\<open>cpuid\<close> instruction is a parameter, from the leaf and
  subleaf to the four registers.

  Shown: the printed name of the processor is the brand string without its outer blanks; the four parts of the
  uptime denote the tick count, read as milliseconds, and are printed with a three-digit fraction.
\<close>

type_synonym cpuid = "u32 \<Rightarrow> u32 \<Rightarrow> u32 \<times> u32 \<times> u32 \<times> u32"

fun eax_of :: "u32 \<times> u32 \<times> u32 \<times> u32 \<Rightarrow> u32" where "eax_of (a, b, c, d) = a"
fun ebx_of :: "u32 \<times> u32 \<times> u32 \<times> u32 \<Rightarrow> u32" where "ebx_of (a, b, c, d) = b"
fun ecx_of :: "u32 \<times> u32 \<times> u32 \<times> u32 \<Rightarrow> u32" where "ecx_of (a, b, c, d) = c"
fun edx_of :: "u32 \<times> u32 \<times> u32 \<times> u32 \<Rightarrow> u32" where "edx_of (a, b, c, d) = d"

text \<open>A register stored in memory.\<close>

definition reg_bytes :: "u32 \<Rightarrow> u8 list" where
  "reg_bytes v = [ucast v, ucast (drop_bit 8 v), ucast (drop_bit 16 v), ucast (drop_bit 24 v)]"

section \<open>The processor\<close>

definition info_get_cpu_vendor :: "cpuid \<Rightarrow> u8 list" where
  "info_get_cpu_vendor cpuid =
     reg_bytes (ebx_of (cpuid 0 0)) @ reg_bytes (edx_of (cpuid 0 0)) @ reg_bytes (ecx_of (cpuid 0 0)) @ [0]"

definition info_cpu_features :: "cpuid \<Rightarrow> u32" where
  "info_cpu_features cpuid = edx_of (cpuid 1 0)"

definition info_cpu_features_ext :: "cpuid \<Rightarrow> u32" where
  "info_cpu_features_ext cpuid = ebx_of (cpuid 7 0)"

definition info_has_sse :: "cpuid \<Rightarrow> u32" where
  "info_has_sse cpuid = info_cpu_features cpuid AND push_bit 25 1"

definition info_has_sse2 :: "cpuid \<Rightarrow> u32" where
  "info_has_sse2 cpuid = info_cpu_features cpuid AND push_bit 26 1"

definition info_has_avx :: "cpuid \<Rightarrow> u32" where
  "info_has_avx cpuid = info_cpu_features_ext cpuid AND push_bit 28 1"

definition info_has_avx2 :: "cpuid \<Rightarrow> u32" where
  "info_has_avx2 cpuid = info_cpu_features_ext cpuid AND push_bit 5 1"

text \<open>The 48 bytes of the brand string with the byte after them, and the two loops that trim it: the first
  moves \<^verbatim>\<open>start\<close>, the second, over the string from \<^verbatim>\<open>start\<close> on, moves \<^verbatim>\<open>end\<close> down and writes NULs.\<close>

definition brand_string :: "cpuid \<Rightarrow> u8 list" where
  "brand_string cpuid =
     concat (map (\<lambda>i. let r = cpuid (0x80000002 + of_nat i) 0
                      in reg_bytes (eax_of r) @ reg_bytes (ebx_of r) @ reg_bytes (ecx_of r) @ reg_bytes (edx_of r)) [0..<3])
     @ [0]"

function trim_start :: "u8 list \<Rightarrow> nat \<Rightarrow> nat" where
  "trim_start b i = (if i < length b \<and> b ! i = 32 then trim_start b (i + 1) else i)"
  by pat_completeness auto
termination
  by (relation "measure (\<lambda>(b, i). length b - i)") auto

function trim_end :: "u8 list \<Rightarrow> int \<Rightarrow> u8 list" where
  "trim_end s e = (if 0 < e \<and> s ! nat e = 32 then trim_end (s[nat e := 0]) (e - 1) else s)"
  by pat_completeness auto
termination
  by (relation "measure (\<lambda>(s, e). nat e)") auto

declare trim_start.simps [simp del] trim_end.simps [simp del]

definition trimmed_brand :: "u8 list \<Rightarrow> u8 list" where
  "trimmed_brand brand =
     (let start = drop (trim_start brand 0) brand
      in trim_end start (int (length (takeWhile (\<lambda>c. c \<noteq> 0) start)) - 1))"

definition info_cmd_cpuinfo :: "cpuid \<Rightarrow> console \<Rightarrow> console option" where
  "info_cmd_cpuinfo cpuid s = do {
     s \<leftarrow> kprint (bytes ''CPU Model  : '') s;
     s \<leftarrow> kprint (trimmed_brand (brand_string cpuid)) s;
     s \<leftarrow> kprint (bytes ''\<newline>'') s;
     s \<leftarrow> kprint (bytes ''Vendor     : '') s;
     s \<leftarrow> kprint (info_get_cpu_vendor cpuid) s;
     s \<leftarrow> kprint (bytes ''\<newline>'') s;
     s \<leftarrow> kprint (bytes ''Features   :'') s;
     s \<leftarrow> (if info_has_sse cpuid \<noteq> 0 then kprint (bytes '' SSE'') s else Some s);
     s \<leftarrow> (if info_has_sse2 cpuid \<noteq> 0 then kprint (bytes '' SSE2'') s else Some s);
     s \<leftarrow> (if info_has_avx cpuid \<noteq> 0 then kprint (bytes '' AVX'') s else Some s);
     s \<leftarrow> (if info_has_avx2 cpuid \<noteq> 0 then kprint (bytes '' AVX2'') s else Some s);
     kprint (bytes ''\<newline>'') s }"

section \<open>The uptime\<close>

definition info_cmd_uptime :: "u64 \<Rightarrow> console \<Rightarrow> console option" where
  "info_cmd_uptime ticks s = do {
     let hours = ticks div 3600000;
     let minutes = (ticks mod 3600000) div 60000;
     let seconds = (ticks mod 60000) div 1000;
     let ms = ticks mod 1000;
     s \<leftarrow> kprint (bytes ''Uptime     : '') s;
     s \<leftarrow> (if hours \<noteq> 0 then do { s \<leftarrow> kprint_uint (ucast hours) s; kprint (bytes ''h '') s } else Some s);
     s \<leftarrow> (if hours \<noteq> 0 \<or> minutes \<noteq> 0 then do { s \<leftarrow> kprint_uint (ucast minutes) s; kprint (bytes ''m '') s } else Some s);
     s \<leftarrow> kprint_uint (ucast seconds) s;
     s \<leftarrow> kprint (bytes ''.'') s;
     s \<leftarrow> (if ms < 100 then kprint (bytes ''0'') s else Some s);
     s \<leftarrow> (if ms < 10 then kprint (bytes ''0'') s else Some s);
     s \<leftarrow> kprint_uint (ucast ms) s;
     kprint (bytes ''s\<newline>'') s }"

section \<open>Truth values and partitions\<close>

datatype boolean = FALSE | TRUE

definition boolean_to_string :: "boolean \<Rightarrow> u8 list" where
  "boolean_to_string b = (case b of TRUE \<Rightarrow> bytes ''true'' | FALSE \<Rightarrow> bytes ''false'')"

definition print_bool :: "u8 list \<Rightarrow> boolean \<Rightarrow> console \<Rightarrow> console option" where
  "print_bool name value s = do {
     s \<leftarrow> kprint name s;
     s \<leftarrow> kprint (bytes '' = '') s;
     s \<leftarrow> kprint (boolean_to_string value) s;
     kprint (bytes ''\<newline>'') s }"

record part_entry_t =
  pe_type :: u8
  pe_lba_start :: u32
  pe_sectors :: u32

text \<open>Entry \<^term>\<open>i\<close> of the partition table in a boot sector, with the fields that are printed.\<close>

definition part_entry :: "u8 list \<Rightarrow> nat \<Rightarrow> part_entry_t" where
  "part_entry buf i = \<lparr>pe_type = buf ! (446 + 16 * i + 4), pe_lba_start = le32 buf (446 + 16 * i + 8),
     pe_sectors = le32 buf (446 + 16 * i + 12)\<rparr>"

definition print_part :: "u8 list \<Rightarrow> nat \<Rightarrow> console \<Rightarrow> console option" where
  "print_part buf i s = do {
     let p = part_entry buf i;
     s \<leftarrow> kprint (bytes ''part '') s;
     s \<leftarrow> kprint_uint (of_nat i) s;
     s \<leftarrow> kprint (bytes '': type '') s;
     s \<leftarrow> kprinthex (ucast (pe_type p)) s;
     s \<leftarrow> kprint (bytes '' start '') s;
     s \<leftarrow> kprint_uint (pe_lba_start p) s;
     s \<leftarrow> kprint (bytes '' sectors '') s;
     s \<leftarrow> kprint_uint (pe_sectors p) s;
     kprint (bytes ''\<newline>'') s }"

text \<open>The disk's read operation, its state and the uninitialised buffer are parameters.\<close>

definition dump_partitions ::
  "(u8 list \<Rightarrow> u32 \<Rightarrow> 'd \<Rightarrow> bool \<times> u8 list \<times> 'd) \<Rightarrow> u8 list \<Rightarrow> 'd \<Rightarrow> console \<Rightarrow> (console \<times> 'd) option" where
  "dump_partitions read buf d s =
     (let (ok, buf, d) = read buf 0 d
      in if \<not> ok then Some (s, d)
         else map_option (\<lambda>s. (s, d)) (fold (\<lambda>i s. s \<bind> print_part buf i) [0..<4] (Some s)))"

section \<open>What is printed\<close>

definition rstrip :: "u8 list \<Rightarrow> u8 list" where
  "rstrip t = rev (dropWhile (\<lambda>c. c = 32) (rev t))"

lemma trim_start_drop: "drop (trim_start b i) b = dropWhile (\<lambda>c. c = 32) (drop i b)"
proof (induction b i rule: trim_start.induct)
  case (1 b i)
  show ?case
  proof (cases "i < length b \<and> b ! i = 32")
    case True
    then have "drop i b = 32 # drop (i + 1) b" by (metis Cons_nth_drop_Suc Suc_eq_plus1)
    then show ?thesis using 1 True by (subst trim_start.simps) simp
  next
    case False
    then have "dropWhile (\<lambda>c. c = 32) (drop i b) = drop i b"
      by (cases "i < length b") (simp_all add: Cons_nth_drop_Suc [symmetric])
    moreover have "trim_start b i = i" using False by (subst trim_start.simps) auto
    ultimately show ?thesis by simp
  qed
qed

lemma trim_end_strips:
  "takeWhile (\<lambda>c. c \<noteq> 0) s = t \<Longrightarrow> t = [] \<or> hd t \<noteq> 32 \<Longrightarrow>
     takeWhile (\<lambda>c. c \<noteq> 0) (trim_end s (int (length t) - 1)) = rstrip t"
proof (induction t arbitrary: s rule: rev_induct)
  case Nil
  then show ?case by (subst trim_end.simps) (simp add: rstrip_def)
next
  case (snoc c t)
  have len: "length t < length s" using snoc.prems(1) length_takeWhile_le [of "\<lambda>c. c \<noteq> 0" s] by simp
  have pre: "take (length t) s = t" "s ! length t = c" "\<forall>x \<in> set t. x \<noteq> 0"
    using snoc.prems(1) takeWhile_eq_take [of "\<lambda>c. c \<noteq> 0" s] takeWhile_nth [of "length t" "\<lambda>c. c \<noteq> 0" s] set_takeWhileD [of _ "\<lambda>c. c \<noteq> 0" s]
    by (auto simp: take_Suc_conv_app_nth [OF len])
  show ?case
  proof (cases "t \<noteq> [] \<and> c = 32")
    case True
    have "s[length t := 0] = t @ 0 # drop (Suc (length t)) s" using pre(1) len by (simp add: upd_conv_take_nth_drop)
    then have "takeWhile (\<lambda>c. c \<noteq> 0) (s[length t := 0]) = t" using pre(3) by (simp add: takeWhile_append2)
    moreover have "t = [] \<or> hd t \<noteq> 32" using snoc.prems(2) True by simp
    ultimately have "takeWhile (\<lambda>c. c \<noteq> 0) (trim_end (s[length t := 0]) (int (length t) - 1)) = rstrip t" by (rule snoc.IH)
    with True pre(2) show ?thesis by (subst trim_end.simps) (simp add: rstrip_def)
  next
    case False
    then have "trim_end s (int (length (t @ [c])) - 1) = s" using pre(2) by (subst trim_end.simps) auto
    moreover have "c \<noteq> 32" using False snoc.prems(2) by auto
    ultimately show ?thesis using snoc.prems(1) by (simp add: rstrip_def)
  qed
qed

text \<open>
  The processor's name that \<^verbatim>\<open>cpuinfo\<close> prints, as left in the buffer by the two in-place loops, is the
  brand string up to its NUL without the blanks at both ends, for every answer of \<^verbatim>\<open>cpuid\<close>,
  a brand of blanks only included.
\<close>

theorem cpuinfo_trims_brand:
  "takeWhile (\<lambda>c. c \<noteq> 0) (trimmed_brand (brand_string cpuid))
     = rstrip (takeWhile (\<lambda>c. c \<noteq> 0) (dropWhile (\<lambda>c. c = 32) (brand_string cpuid)))"
proof -
  define b where "b = dropWhile (\<lambda>c. c = 32) (brand_string cpuid)"
  have h: "hd b \<noteq> 32" if "b \<noteq> []" using hd_dropWhile [of "\<lambda>c. c = 32" "brand_string cpuid"] that by (simp add: b_def)
  have "takeWhile (\<lambda>c. c \<noteq> 0) b = [] \<or> hd (takeWhile (\<lambda>c. c \<noteq> 0) b) \<noteq> 32" using h by (cases b) auto
  then have "takeWhile (\<lambda>c. c \<noteq> 0) (trim_end b (int (length (takeWhile (\<lambda>c. c \<noteq> 0) b)) - 1)) = rstrip (takeWhile (\<lambda>c. c \<noteq> 0) b)"
    by (intro trim_end_strips refl)
  then show ?thesis by (simp only: trimmed_brand_def trim_start_drop drop_0 Let_def b_def)
qed

subsection \<open>The uptime\<close>

definition decimal :: "u64 \<Rightarrow> u8 list" where
  "decimal v = itoa_unsigned v Decimal"

definition pad3 :: "u64 \<Rightarrow> u8 list" where
  "pad3 v = (if v < 100 then bytes ''0'' else []) @ (if v < 10 then bytes ''0'' else []) @ decimal v"

definition uptime_text :: "u64 \<Rightarrow> u64 \<Rightarrow> u64 \<Rightarrow> u64 \<Rightarrow> u8 list" where
  "uptime_text h m sec ms = bytes ''Uptime     : '' @ (if h \<noteq> 0 then decimal h @ bytes ''h '' else [])
     @ (if h \<noteq> 0 \<or> m \<noteq> 0 then decimal m @ bytes ''m '' else []) @ decimal sec @ bytes ''.'' @ pad3 ms @ bytes ''s\<newline>''"

lemma itoa_signed_uint: "itoa_signed (uint v) = decimal v" for v :: u64
proof -
  have "\<not> uint v < 0" "(of_int (uint v) :: u64) = v" "uint v = 0 \<longleftrightarrow> v = 0" by (simp_all add: uint_0_iff)
  then show ?thesis by (simp only: itoa_signed_def decimal_def itoa_unsigned_def if_False) simp
qed

lemma sint_low_half: "v < 2 ^ 31 \<Longrightarrow> sint (ucast v :: u32) = uint v" for v :: u64
proof -
  assume v: "v < 2 ^ 31"
  then have n: "uint v < 2 ^ 31" by (simp add: word_less_def)
  then have "take_bit 32 (uint v) = uint v" by (intro take_bit_int_eq_self) simp_all
  then have u: "uint (ucast v :: u32) = uint v" by (simp only: unsigned_ucast_eq) simp
  have "signed_take_bit 31 (uint v) = uint v" using n by (intro signed_take_bit_int_eq_self) (simp_all add: order_trans [OF _ uint_ge_0])
  then show ?thesis unfolding sint_uint u by simp
qed

lemma kprint_uint_small: "v < 2 ^ 31 \<Longrightarrow> kprint_uint (ucast v) s = kprint (decimal v) s" for v :: u64
proof -
  assume v: "v < 2 ^ 31"
  have "- (2 ^ 31) < uint v" by (rule less_le_trans [OF _ uint_ge_0]) simp
  moreover have "uint v < 2 ^ 31" using v by (simp add: word_less_def)
  ultimately have "itoa (uint v) Decimal = Some (itoa_signed (uint v))" by (rule itoa_decimal)
  then show ?thesis
    unfolding kprint_uint_def sint_low_half [OF v] itoa_signed_uint by simp
qed

lemma kprint_then: "0 \<notin> set t \<Longrightarrow> kprint t s \<bind> (\<lambda>s. kprint u s) = kprint (t @ u) s"
  by (simp add: kprint_append)

lemma decimal_digits: "digits_val Decimal (decimal v) = unat v" "0 \<notin> set (decimal v)" "decimal v \<noteq> []"
proof -
  show "digits_val Decimal (decimal v) = unat v" by (simp add: decimal_def itoa_unsigned_val)
  have "list_all (is_digit Decimal) (decimal v)" by (simp add: decimal_def itoa_unsigned_val)
  then show "0 \<notin> set (decimal v)" by (auto simp: list_all_iff is_digit_def)
  show "decimal v \<noteq> []" by (subst decimal_def, subst itoa_unsigned_rev, subst unsigned_loop.simps) (simp add: unat_eq_0)
qed

text \<open>A sequence of printing calls that prints a text without NUL.\<close>

definition prints :: "(console \<Rightarrow> console option) \<Rightarrow> u8 list \<Rightarrow> bool" where
  "prints f t \<longleftrightarrow> 0 \<notin> set t \<and> (\<forall>s. f s = kprint t s)"

lemma prints_text: "0 \<notin> set t \<Longrightarrow> prints (kprint t) t"
  by (simp add: prints_def)

lemma prints_nothing: "prints (\<lambda>s. Some s) []"
  by (simp add: prints_def)

lemma prints_bind: "prints f t \<Longrightarrow> prints g u \<Longrightarrow> prints (\<lambda>s. f s \<bind> g) (t @ u)"
  by (auto simp: prints_def kprint_append intro!: Option.bind_cong)

lemma prints_if: "(b \<Longrightarrow> prints f t) \<Longrightarrow> (\<not> b \<Longrightarrow> prints g u) \<Longrightarrow> prints (\<lambda>s. if b then f s else g s) (if b then t else u)"
  by (simp add: prints_def)

lemma prints_uint: "v < 2 ^ 31 \<Longrightarrow> prints (kprint_uint (ucast v)) (decimal v)" for v :: u64
  by (simp add: prints_def kprint_uint_small decimal_digits)

lemmas prints_rules = prints_bind prints_if prints_nothing prints_uint prints_text


lemma length_decimal: "v < 1000 \<Longrightarrow> length (pad3 v) = 3" for v :: u64
proof -
  assume "v < 1000"
  then have v: "unat v < 1000" by (simp add: word_less_nat_alt)
  have l: "length (unsigned_loop Decimal n) = (if n = 0 then 0 else if n < 10 then 1 else if n < 100 then 2 else 3)" if "n < 1000" for n
    using that by (subst unsigned_loop.simps, subst unsigned_loop.simps, subst unsigned_loop.simps, subst unsigned_loop.simps) auto
  show ?thesis using l [OF v] by (auto simp: pad3_def decimal_def itoa_unsigned_rev word_less_nat_alt unat_eq_0)
qed

text \<open>
  The uptime printed for \<^term>\<open>t\<close> ticks is the mixed-radix notation of \<^term>\<open>t\<close> as milliseconds: hours, minutes
  and seconds in range, a fraction of exactly three digits, leading units that are 0 left out.
  (The clock ticks about 98 times a second, and \<^verbatim>\<open>sleep_s\<close> counts 100 ticks for one.)
\<close>

theorem uptime_denotes:
  assumes "t < 3600000 * 2 ^ 31"
  shows "\<exists>h m sec ms. info_cmd_uptime t s = kprint (uptime_text h m sec ms) s
     \<and> unat t = 3600000 * digits_val Decimal (decimal h) + 60000 * digits_val Decimal (decimal m)
         + 1000 * digits_val Decimal (decimal sec) + digits_val Decimal (decimal ms)
     \<and> m < 60 \<and> sec < 60 \<and> ms < 1000 \<and> length (pad3 ms) = 3"
proof (intro exI conjI)
  let ?h = "t div 3600000" and ?m = "t mod 3600000 div 60000" and ?sec = "t mod 60000 div 1000" and ?ms = "t mod 1000"
  have u: "unat ?h = unat t div 3600000" "unat ?m = unat t mod 3600000 div 60000" "unat ?sec = unat t mod 60000 div 1000"
    "unat ?ms = unat t mod 1000" by (simp_all add: unat_div unat_mod)
  have "unat t < 3600000 * 2 ^ 31" using assms by (simp add: word_less_nat_alt)
  then have "unat t div 3600000 < 2 ^ 31" by (simp add: less_mult_imp_div_less mult.commute)
  then have h: "?h < 2 ^ 31" by (simp add: word_less_nat_alt u)
  have "unat t mod 3600000 div 60000 < 60" "unat t mod 60000 div 1000 < 60" by (simp_all add: less_mult_imp_div_less)
  then show m: "?m < 60" and sec: "?sec < 60" by (simp_all add: word_less_nat_alt u)
  show ms: "?ms < 1000" by (simp add: word_less_nat_alt u)
  have small: "?m < 2 ^ 31" "?sec < 2 ^ 31" "?ms < 2 ^ 31" using m sec ms by (auto intro: less_trans)
  show "length (pad3 ?ms) = 3" by (rule length_decimal [OF ms])
  have "x = 3600000 * (x div 3600000) + 60000 * (x mod 3600000 div 60000) + 1000 * (x mod 60000 div 1000) + x mod 1000" for x :: nat
  proof -
    have "x mod 3600000 mod 60000 = x mod 60000" "x mod 60000 mod 1000 = x mod 1000" by (simp_all add: mod_mod_cancel)
    then show ?thesis
      using mult_div_mod_eq [of 3600000 x] mult_div_mod_eq [of 60000 "x mod 3600000"] mult_div_mod_eq [of 1000 "x mod 60000"]
      by linarith
  qed
  then show "unat t = 3600000 * digits_val Decimal (decimal ?h) + 60000 * digits_val Decimal (decimal ?m)
         + 1000 * digits_val Decimal (decimal ?sec) + digits_val Decimal (decimal ?ms)"
    by (simp only: decimal_digits u)
  show "info_cmd_uptime t s = kprint (uptime_text ?h ?m ?sec ?ms) s"
  proof -
    have "prints (info_cmd_uptime t) (uptime_text ?h ?m ?sec ?ms)"
      unfolding info_cmd_uptime_def uptime_text_def pad3_def Let_def append_assoc
      by (intro prints_rules h small) (simp_all add: bytes_def of_char_def)
    then show ?thesis by (simp add: prints_def)
  qed
qed

theorem uptime_denotes_witness:
  "\<forall>s. \<exists>h m sec ms. info_cmd_uptime 3723045 s = kprint (uptime_text h m sec ms) s
     \<and> 3723045 = 3600000 * digits_val Decimal (decimal h) + 60000 * digits_val Decimal (decimal m)
         + 1000 * digits_val Decimal (decimal sec) + digits_val Decimal (decimal ms) \<and> m < 60"
proof
  fix s
  have "(3723045 :: u64) < 3600000 * 2 ^ 31" and u: "unat (3723045 :: u64) = 3723045" by simp_all
  from uptime_denotes [OF this(1), of s, unfolded u]
  show "\<exists>h m sec ms. info_cmd_uptime 3723045 s = kprint (uptime_text h m sec ms) s
     \<and> 3723045 = 3600000 * digits_val Decimal (decimal h) + 60000 * digits_val Decimal (decimal m)
         + 1000 * digits_val Decimal (decimal sec) + digits_val Decimal (decimal ms) \<and> m < 60"
    by blast
qed

end
