(* ===== verification/Pci.thy ===== *)
theory Pci
  imports Prelude
begin

text \<open>
  The PCI bus, \<^verbatim>\<open>drivers/pci/pci.c\<close>.  The two port functions it calls, \<^verbatim>\<open>outportl\<close> and
  \<^verbatim>\<open>inportl\<close>, are not part of the repository: they are parameters, over the state of the machine.
  What the configuration mechanism of the standard promises of them is the predicate \<^verbatim>\<open>config_mechanism\<close>.
\<close>

record 'd pci_ports =
  outportl :: "u16 \<Rightarrow> u32 \<Rightarrow> 'd \<Rightarrow> 'd"
  inportl :: "u16 \<Rightarrow> 'd \<Rightarrow> u32 \<times> 'd"

definition PCI_CONFIG_ADDRESS :: u16 where "PCI_CONFIG_ADDRESS = 0xCF8"
definition PCI_CONFIG_DATA :: u16 where "PCI_CONFIG_DATA = 0xCFC"
definition PCI_VENDOR_ID :: u32 where "PCI_VENDOR_ID = 0x00"
definition PCI_DEVICE_ID :: u32 where "PCI_DEVICE_ID = 0x02"

definition pci_get_address :: "u32 \<Rightarrow> u32 \<Rightarrow> u32 \<Rightarrow> u32 \<Rightarrow> u32" where
  "pci_get_address bus device func offset =
     push_bit 31 1 OR push_bit 16 bus OR push_bit 11 device OR push_bit 8 func OR (offset AND 0xFC)"

definition pci_read_field :: "'d pci_ports \<Rightarrow> u32 \<Rightarrow> u32 \<Rightarrow> u32 \<Rightarrow> u32 \<Rightarrow> u32 \<Rightarrow> 'd \<Rightarrow> u32 \<times> 'd" where
  "pci_read_field io bus device func offset sz d =
     (let d = outportl io PCI_CONFIG_ADDRESS (pci_get_address bus device func offset) d;
          (data, d) = inportl io PCI_CONFIG_DATA d
      in if sz = 1 then (drop_bit (8 * unat (offset AND 3)) data AND 0xFF, d)
         else if sz = 2 then (drop_bit (8 * unat (offset AND 2)) data AND 0xFFFF, d)
         else (data, d))"

definition pci_write_field :: "'d pci_ports \<Rightarrow> u32 \<Rightarrow> u32 \<Rightarrow> u32 \<Rightarrow> u32 \<Rightarrow> u32 \<Rightarrow> u32 \<Rightarrow> 'd \<Rightarrow> 'd" where
  "pci_write_field io bus device func offset sz val d =
     (let d = outportl io PCI_CONFIG_ADDRESS (pci_get_address bus device func offset) d
      in outportl io PCI_CONFIG_DATA val d)"

text \<open>One round of the scan; the callback gets the numbers of the device and the caller's pointer.\<close>

definition pci_probe ::
  "'d pci_ports \<Rightarrow> (u32 \<Rightarrow> u32 \<Rightarrow> u16 \<Rightarrow> u16 \<Rightarrow> u64 \<Rightarrow> 'd \<Rightarrow> 'd) \<Rightarrow> u64 \<Rightarrow> u32 \<Rightarrow> u32 \<Rightarrow> 'd \<Rightarrow> 'd" where
  "pci_probe io callback extra bus device d =
     (let (v, d) = pci_read_field io bus device 0 PCI_VENDOR_ID 2 d;
          vendor_id = (ucast v :: u16)
      in if vendor_id = 0xFFFF then d
         else let (i, d) = pci_read_field io bus device 0 PCI_DEVICE_ID 2 d
              in callback bus device vendor_id (ucast i) extra d)"

definition pci_scan :: "'d pci_ports \<Rightarrow> (u32 \<Rightarrow> u32 \<Rightarrow> u16 \<Rightarrow> u16 \<Rightarrow> u64 \<Rightarrow> 'd \<Rightarrow> 'd) \<Rightarrow> u64 \<Rightarrow> 'd \<Rightarrow> 'd" where
  "pci_scan io callback extra d =
     fold (\<lambda>bus. fold (\<lambda>device. pci_probe io callback extra (of_nat bus) (of_nat device)) [0..<32]) [0..<256] d"

section \<open>Addresses\<close>

lemma small_bit: "x < 2 ^ k \<Longrightarrow> bit x n \<Longrightarrow> n < k" for x :: u32
  by (metis bit_take_bit_iff less_mask_eq take_bit_eq_mask)

text \<open>
  The configuration address of a function on a bus keeps its parts apart: each is read back from its field, the
  enable bit is set, and the register is rounded down to four bytes.
\<close>

theorem pci_address_roundtrip:
  assumes "bus < 256" and "device < 32" and "func < 8" and "offset < 256"
  shows "drop_bit 16 (pci_get_address bus device func offset) AND 0xFF = bus
     \<and> drop_bit 11 (pci_get_address bus device func offset) AND 0x1F = device
     \<and> drop_bit 8 (pci_get_address bus device func offset) AND 0x07 = func
     \<and> pci_get_address bus device func offset AND 0xFF = offset AND 0xFC
     \<and> bit (pci_get_address bus device func offset) 31"
proof -
  have b: "bit bus n \<Longrightarrow> n < 8" "bit device n \<Longrightarrow> n < 5" "bit func n \<Longrightarrow> n < 3" "bit offset n \<Longrightarrow> n < 8" for n
    using assms small_bit [of bus 8 n] small_bit [of device 5 n] small_bit [of func 3 n] small_bit [of offset 8 n] by simp_all
  have m: "(0xFF :: u32) = mask 8" "(0x1F :: u32) = mask 5" "(0x07 :: u32) = mask 3"
    by (simp_all add: mask_eq_exp_minus_1)
  have fc: "bit (offset AND 0xFC) n \<longleftrightarrow> bit offset n \<and> 2 \<le> n" for n
  proof -
    have e: "(0xFC :: u32) = push_bit 2 (mask 6)" by (simp add: mask_eq_exp_minus_1)
    show ?thesis unfolding e using b(4) [of n] by (auto simp: bit_simps simp del: push_bit_numeral)
  qed
  have a: "bit (pci_get_address bus device func offset) n \<longleftrightarrow>
      n = 31 \<or> 16 \<le> n \<and> n < 32 \<and> bit bus (n - 16) \<or> 11 \<le> n \<and> n < 32 \<and> bit device (n - 11) \<or> 8 \<le> n \<and> n < 32 \<and> bit func (n - 8)
      \<or> bit offset n \<and> 2 \<le> n" for n
    unfolding pci_get_address_def bit_or_iff fc by (auto simp: bit_simps simp del: push_bit_numeral push_bit_of_1)
  show ?thesis
  proof (intro conjI bit_word_eqI)
    fix n
    show "bit (drop_bit 16 (pci_get_address bus device func offset) AND 0xFF) n = bit bus n"
      unfolding m bit_and_iff bit_drop_bit_eq comp_def a bit_mask_iff using b(1) [of n] b(2) [of "5 + n"] b(3) [of "8 + n"] b(4) [of "16 + n"] by auto
    show "bit (drop_bit 11 (pci_get_address bus device func offset) AND 0x1F) n = bit device n"
      unfolding m bit_and_iff bit_drop_bit_eq comp_def a bit_mask_iff using b(2) [of n] b(3) [of "3 + n"] b(4) [of "11 + n"] by auto
    show "bit (drop_bit 8 (pci_get_address bus device func offset) AND 0x07) n = bit func n"
      unfolding m bit_and_iff bit_drop_bit_eq comp_def a bit_mask_iff using b(3) [of n] b(4) [of "8 + n"] by auto
    show "bit (pci_get_address bus device func offset AND 0xFF) n = bit (offset AND 0xFC) n"
    proof -
      have "bit (x AND 0xFF) n \<longleftrightarrow> bit x n \<and> n < 8" for x :: u32 unfolding m by (auto simp: bit_simps)
      moreover have "bit (pci_get_address bus device func offset) n \<longleftrightarrow> bit offset n \<and> 2 \<le> n" if "n < 8"
        using that unfolding a by simp
      ultimately show ?thesis unfolding fc using b(4) [of n] by metis
    qed
    show "bit (pci_get_address bus device func offset) 31" unfolding a by simp
  qed
qed

theorem pci_address_roundtrip_witness:
  "drop_bit 11 (pci_get_address 3 31 7 0x3E) AND 0x1F = 31 \<and> pci_get_address 3 31 7 0x3E AND 0xFF = 0x3C"
  using pci_address_roundtrip [of 3 31 7 "0x3E"] by simp

section \<open>Registers\<close>

text \<open>
  The standard's mechanism: a number written to the address port selects a register of the configuration space
  \<^term>\<open>conf\<close>, the data port reads it, and a number written there replaces the whole register.
\<close>

definition config_mechanism :: "'d pci_ports \<Rightarrow> ('d \<Rightarrow> u32 \<Rightarrow> u32) \<Rightarrow> bool" where
  "config_mechanism io conf \<longleftrightarrow>
     (\<forall>d a v. fst (inportl io PCI_CONFIG_DATA (outportl io PCI_CONFIG_ADDRESS a d)) = conf d a
        \<and> conf (snd (inportl io PCI_CONFIG_DATA (outportl io PCI_CONFIG_ADDRESS a d))) = conf d
        \<and> conf (outportl io PCI_CONFIG_DATA v (outportl io PCI_CONFIG_ADDRESS a d)) = (conf d)(a := v))"

text \<open>Byte \<^term>\<open>offset\<close> of the configuration space of a function.\<close>

definition config_byte :: "(u32 \<Rightarrow> u32) \<Rightarrow> u32 \<Rightarrow> u32 \<Rightarrow> u32 \<Rightarrow> u32 \<Rightarrow> u8" where
  "config_byte conf bus device func offset =
     ucast (drop_bit (8 * unat (offset AND 3)) (conf (pci_get_address bus device func offset)))"

lemma same_register: "offset AND 0xFC = offset' AND 0xFC \<Longrightarrow> pci_get_address bus device func offset = pci_get_address bus device func offset'"
  by (simp add: pci_get_address_def)

lemma pci_read_conf:
  "config_mechanism io conf \<Longrightarrow> conf (snd (pci_read_field io bus device func offset sz d)) = conf d"
  by (simp add: pci_read_field_def config_mechanism_def split_beta Let_def)

text \<open>
  A byte read is the byte at the offset and a word read at an even offset its two bytes, low byte first (at an
  odd offset it is the aligned word around it).  But a write of any size replaces the whole
  four-byte register: writing one byte of it changes the other three.
\<close>

theorem pci_fields:
  assumes "config_mechanism io conf"
  shows "fst (pci_read_field io bus device func offset 1 d) = ucast (config_byte (conf d) bus device func offset)
     \<and> (offset AND 1 = 0 \<longrightarrow> fst (pci_read_field io bus device func offset 2 d)
          = ucast (config_byte (conf d) bus device func offset) OR push_bit 8 (ucast (config_byte (conf d) bus device func (offset OR 1))))
     \<and> fst (pci_read_field io bus device func (offset OR 1) 2 d) = fst (pci_read_field io bus device func (offset AND NOT 1) 2 d)
     \<and> conf (pci_write_field io bus device func offset sz v d) = (conf d)(pci_get_address bus device func offset := v)"
proof -
  let ?a = "pci_get_address bus device func offset"
  have r: "fst (pci_read_field io bus device func off sz d) =
      (if sz = 1 then drop_bit (8 * unat (off AND 3)) (conf d (pci_get_address bus device func off)) AND 0xFF
       else if sz = 2 then drop_bit (8 * unat (off AND 2)) (conf d (pci_get_address bus device func off)) AND 0xFFFF
       else conf d (pci_get_address bus device func off))" for off sz
    using assms by (simp add: pci_read_field_def config_mechanism_def split_beta Let_def)
  have m: "(0xFF :: u32) = mask 8" "(0xFFFF :: u32) = mask 16" by (simp_all add: mask_eq_exp_minus_1)
  let ?d = "conf d ?a"
  have b1: "bit (1 :: u32) n \<longleftrightarrow> n = 0" for n by (rule bit_1_iff)
  have b2: "bit (2 :: u32) n \<longleftrightarrow> n = 1" for n using bit_exp_iff [of 1 n, where ?'a = u32] by auto
  have b3: "bit (3 :: u32) n \<longleftrightarrow> n = 0 \<or> n = 1" for n
  proof -
    have e: "(3 :: u32) = mask 2" by (simp add: mask_eq_exp_minus_1)
    show ?thesis unfolding e by (auto simp: bit_mask_iff)
  qed
  have e: "(0xFC :: u32) = push_bit 2 (mask 6)" by (simp add: mask_eq_exp_minus_1)
  have b252: "bit (0xFC :: u32) n \<Longrightarrow> 2 \<le> n" for n unfolding e by (auto simp: bit_simps simp del: push_bit_numeral)
  then have b252_0: "bit (0xFC :: u32) n \<Longrightarrow> 0 < n" for n by force
  have byte: "x AND 0xFF = ucast (ucast x :: u8)" for x :: u32
    unfolding m by (rule bit_word_eqI) (auto simp: bit_simps)
  have al: "(offset OR 1) AND 0xFC = offset AND 0xFC" "(offset AND NOT 1) AND 0xFC = offset AND 0xFC"
  proof -
    show "(offset OR 1) AND 0xFC = offset AND 0xFC"
    proof (rule bit_word_eqI)
      fix n show "bit ((offset OR 1) AND 0xFC) n = bit (offset AND 0xFC) n"
        using b252_0 [of n] unfolding bit_and_iff bit_or_iff b1 by blast
    qed
    show "(offset AND NOT 1) AND 0xFC = offset AND 0xFC"
    proof (rule bit_word_eqI)
      fix n assume "n < LENGTH(32)"
      then show "bit ((offset AND NOT 1) AND 0xFC) n = bit (offset AND 0xFC) n"
        using b252_0 [of n] unfolding bit_and_iff bit_not_iff b1 by (auto simp: possible_bit_def)
    qed
  qed
  note reg = al(1) [THEN same_register, of bus device func] al(2) [THEN same_register, of bus device func]
  have two: "offset AND 2 = (if bit offset 1 then 2 else 0)"
  proof (rule bit_word_eqI)
    fix n show "bit (offset AND 2) n = bit (if bit offset 1 then 2 else (0 :: u32)) n"
      unfolding bit_and_iff b2 by (cases "bit offset 1") (auto simp only: if_True if_False b2 bit_0_eq bot_apply bot_bool_def)
  qed
  have odd: "(offset OR 1) AND 2 = offset AND 2" "(offset AND NOT 1) AND 2 = offset AND 2"
  proof -
    have "bit ((offset OR 1) AND 2) n = bit (offset AND 2) n" for n unfolding bit_and_iff bit_or_iff b1 b2 by auto
    then show "(offset OR 1) AND 2 = offset AND 2" by (intro bit_word_eqI)
    have "bit ((offset AND NOT 1) AND 2) n = bit (offset AND 2) n" if "n < 32" for n
      unfolding bit_and_iff bit_not_iff b1 b2 using that by (auto simp: possible_bit_def)
    then show "(offset AND NOT 1) AND 2 = offset AND 2" by (intro bit_word_eqI) simp
  qed
  have word: "drop_bit k ?d AND 0xFFFF = ucast (ucast (drop_bit k ?d) :: u8) OR push_bit 8 (ucast (ucast (drop_bit (k + 8) ?d) :: u8))" for k
    unfolding m by (rule bit_word_eqI) (auto simp: bit_simps not_less add.commute add.left_commute)
  have "fst (pci_read_field io bus device func offset 2 d)
        = ucast (config_byte (conf d) bus device func offset) OR push_bit 8 (ucast (config_byte (conf d) bus device func (offset OR 1)))"
    if even: "offset AND 1 = 0"
  proof -
    have "\<not> bit offset 0"
    proof -
      have "bit (offset AND 1) 0 = bit (0 :: u32) 0" using even by simp
      then show ?thesis unfolding bit_and_iff b1 by simp
    qed
    then have "bit (offset AND 3) n = bit (offset AND 2) n" "bit ((offset OR 1) AND 3) n = bit ((offset AND 2) OR 1) n" for n
      unfolding bit_and_iff bit_or_iff b1 b2 b3 by auto
    then have "offset AND 3 = offset AND 2" "(offset OR 1) AND 3 = (offset AND 2) OR 1" by (auto intro: bit_word_eqI)
    then show ?thesis unfolding r config_byte_def reg by (simp add: word two)
  qed
  moreover have "conf (pci_write_field io bus device func offset sz v d) = (conf d)(?a := v)"
    using assms by (simp add: pci_write_field_def config_mechanism_def Let_def)
  moreover have "fst (pci_read_field io bus device func (offset OR 1) 2 d) = fst (pci_read_field io bus device func (offset AND NOT 1) 2 d)"
    unfolding r reg odd by (cases "(2 :: u32) = 1") simp_all
  moreover have "fst (pci_read_field io bus device func offset 1 d) = ucast (config_byte (conf d) bus device func offset)"
    by (simp add: r byte config_byte_def)
  ultimately show ?thesis by blast
qed

text \<open>A machine that implements the mechanism: the selected address, the configuration space and a log.\<close>

record pci_machine =
  pm_address :: u32
  pm_space :: "u32 \<Rightarrow> u32"
  pm_log :: "(u32 \<times> u32 \<times> u16 \<times> u16) list"

definition machine_ports :: "pci_machine pci_ports" where
  "machine_ports = \<lparr>
     outportl = (\<lambda>port v d. if port = PCI_CONFIG_ADDRESS then d\<lparr>pm_address := v\<rparr>
                             else if port = PCI_CONFIG_DATA then d\<lparr>pm_space := (pm_space d)(pm_address d := v)\<rparr> else d),
     inportl = (\<lambda>port d. (if port = PCI_CONFIG_DATA then pm_space d (pm_address d) else 0xFFFFFFFF, d))\<rparr>"

lemma machine_mechanism: "config_mechanism machine_ports pm_space"
  by (simp add: config_mechanism_def machine_ports_def PCI_CONFIG_ADDRESS_def PCI_CONFIG_DATA_def)

definition gpu_machine :: pci_machine where
  "gpu_machine = \<lparr>pm_address = 0, pm_space = (\<lambda>a. if a = 0x80001800 then 0x10501AF4 else 0xFFFFFFFF), pm_log = []\<rparr>"

theorem pci_fields_witness:
  "fst (pci_read_field machine_ports 0 3 0 2 2 gpu_machine) = 0x1050
   \<and> pm_space (pci_write_field machine_ports 0 3 0 1 1 0 gpu_machine) 0x80001800 = 0"
  using pci_fields [OF machine_mechanism, of 0 3 0 2 gpu_machine 1 0] pci_fields [OF machine_mechanism, of 0 3 0 1 gpu_machine 1 0]
  by (simp add: config_byte_def gpu_machine_def pci_get_address_def)

section \<open>The scan\<close>

definition vendor_of :: "(u32 \<Rightarrow> u32) \<Rightarrow> u32 \<Rightarrow> u32 \<Rightarrow> u16" where
  "vendor_of conf bus device = ucast (conf (pci_get_address bus device 0 0))"

definition device_id_of :: "(u32 \<Rightarrow> u32) \<Rightarrow> u32 \<Rightarrow> u32 \<Rightarrow> u16" where
  "device_id_of conf bus device = ucast (drop_bit 16 (conf (pci_get_address bus device 0 0)))"

definition present_devices :: "(u32 \<Rightarrow> u32) \<Rightarrow> (u32 \<times> u32 \<times> u16 \<times> u16) list" where
  "present_devices conf =
     concat (map (\<lambda>bus. concat (map (\<lambda>device.
        if vendor_of conf (of_nat bus) (of_nat device) = 0xFFFF then []
        else [(of_nat bus, of_nat device, vendor_of conf (of_nat bus) (of_nat device), device_id_of conf (of_nat bus) (of_nat device))])
      [0..<32])) [0..<256])"

lemma fold_appends:
  assumes "\<And>x d. x \<in> set xs \<Longrightarrow> J d \<Longrightarrow> J (f x d) \<and> log (f x d) = log d @ g x" and "J d"
  shows "J (fold f xs d) \<and> log (fold f xs d) = log d @ concat (map g xs)"
  using assms by (induction xs arbitrary: d) auto

text \<open>
  When the ports implement the standard's mechanism and the callback, which leaves the configuration space
  alone, records its arguments, \<^verbatim>\<open>pci_scan\<close> calls it once for every function 0 that answers, in the
  order of buses and devices, with its vendor and device identifiers, and for nothing else.
\<close>

theorem pci_scan_visits:
  assumes "config_mechanism io conf"
    and "\<And>b dv v i d. conf (callback b dv v i extra d) = conf d \<and> log (callback b dv v i extra d) = log d @ [(b, dv, v, i)]"
    and "\<And>port v d. log (outportl io port v d) = log d" and "\<And>port d. log (snd (inportl io port d)) = log d"
  shows "log (pci_scan io callback extra d) = log d @ present_devices (conf d)"
proof -
  let ?c = "conf d"
  have quiet: "conf (snd (pci_read_field io b dv fn off sz d)) = conf d" "log (snd (pci_read_field io b dv fn off sz d)) = log d" for b dv fn off sz d
    using assms(1,3,4) by (simp_all add: pci_read_field_def config_mechanism_def split_beta Let_def)
  have m: "(0xFFFF :: u32) = mask 16" by (simp add: mask_eq_exp_minus_1)
  have low: "ucast (x AND 0xFFFF) = (ucast x :: u16)" for x :: u32 unfolding m by (rule bit_word_eqI) (auto simp: bit_simps)
  have addr: "pci_get_address b dv 0 2 = pci_get_address b dv 0 0" for b dv by (rule same_register) simp
  have val: "ucast (fst (pci_read_field io b dv 0 PCI_VENDOR_ID 2 d)) = vendor_of (conf d) b dv"
    "ucast (fst (pci_read_field io b dv 0 PCI_DEVICE_ID 2 d)) = device_id_of (conf d) b dv" for b dv d
    using assms(1) by (simp_all add: pci_read_field_def config_mechanism_def split_beta Let_def PCI_VENDOR_ID_def PCI_DEVICE_ID_def
        vendor_of_def device_id_of_def addr low)
  have probe: "conf (pci_probe io callback extra b dv e) = conf e \<and> log (pci_probe io callback extra b dv e) = log e
      @ (if vendor_of (conf e) b dv = 0xFFFF then [] else [(b, dv, vendor_of (conf e) b dv, device_id_of (conf e) b dv)])" for b dv e
    using assms(2) quiet val by (simp add: pci_probe_def split_beta Let_def)
  have "conf (fold (\<lambda>device. pci_probe io callback extra b (of_nat device)) [0..<32] e) = ?c
     \<and> log (fold (\<lambda>device. pci_probe io callback extra b (of_nat device)) [0..<32] e) = log e
        @ concat (map (\<lambda>device. if vendor_of ?c b (of_nat device) = 0xFFFF then []
             else [(b, of_nat device, vendor_of ?c b (of_nat device), device_id_of ?c b (of_nat device))]) [0..<32])"
    if "conf e = ?c" for b e
    using that probe by (intro fold_appends [where J = "\<lambda>e. conf e = ?c"]) auto
  then show ?thesis
    unfolding pci_scan_def present_devices_def
    by (intro fold_appends [where J = "\<lambda>e. conf e = ?c", THEN conjunct2]) auto
qed

theorem pci_scan_visits_witness:
  "(0, 3, 0x1AF4, 0x1050) \<in> set (pm_log (pci_scan machine_ports (\<lambda>b dv v i e d. d\<lparr>pm_log := pm_log d @ [(b, dv, v, i)]\<rparr>) 0 gpu_machine))"
proof -
  have "pm_log (pci_scan machine_ports (\<lambda>b dv v i e d. d\<lparr>pm_log := pm_log d @ [(b, dv, v, i)]\<rparr>) 0 gpu_machine)
      = pm_log gpu_machine @ present_devices (pm_space gpu_machine)"
    by (rule pci_scan_visits [OF machine_mechanism]) (simp_all add: machine_ports_def)
  moreover have "(0, 3, 0x1AF4, 0x1050) \<in> set (present_devices (pm_space gpu_machine))"
    unfolding present_devices_def set_concat set_map image_image
    by (rule UN_I [of 0], simp, rule UN_I [of 3], simp)
      (simp add: vendor_of_def device_id_of_def gpu_machine_def pci_get_address_def)
  ultimately show ?thesis by simp
qed

end
