(* ===== verification/Ramfs_Log.thy ===== *)
theory Ramfs_Log
  imports Ramfs Kprint
begin

text \<open>
  What \<^verbatim>\<open>fs/ramfs.c\<close> prints.  Each function of \<^theory_text>\<open>Ramfs\<close> has a companion here that computes, from
  the state before the call, the text the call prints on the console: the messages of the function itself and the
  trace of the children that \<^verbatim>\<open>ramfs_find_node\<close> compares on its way.

  Shown: the trace of one directory names its children in order and stops at the one found.
\<close>

text \<open>Without the debug prefix, which is commented out, the line of a child starts with its index.\<close>

definition child_line :: "nat \<Rightarrow> u8 list \<Rightarrow> u8 list" where
  "child_line i name = (case itoa (int i) Decimal of Some b \<Rightarrow> b | None \<Rightarrow> []) @ bytes '']: '' @ [39] @ name @ [39, 10]"

fun scan_text :: "u8 list \<Rightarrow> u8 list list \<Rightarrow> nat \<Rightarrow> u8 list" where
  "scan_text token [] i = []"
| "scan_text token (name # names) i = child_line i name @ (if name = token then [] else scan_text token names (i + 1))"

function find_text :: "u8 list \<Rightarrow> bool \<Rightarrow> u64 \<Rightarrow> ramfs \<Rightarrow> u8 list" where
  "find_text p create_missing cur s =
     (case next_token p of
        None \<Rightarrow> []
      | Some (token, p') \<Rightarrow>
          if token = [] then find_text p' create_missing cur s
          else scan_text token (map (\<lambda>a. node_name (nodes s a)) (children (nodes s cur))) 0 @
            (case find_child token cur s of
               Some a \<Rightarrow> find_text p' create_missing a s
             | None \<Rightarrow>
                 if \<not> create_missing then []
                 else (case ram_alloc 200 s of
                     None \<Rightarrow> []
                   | Some (new_node, _) \<Rightarrow>
                       if new_node = 0 then []
                       else if RAMFS_MAX_CHILDREN \<le> length (children (nodes s cur)) then bytes ''[DEBUG] DIR FULL!\<newline>''
                       else (case add_dir token cur s of
                           None \<Rightarrow> []
                         | Some (n, s) \<Rightarrow> find_text p' create_missing n s))))"
  by pat_completeness auto
termination
  by (relation "measure (\<lambda>(p, _). length p)") (auto dest: next_token_shorter)

declare find_text.simps [simp del]

definition find_node_text :: "u8 list \<Rightarrow> bool \<Rightarrow> ramfs \<Rightarrow> u8 list" where
  "find_node_text path create_missing s =
     (if ramfs_root s = 0 then bytes ''[DEBUG] ramfs_root is NULL!\<newline>''
      else if path = [] \<or> path = [slash] then []
      else find_text (take 255 path) create_missing (ramfs_root s) s)"

definition init_text :: "ramfs \<Rightarrow> u8 list" where
  "init_text s =
     (case ramfs_init s of
        Some s' \<Rightarrow> if ramfs_root s' = 0 then bytes ''[RAMFS] ERROR: kmalloc returned NULL!\<newline>'' else bytes ''[RAMFS] Initialized\<newline>''
      | None \<Rightarrow> [])"

definition mkdir_text :: "u8 list \<Rightarrow> ramfs \<Rightarrow> u8 list" where
  "mkdir_text path s =
     (if ramfs_root s = 0 then []
      else find_node_text path True s @
        (case ramfs_find_node path True s of
           None \<Rightarrow> []
         | Some (node, s) \<Rightarrow>
             (if node = 0 then bytes ''[RAMFS] Failed to mkdir: ''
              else if node_type (nodes s node) \<noteq> RAMFS_DIR then bytes ''[RAMFS] Path exists but not dir: ''
              else bytes ''[RAMFS] mkdir: '') @ path @ [10]))"

definition create_text :: "u8 list \<Rightarrow> ramfs \<Rightarrow> u8 list" where
  "create_text path s =
     (if ramfs_root s = 0 then []
      else
        let path_copy = take 255 path;
            dirname = takeWhile (\<lambda>c. c \<noteq> slash) path_copy;
            filename = drop 1 (dropWhile (\<lambda>c. c \<noteq> slash) path_copy)
        in if slash \<notin> set path_copy \<or> dirname = [] then []
           else if filename = [] then []
           else find_node_text dirname True s @
             (case ramfs_find_node dirname True s of
                None \<Rightarrow> []
              | Some (dir, s) \<Rightarrow>
                  if dir = 0 \<or> node_type (nodes s dir) \<noteq> RAMFS_DIR then []
                  else if find_child filename dir s \<noteq> None then bytes ''[RAMFS] File exists: '' @ path @ [10]
                  else if RAMFS_MAX_CHILDREN \<le> length (children (nodes s dir)) then bytes ''[RAMFS] ERR: Dir full\<newline>''
                  else bytes ''[RAMFS] Created file: '' @ path @ [10]))"

definition delete_text :: "u8 list \<Rightarrow> ramfs \<Rightarrow> u8 list" where
  "delete_text path s =
     (if ramfs_root s = 0 then []
      else find_node_text path False s @
        (case ramfs_find_node path False s of
           None \<Rightarrow> []
         | Some (node, s) \<Rightarrow>
             (if node = 0 \<or> node_type (nodes s node) \<noteq> RAMFS_FILE then bytes ''[RAMFS] Not found or not file: ''
              else if node_parent (nodes s node) = 0 then bytes ''[RAMFS] File has no parent: ''
              else if node \<notin> set (children (nodes s (node_parent (nodes s node))))
              then bytes ''[RAMFS] File not found in parent'' @ [39] @ bytes ''s children: ''
              else bytes ''[RAMFS] Deleted file: '') @ path @ [10]))"

definition read_text :: "u8 list \<Rightarrow> ramfs \<Rightarrow> u8 list" where
  "read_text path s =
     find_node_text path False s @
       (case ramfs_find_node path False s of
          None \<Rightarrow> []
        | Some (node, s) \<Rightarrow>
            if node = 0 \<or> node_type (nodes s node) \<noteq> RAMFS_FILE then bytes ''[RAMFS] Not found or not file: '' @ path @ [10]
            else bytes ''[RAMFS] Read: '' @ node_name (nodes s node) @ bytes '' => ''
                   @ contents_of s (node_data (nodes s node)) @ [10])"

definition list_text :: "u8 list \<Rightarrow> ramfs \<Rightarrow> u8 list" where
  "list_text path s =
     (let dirpath = (if path = [] then [slash] else path)
      in find_node_text dirpath False s @
        (case ramfs_list_dir path s of
           None \<Rightarrow> []
         | Some None \<Rightarrow> bytes ''[RAMFS] Dir not found: '' @ dirpath @ [10]
         | Some (Some es) \<Rightarrow>
             bytes ''[RAMFS] ls '' @ dirpath @ [10]
             @ concat (map (\<lambda>(name, dir). bytes ''  '' @ name @ (if dir then [slash] else []) @ [10]) es)))"

section \<open>Lemmas\<close>

lemma scan_text_enumerate:
  "scan_text token names i =
     concat (map (\<lambda>(k, name). child_line k name)
       (enumerate i (takeWhile (\<lambda>n. n \<noteq> token) names @ (if token \<in> set names then [token] else []))))"
  by (induction names arbitrary: i) auto

end
