(* ===== verification/Port_Io.thy ===== *)
theory Port_Io
  imports Prelude
begin

text \<open>
  The I/O ports as a driver sees them (\<^verbatim>\<open>kernel_lib/io.h\<close>): each read takes the next answer of the
  devices, which is a parameter, and every access is recorded, the latest last.  A busy-wait loop is
  recorded with its number of rounds.  Nothing is said here about how any device answers.
\<close>

datatype io_event =
    Inb u16 u8
  | Outb u16 u8
  | Inw u16 u16
  | Outw u16 u16
  | Inl u16 u32
  | Outl u16 u32
  | Delay nat

record port_io =
  answers :: "nat \<Rightarrow> u32"
  reads :: nat
  io_trace :: "io_event list"

definition record_io :: "io_event \<Rightarrow> 'a port_io_scheme \<Rightarrow> 'a port_io_scheme" where
  "record_io e s = s\<lparr>io_trace := io_trace s @ [e]\<rparr>"

definition answer :: "'a port_io_scheme \<Rightarrow> u32 \<times> 'a port_io_scheme" where
  "answer s = (answers s (reads s), s\<lparr>reads := reads s + 1\<rparr>)"

definition io_inb :: "u16 \<Rightarrow> 'a port_io_scheme \<Rightarrow> u8 \<times> 'a port_io_scheme" where
  "io_inb port s = (let (v, s) = answer s in (ucast v, record_io (Inb port (ucast v)) s))"

definition io_inw :: "u16 \<Rightarrow> 'a port_io_scheme \<Rightarrow> u16 \<times> 'a port_io_scheme" where
  "io_inw port s = (let (v, s) = answer s in (ucast v, record_io (Inw port (ucast v)) s))"

definition io_inl :: "u16 \<Rightarrow> 'a port_io_scheme \<Rightarrow> u32 \<times> 'a port_io_scheme" where
  "io_inl port s = (let (v, s) = answer s in (v, record_io (Inl port v) s))"

definition io_outb :: "u16 \<Rightarrow> u8 \<Rightarrow> 'a port_io_scheme \<Rightarrow> 'a port_io_scheme" where
  "io_outb port v = record_io (Outb port v)"

definition io_outw :: "u16 \<Rightarrow> u16 \<Rightarrow> 'a port_io_scheme \<Rightarrow> 'a port_io_scheme" where
  "io_outw port v = record_io (Outw port v)"

definition io_outl :: "u16 \<Rightarrow> u32 \<Rightarrow> 'a port_io_scheme \<Rightarrow> 'a port_io_scheme" where
  "io_outl port v = record_io (Outl port v)"

text \<open>\<^verbatim>\<open>ind\<close> and \<^verbatim>\<open>outd\<close> are the same instructions under other names.\<close>

definition io_ind :: "u16 \<Rightarrow> 'a port_io_scheme \<Rightarrow> u32 \<times> 'a port_io_scheme" where
  "io_ind port s = (let (v, s) = answer s in (v, record_io (Inl port v) s))"

definition io_outd :: "u16 \<Rightarrow> u32 \<Rightarrow> 'a port_io_scheme \<Rightarrow> 'a port_io_scheme" where
  "io_outd port v = record_io (Outl port v)"

lemmas io_defs = record_io_def answer_def io_inb_def io_inw_def io_inl_def io_outb_def io_outw_def io_outl_def

end
