(* ===== verification/Audio.thy ===== *)
theory Audio
  imports Port_Io
begin

text \<open>
  The PC speaker, \<^verbatim>\<open>drivers/audio/audio.c\<close>: a tone, the three melodies.  The state is that of the ports
  with the static flag \<^verbatim>\<open>speaker_was_on\<close>; the messages the melodies print are not part of it.
\<close>

record sound = port_io +
  speaker_was_on :: u8

text \<open>The rounds of a delay loop only take time: they are recorded.\<close>

definition beep :: "u32 \<Rightarrow> u32 \<Rightarrow> sound \<Rightarrow> sound" where
  "beep freq_hz duration_ms s =
     (if freq_hz = 0
      then let (v, s) = io_inb 0x61 s;
               s = io_outb 0x61 (v AND 0xFC) s
           in s\<lparr>speaker_was_on := 0\<rparr>
      else let (tmp, s) = io_inb 0x61 s;
               s = (if tmp AND 0x03 = 0 then (io_outb 0x61 (tmp OR 0x03) s)\<lparr>speaker_was_on := 1\<rparr> else s);
               divisor = 1193180 div freq_hz;
               s = io_outb 0x43 0xB6 s;
               s = io_outb 0x42 (ucast (divisor AND 0xFF)) s;
               s = io_outb 0x42 (ucast (drop_bit 8 divisor)) s;
               s = record_io (Delay (unat duration_ms * 1000000)) s
           in if speaker_was_on s \<noteq> 0
              then let (v, s) = io_inb 0x61 s;
                       s = io_outb 0x61 (v AND 0xFC) s
                   in s\<lparr>speaker_was_on := 0\<rparr>
              else s)"

definition play_startup_sound :: "sound \<Rightarrow> sound" where
  "play_startup_sound s =
     fold (\<lambda>(f, d). beep f d) [(523, 180), (659, 180), (784, 220), (1047, 18), (988, 100), (0, 100)] s"

definition play_shutdown_sound :: "sound \<Rightarrow> sound" where
  "play_shutdown_sound s =
     fold (\<lambda>(f, d). beep f d) [(1318, 200), (1175, 220), (1047, 260), (880, 320), (698, 420), (0, 200)] s"

definition bytebeat_sample :: "u64 \<Rightarrow> u32" where
  "bytebeat_sample t =
     ucast ((t * ((drop_bit 10 (t div 2) OR drop_bit 8 (t mod 16 * t)) AND drop_bit 12 (8 * t) AND 18))
            OR (- (t div 16) + 64))"

definition bytebeat_step :: "nat \<Rightarrow> sound \<Rightarrow> sound" where
  "bytebeat_step i s =
     (let t = (of_nat i :: u64);
          freq = (bytebeat_sample t AND 0xFF) + 150;
          s = (if 150 < freq
               then let divisor = 1193180 div freq;
                        s = io_outb 0x43 0xB6 s;
                        s = io_outb 0x42 (ucast divisor) s;
                        s = io_outb 0x42 (ucast (drop_bit 8 divisor)) s;
                        (v, s) = io_inb 0x61 s
                    in io_outb 0x61 (v OR 3) s
               else s);
          s = record_io (Delay 125) s
      in if t mod 8000 = 7999
         then let (v, s) = io_inb 0x61 s
              in record_io (Delay 3000) (io_outb 0x61 (v AND 0xFC) s)
         else s)"

definition play_slainewin_easteregg :: "sound \<Rightarrow> sound" where
  "play_slainewin_easteregg s =
     (let s = fold bytebeat_step [0..<8000 * 60] s;
          (v, s) = io_inb 0x61 s
      in io_outb 0x61 (v AND 0xFC) s)"

section \<open>What the timer chip is told\<close>

text \<open>The two bytes of a 16-bit count, low byte first.\<close>

lemma two_bytes:
  "unat (ucast (d AND 0xFF) :: u8) + 256 * unat (ucast (drop_bit 8 d) :: u8) = unat d mod 65536" for d :: u32
proof -
  have m: "(0xFF :: u32) = mask 8" by (simp add: mask_eq_exp_minus_1)
  have "unat (ucast (d AND 0xFF) :: u8) = unat d mod 256"
    unfolding m unsigned_ucast_eq take_bit_eq_mask [symmetric] unsigned_take_bit_eq take_bit_eq_mod
    by (simp add: unat_mod)
  moreover have "unat (ucast (drop_bit 8 d) :: u8) = unat d div 256 mod 256"
    by (simp add: unsigned_ucast_eq unsigned_drop_bit_eq take_bit_eq_mod drop_bit_eq_div unat_div)
  moreover have "unat d mod 65536 = 256 * (unat d div 256 mod 256) + unat d mod 256"
    using mod_mult2_eq [of "unat d" 256 256] by simp
  ultimately show ?thesis by simp
qed

text \<open>The trace of a tone.\<close>

lemma beep_trace:
  assumes "freq \<noteq> 0"
  shows "\<exists>pre post. io_trace (beep freq d s) = io_trace s @ pre
       @ [Outb 0x43 0xB6, Outb 0x42 (ucast ((1193180 div freq) AND 0xFF)), Outb 0x42 (ucast (drop_bit 8 (1193180 div freq))),
          Delay (unat d * 1000000)] @ post
     \<and> set (pre @ post) \<subseteq> range (Inb 0x61) \<union> range (Outb 0x61)
     \<and> (ucast (answers s (reads s)) AND (0x03 :: u8) = 0 \<longrightarrow> post \<noteq> [] \<and> (\<exists>v. last post = Outb 0x61 (v AND 0xFC)))
     \<and> speaker_was_on (beep freq d s) = 0"
proof -
  let ?tmp = "ucast (answers s (reads s)) :: u8"
  let ?on = "?tmp AND 0x03 = 0"
  let ?pre = "Inb 0x61 ?tmp # (if ?on then [Outb 0x61 (?tmp OR 0x03)] else [])"
  let ?v = "ucast (answers s (reads s + 1)) :: u8"
  let ?post = "if ?on \<or> speaker_was_on s \<noteq> 0 then [Inb 0x61 ?v, Outb 0x61 (?v AND 0xFC)] else []"
  show ?thesis
    by (rule exI [of _ ?pre], rule exI [of _ ?post])
      (use assms in \<open>auto simp: beep_def io_defs Let_def\<close>)
qed

lemma beep_quiet: "speaker_was_on (beep freq d s) = 0"
  using beep_trace [of freq d s] by (cases "freq = 0") (auto simp: beep_def io_defs)

text \<open>One sample of the bytebeat: its count is exact, the frequency being at least 151.\<close>

lemma bytebeat_writes:
  assumes "f = (bytebeat_sample (of_nat i) AND 0xFF) + 150"
  shows "\<exists>lo hi rest. io_trace (bytebeat_step i s)
       = io_trace s @ (if 150 < f then [Outb 0x43 0xB6, Outb 0x42 lo, Outb 0x42 hi] else []) @ rest
     \<and> (150 < f \<longrightarrow> unat lo + 256 * unat hi = 1193180 div unat f) \<and> set rest \<subseteq> range (Inb 0x61) \<union> range (Outb 0x61) \<union> range Delay"
proof -
  let ?d = "1193180 div f"
  have "(ucast (?d AND 0xFF) :: u8) = ucast ?d"
  proof -
    have m: "(0xFF :: u32) = mask 8" by (simp add: mask_eq_exp_minus_1)
    show ?thesis unfolding m by (rule bit_word_eqI) (auto simp: bit_simps)
  qed
  then have b: "unat (ucast ?d :: u8) + 256 * unat (ucast (drop_bit 8 ?d) :: u8) = unat ?d mod 65536" using two_bytes [of ?d] by simp
  have "unat ?d mod 65536 = 1193180 div unat f" if "150 < f"
  proof -
    have "1193180 div unat f \<le> 1193180 div 150" using that by (intro div_le_mono2) (simp_all add: word_less_nat_alt)
    then show ?thesis by (simp add: unat_div)
  qed
  with b have e: "150 < f \<longrightarrow> unat (ucast ?d :: u8) + 256 * unat (ucast (drop_bit 8 ?d) :: u8) = 1193180 div unat f" by simp
  have "\<exists>rest. io_trace (bytebeat_step i s) = io_trace s
      @ (if 150 < f then [Outb 0x43 0xB6, Outb 0x42 (ucast ?d), Outb 0x42 (ucast (drop_bit 8 ?d))] else []) @ rest
      \<and> set rest \<subseteq> range (Inb 0x61) \<union> range (Outb 0x61) \<union> range Delay"
    by (cases "150 < f"; cases "of_nat i mod 8000 = (7999 :: u64)")
      (auto simp: bytebeat_step_def io_defs Let_def assms [symmetric])
  with e show ?thesis by blast
qed

text \<open>
  A tone of at least 19 Hz gives channel 2 of the timer exactly the count \<open>1193180 div freq\<close>, low byte first;
  below that the count is cut to 16 bits, which is a higher tone.  A tone that found the speaker off
  turns it off again as its last act, and no tone leaves \<^verbatim>\<open>speaker_was_on\<close> set.
\<close>

theorem beep_programs_timer:
  assumes "freq \<noteq> 0"
  shows "(\<exists>pre lo hi post. io_trace (beep freq d s) = io_trace s @ pre
           @ [Outb 0x43 0xB6, Outb 0x42 lo, Outb 0x42 hi, Delay (unat d * 1000000)] @ post
         \<and> unat lo + 256 * unat hi = 1193180 div unat freq mod 65536
         \<and> (19 \<le> freq \<longrightarrow> unat lo + 256 * unat hi = 1193180 div unat freq)
         \<and> set (pre @ post) \<subseteq> range (Inb 0x61) \<union> range (Outb 0x61)
         \<and> (ucast (answers s (reads s)) AND (0x03 :: u8) = 0 \<longrightarrow> post \<noteq> [] \<and> (\<exists>v. last post = Outb 0x61 (v AND 0xFC))))
     \<and> speaker_was_on (beep freq d s) = 0"
proof
  have u: "unat (1193180 div freq) = 1193180 div unat freq" by (simp add: unat_div)
  have e: "1193180 div unat freq mod 65536 = 1193180 div unat freq" if "19 \<le> freq"
  proof -
    have "1193180 div unat freq \<le> 1193180 div 19" using that by (intro div_le_mono2) (simp_all add: word_le_nat_alt)
    then show ?thesis by simp
  qed
  show "\<exists>pre lo hi post. io_trace (beep freq d s) = io_trace s @ pre
           @ [Outb 0x43 0xB6, Outb 0x42 lo, Outb 0x42 hi, Delay (unat d * 1000000)] @ post
         \<and> unat lo + 256 * unat hi = 1193180 div unat freq mod 65536
         \<and> (19 \<le> freq \<longrightarrow> unat lo + 256 * unat hi = 1193180 div unat freq)
         \<and> set (pre @ post) \<subseteq> range (Inb 0x61) \<union> range (Outb 0x61)
         \<and> (ucast (answers s (reads s)) AND (0x03 :: u8) = 0 \<longrightarrow> post \<noteq> [] \<and> (\<exists>v. last post = Outb 0x61 (v AND 0xFC)))"
    using beep_trace [OF assms, of d s] two_bytes [of "1193180 div freq"] e unfolding u by metis
  show "speaker_was_on (beep freq d s) = 0" by (rule beep_quiet)
qed

definition quiet :: "(nat \<Rightarrow> u32) \<Rightarrow> sound" where
  "quiet a = \<lparr>answers = a, reads = 0, io_trace = [], speaker_was_on = 0\<rparr>"

theorem beep_programs_timer_witness:
  "\<exists>pre lo hi post. io_trace (beep 440 5 (quiet (\<lambda>_. 0x20))) = pre @ [Outb 0x43 0xB6, Outb 0x42 lo, Outb 0x42 hi, Delay 5000000] @ post
     \<and> unat lo + 256 * unat hi = 2711 \<and> post \<noteq> []"
  using beep_programs_timer [of 440 5 "quiet (\<lambda>_. 0x20)"] by (auto simp: quiet_def)

end
