(* ===== verification/Acpi_Power.thy ===== *)
theory Acpi_Power
  imports Audio Libc_String "HOL-Library.Monad_Syntax"
begin

text \<open>
  Finding the ACPI tables, rebooting and shutting down: \<^verbatim>\<open>operators/power.c\<close>.  Memory maps addresses
  to bytes where something is mapped; reading elsewhere is a fault, \<^const>\<open>None\<close>.  The state of the
  ports is that of the speaker, on which a reboot plays a melody first.
\<close>

type_synonym pmem = "u64 \<Rightarrow> u8 option"

definition fetch :: "pmem \<Rightarrow> u64 \<Rightarrow> nat \<Rightarrow> u8 list option" where
  "fetch m a n = those (map (\<lambda>i. m (a + of_nat i)) [0..<n])"

text \<open>The fields of the packed \<^verbatim>\<open>acpi_rsdp_t\<close> and \<^verbatim>\<open>acpi_fadt_t\<close> that are read, at their offsets.\<close>

definition rsdp_rsdt_address :: "pmem \<Rightarrow> u64 \<Rightarrow> u32 option" where
  "rsdp_rsdt_address m p = map_option (\<lambda>b. le32 b 0) (fetch m (p + 16) 4)"

definition rsdp_xsdt_address :: "pmem \<Rightarrow> u64 \<Rightarrow> u64 option" where
  "rsdp_xsdt_address m p = map_option (\<lambda>b. le64 b 0) (fetch m (p + 24) 8)"

definition fadt_signature :: "pmem \<Rightarrow> u64 \<Rightarrow> u32 option" where
  "fadt_signature m p = map_option (\<lambda>b. le32 b 0) (fetch m p 4)"

definition fadt_pm1a_control_block :: "pmem \<Rightarrow> u64 \<Rightarrow> u32 option" where
  "fadt_pm1a_control_block m p = map_option (\<lambda>b. le32 b 0) (fetch m (p + 36) 4)"

definition fadt_pm1b_control_block :: "pmem \<Rightarrow> u64 \<Rightarrow> u32 option" where
  "fadt_pm1b_control_block m p = map_option (\<lambda>b. le32 b 0) (fetch m (p + 40) 4)"

text \<open>\<^verbatim>\<open>*(const uint32_t*)"FACP"\<close>\<close>

definition FACP :: u32 where
  "FACP = le32 (bytes ''FACP'') 0"

record power =
  rsdp :: u64
  fadt :: u64
  acpi_pm1a_cnt :: u16
  acpi_pm1b_cnt :: u16
  acpi_slp_typa :: u16
  acpi_slp_typb :: u16

section \<open>The tables\<close>

text \<open>The scan of \<^verbatim>\<open>find_rsdp\<close> in steps of 16 from \<^term>\<open>p\<close>.\<close>

function rsdp_scan :: "pmem \<Rightarrow> nat \<Rightarrow> u64 option" where
  "rsdp_scan m p =
     (if p + 8 \<le> 0x00100000
      then case fetch m (of_nat p) 8 of
             None \<Rightarrow> None
           | Some b \<Rightarrow> if b = bytes ''RSD PTR '' then Some (of_nat p) else rsdp_scan m (p + 16)
      else Some 0)"
  by pat_completeness auto
termination
  by (relation "measure (\<lambda>(m, p). 0x00100000 - p)") auto

declare rsdp_scan.simps [simp del]

definition find_rsdp :: "pmem \<Rightarrow> u64 option" where
  "find_rsdp m = rsdp_scan m 0x000E0000"

text \<open>The first entry of a table of pointers of the given width is taken for the table's first bytes: a header precedes the
  entries.\<close>

definition xsdt_entry0 :: "pmem \<Rightarrow> u64 \<Rightarrow> u64 option" where
  "xsdt_entry0 m p = map_option (\<lambda>b. le64 b 0) (fetch m p 8)"

definition rsdt_entry0 :: "pmem \<Rightarrow> u64 \<Rightarrow> u64 option" where
  "rsdt_entry0 m p = map_option (\<lambda>b. ucast (le32 b 0)) (fetch m p 4)"

definition maybe_fadt :: "pmem \<Rightarrow> u64 \<Rightarrow> power \<Rightarrow> power option" where
  "maybe_fadt m p s =
     (if p = 0 then Some s
      else do { sig \<leftarrow> fadt_signature m p; Some (if sig = FACP then s\<lparr>fadt := p\<rparr> else s) })"

definition init_acpi :: "pmem \<Rightarrow> power \<Rightarrow> (int \<times> power) option" where
  "init_acpi m s = do {
     r \<leftarrow> find_rsdp m;
     let s = s\<lparr>rsdp := r\<rparr>;
     if r = 0 then Some (-1, s)
     else do {
       xsdt_address \<leftarrow> rsdp_xsdt_address m r;
       s \<leftarrow> (if xsdt_address \<noteq> 0 then do { p \<leftarrow> xsdt_entry0 m xsdt_address; maybe_fadt m p s } else Some s);
       s \<leftarrow> (if fadt s = 0
             then do { rsdt \<leftarrow> rsdp_rsdt_address m r; p \<leftarrow> rsdt_entry0 m (ucast rsdt); maybe_fadt m p s }
             else Some s);
       if fadt s = 0 then Some (-2, s)
       else do {
         sig \<leftarrow> fadt_signature m (fadt s);
         if sig \<noteq> FACP then Some (-2, s)
         else do {
           a \<leftarrow> fadt_pm1a_control_block m (fadt s);
           b \<leftarrow> fadt_pm1b_control_block m (fadt s);
           let s = s\<lparr>acpi_pm1a_cnt := ucast a, acpi_pm1b_cnt := ucast b\<rparr>;
           if acpi_pm1a_cnt s = 0 then Some (-3, s) else Some (0, s)
         }
       }
     }
   }"

section \<open>Reboot and shutdown\<close>

text \<open>How a call ends: it returns, or the processor halts for ever.\<close>

datatype ending = Returned | Halted

text \<open>The \<^verbatim>\<open>do ... while\<close> loop over the keyboard controller's status; the number of tries left is
  positive.\<close>

fun reboot_loop :: "nat \<Rightarrow> sound \<Rightarrow> ending \<times> sound" where
  "reboot_loop 0 s = (Returned, s)"
| "reboot_loop (Suc retries) s =
     (let (status, s) = io_inb 0x64 s
      in if retries = 0 then (Returned, s)
         else if status AND 0x02 \<noteq> 0 then reboot_loop retries s
         else (Halted, io_outb 0x64 0xFE s))"

definition power_reboot :: "sound \<Rightarrow> ending \<times> sound" where
  "power_reboot s = reboot_loop 10 (play_shutdown_sound s)"

definition pm1_write :: "u16 \<Rightarrow> u16 \<Rightarrow> 'a port_io_scheme \<Rightarrow> 'a port_io_scheme" where
  "pm1_write cnt slp_typ s =
     (if cnt \<noteq> 0
      then let (v, s) = io_inw cnt s;
               v = (v AND NOT (push_bit 10 7)) OR push_bit 10 slp_typ;
               s = io_outw cnt v s
           in io_outw cnt (v OR push_bit 13 1) s
      else s)"

definition power_shutdown :: "power \<Rightarrow> 'a port_io_scheme \<Rightarrow> ending \<times> 'a port_io_scheme" where
  "power_shutdown p s =
     (let slp_typ_a = (if acpi_slp_typa p \<noteq> 0 then acpi_slp_typa p else 5);
          slp_typ_b = (if acpi_slp_typb p \<noteq> 0 then acpi_slp_typb p else slp_typ_a);
          s = pm1_write (acpi_pm1a_cnt p) slp_typ_a s;
          s = pm1_write (acpi_pm1b_cnt p) slp_typ_b s
      in (Halted, s))"

section \<open>Properties\<close>

definition rsdp_at :: "pmem \<Rightarrow> nat \<Rightarrow> bool" where
  "rsdp_at m p \<longleftrightarrow> fetch m (of_nat p) 8 = Some (bytes ''RSD PTR '')"

lemma fetch_mapped: "(\<And>i. i < n \<Longrightarrow> m (a + of_nat i) \<noteq> None) \<Longrightarrow> fetch m a n = Some (map (\<lambda>i. the (m (a + of_nat i))) [0..<n])"
proof -
  assume a: "\<And>i. i < n \<Longrightarrow> m (a + of_nat i) \<noteq> None"
  have "those (map f xs) = Some (map (the \<circ> f) xs)" if "\<forall>x \<in> set xs. f x \<noteq> None" for f :: "nat \<Rightarrow> u8 option" and xs
    using that by (induction xs) auto
  from this [of "[0..<n]" "\<lambda>i. m (a + of_nat i)"] a show ?thesis by (auto simp: fetch_def comp_def)
qed

lemma rsdp_scan_find:
  assumes "\<forall>a. 0x000E0000 \<le> a \<and> a < 0x00100000 \<longrightarrow> m (of_nat a) \<noteq> None" and "k + d = 8192"
  shows "rsdp_scan m (0x000E0000 + 16 * k)
     = Some (case find (\<lambda>k. rsdp_at m (0x000E0000 + 16 * k)) [k..<8192] of None \<Rightarrow> 0 | Some k \<Rightarrow> of_nat (0x000E0000 + 16 * k))"
  using assms(2)
proof (induction d arbitrary: k)
  case 0
  then show ?case by (subst rsdp_scan.simps) simp
next
  case (Suc d)
  let ?p = "0x000E0000 + 16 * k"
  have k: "?p + 8 \<le> 0x00100000" "k < 8192" using Suc.prems by simp_all
  have "m (of_nat ?p + of_nat i) \<noteq> None" if "i < 8" for i
    using assms(1) [rule_format, of "?p + i"] k(1) that by simp
  then obtain b where b: "fetch m (of_nat ?p) 8 = Some b" using fetch_mapped [of 8 m "of_nat ?p"] by blast
  have nxt: "?p + 16 = 0x000E0000 + 16 * Suc k" by simp
  have "rsdp_scan m (?p + 16) = Some (case find (\<lambda>k. rsdp_at m (0x000E0000 + 16 * k)) [Suc k..<8192] of None \<Rightarrow> 0
      | Some k \<Rightarrow> of_nat (0x000E0000 + 16 * k))" unfolding nxt using Suc.prems by (intro Suc.IH) simp
  moreover have "[k..<8192] = k # [Suc k..<8192]" using k(2) by (rule upt_conv_Cons)
  moreover have "rsdp_scan m ?p = (if rsdp_at m ?p then Some (of_nat ?p) else rsdp_scan m (?p + 16))"
    using k(1) b by (subst rsdp_scan.simps) (simp add: rsdp_at_def)
  ultimately show ?case by simp
qed

text \<open>
  With the BIOS area mapped, \<^verbatim>\<open>find_rsdp\<close> is the search of the 8192 paragraphs of the area in
  order: the first one that starts with the signature, or \<^verbatim>\<open>NULL\<close>.
\<close>

theorem find_rsdp_first:
  assumes "\<forall>a. 0x000E0000 \<le> a \<and> a < 0x00100000 \<longrightarrow> m (of_nat a) \<noteq> None"
  shows "find_rsdp m = Some (case find (\<lambda>k. rsdp_at m (0x000E0000 + 16 * k)) [0..<8192] of
           None \<Rightarrow> 0 | Some k \<Rightarrow> of_nat (0x000E0000 + 16 * k))"
  using rsdp_scan_find [OF assms, of 0 8192] by (simp add: find_rsdp_def)

text \<open>A signature at the second paragraph, zeros elsewhere.\<close>

definition bios_small :: pmem where
  "bios_small a = Some (if 0xE0010 \<le> a \<and> a < 0xE0018 then bytes ''RSD PTR '' ! (unat a - 0xE0010) else 0)"

lemma bytes_rsdp: "bytes ''RSD PTR '' = [82, 83, 68, 32, 80, 84, 82, 32]"
  by (simp add: bytes_def of_char_def)

lemma upto_8: "[0..<8] = [0, 1, 2, 3, 4, 5, 6, 7 :: nat]"
  by code_simp

theorem find_rsdp_first_witness: "find_rsdp bios_small = Some 0xE0010"
proof -
  have "\<not> rsdp_at bios_small (0x000E0000 + 16 * 0)"
    by (simp add: rsdp_at_def fetch_def bios_small_def bytes_rsdp upto_8)
  moreover have "rsdp_at bios_small (0x000E0000 + 16 * 1)"
    by (simp add: rsdp_at_def fetch_def bios_small_def bytes_rsdp upto_8)
  moreover have "[0..<8192] = 0 # [Suc 0..<8192 :: nat]" "[Suc 0..<8192] = Suc 0 # [Suc (Suc 0)..<8192]"
    by (rule upt_conv_Cons, simp)+
  ultimately have "find (\<lambda>k. rsdp_at bios_small (0x000E0000 + 16 * k)) [0..<8192] = Some 1" by simp
  then show ?thesis using find_rsdp_first [of bios_small] by (simp add: bios_small_def)
qed

subsection \<open>The ACPI tables\<close>

text \<open>
  \<^verbatim>\<open>init_acpi\<close> takes the signature and length at the head of the XSDT, and the signature of the
  RSDT, for the address of the first table.  On tables that start as the ACPI standard says it therefore follows the number
  \<open>XSDT\<close> plus \<open>2\<^sup>3\<^sup>2\<close> times the length, then the number \<open>RSDT\<close>, whatever the entries of the tables
  are: unless a table happens to lie there, it faults or reports -2.
\<close>

theorem init_acpi_follows_headers:
  assumes "find_rsdp m = Some r" and "r \<noteq> 0" and "fadt s = 0"
    and "rsdp_xsdt_address m r = Some x" and "x \<noteq> 0" and "fetch m x 8 = Some (bytes ''XSDT'' @ len)"
    and "rsdp_rsdt_address m r = Some y" and "fetch m (ucast y) 4 = Some (bytes ''RSDT'')"
    and "fadt_signature m (le64 (bytes ''XSDT'' @ len) 0) \<noteq> Some FACP"
    and "fadt_signature m (ucast (le32 (bytes ''RSDT'') 0)) \<noteq> Some FACP"
  shows "init_acpi m s = None \<or> init_acpi m s = Some (-2, s\<lparr>rsdp := r\<rparr>)"
proof (rule disjCI)
  let ?s = "s\<lparr>rsdp := r\<rparr>"
  have f: "fadt ?s = 0" using assms(3) by simp
  have may: "maybe_fadt m p ?s = None \<or> maybe_fadt m p ?s = Some ?s" if "fadt_signature m p \<noteq> Some FACP" for p
    using that by (cases "fadt_signature m p") (auto simp: maybe_fadt_def)
  have x: "xsdt_entry0 m x = Some (le64 (bytes ''XSDT'' @ len) 0)" by (simp add: xsdt_entry0_def assms(6))
  have y: "rsdt_entry0 m (ucast y) = Some (ucast (le32 (bytes ''RSDT'') 0))" by (simp add: rsdt_entry0_def assms(8))
  assume "init_acpi m s \<noteq> Some (-2, ?s)"
  with may [OF assms(9)] may [OF assms(10)] f show "init_acpi m s = None"
    by (auto simp: init_acpi_def assms(1,2,4,5,7) x y Let_def)
qed

text \<open>Standard tables: a root pointer at 0xE0000, an RSDT at 0x2000 and an XSDT of 44 bytes at 0x3000.\<close>

definition acpi_small :: pmem where
  "acpi_small a = Some
     (if 0xE0000 \<le> a \<and> a < 0xE0020
      then (bytes ''RSD PTR '' @ [0, 0, 0, 0, 0, 0, 0, 2, 0, 0x20, 0, 0, 36, 0, 0, 0, 0, 0x30, 0, 0, 0, 0, 0, 0]) ! (unat a - 0xE0000)
      else if 0x2000 \<le> a \<and> a < 0x2004 then bytes ''RSDT'' ! (unat a - 0x2000)
      else if 0x3000 \<le> a \<and> a < 0x3008 then (bytes ''XSDT'' @ [44, 0, 0, 0]) ! (unat a - 0x3000)
      else 0)"

lemma upto_4: "[0..<4] = [0, 1, 2, 3 :: nat]"
  by code_simp

lemma bytes_dt: "bytes ''RSDT'' = [82, 83, 68, 84]" "bytes ''XSDT'' = [88, 83, 68, 84]"
  by (simp_all add: bytes_def of_char_def)

definition power0 :: power where
  "power0 = \<lparr>rsdp = 0, fadt = 0, acpi_pm1a_cnt = 0, acpi_pm1b_cnt = 0, acpi_slp_typa = 0, acpi_slp_typb = 0\<rparr>"

theorem init_acpi_follows_headers_witness:
  "init_acpi acpi_small power0 = None \<or> init_acpi acpi_small power0 = Some (-2, power0\<lparr>rsdp := 0xE0000\<rparr>)"
proof (rule init_acpi_follows_headers [where x = "0x3000" and y = "0x2000" and len = "[44, 0, 0, 0]"])
  have "rsdp_at acpi_small (0x000E0000 + 16 * 0)"
    by (simp add: rsdp_at_def fetch_def acpi_small_def bytes_rsdp upto_8)
  moreover have "[0..<8192] = 0 # [Suc 0..<8192 :: nat]" by (rule upt_conv_Cons) simp
  ultimately have "find (\<lambda>k. rsdp_at acpi_small (0x000E0000 + 16 * k)) [0..<8192] = Some 0" by simp
  then show "find_rsdp acpi_small = Some 0xE0000"
    using rsdp_scan_find [of acpi_small 0 8192] by (simp add: find_rsdp_def acpi_small_def)
  show "rsdp_xsdt_address acpi_small 0xE0000 = Some 0x3000"
    by (simp add: rsdp_xsdt_address_def fetch_def acpi_small_def bytes_rsdp upto_8 le64_def le32_def)
  show "rsdp_rsdt_address acpi_small 0xE0000 = Some 0x2000"
    by (simp add: rsdp_rsdt_address_def fetch_def acpi_small_def bytes_rsdp upto_4 le32_def)
  show "fetch acpi_small 0x3000 8 = Some (bytes ''XSDT'' @ [44, 0, 0, 0])"
    by (simp add: fetch_def acpi_small_def bytes_dt upto_8)
  show "fetch acpi_small (ucast (0x2000 :: u32)) 4 = Some (bytes ''RSDT'')"
    by (simp add: fetch_def acpi_small_def bytes_dt upto_4)
  show "fadt_signature acpi_small (le64 (bytes ''XSDT'' @ [44, 0, 0, 0]) 0) \<noteq> Some FACP"
    "fadt_signature acpi_small (ucast (le32 (bytes ''RSDT'') 0)) \<noteq> Some FACP"
    by (simp_all add: fadt_signature_def fetch_def acpi_small_def bytes_dt upto_4 le64_def le32_def FACP_def bytes_def of_char_def)
qed (simp_all add: power0_def)

lemma reboot_loop_outcome:
  "fst (reboot_loop (Suc n) s) = (if \<exists>k < n. (ucast (answers s (reads s + k)) :: u8) AND 0x02 = 0 then Halted else Returned)
   \<and> (\<exists>es. io_trace (snd (reboot_loop (Suc n) s)) = io_trace s @ es
        \<and> (fst (reboot_loop (Suc n) s) = Halted \<longrightarrow> es \<noteq> [] \<and> last es = Outb 0x64 0xFE)
        \<and> (fst (reboot_loop (Suc n) s) = Returned \<longrightarrow> set es \<subseteq> range (Inb 0x64)))"
proof (induction n arbitrary: s)
  case 0
  show ?case by (simp add: io_defs)
next
  case (Suc n)
  let ?v = "ucast (answers s (reads s)) :: u8" and ?s = "snd (io_inb 0x64 s)"
  have s: "answers ?s = answers s" "reads ?s = Suc (reads s)" "io_trace ?s = io_trace s @ [Inb 0x64 ?v]" by (simp_all add: io_defs)
  have ex: "(\<exists>k < Suc n. P k) \<longleftrightarrow> P 0 \<or> (\<exists>k < n. P (Suc k))" for P using less_Suc_eq_0_disj by auto
  show ?case
  proof (cases "?v AND 0x02 = 0")
    case True
    then have "reboot_loop (Suc (Suc n)) s = (Halted, io_outb 0x64 0xFE ?s)" by (simp add: io_defs)
    then show ?thesis unfolding ex using True s(3) by (simp add: io_outb_def record_io_def)
  next
    case False
    then have r: "reboot_loop (Suc (Suc n)) s = reboot_loop (Suc n) ?s" by (simp add: io_defs del: reboot_loop.simps(2)) (simp add: io_defs)
    from Suc.IH [of ?s] obtain es where
      es: "fst (reboot_loop (Suc n) ?s) = (if \<exists>k < n. (ucast (answers s (reads s + Suc k)) :: u8) AND 0x02 = 0 then Halted else Returned)"
         "io_trace (snd (reboot_loop (Suc n) ?s)) = io_trace s @ Inb 0x64 ?v # es"
         "fst (reboot_loop (Suc n) ?s) = Halted \<longrightarrow> es \<noteq> [] \<and> last es = Outb 0x64 0xFE"
         "fst (reboot_loop (Suc n) ?s) = Returned \<longrightarrow> set es \<subseteq> range (Inb 0x64)"
      unfolding s by auto
    show ?thesis
      unfolding r ex
      by (rule conjI, use es(1) False in simp, rule exI [of _ "Inb 0x64 ?v # es"], use es(2-4) in auto)
  qed
qed

text \<open>
  A reboot asks the keyboard controller at most ten times and ignores the tenth answer: the reset command is
  sent, and the processor halts, exactly if one of the first nine answers has the busy bit clear;
  otherwise nothing is written to the controller and the call returns.
\<close>

theorem power_reboot_outcome:
  "let s' = play_shutdown_sound s; busy = (\<lambda>k. (ucast (answers s' (reads s' + k)) :: u8) AND 0x02 \<noteq> 0)
   in (if \<exists>k < 9. \<not> busy k
       then fst (power_reboot s) = Halted \<and> last (io_trace (snd (power_reboot s))) = Outb 0x64 0xFE
       else fst (power_reboot s) = Returned
         \<and> (\<exists>es. io_trace (snd (power_reboot s)) = io_trace s' @ es \<and> set es \<subseteq> range (Inb 0x64)))"
proof -
  have r: "power_reboot s = reboot_loop (Suc 9) (play_shutdown_sound s)" by (simp add: power_reboot_def eval_nat_numeral)
  let ?s = "play_shutdown_sound s"
  obtain es where o: "fst (reboot_loop (Suc 9) ?s) = (if \<exists>k < 9. (ucast (answers ?s (reads ?s + k)) :: u8) AND 0x02 = 0 then Halted else Returned)"
    and t: "io_trace (snd (reboot_loop (Suc 9) ?s)) = io_trace ?s @ es"
    and h: "fst (reboot_loop (Suc 9) ?s) = Halted \<Longrightarrow> es \<noteq> [] \<and> last es = Outb 0x64 0xFE"
    and e: "fst (reboot_loop (Suc 9) ?s) = Returned \<Longrightarrow> set es \<subseteq> range (Inb 0x64)"
    using reboot_loop_outcome [of 9 ?s] by blast
  show ?thesis
  proof (cases "\<exists>k < 9. (ucast (answers ?s (reads ?s + k)) :: u8) AND 0x02 = 0")
    case True
    then have "fst (reboot_loop (Suc 9) ?s) = Halted" unfolding o by (rule if_P)
    moreover have "last (io_trace (snd (reboot_loop (Suc 9) ?s))) = Outb 0x64 0xFE"
      using h [OF calculation] by (simp only: t last_append) simp
    ultimately show ?thesis unfolding r Let_def not_not using True by simp
  next
    case False
    then have "fst (reboot_loop (Suc 9) ?s) = Returned" unfolding o by (rule if_not_P)
    with e [OF this] t show ?thesis unfolding r Let_def not_not if_not_P [OF False] by blast
  qed
qed

text \<open>
  A shutdown writes the sleep type 5 (or the one set) to bits 10 to 12 of each known control register, keeps
  the other bits it read, and then sets bit 13; it never returns.  The registers are only
  known after \<^verbatim>\<open>init_acpi\<close>, which the kernel does not call: until then nothing is written.
\<close>

theorem power_shutdown_writes:
  fixes s :: "'a port_io_scheme"
  shows "fst (power_shutdown p s) = Halted
     \<and> (acpi_pm1a_cnt p = 0 \<and> acpi_pm1b_cnt p = 0 \<longrightarrow> snd (power_shutdown p s) = s)
     \<and> (acpi_pm1a_cnt p \<noteq> 0 \<and> acpi_slp_typa p < 8 \<and> acpi_pm1b_cnt p = 0 \<longrightarrow>
          (\<exists>v w. io_trace (snd (power_shutdown p s)) = io_trace s
               @ [Inw (acpi_pm1a_cnt p) v, Outw (acpi_pm1a_cnt p) w, Outw (acpi_pm1a_cnt p) (w OR push_bit 13 1)]
             \<and> (\<forall>n. bit w n \<longleftrightarrow> (if 10 \<le> n \<and> n < 13 then bit (if acpi_slp_typa p = 0 then 5 else acpi_slp_typa p) (n - 10) else bit v n))))"
proof (intro conjI impI)
  show "fst (power_shutdown p s) = Halted" by (simp add: power_shutdown_def Let_def)
  show "snd (power_shutdown p s) = s" if "acpi_pm1a_cnt p = 0 \<and> acpi_pm1b_cnt p = 0"
    using that by (simp add: power_shutdown_def pm1_write_def Let_def)
  assume a: "acpi_pm1a_cnt p \<noteq> 0 \<and> acpi_slp_typa p < 8 \<and> acpi_pm1b_cnt p = 0"
  let ?t = "if acpi_slp_typa p = 0 then 5 else acpi_slp_typa p"
  let ?v = "ucast (answers s (reads s)) :: u16"
  let ?w = "(?v AND NOT (push_bit 10 7)) OR push_bit 10 ?t"
  have "?t < 2 ^ 3" using a by auto
  then have t: "\<not> bit ?t n" if "3 \<le> n" for n using that
    by (metis bit_take_bit_iff less_mask_eq take_bit_eq_mask not_le)
  have t': "\<not> bit ?t (n - 10)" if "\<not> n < 13" for n using t [of "n - 10"] that by simp
  have m: "(7 :: u16) = mask 3" by (simp add: mask_eq_exp_minus_1)
  have "bit ?w n \<longleftrightarrow> (if 10 \<le> n \<and> n < 13 then bit ?t (n - 10) else bit ?v n)" for n
    using t' [of n] unfolding m by (auto simp: bit_simps simp del: push_bit_numeral)
  moreover have "io_trace (snd (power_shutdown p s)) = io_trace s
      @ [Inw (acpi_pm1a_cnt p) ?v, Outw (acpi_pm1a_cnt p) ?w, Outw (acpi_pm1a_cnt p) (?w OR push_bit 13 1)]"
    using a by (auto simp: power_shutdown_def pm1_write_def io_defs Let_def)
  ultimately show "\<exists>v w. io_trace (snd (power_shutdown p s)) = io_trace s
               @ [Inw (acpi_pm1a_cnt p) v, Outw (acpi_pm1a_cnt p) w, Outw (acpi_pm1a_cnt p) (w OR push_bit 13 1)]
             \<and> (\<forall>n. bit w n \<longleftrightarrow> (if 10 \<le> n \<and> n < 13 then bit ?t (n - 10) else bit v n))"
    by blast
qed

theorem power_shutdown_writes_witness:
  "\<exists>v w. io_trace (snd (power_shutdown (power0\<lparr>acpi_pm1a_cnt := 0x604\<rparr>) (quiet (\<lambda>_. 0x1C01))))
     = [Inw 0x604 v, Outw 0x604 w, Outw 0x604 (w OR push_bit 13 1)] \<and> \<not> bit w 11 \<and> bit w 0"
proof -
  obtain v w where w: "io_trace (snd (power_shutdown (power0\<lparr>acpi_pm1a_cnt := 0x604\<rparr>) (quiet (\<lambda>_. 0x1C01))))
       = [Inw 0x604 v, Outw 0x604 w, Outw 0x604 (w OR push_bit 13 1)]"
      "\<forall>n. bit w n \<longleftrightarrow> (if 10 \<le> n \<and> n < 13 then bit (5 :: u16) (n - 10) else bit v n)"
    using power_shutdown_writes [of "power0\<lparr>acpi_pm1a_cnt := 0x604\<rparr>" "quiet (\<lambda>_. 0x1C01)"]
    by (auto simp: power0_def quiet_def)
  moreover have "v = 0x1C01" using w(1) by (simp add: power_shutdown_def pm1_write_def power0_def quiet_def io_defs)
  ultimately show ?thesis by (auto simp: bit_numeral_rec)
qed

end
