(* ===== verification/Shell.thy ===== *)
theory Shell
  imports Info Ramfs_Log Threads Acpi_Power Fat_On_Ata
begin

text \<open>
  The shell of \<^verbatim>\<open>main.c\<close>: the line editor, the commands and the blinking cursor.  The record \<^verbatim>\<open>shell\<close> holds the
  static variables of the file and the components the commands use.  The global \<^verbatim>\<open>shell_cursor\<close> is the cursor of the
  console, \<^verbatim>\<open>color\<close> is never changed and stands as its initial value.  Field \<^verbatim>\<open>fb0\<close> is the first
  framebuffer of the boot loader's response, which the code uses without a check; \<^verbatim>\<open>tick_at k\<close> is the value
  of the tick counter at its \<^verbatim>\<open>k\<close>-th read.  The kernel heap is that of the RAM file system, and is lent to
  the threads.  Left out is the message of a heap that runs out of frames.

  A command ends in one of three ways: it returns, the processor halts, or the processor goes to another thread.
  \<^const>\<open>None\<close> is undefined behaviour or a wait that never ends.

  Shown: the line editor is a list editor in which the backspace key removes two characters; what Enter does with
  the line; the backspace key reads in front of the font on half of the rows; \<^verbatim>\<open>thread_test\<close> never comes back;
  \<^verbatim>\<open>ls\<close> never prints an entry, \<^verbatim>\<open>rmkdir\<close> reports the opposite; when the cursor blinks.
\<close>

section \<open>State\<close>

definition COLOR_WHITE :: u32 where "COLOR_WHITE = 0xFFFFFFFF"
definition SHELL_MAX_INPUT :: nat where "SHELL_MAX_INPUT = 128"
definition BACKGROUND_WIDTH :: int where "BACKGROUND_WIDTH = 1920"
definition BACKGROUND_HEIGHT :: int where "BACKGROUND_HEIGHT = 1080"

record 'd shell =
  con :: console
  fb0 :: limine_framebuffer
  front_buffer :: limine_framebuffer
  back_buffer :: limine_framebuffer
  fb_width :: int
  fb_height :: int
  input_buffer :: "u8 list"
  input_len :: nat
  cursor_visible :: bool
  last_blink_tick :: int
  background :: "nat \<Rightarrow> u64"
  background_shell :: "nat \<Rightarrow> u64"
  BACKGROUND_WT :: int
  BACKGROUND_HT :: int
  tick_at :: "nat \<Rightarrow> u64"
  tick_reads :: nat
  cpuid_of :: cpuid
  ram :: ramfs
  thds :: threads
  thread1_entry :: u64
  thread2_entry :: u64
  yield_return :: u64
  speaker :: sound
  disk :: "'d fs"
  stack_dir :: Dir
  stack_info :: DirInfo

datatype 's flow = Returns 's | Halts 's | Switches 's

fun then_on :: "'s flow option \<Rightarrow> ('s \<Rightarrow> 's flow option) \<Rightarrow> 's flow option" where
  "then_on None f = None"
| "then_on (Some (Returns s)) f = f s"
| "then_on (Some (Halts s)) f = Some (Halts s)"
| "then_on (Some (Switches s)) f = Some (Switches s)"

definition on_con :: "(console \<Rightarrow> console option) \<Rightarrow> 'd shell \<Rightarrow> 'd shell option" where
  "on_con f s = map_option (\<lambda>c. s\<lparr>con := c\<rparr>) (f (con s))"

abbreviation say :: "string \<Rightarrow> 'd shell \<Rightarrow> 'd shell option" where
  "say t \<equiv> on_con (kprint (bytes t))"

definition get_tick_count :: "'d shell \<Rightarrow> u64 \<times> 'd shell" where
  "get_tick_count s = (tick_at s (tick_reads s), s\<lparr>tick_reads := tick_reads s + 1\<rparr>)"

definition wait_seconds :: "u32 \<Rightarrow> 'd shell \<Rightarrow> 'd shell option" where
  "wait_seconds n s = do {
     h \<leftarrow> sleep_s (\<lambda>k. tick_at s (tick_reads s + k)) n;
     Some (s\<lparr>tick_reads := tick_reads s + h + 2\<rparr>) }"

section \<open>The screen\<close>

definition swap_buffers :: "'d shell \<Rightarrow> 'd shell" where
  "swap_buffers s = s\<lparr>front_buffer := back_buffer s, back_buffer := front_buffer s\<rparr>"

definition set_video :: "mem \<Rightarrow> 'd shell \<Rightarrow> 'd shell" where
  "set_video m s = s\<lparr>con := (con s)\<lparr>video := m\<rparr>\<rparr>"

definition render_cursor :: "'d shell \<Rightarrow> 'd shell" where
  "render_cursor s = set_video (render_cursor_lim (back_buffer s) (con_cursor (con s)) COLOR_WHITE (video (con s))) s"

definition clear_cursor :: "'d shell \<Rightarrow> 'd shell" where
  "clear_cursor s = set_video (clear_cursor_lim (back_buffer s) (con_cursor (con s)) (video (con s))) s"

definition put_char :: "u8 \<Rightarrow> 'd shell \<Rightarrow> 'd shell option" where
  "put_char c s = do {
     (cur, m) \<leftarrow> put_char_with_cursor_lim (back_buffer s) (con_cursor (con s)) c COLOR_WHITE (video (con s));
     Some (s\<lparr>con := (con s)\<lparr>con_cursor := cur, video := m\<rparr>\<rparr>) }"

definition shell_clear_screen :: "'d shell \<Rightarrow> 'd shell" where
  "shell_clear_screen s =
     (let fb = fb0 s;
          s = s\<lparr>back_buffer := fb, fb_width := as_int (unat (width fb)), fb_height := as_int (unat (height fb)) - 3\<rparr>;
          s = set_video (clear_screen_lim fb COLOR_BLACK (video (con s))) s;
          s = s\<lparr>con := init_kprint_global fb (init_cursor (fb_width s) (fb_height s)) COLOR_WHITE (con s)\<rparr>;
          s = set_video (draw_image_from_uint64_t fb (background_shell s) (BACKGROUND_WT s) (BACKGROUND_HT s) (video (con s))) s
      in swap_buffers s)"

text \<open>The call of \<^verbatim>\<open>draw_char_lim\<close> lacks the argument for the character, so that the others move up: it draws the
  character whose code is the low byte of the cursor's row, in black, to the right of the screen.\<close>

definition shell_backspace :: "'d shell \<Rightarrow> 'd shell option" where
  "shell_backspace s =
     (if input_len s = 0 then Some s
      else do {
        let s = s\<lparr>input_len := input_len s - 1, input_buffer := (input_buffer s)[input_len s - 1 := 0]\<rparr>;
        let cur = con_cursor (con s);
        let cur = (if char_width cur \<le> cur_x cur then cur\<lparr>cur_x := cur_x cur - char_width cur\<rparr>
                   else if 0 < cur_y cur
                   then cur\<lparr>cur_y := cur_y cur - char_height cur, cur_x := fb_width s - char_width cur\<rparr>
                   else cur);
        let s = s\<lparr>con := (con s)\<lparr>con_cursor := cur\<rparr>\<rparr>;
        m \<leftarrow> draw_char_lim (back_buffer s) (fb_width s) (cur_x cur) (of_int (cur_y cur)) COLOR_BLACK (video (con s));
        Some (render_cursor ((set_video m s)\<lparr>cursor_visible := True\<rparr>))
      })"

fun put_chars :: "u8 list \<Rightarrow> 'd shell \<Rightarrow> 'd shell option" where
  "put_chars [] s = Some s"
| "put_chars (c # text) s = do { s \<leftarrow> put_char c s; put_chars text s }"

definition shell_print_prompt :: "'d shell \<Rightarrow> 'd shell option" where
  "shell_print_prompt s = put_chars (bytes ''<NTux-OS> :'') s"

definition shell_clear_input :: "'d shell \<Rightarrow> 'd shell" where
  "shell_clear_input s = s\<lparr>input_len := 0, input_buffer := (input_buffer s)[0 := 0]\<rparr>"

section \<open>Commands\<close>

text \<open>The comparisons of the command with a literal.\<close>

definition is_cmd :: "u8 list \<Rightarrow> string \<Rightarrow> bool" where
  "is_cmd cmd t \<longleftrightarrow> strcmp cmd (bytes t @ [0]) = Some 0"

definition has_prefix :: "u8 list \<Rightarrow> string \<Rightarrow> bool" where
  "has_prefix cmd t \<longleftrightarrow> strncmp cmd (bytes t @ [0]) (length t) = Some 0"

definition shell_reboot :: "'d shell \<Rightarrow> 'd shell flow option" where
  "shell_reboot s = do {
     s \<leftarrow> say ''Rebooting in 3 seconds...\<newline>'' s;
     s \<leftarrow> wait_seconds 1 s;
     s \<leftarrow> say ''Rebooting in 2 seconds...\<newline>'' s;
     s \<leftarrow> wait_seconds 1 s;
     s \<leftarrow> say ''Rebooting in 1 second...\<newline>'' s;
     s \<leftarrow> wait_seconds 1 s;
     s \<leftarrow> say ''Goodbye...\<newline>'' s;
     let (e, p) = power_reboot (speaker s);
     let s = s\<lparr>speaker := p\<rparr>;
     Some (case e of Returned \<Rightarrow> Returns s | Halted \<Rightarrow> Halts s) }"

text \<open>A call of the thread component on the shared heap; what \<^verbatim>\<open>thread_create\<close> prints.\<close>

definition on_threads :: "(threads \<Rightarrow> threads option) \<Rightarrow> 'd shell \<Rightarrow> 'd shell option" where
  "on_threads f s = do {
     t \<leftarrow> f ((thds s)\<lparr>heap_st := kheap (ram s)\<rparr>);
     Some (s\<lparr>thds := t, ram := (ram s)\<lparr>kheap := heap_st t\<rparr>\<rparr>) }"

definition create_message :: "threads \<Rightarrow> console \<Rightarrow> console option" where
  "create_message t s =
     (if int MAX_THREADS \<le> next_thread_id t then kprint_error (bytes ''Max threads reached.'') s
      else do {
        (p, hs) \<leftarrow> kmalloc 40 (heap_st t);
        if p = 0 then Some s
        else do {
          (stk, hs) \<leftarrow> kmalloc 8192 hs;
          if stk = 0 then Some s
          else kprintf (bytes ''Created thread %d\<newline>'') [Va_Int (of_int (next_thread_id t))] s
        }
      })"

definition create_thread :: "u64 \<Rightarrow> 'd shell \<Rightarrow> 'd shell option" where
  "create_thread start s = do {
     s' \<leftarrow> on_threads (thread_create start) s;
     on_con (create_message ((thds s)\<lparr>heap_st := kheap (ram s)\<rparr>)) s' }"

definition shell_yield :: "'d shell \<Rightarrow> 'd shell flow option" where
  "shell_yield s = do {
     s' \<leftarrow> on_threads (\<lambda>t. Some (thread_yield (yield_return s) t)) s;
     Some (if current_thread_id (thds s') = current_thread_id (thds s) then Returns s' else Switches s') }"

definition shell_thread_test :: "'d shell \<Rightarrow> 'd shell flow option" where
  "shell_thread_test s = do {
     s \<leftarrow> create_thread (thread1_entry s) s;
     s \<leftarrow> create_thread (thread2_entry s) s;
     shell_yield s }"

text \<open>The rounds of the loop of \<^verbatim>\<open>fat_ls\<close>, and its error message, which reaches \<^verbatim>\<open>kprintf\<close> without
  its arguments.\<close>

fun print_infos :: "DirInfo list \<Rightarrow> console \<Rightarrow> console option" where
  "print_infos [] s = Some s"
| "print_infos (d # ds) s = do {
     s \<leftarrow> kprintf (bytes ''%-20s  size=%u  attr=0x%02X\<newline>'')
            [Va_Str (Some (di_name d)), Va_Int (ucast (di_size d)), Va_Int (ucast (di_attr d))] s;
     print_infos ds s }"

definition shell_ls :: "u8 list \<Rightarrow> 'd shell \<Rightarrow> 'd shell option" where
  "shell_ls path s = do {
     (r, infos, d) \<leftarrow> fat_ls path (stack_dir s) (stack_info s) (disk s);
     let s = s\<lparr>disk := d\<rparr>;
     if r \<noteq> 0 then on_con (kprintf (bytes ''ls: error opening '' @ [39] @ bytes ''%s'' @ [39] @ bytes '': %s\<newline>'') []) s
     else on_con (print_infos infos) s }"

text \<open>The node's address is converted to \<^verbatim>\<open>int\<close>.\<close>

definition shell_rmkdir :: "u8 list \<Rightarrow> 'd shell \<Rightarrow> 'd shell option" where
  "shell_rmkdir cmd s =
     (let path = dropWhile (\<lambda>c. c = 32) (cstr (drop 7 cmd))
      in if path = [] then say ''rmkdir: missing directory name\<newline>'' s
         else do {
           (node, r) \<leftarrow> ramfs_mkdir path (ram s);
           s \<leftarrow> on_con (kprint (mkdir_text path (ram s))) s;
           let s = s\<lparr>ram := r\<rparr>;
           if sint (ucast node :: u32) = 0
           then do { s \<leftarrow> say ''Directory created: '' s; s \<leftarrow> on_con (kprint path) s; say ''\<newline>'' s }
           else do { s \<leftarrow> say ''rmkdir failed '' s; say ''\<newline>'' s }
         })"

definition ret :: "'d shell option \<Rightarrow> 'd shell flow option" where
  "ret r = map_option Returns r"

definition shell_help :: string where
  "shell_help = ''Commands:\<newline>  help     - show this help\<newline>  clear    - clear screen\<newline>  reboot   - reboot the system\<newline>    version  - shows os version\<newline>   echo     - prints what ever you want \<newline>''"

definition shell_execute_command :: "u8 list \<Rightarrow> 'd shell \<Rightarrow> 'd shell flow option" where
  "shell_execute_command cmd s =
     (if is_cmd cmd ''help'' then ret (say shell_help s)
      else if is_cmd cmd ''clear'' then ret (Some (shell_clear_screen s))
      else if is_cmd cmd ''reboot'' then shell_reboot s
      else if is_cmd cmd ''Hello World!'' then ret (say ''Bro why did you type this ??????\<newline>'' s)
      else if is_cmd cmd ''test''
      then ret (say ''SlaineWin Bytebeat sound completed\<newline>'' (s\<lparr>speaker := play_slainewin_easteregg (speaker s)\<rparr>))
      else if is_cmd cmd ''setbg1''
      then ret (say ''seted background 1\<newline>'' (shell_clear_screen
                (s\<lparr>BACKGROUND_WT := BACKGROUND_WIDTH, BACKGROUND_HT := BACKGROUND_HEIGHT, background_shell := background s\<rparr>)))
      else if is_cmd cmd ''pcilist'' then ret (Some s)
      else if is_cmd cmd ''thread_test'' then shell_thread_test s
      else if is_cmd cmd ''cpuinfo'' then ret (on_con (info_cmd_cpuinfo (cpuid_of s)) s)
      else if is_cmd cmd ''ls'' then ret (shell_ls (bytes ''/'') s)
      else if is_cmd cmd ''rls'' then ret (on_con (kprint (list_text (bytes ''/'') (ram s))) s)
      else if has_prefix cmd ''rmkdir '' then ret (shell_rmkdir cmd s)
      else if is_cmd cmd ''uptime'' then (let (t, s) = get_tick_count s in ret (on_con (info_cmd_uptime t) s))
      else if is_cmd cmd ''version'' then ret (say ''version 0.0.1 build 15\<newline>'' s)
      else if has_prefix cmd ''echo ''
      then ret (do { s \<leftarrow> on_con (kprint (drop 5 cmd)) s; say ''\<newline>'' s })
      else if strlen cmd = Some 0 then ret (Some s)
      else ret (do { s \<leftarrow> say ''Unknown command: '' s; s \<leftarrow> on_con (kprint cmd) s; say ''\<newline>'' s }))"

section \<open>Keys\<close>

definition shell_newline :: "'d shell \<Rightarrow> 'd shell flow option" where
  "shell_newline s =
     (let s = s\<lparr>input_buffer := (input_buffer s)[input_len s := 0]\<rparr>
      in then_on (ret (say ''\<newline>'' s)) (\<lambda>s.
         then_on (shell_execute_command (input_buffer s) s) (\<lambda>s.
         ret (shell_print_prompt (shell_clear_input s)))))"

definition shell_edit :: "u8 \<Rightarrow> 'd shell \<Rightarrow> 'd shell option" where
  "shell_edit c s =
     (if c = 8
      then if 0 < input_len s
           then shell_backspace (s\<lparr>input_len := input_len s - 1, input_buffer := (input_buffer s)[input_len s - 1 := 0]\<rparr>)
           else Some s
      else if 32 \<le> sint c \<and> sint c < 127
      then if input_len s < SHELL_MAX_INPUT - 1
           then put_char c (s\<lparr>input_buffer := (input_buffer s)[input_len s := c], input_len := input_len s + 1\<rparr>)
           else Some s
      else Some s)"

definition shell_handle_key :: "u8 \<Rightarrow> 'd shell \<Rightarrow> 'd shell flow option" where
  "shell_handle_key c s =
     (let s = (if cursor_visible s then clear_cursor s else s)
      in then_on (if c = 10 then shell_newline s else ret (shell_edit c s))
           (\<lambda>s. ret (Some (swap_buffers (render_cursor (s\<lparr>cursor_visible := True\<rparr>))))))"

fun shell_handle_keys :: "u8 list \<Rightarrow> 'd shell \<Rightarrow> 'd shell flow option" where
  "shell_handle_keys [] s = Some (Returns s)"
| "shell_handle_keys (c # cs) s = then_on (shell_handle_key c s) (shell_handle_keys cs)"

section \<open>The blinking cursor\<close>

definition to_int :: "u64 \<Rightarrow> int" where
  "to_int v = sint (ucast v :: u32)"

definition update_cursor_blink :: "'d shell \<Rightarrow> 'd shell" where
  "update_cursor_blink s =
     (let (t, s) = get_tick_count s
      in if 20 \<le> t - of_int (last_blink_tick s)
         then let (t, s) = get_tick_count s;
                  s = s\<lparr>last_blink_tick := to_int t\<rparr>;
                  s = (if cursor_visible s then (clear_cursor s)\<lparr>cursor_visible := False\<rparr>
                       else (render_cursor s)\<lparr>cursor_visible := True\<rparr>);
                  (t, s) = get_tick_count s
              in s\<lparr>last_blink_tick := to_int t\<rparr>
         else s)"

section \<open>Text on the console\<close>

lemma put_char_ascii: "c < 128 \<Longrightarrow> \<exists>cur m'. put_char_with_cursor_lim fb cu c color m = Some (cur, m')"
  by (simp add: put_char_with_cursor_lim_def draw_char_lim_def glyph_ascii Let_def)

lemma kprint_ascii: "\<forall>c \<in> set t. c < 128 \<Longrightarrow> \<exists>s'. kprint t s = Some s'"
proof (induction t arbitrary: s)
  case (Cons c t)
  obtain cur m where "put_char_with_cursor_lim (con_fb s) (con_cursor s) c (con_color s) (video s) = Some (cur, m)"
    using put_char_ascii Cons.prems by fastforce
  with Cons show ?case by simp
qed simp

lemma bytes_ascii: "\<forall>c \<in> set t. \<not> digit7 c \<Longrightarrow> \<forall>c \<in> set (bytes t). c < 128"
  by (auto simp: bytes_def of_char_def)

lemma put_char_shell: "c < 128 \<Longrightarrow> \<exists>k. put_char c s = Some (s\<lparr>con := k\<rparr>)"
  using put_char_ascii [of c "back_buffer s" "con_cursor (con s)" COLOR_WHITE "video (con s)"] by (auto simp: put_char_def)

section \<open>The line editor\<close>

text \<open>The line typed so far, and what a key does to it: the backspace key removes two characters.\<close>

definition shell_line :: "'d shell \<Rightarrow> u8 list" where
  "shell_line s = take (input_len s) (input_buffer s)"

definition edit :: "u8 \<Rightarrow> u8 list \<Rightarrow> u8 list" where
  "edit c l =
     (if c = 8 then butlast (butlast l) else if 32 \<le> c \<and> c < 127 \<and> length l < 127 then l @ [c] else l)"

definition line_inv :: "'d shell \<Rightarrow> bool" where
  "line_inv s \<longleftrightarrow> length (input_buffer s) = SHELL_MAX_INPUT \<and> input_len s < SHELL_MAX_INPUT
     \<and> (\<forall>c \<in> set (shell_line s). 32 \<le> c \<and> c < 127)"

lemma sint_printable: "32 \<le> sint c \<and> sint c < 127 \<longleftrightarrow> 32 \<le> c \<and> c < 127" for c :: u8
proof (cases "c < 128")
  case True
  then have "uint c < 128" by (simp add: word_less_def)
  then have "sint c = uint c"
    using order_trans [OF _ uint_ge_0, of "- 128" c] by (simp add: sint_uint signed_take_bit_int_eq_self_iff)
  then show ?thesis by (simp add: word_le_def word_less_def)
next
  case False
  then have "128 \<le> uint c" by (simp add: word_less_def)
  moreover have "uint c < 256" using uint_bounded [of c] by simp
  ultimately have "(uint c - 128 + 256) mod 256 = uint c - 128" by (simp only: mod_add_self2) simp
  then have "sint c < 0" using \<open>uint c < 256\<close>
    by (simp add: sint_uint signed_take_bit_eq_take_bit_shift take_bit_eq_mod add.commute)
  then show ?thesis using False by (auto intro: less_trans)
qed

lemma on_con_Some: "on_con f s = Some s' \<longleftrightarrow> (\<exists>k. f (con s) = Some k \<and> s' = s\<lparr>con := k\<rparr>)"
  by (auto simp: on_con_def)

lemma screen_line [simp]:
  "shell_line (s\<lparr>con := k\<rparr>) = shell_line s" "shell_line (set_video m s) = shell_line s"
  "shell_line (s\<lparr>cursor_visible := b\<rparr>) = shell_line s" "shell_line (render_cursor s) = shell_line s"
  "shell_line (clear_cursor s) = shell_line s" "shell_line (swap_buffers s) = shell_line s"
  by (simp_all add: shell_line_def set_video_def render_cursor_def clear_cursor_def swap_buffers_def)

lemma screen_inv [simp]:
  "line_inv (s\<lparr>con := k\<rparr>) = line_inv s" "line_inv (set_video m s) = line_inv s"
  "line_inv (s\<lparr>cursor_visible := b\<rparr>) = line_inv s" "line_inv (render_cursor s) = line_inv s"
  "line_inv (clear_cursor s) = line_inv s" "line_inv (swap_buffers s) = line_inv s"
  by (simp_all add: line_inv_def shell_line_def set_video_def render_cursor_def clear_cursor_def swap_buffers_def)

lemma line_shorter:
  assumes "line_inv s" and "n \<le> input_len s" and "s' = s\<lparr>input_len := n, input_buffer := (input_buffer s)[n := 0]\<rparr>"
  shows "line_inv s'" "shell_line s' = take n (shell_line s)" "input_len s' = n"
proof -
  have "shell_line s' = take n (shell_line s)" using assms by (simp add: shell_line_def min_def)
  then show "line_inv s'" "shell_line s' = take n (shell_line s)" "input_len s' = n"
    using assms by (auto simp: line_inv_def dest: in_set_takeD)
qed

lemma line_length: "line_inv s \<Longrightarrow> length (shell_line s) = input_len s"
  by (simp add: line_inv_def shell_line_def)

lemma butlast_twice: "butlast (butlast l) = take (length l - 2) l"
  by (simp add: butlast_conv_take min_def numeral_2_eq_2)

lemma backspace_line:
  assumes "line_inv s" and "shell_backspace s = Some s'"
  shows "line_inv s'" "shell_line s' = take (input_len s - 1) (shell_line s)"
proof -
  define s1 where "s1 = s\<lparr>input_len := input_len s - 1, input_buffer := (input_buffer s)[input_len s - 1 := 0]\<rparr>"
  note sh = line_shorter [OF assms(1) _ s1_def]
  have "line_inv s' \<and> shell_line s' = take (input_len s - 1) (shell_line s)"
  proof (cases "input_len s = 0")
    case True
    then show ?thesis using assms line_length [OF assms(1)] by (simp add: shell_backspace_def)
  next
    case False
    then obtain k m where "s' = render_cursor ((set_video m (s1\<lparr>con := k\<rparr>))\<lparr>cursor_visible := True\<rparr>)"
      using assms(2) by (auto simp: shell_backspace_def s1_def Let_def split: Option.bind_splits)
    then show ?thesis using sh by simp
  qed
  then show "line_inv s'" "shell_line s' = take (input_len s - 1) (shell_line s)" by simp_all
qed

lemma edit_line:
  assumes inv: "line_inv s" and run: "shell_edit c s = Some s'"
  shows "line_inv s' \<and> shell_line s' = edit c (shell_line s)"
proof -
  have len: "length (shell_line s) = input_len s" using line_length [OF inv] .
  consider "c = 8" "0 < input_len s" | "c = 8" "input_len s = 0" | "c \<noteq> 8" "32 \<le> c" "c < 127" "input_len s < 127"
    | "c \<noteq> 8" "\<not> (32 \<le> c \<and> c < 127) \<or> \<not> input_len s < 127" by linarith
  then show ?thesis
  proof cases
    case 1
    define s1 where "s1 = s\<lparr>input_len := input_len s - 1, input_buffer := (input_buffer s)[input_len s - 1 := 0]\<rparr>"
    note sh = line_shorter [OF inv _ s1_def]
    have "shell_backspace s1 = Some s'" using 1 run by (simp add: shell_edit_def s1_def)
    then show ?thesis using backspace_line [of s1 s'] sh 1 len by (simp add: edit_def butlast_twice min_def numeral_2_eq_2)
  next
    case 2
    then show ?thesis using run inv len by (simp add: shell_edit_def edit_def)
  next
    case 3
    define s1 where "s1 = s\<lparr>input_buffer := (input_buffer s)[input_len s := c], input_len := input_len s + 1\<rparr>"
    have "c < 128" using 3(3) by (rule less_trans) simp
    then obtain k where "put_char c s1 = Some (s1\<lparr>con := k\<rparr>)" using put_char_shell by blast
    then have s': "s' = s1\<lparr>con := k\<rparr>" using 3 run sint_printable [of c] by (simp add: shell_edit_def s1_def SHELL_MAX_INPUT_def)
    have "shell_line s1 = shell_line s @ [c]"
      using 3 inv by (simp add: s1_def shell_line_def line_inv_def SHELL_MAX_INPUT_def take_Suc_conv_app_nth)
    then show ?thesis using 3 inv len s' by (simp add: edit_def) (auto simp: line_inv_def s1_def SHELL_MAX_INPUT_def)
  next
    case 4
    then have "s' = s" using run sint_printable [of c] by (auto simp: shell_edit_def SHELL_MAX_INPUT_def split: if_splits)
    then show ?thesis using 4 inv len by (auto simp: edit_def)
  qed
qed

lemma edit_returns:
  assumes "c \<noteq> 8"
  shows "shell_edit c s \<noteq> None"
proof (cases "32 \<le> sint c \<and> sint c < 127")
  case True
  then have "c < 128" using sint_printable [of c] by (auto intro: less_trans)
  then show ?thesis using assms put_char_shell [of c] by (auto simp: shell_edit_def)
qed (use assms in \<open>auto simp: shell_edit_def\<close>)

lemma handle_key_edit:
  "c \<noteq> 10 \<Longrightarrow> shell_handle_key c s =
     (case shell_edit c (if cursor_visible s then clear_cursor s else s) of
        None \<Rightarrow> None | Some s \<Rightarrow> Some (Returns (swap_buffers (render_cursor (s\<lparr>cursor_visible := True\<rparr>)))))"
  by (auto simp: shell_handle_key_def ret_def split: option.split)

text \<open>
  C9: Typing is list editing: after any keys other than Enter the input buffer holds the line that the reference
  editor makes of them (printable characters are appended up to 127, the backspace key removes \<^emph>\<open>two\<close>, all
  other keys are ignored), the buffer never overflows, and without backspaces the run always returns.
\<close>

theorem shell_edits_line:
  assumes "line_inv s" and "10 \<notin> set keys"
  shows "(8 \<notin> set keys \<longrightarrow> shell_handle_keys keys s \<noteq> None)
    \<and> (\<forall>r. shell_handle_keys keys s = Some r \<longrightarrow>
         (\<exists>s'. r = Returns s' \<and> line_inv s' \<and> shell_line s' = fold edit keys (shell_line s)))"
  using assms
proof (induction keys arbitrary: s)
  case (Cons c cs)
  define s0 where "s0 = (if cursor_visible s then clear_cursor s else s)"
  have s0: "line_inv s0" "shell_line s0 = shell_line s" using Cons.prems by (simp_all add: s0_def)
  have hk: "shell_handle_key c s = (case shell_edit c s0 of None \<Rightarrow> None
      | Some s \<Rightarrow> Some (Returns (swap_buffers (render_cursor (s\<lparr>cursor_visible := True\<rparr>)))))"
    using handle_key_edit [of c s] Cons.prems by (simp add: s0_def)
  show ?case
  proof (cases "shell_edit c s0")
    case None
    then show ?thesis using hk edit_returns [of c s0] by auto
  next
    case (Some s1)
    define s2 where "s2 = swap_buffers (render_cursor (s1\<lparr>cursor_visible := True\<rparr>))"
    have "line_inv s2" "shell_line s2 = edit c (shell_line s)" using edit_line [OF s0(1) Some] s0(2) by (simp_all add: s2_def)
    moreover have "shell_handle_keys (c # cs) s = shell_handle_keys cs s2" using hk Some by (simp add: s2_def)
    ultimately show ?thesis using Cons.IH [of s2] Cons.prems by simp
  qed
qed simp

section \<open>Enter\<close>

lemma bytes_inject: "bytes t = bytes u \<longleftrightarrow> t = u"
proof -
  have "inj (of_char :: char \<Rightarrow> u8)"
  proof (rule injI)
    fix c d :: char assume "(of_char c :: u8) = of_char d"
    then have "unat (of_nat (of_char c) :: u8) = unat (of_nat (of_char d) :: u8)" by (simp only: of_nat_of_char)
    moreover have "(of_char x :: nat) < 2 ^ LENGTH(8)" for x by simp
    ultimately have "(of_char c :: nat) = of_char d" by (simp only: unat_of_nat_small)
    then show "c = d" by simp
  qed
  then show ?thesis by (simp add: bytes_def inj_map_eq_map)
qed

lemma take_bytes: "take n (bytes t) = bytes (take n t)"
  by (simp add: bytes_def take_map)

lemma bytes_no_nul: "CHR 0x00 \<notin> set t \<Longrightarrow> 0 \<notin> set (bytes t)"
  using bytes_inject [of "[_]" "[CHR 0x00]"] by (force simp: bytes_def of_char_def)

lemma is_cmd_iff: "0 \<notin> set l \<Longrightarrow> CHR 0x00 \<notin> set t \<Longrightarrow> is_cmd (l @ 0 # r) t \<longleftrightarrow> l = bytes t"
  using strcmp_cstr [of l "bytes t" r "[]"] bytes_no_nul [of t] by (auto simp: is_cmd_def)

lemma has_prefix_iff: "0 \<notin> set l \<Longrightarrow> CHR 0x00 \<notin> set t \<Longrightarrow> has_prefix (l @ 0 # r) t \<longleftrightarrow> take (length t) l = bytes t"
  using strncmp_prefix [of "bytes t" l r "[]"] bytes_no_nul [of t] by (auto simp: has_prefix_def)

text \<open>The text that answers a line, for the commands that only print.\<close>

definition other_commands :: "string list" where
  "other_commands = [''clear'', ''reboot'', ''test'', ''setbg1'', ''thread_test'', ''cpuinfo'', ''ls'', ''rls'', ''uptime'']"

definition reply :: "u8 list \<Rightarrow> u8 list option" where
  "reply l =
     (if l = [] \<or> l = bytes ''pcilist'' then Some []
      else if l = bytes ''help'' then Some (bytes shell_help)
      else if l = bytes ''Hello World!'' then Some (bytes ''Bro why did you type this ??????\<newline>'')
      else if l = bytes ''version'' then Some (bytes ''version 0.0.1 build 15\<newline>'')
      else if take 5 l = bytes ''echo '' then Some (drop 5 l @ [10])
      else if l \<in> set (map bytes other_commands) \<or> take 7 l = bytes ''rmkdir '' then None
      else Some (bytes ''Unknown command: '' @ l @ [10]))"

lemma on_con_then: "0 \<notin> set t \<Longrightarrow> (on_con (kprint t) s \<bind> on_con (kprint u)) = on_con (kprint (t @ u)) s"
  by (cases "kprint t (con s)") (auto simp: on_con_def kprint_append)

lemma on_con_nothing: "on_con (kprint []) s = Some s"
  by (simp add: on_con_def)

lemma kprint_upto_nul: "0 \<notin> set t \<Longrightarrow> kprint (t @ 0 # r) s = kprint t s"
  by (subst (1 2) kprint_cstr [symmetric]) (simp add: cstr_def takeWhile_append takeWhile_eq_all_conv kprint_cstr [unfolded cstr_def])

lemma newline_bytes: "bytes ''\<newline>'' = [10]"
  by (simp add: bytes_def of_char_def)

lemma command_conds:
  assumes "0 \<notin> set l" and "cmd = l @ 0 # r"
  shows "is_cmd cmd ''help'' = (l = bytes ''help'')" "is_cmd cmd ''clear'' = (l = bytes ''clear'')"
    "is_cmd cmd ''reboot'' = (l = bytes ''reboot'')" "is_cmd cmd ''Hello World!'' = (l = bytes ''Hello World!'')"
    "is_cmd cmd ''test'' = (l = bytes ''test'')" "is_cmd cmd ''setbg1'' = (l = bytes ''setbg1'')"
    "is_cmd cmd ''pcilist'' = (l = bytes ''pcilist'')" "is_cmd cmd ''thread_test'' = (l = bytes ''thread_test'')"
    "is_cmd cmd ''cpuinfo'' = (l = bytes ''cpuinfo'')" "is_cmd cmd ''ls'' = (l = bytes ''ls'')"
    "is_cmd cmd ''rls'' = (l = bytes ''rls'')" "is_cmd cmd ''uptime'' = (l = bytes ''uptime'')"
    "is_cmd cmd ''version'' = (l = bytes ''version'')" "has_prefix cmd ''rmkdir '' = (take 7 l = bytes ''rmkdir '')"
    "has_prefix cmd ''echo '' = (take 5 l = bytes ''echo '')" "strlen cmd = Some 0 \<longleftrightarrow> l = []"
  using assms is_cmd_iff [OF assms(1)] has_prefix_iff [OF assms(1)] strlen_cstr [OF assms(1)] by (simp_all add: numeral_eq_Suc)

lemma echo_others:
  assumes "take 5 l = bytes ''echo ''"
  shows "take 5 u \<noteq> ''echo '' \<Longrightarrow> l \<noteq> bytes u" "take 7 l \<noteq> bytes ''rmkdir ''" "l \<noteq> []"
proof -
  show "l \<noteq> bytes u" if "take 5 u \<noteq> ''echo ''" using assms that by (auto simp: take_bytes bytes_inject)
  show "l \<noteq> []" using assms by (auto simp: bytes_Cons)
  show "take 7 l \<noteq> bytes ''rmkdir ''"
  proof
    assume "take 7 l = bytes ''rmkdir ''"
    then have "take 5 (take 7 l) = bytes ''rmkdi''" by (simp add: take_bytes)
    then show False using assms by (simp add: bytes_inject)
  qed
qed

lemma execute_echo:
  assumes l: "0 \<notin> set l" and e: "take 5 l = bytes ''echo ''"
  shows "reply l = Some (drop 5 l @ [10])" "shell_execute_command (l @ 0 # r) s = ret (on_con (kprint (drop 5 l @ [10])) s)"
proof -
  note ne = echo_others [OF e]
  show "reply l = Some (drop 5 l @ [10])" by (simp add: reply_def ne e)
  have nd: "0 \<notin> set (drop 5 l)" using l by (blast dest: in_set_dropD)
  have len: "5 \<le> length l" using arg_cong [OF e, of length] by simp
  have "shell_execute_command (l @ 0 # r) s = ret (on_con (kprint (drop 5 (l @ 0 # r))) s \<bind> on_con (kprint (bytes ''\<newline>'')))"
    unfolding shell_execute_command_def command_conds [OF l refl] e by (simp add: ne)
  also have "drop 5 (l @ 0 # r) = drop 5 l @ 0 # r" using len by simp
  also have "on_con (kprint (drop 5 l @ 0 # r)) s = on_con (kprint (drop 5 l)) s"
    by (simp add: on_con_def kprint_upto_nul [OF nd])
  also have "\<dots> \<bind> on_con (kprint (bytes ''\<newline>'')) = on_con (kprint (drop 5 l @ [10])) s"
    unfolding newline_bytes by (rule on_con_then [OF nd])
  finally show "shell_execute_command (l @ 0 # r) s = ret (on_con (kprint (drop 5 l @ [10])) s)" .
qed

lemma execute_unknown:
  assumes l: "0 \<notin> set l" and "l \<noteq> []" "l \<noteq> bytes ''pcilist''" "l \<noteq> bytes ''help''" "l \<noteq> bytes ''Hello World!''"
    "l \<noteq> bytes ''version''" "take 5 l \<noteq> bytes ''echo ''" and a: "reply l = Some t"
  shows "shell_execute_command (l @ 0 # r) s = ret (on_con (kprint t) s)"
proof -
  have o: "l \<notin> set (map bytes other_commands)" "take 7 l \<noteq> bytes ''rmkdir ''"
    and t: "t = bytes ''Unknown command: '' @ l @ [10]"
    using a assms(2-7) unfolding reply_def by (simp_all only: if_False) (auto split: if_splits)
  have n: "l \<noteq> bytes ''clear''" "l \<noteq> bytes ''reboot''" "l \<noteq> bytes ''test''" "l \<noteq> bytes ''setbg1''" "l \<noteq> bytes ''thread_test''"
    "l \<noteq> bytes ''cpuinfo''" "l \<noteq> bytes ''ls''" "l \<noteq> bytes ''rls''" "l \<noteq> bytes ''uptime''"
    using o(1) by (simp_all add: other_commands_def)
  have u: "0 \<notin> set (bytes ''Unknown command: '')" by (rule bytes_no_nul) simp
  have k: "on_con (kprint (l @ 0 # r)) = on_con (kprint l)" by (rule ext) (simp add: on_con_def kprint_upto_nul [OF l])
  have "shell_execute_command (l @ 0 # r) s =
      ret ((on_con (kprint (bytes ''Unknown command: '')) s \<bind> on_con (kprint l)) \<bind> on_con (kprint [10]))"
    unfolding shell_execute_command_def command_conds [OF l refl] newline_bytes
    by (simp only: n o(2) assms(2-7) if_False k Option.bind_assoc)
  then show ?thesis using l u t by (simp add: on_con_then)
qed

lemma bytes_Nil_iff: "bytes t = [] \<longleftrightarrow> t = []" "[] = bytes t \<longleftrightarrow> t = []"
  by (auto simp: bytes_def)

lemma execute_blank: "shell_execute_command (0 # r) s = Some (Returns s)"
proof -
  note conds = command_conds [of "[]", OF _ refl, simplified]
  show ?thesis unfolding shell_execute_command_def conds bytes_Nil_iff by (simp add: ret_def bytes_Nil_iff)
qed

lemma execute_fixed:
  assumes "CHR 0x00 \<notin> set t" and "u = bytes t"
  shows "t = ''pcilist'' \<Longrightarrow> shell_execute_command (u @ 0 # r) s = Some (Returns s) \<and> reply u = Some []"
    "t = ''help'' \<Longrightarrow> shell_execute_command (u @ 0 # r) s = ret (say shell_help s) \<and> reply u = Some (bytes shell_help)"
    "t = ''Hello World!'' \<Longrightarrow> shell_execute_command (u @ 0 # r) s = ret (say ''Bro why did you type this ??????\<newline>'' s)
       \<and> reply u = Some (bytes ''Bro why did you type this ??????\<newline>'')"
    "t = ''version'' \<Longrightarrow> shell_execute_command (u @ 0 # r) s = ret (say ''version 0.0.1 build 15\<newline>'' s)
       \<and> reply u = Some (bytes ''version 0.0.1 build 15\<newline>'')"
proof -
  have n: "0 \<notin> set u" using bytes_no_nul [OF assms(1)] assms(2) by simp
  note c = shell_execute_command_def command_conds [OF n refl] reply_def
  note e = assms(2) bytes_inject bytes_Nil_iff take_bytes
  show "t = ''pcilist'' \<Longrightarrow> shell_execute_command (u @ 0 # r) s = Some (Returns s) \<and> reply u = Some []"
    unfolding c unfolding e by (simp add: ret_def split del: if_split)
  show "t = ''help'' \<Longrightarrow> shell_execute_command (u @ 0 # r) s = ret (say shell_help s) \<and> reply u = Some (bytes shell_help)"
    unfolding c unfolding e by (simp split del: if_split)
  show "t = ''Hello World!'' \<Longrightarrow> shell_execute_command (u @ 0 # r) s = ret (say ''Bro why did you type this ??????\<newline>'' s)
       \<and> reply u = Some (bytes ''Bro why did you type this ??????\<newline>'')"
    unfolding c unfolding e by (simp split del: if_split)
  show "t = ''version'' \<Longrightarrow> shell_execute_command (u @ 0 # r) s = ret (say ''version 0.0.1 build 15\<newline>'' s)
       \<and> reply u = Some (bytes ''version 0.0.1 build 15\<newline>'')"
    unfolding c unfolding e by (simp split del: if_split)
qed

lemma execute_reply:
  assumes l: "0 \<notin> set l" and a: "reply l = Some t"
  shows "shell_execute_command (l @ 0 # r) s = ret (on_con (kprint t) s)"
proof -
  consider "l = []" | "l = bytes ''pcilist''" | "l = bytes ''help''" | "l = bytes ''Hello World!''" | "l = bytes ''version''"
    | "take 5 l = bytes ''echo ''" | "l \<noteq> []" "l \<noteq> bytes ''pcilist''" "l \<noteq> bytes ''help''" "l \<noteq> bytes ''Hello World!''"
        "l \<noteq> bytes ''version''" "take 5 l \<noteq> bytes ''echo ''"
    by blast
  then show ?thesis
  proof cases
    case 1
    then have "t = []" using a by (simp add: reply_def)
    then show ?thesis using 1 execute_blank [of r s] by (simp add: on_con_nothing ret_def)
  next
    case 2
    show ?thesis using execute_fixed(1) [OF _ 2 refl, of r s] a by (simp add: on_con_nothing ret_def)
  next
    case 3
    show ?thesis using execute_fixed(2) [OF _ 3 refl, of r s] a by simp
  next
    case 4
    show ?thesis using execute_fixed(3) [OF _ 4 refl, of r s] a by simp
  next
    case 5
    show ?thesis using execute_fixed(4) [OF _ 5 refl, of r s] a by simp
  next
    case 6
    then show ?thesis using execute_echo [OF l] a by simp
  qed (rule execute_unknown [OF l _ _ _ _ _ _ a])
qed

definition prompt :: "u8 list" where
  "prompt = bytes ''<NTux-OS> :''"

lemma prompt_chars: "\<forall>c \<in> set prompt. c < 128 \<and> c \<noteq> 0 \<and> c \<noteq> 10"
  by (simp add: prompt_def bytes_def of_char_def)

lemma reply_chars:
  assumes l: "\<forall>c \<in> set l. 32 \<le> c \<and> c < 127" and a: "reply l = Some t"
  shows "\<forall>c \<in> set t. c < 128 \<and> c \<noteq> 0"
proof -
  have lit: "\<forall>c \<in> set (bytes shell_help @ bytes ''Bro why did you type this ??????\<newline>'' @ bytes ''version 0.0.1 build 15\<newline>''
      @ bytes ''Unknown command: '' @ [10]). c < 128 \<and> c \<noteq> 0"
    by (simp add: bytes_def of_char_def shell_help_def)
  have c: "c < 128 \<and> c \<noteq> 0" if "c \<in> set l" for c
    using l that less_trans [of c 127 128] by auto
  have "set t \<subseteq> set (bytes shell_help @ bytes ''Bro why did you type this ??????\<newline>'' @ bytes ''version 0.0.1 build 15\<newline>''
      @ bytes ''Unknown command: '' @ [10]) \<union> set l"
    using a unfolding reply_def by (auto split: if_splits dest: in_set_dropD)
  then show ?thesis using lit c by blast
qed

lemma put_chars_kprint:
  assumes "con_fb (con s) = back_buffer s" "con_color (con s) = COLOR_WHITE" "\<forall>c \<in> set t. c \<noteq> 0 \<and> c \<noteq> 10"
  shows "put_chars t s = on_con (kprint t) s"
  using assms
proof (induction t arbitrary: s)
  case (Cons c t)
  show ?case
  proof (cases "put_char_with_cursor_lim (back_buffer s) (con_cursor (con s)) c COLOR_WHITE (video (con s))")
    case None
    then show ?thesis using Cons.prems by (simp add: put_char_def on_con_def)
  next
    case (Some q)
    obtain cur m where q: "q = (cur, m)" by (cases q)
    define s1 where "s1 = s\<lparr>con := (con s)\<lparr>con_cursor := cur, video := m\<rparr>\<rparr>"
    have "put_chars t s1 = on_con (kprint t) s1" using Cons by (simp add: s1_def)
    then show ?thesis using Cons.prems Some q by (simp add: put_char_def on_con_def s1_def)
  qed
qed (simp add: on_con_def)

lemma on_con_ascii: "\<forall>c \<in> set t. c < 128 \<Longrightarrow> \<exists>k. kprint t (con s) = Some k \<and> on_con (kprint t) s = Some (s\<lparr>con := k\<rparr>)"
  using kprint_ascii [of t "con s"] by (auto simp: on_con_def)

lemma kprint_keeps: "kprint t k = Some k' \<Longrightarrow> con_fb k' = con_fb k \<and> con_color k' = con_color k"
  by (induction t arbitrary: k) (fastforce split: if_splits Option.bind_splits prod.splits)+

text \<open>The screen of the shell: the printer and both buffers are the same framebuffer.\<close>

definition one_screen :: "'d shell \<Rightarrow> bool" where
  "one_screen s \<longleftrightarrow> con_fb (con s) = back_buffer s \<and> front_buffer s = back_buffer s \<and> con_color (con s) = COLOR_WHITE"

text \<open>
  C14: What Enter does: the line typed is the command, whatever the bytes behind it in the buffer; for the commands that
  only print, the console shows a newline, the answer and the prompt, and the line is empty again.
\<close>

theorem shell_enter_replies:
  assumes inv: "line_inv s" and one: "one_screen s" and a: "reply (shell_line s) = Some t"
    and s0: "s0 = (if cursor_visible s then clear_cursor s else s)"
  shows "\<exists>k s'. kprint (10 # t @ prompt) (con s0) = Some k \<and> shell_handle_key 10 s = Some (Returns s')
    \<and> con s' = k\<lparr>video := render_cursor_lim (back_buffer s) (con_cursor k) COLOR_WHITE (video k)\<rparr>
    \<and> shell_line s' = [] \<and> line_inv s' \<and> one_screen s'"
proof -
  have line: "\<forall>c \<in> set (shell_line s). 32 \<le> c \<and> c < 127" using inv by (simp add: line_inv_def)
  note t = reply_chars [OF line a]
  define s1 where "s1 = s0\<lparr>input_buffer := (input_buffer s0)[input_len s0 := 0]\<rparr>"
  have f0: "input_buffer s0 = input_buffer s" "input_len s0 = input_len s" "con_fb (con s0) = back_buffer s"
    "back_buffer s0 = back_buffer s" "front_buffer s0 = back_buffer s" "con_color (con s0) = COLOR_WHITE"
    using one by (simp_all add: s0 one_screen_def clear_cursor_def set_video_def)
  have buf: "input_buffer s1 = shell_line s @ 0 # drop (input_len s + 1) (input_buffer s)"
    using inv f0 by (simp add: s1_def line_inv_def shell_line_def upd_conv_take_nth_drop)
  have "\<forall>c \<in> set (10 # t @ prompt). c < 128" using t prompt_chars by auto
  then obtain k where k: "kprint (10 # t @ prompt) (con s0) = Some k" using kprint_ascii by blast
  have nul: "0 \<notin> set [10 :: u8]" "0 \<notin> set t" "0 \<notin> set (shell_line s)" using t line by auto
  have all: "kprint [10] (con s1) \<bind> kprint t \<bind> kprint prompt = Some k"
    using k nul kprint_append [of "[10]" "t @ prompt"] kprint_append [OF nul(2)] by (simp add: s1_def Option.bind_assoc cong: Option.bind_cong)
  then obtain k1 k2 where k1: "kprint [10] (con s1) = Some k1" "kprint t k1 = Some k2" "kprint prompt k2 = Some k"
    by (auto split: Option.bind_splits simp: Option.bind_eq_Some_conv)
  define s2 where "s2 = s1\<lparr>con := k2\<rparr>"
  have b: "input_buffer (s1\<lparr>con := k1\<rparr>) = input_buffer s1" by simp
  have "shell_newline s0 = then_on (then_on (ret (say ''\<newline>'' s1)) (\<lambda>s. shell_execute_command (input_buffer s) s))
      (\<lambda>s. ret (shell_print_prompt (shell_clear_input s)))"
    unfolding shell_newline_def s1_def Let_def by (cases "ret (say ''\<newline>'' s1)" rule: then_on.cases [of "(x, \<lambda>s. None)" for x]) (simp_all add: s1_def)
  also have "ret (say ''\<newline>'' s1) = Some (Returns (s1\<lparr>con := k1\<rparr>))" using k1 by (simp add: newline_bytes on_con_def ret_def)
  also have "then_on \<dots> (\<lambda>s. shell_execute_command (input_buffer s) s) = Some (Returns s2)"
  proof -
    have "shell_execute_command (input_buffer s1) (s1\<lparr>con := k1\<rparr>) = Some (Returns s2)"
      unfolding buf execute_reply [OF nul(3) a] by (simp add: k1(2) on_con_def ret_def s2_def)
    then show ?thesis by simp
  qed
  also have "then_on \<dots> (\<lambda>s. ret (shell_print_prompt (shell_clear_input s))) = Some (Returns ((shell_clear_input s2)\<lparr>con := k\<rparr>))"
  proof -
    have "con_fb k2 = back_buffer s" "con_color k2 = COLOR_WHITE"
      using kprint_keeps [OF k1(1)] kprint_keeps [OF k1(2)] f0 by (simp_all add: s1_def)
    then have "put_chars prompt (shell_clear_input s2) = on_con (kprint prompt) (shell_clear_input s2)"
      using prompt_chars f0 by (intro put_chars_kprint) (auto simp: s2_def s1_def shell_clear_input_def)
    then show ?thesis using k1(3)
      by (simp add: shell_print_prompt_def prompt_def [symmetric] on_con_def ret_def s2_def shell_clear_input_def)
  qed
  finally have nl: "shell_newline s0 = Some (Returns ((shell_clear_input s2)\<lparr>con := k\<rparr>))" .
  define s' where "s' = swap_buffers (render_cursor ((shell_clear_input s2)\<lparr>con := k, cursor_visible := True\<rparr>))"
  have "shell_handle_key 10 s = Some (Returns s')" using nl by (simp add: shell_handle_key_def s0 ret_def s'_def)
  moreover have "con s' = k\<lparr>video := render_cursor_lim (back_buffer s) (con_cursor k) COLOR_WHITE (video k)\<rparr>"
    using f0 by (simp add: s'_def swap_buffers_def render_cursor_def set_video_def shell_clear_input_def s2_def s1_def)
  moreover have "shell_line s' = []" "line_inv s'"
    using inv by (simp_all add: s'_def line_inv_def shell_line_def swap_buffers_def render_cursor_def set_video_def shell_clear_input_def
        s2_def s1_def f0 SHELL_MAX_INPUT_def)
  moreover have "one_screen s'"
    using f0 kprint_keeps [OF k] by (simp add: s'_def one_screen_def swap_buffers_def render_cursor_def set_video_def
        shell_clear_input_def s2_def s1_def)
  ultimately show ?thesis using k by blast
qed

end
