(* ===== verification/Shell_Facts.thy ===== *)
theory Shell_Facts
  imports Shell
begin

text \<open>
  What the keys and commands of the shell do beyond printing: the backspace key, \<^verbatim>\<open>thread_test\<close>, \<^verbatim>\<open>ls\<close>,
  \<^verbatim>\<open>rmkdir\<close> and the blinking cursor, and the sample shell in which the statements about it are evaluated.
\<close>

section \<open>The backspace key\<close>

lemma row_glyph: "glyph (sint (of_int y :: u8)) = (if y mod 256 < 128 then Some (font8x8_basic ! nat (y mod 256)) else None)"
proof -
  have u: "uint (of_int y :: u8) = y mod 256" by (simp add: uint_word_of_int_eq take_bit_eq_mod)
  have m: "0 \<le> y mod 256" "y mod 256 < 256" by simp_all
  show ?thesis
  proof (cases "y mod 256 < 128")
    case True
    then have "sint (of_int y :: u8) = y mod 256"
      using order_trans [OF _ m(1), of "- 128"] unfolding sint_uint u by (simp add: signed_take_bit_int_eq_self_iff)
    then show ?thesis using True m(1) by (simp add: glyph_def)
  next
    case False
    then have "(y mod 256 - 128 + 256) mod 256 = y mod 256 - 128" using m by (simp only: mod_add_self2) simp
    then have "sint (of_int y :: u8) < 0"
      using m unfolding sint_uint u by (simp add: signed_take_bit_eq_take_bit_shift take_bit_eq_mod add.commute)
    then show ?thesis using False by (simp add: glyph_def)
  qed
qed

lemma cursor_kept [simp]:
  "con_cursor (con (render_cursor s)) = con_cursor (con s)" "con_cursor (con (clear_cursor s)) = con_cursor (con s)"
  "con_cursor (con (set_video m s)) = con_cursor (con s)" "con_cursor (con (swap_buffers s)) = con_cursor (con s)"
  by (simp_all add: render_cursor_def clear_cursor_def set_video_def swap_buffers_def)

text \<open>The cell the cursor covers; cursors step by cells from the corner of the screen.\<close>

definition cell_on :: "limine_framebuffer \<Rightarrow> cursor_t \<Rightarrow> bool" where
  "cell_on fb cur \<longleftrightarrow> char_width cur = 8 \<and> char_height cur = 8 \<and> 8 dvd cur_y cur
     \<and> 0 \<le> cur_x cur \<and> cur_x cur + 8 \<le> uint (width fb) \<and> 0 \<le> cur_y cur \<and> cur_y cur + 8 \<le> uint (height fb)"

definition in_cell :: "cursor_t \<Rightarrow> int \<Rightarrow> int \<Rightarrow> bool" where
  "in_cell cur qx qy \<longleftrightarrow> cur_x cur \<le> qx \<and> qx < cur_x cur + 8 \<and> cur_y cur \<le> qy \<and> qy < cur_y cur + 8"

definition previous_cell :: "limine_framebuffer \<Rightarrow> cursor_t \<Rightarrow> cursor_t" where
  "previous_cell fb cur =
     (if 8 \<le> cur_x cur then cur\<lparr>cur_x := cur_x cur - 8\<rparr>
      else if 8 \<le> cur_y cur then cur\<lparr>cur_x := uint (width fb) - 8, cur_y := cur_y cur - 8\<rparr> else cur)"

lemma previous_cell_on: "cell_on fb cur \<Longrightarrow> cell_on fb (previous_cell fb cur)"
  by (auto simp: cell_on_def previous_cell_def)

lemma fill_cursor_pixel:
  assumes ok: "fb_ok fb" and cur: "cell_on fb cur" and q: "visible fb qx qy"
  shows "pixel fb (fill_cursor fb cur v m) qx qy = (if in_cell cur qx qy then v else pixel fb m qx qy)"
proof -
  have w: "nat (char_width cur) = 8" "nat (char_height cur) = 8" using cur by (simp_all add: cell_on_def)
  have "pixel fb (fill_cursor fb cur v m) qx qy =
      (if \<exists>dy\<in>set [0..<8]. \<exists>dx\<in>set [0..<8]. (cur_x cur + int dx, cur_y cur + int dy) = (qx, qy) then v else pixel fb m qx qy)"
    unfolding fill_cursor_def w by (intro fold_pixel pixel_store [OF ok _ q]) (use cur in \<open>auto simp: cell_on_def visible_def\<close>)
  moreover have "(\<exists>dy\<in>set [0..<8]. \<exists>dx\<in>set [0..<8]. (cur_x cur + int dx, cur_y cur + int dy) = (qx, qy)) \<longleftrightarrow> in_cell cur qx qy"
  proof
    assume "in_cell cur qx qy"
    then show "\<exists>dy\<in>set [0..<8]. \<exists>dx\<in>set [0..<8]. (cur_x cur + int dx, cur_y cur + int dy) = (qx, qy)"
      by (intro bexI [of _ "nat (qy - cur_y cur)"] bexI [of _ "nat (qx - cur_x cur)"]) (auto simp: in_cell_def)
  qed (auto simp: in_cell_def)
  ultimately show ?thesis by simp
qed

lemma fb_width_small: "fb_ok fb \<Longrightarrow> uint (width fb) < 2 ^ 62"
proof -
  assume "fb_ok fb"
  then have "unat (width fb) < 2 ^ 62" by (simp add: fb_ok_def)
  then show ?thesis by (metis of_nat_less_iff of_nat_numeral of_nat_power uint_nat)
qed

text \<open>The call of \<^verbatim>\<open>draw_char_lim\<close>: off the screen, or in front of the font.\<close>

lemma draw_off_screen:
  assumes ok: "fb_ok fb" and y: "px < 2 ^ 62"
  shows "128 \<le> row mod 256 \<Longrightarrow> draw_char_lim fb (uint (width fb)) px (of_int row) v m = None"
    and "row mod 256 < 128 \<Longrightarrow> \<exists>m'. draw_char_lim fb (uint (width fb)) px (of_int row) v m = Some m'
        \<and> (\<forall>qx qy. visible fb qx qy \<longrightarrow> pixel fb m' qx qy = pixel fb m qx qy)"
proof -
  show "128 \<le> row mod 256 \<Longrightarrow> draw_char_lim fb (uint (width fb)) px (of_int row) v m = None"
    using row_glyph [of row] by (simp add: draw_char_lim_def)
  assume "row mod 256 < 128"
  then have c: "(of_int row :: u8) < 128" by (simp add: word_less_def uint_word_of_int_eq take_bit_eq_mod)
  have "uint (width fb) < 2 ^ 62" by (rule fb_width_small [OF ok])
  then obtain m' where "draw_char_lim fb (uint (width fb)) px (of_int row) v m = Some m'"
    "\<And>qx qy. visible fb qx qy \<Longrightarrow>
       pixel fb m' qx qy = (if glyph_at (of_int row) (qx - uint (width fb)) (qy - px) then v else pixel fb m qx qy)"
    using draw_char_spec [OF ok c _ y] by metis
  then show "\<exists>m'. draw_char_lim fb (uint (width fb)) px (of_int row) v m = Some m'
        \<and> (\<forall>qx qy. visible fb qx qy \<longrightarrow> pixel fb m' qx qy = pixel fb m qx qy)"
    by (auto simp: glyph_at_def visible_def)
qed

text \<open>What a shell and its pixels look like after the cursor was painted.\<close>

abbreviation shown :: "'d shell \<Rightarrow> int \<Rightarrow> int \<Rightarrow> u32" where
  "shown s \<equiv> pixel (back_buffer s) (video (con s))"

lemma painted_cursor:
  assumes "fb_ok (back_buffer s)" "cell_on (back_buffer s) (con_cursor (con s))" "visible (back_buffer s) qx qy"
  shows "shown (render_cursor s) qx qy = (if in_cell (con_cursor (con s)) qx qy then COLOR_WHITE else shown s qx qy)"
    "shown (clear_cursor s) qx qy = (if in_cell (con_cursor (con s)) qx qy then COLOR_BLACK else shown s qx qy)"
  using fill_cursor_pixel [OF assms]
  by (simp_all add: render_cursor_def clear_cursor_def set_video_def render_cursor_lim_def clear_cursor_lim_def)

lemma painted_screen [simp]:
  "back_buffer (render_cursor s) = back_buffer s" "back_buffer (clear_cursor s) = back_buffer s"
  "fb_width (clear_cursor s) = fb_width s" "input_len (clear_cursor s) = input_len s"
  "front_buffer (swap_buffers s) = back_buffer s" "con (swap_buffers s) = con s"
  "con_cursor (con (set_video m s)) = con_cursor (con s)" "video (con (set_video m s)) = m" "back_buffer (set_video m s) = back_buffer s"
  by (simp_all add: render_cursor_def clear_cursor_def set_video_def swap_buffers_def)

lemma backspace_cell:
  assumes ok: "fb_ok (back_buffer s)" "fb_width s = uint (width (back_buffer s))"
    and cur: "con_cursor (con s) = cur" "cell_on (back_buffer s) cur" and len: "input_len s \<noteq> 0"
  defines "cur' \<equiv> previous_cell (back_buffer s) cur"
  shows "128 \<le> cur_y cur' mod 256 \<Longrightarrow> shell_backspace s = None"
    "cur_y cur' mod 256 < 128 \<Longrightarrow> \<exists>s'. shell_backspace s = Some s' \<and> con_cursor (con s') = cur'
       \<and> back_buffer s' = back_buffer s
       \<and> (\<forall>qx qy. visible (back_buffer s) qx qy \<longrightarrow> shown s' qx qy = (if in_cell cur' qx qy then COLOR_WHITE else shown s qx qy))"
proof -
  let ?fb = "back_buffer s"
  define s1 where "s1 = s\<lparr>input_len := input_len s - 1, input_buffer := (input_buffer s)[input_len s - 1 := 0],
    con := (con s)\<lparr>con_cursor := cur'\<rparr>\<rparr>"
  have c: "(if 8 \<le> cur_x cur then cur\<lparr>cur_x := cur_x cur - 8\<rparr>
      else if 0 < cur_y cur then cur\<lparr>cur_y := cur_y cur - 8, cur_x := uint (width ?fb) - 8\<rparr> else cur) = cur'"
    using cur(2) by (auto simp: cell_on_def cur'_def previous_cell_def elim!: dvdE)
  have cw: "char_width cur = 8" "char_height cur = 8" using cur(2) by (simp_all add: cell_on_def)
  have run: "shell_backspace s = do {
      m \<leftarrow> draw_char_lim ?fb (uint (width ?fb)) (cur_x cur') (of_int (cur_y cur')) COLOR_BLACK (video (con s));
      Some (render_cursor ((set_video m s1)\<lparr>cursor_visible := True\<rparr>)) }"
    using len cw by (simp add: shell_backspace_def Let_def cur(1) c ok(2) s1_def split del: if_split cong: if_cong)
  have on: "cell_on ?fb cur'" using previous_cell_on [OF cur(2)] by (simp add: cur'_def)
  have "uint (width ?fb) < 2 ^ 62" by (rule fb_width_small [OF ok(1)])
  then have "cur_x cur' < 2 ^ 62" using on by (simp add: cell_on_def)
  note d = draw_off_screen [OF ok(1) this, of "cur_y cur'" COLOR_BLACK "video (con s)"]
  show "128 \<le> cur_y cur' mod 256 \<Longrightarrow> shell_backspace s = None" using d(1) run by simp
  assume "cur_y cur' mod 256 < 128"
  then obtain m where m: "draw_char_lim ?fb (uint (width ?fb)) (cur_x cur') (of_int (cur_y cur')) COLOR_BLACK (video (con s)) = Some m"
    "\<And>qx qy. visible ?fb qx qy \<Longrightarrow> pixel ?fb m qx qy = shown s qx qy" using d(2) by blast
  let ?s = "(set_video m s1)\<lparr>cursor_visible := True\<rparr>"
  have f: "back_buffer ?s = ?fb" "con_cursor (con ?s) = cur'" "shown ?s = pixel ?fb m" by (simp_all add: s1_def set_video_def)
  have "shown (render_cursor ?s) qx qy = (if in_cell cur' qx qy then COLOR_WHITE else shown s qx qy)"
    if "visible ?fb qx qy" for qx qy
    using painted_cursor(1) [of ?s qx qy] ok(1) on that m(2) [OF that] unfolding f by simp
  then show "\<exists>s'. shell_backspace s = Some s' \<and> con_cursor (con s') = cur' \<and> back_buffer s' = back_buffer s
       \<and> (\<forall>qx qy. visible ?fb qx qy \<longrightarrow> shown s' qx qy = (if in_cell cur' qx qy then COLOR_WHITE else shown s qx qy))"
    using run m(1) f by (intro exI [of _ "render_cursor ?s"]) simp
qed

text \<open>
  C26: What the backspace key shows of what it does.  A line of one character becomes empty and the cursor stays where
  it is; from a longer line two characters are removed and the cursor moves back over one cell, to the end of the
  row above from the left edge.  On the screen, pixel by pixel, the cell of the old cursor turns black if the cursor was
  visible, the cell of the new one white, and no other pixel changes: the characters removed are not erased,
  and the earlier of the two stays on the screen.  When the pixel row of the new cursor is 128 to 255 modulo 256
  the code reads in front of the font.
\<close>

theorem shell_backspace_key:
  assumes inv: "line_inv s" and l: "l = shell_line s" "l \<noteq> []" and fb: "fb = back_buffer s" "fb_ok fb" "fb_width s = uint (width fb)"
    and cur: "cur = con_cursor (con s)" "cell_on fb cur"
    and cur': "cur' = (if length l = 1 then cur else previous_cell fb cur)"
  shows "if length l \<noteq> 1 \<and> 128 \<le> cur_y cur' mod 256 then shell_handle_key 8 s = None
    else \<exists>s'. shell_handle_key 8 s = Some (Returns s') \<and> shell_line s' = take (length l - 2) l
           \<and> con_cursor (con s') = cur' \<and> front_buffer s' = fb
           \<and> (\<forall>qx qy. visible fb qx qy \<longrightarrow> pixel fb (video (con s')) qx qy =
                (if in_cell cur' qx qy then COLOR_WHITE
                 else if cursor_visible s \<and> in_cell cur qx qy then COLOR_BLACK
                 else pixel fb (video (con s)) qx qy))"
proof -
  define s0 where "s0 = (if cursor_visible s then clear_cursor s else s)"
  define s1 where "s1 = s0\<lparr>input_len := input_len s0 - 1, input_buffer := (input_buffer s0)[input_len s0 - 1 := 0]\<rparr>"
  have i0: "line_inv s0" "shell_line s0 = l" "con_cursor (con s0) = cur" using inv l cur by (simp_all add: s0_def)
  have n: "input_len s0 = length l" "0 < length l" using line_length [OF i0(1)] i0(2) l(2) by (simp, blast)
  have c1: "con_cursor (con s1) = cur" "input_len s1 = length l - 1" "back_buffer s1 = fb" "fb_width s1 = uint (width fb)"
    using i0 n fb by (simp_all add: s1_def s0_def)
  have v1: "shown s1 qx qy = (if cursor_visible s \<and> in_cell cur qx qy then COLOR_BLACK else pixel fb (video (con s)) qx qy)"
    if "visible fb qx qy" for qx qy
    using painted_cursor(2) [of s qx qy] fb(2) cur that by (simp add: s1_def s0_def fb(1))
  have hk: "shell_handle_key 8 s = (case shell_backspace s1 of None \<Rightarrow> None
      | Some s \<Rightarrow> Some (Returns (swap_buffers (render_cursor (s\<lparr>cursor_visible := True\<rparr>)))))"
    using n by (simp add: handle_key_edit shell_edit_def s0_def [symmetric] s1_def)
  have line: "shell_line s2 = take (length l - 2) l" if "shell_backspace s1 = Some s2" for s2
    using edit_line [OF i0(1), of 8 s2] that n i0(2) by (simp add: shell_edit_def s1_def edit_def butlast_twice)
  have on: "cell_on fb cur'" using cur(2) previous_cell_on by (simp add: cur')
  show ?thesis
  proof (cases "length l \<noteq> 1 \<and> 128 \<le> cur_y cur' mod 256")
    case True
    then have "shell_backspace s1 = None" using backspace_cell(1) [of s1 cur] c1 n fb(2) cur(2) cur' by auto
    then show ?thesis using True hk by simp
  next
    case False
    have "\<exists>s2. shell_backspace s1 = Some s2 \<and> con_cursor (con s2) = cur' \<and> back_buffer s2 = fb
      \<and> (\<forall>qx qy. visible fb qx qy \<longrightarrow> \<not> in_cell cur' qx qy \<longrightarrow> shown s2 qx qy = shown s1 qx qy)"
    proof (cases "length l = 1")
      case True
      then show ?thesis using c1 cur' by (simp add: shell_backspace_def)
    next
      case two: False
      then show ?thesis using backspace_cell(2) [of s1 cur] c1 n fb(2) cur(2) False cur' by auto
    qed
    then obtain s2 where s2: "shell_backspace s1 = Some s2" "con_cursor (con s2) = cur'" "back_buffer s2 = fb"
      and v2: "\<And>qx qy. visible fb qx qy \<Longrightarrow> \<not> in_cell cur' qx qy \<Longrightarrow> shown s2 qx qy = shown s1 qx qy" by blast
    define s3 where "s3 = swap_buffers (render_cursor (s2\<lparr>cursor_visible := True\<rparr>))"
    have "pixel fb (video (con s3)) qx qy = (if in_cell cur' qx qy then COLOR_WHITE
        else if cursor_visible s \<and> in_cell cur qx qy then COLOR_BLACK else pixel fb (video (con s)) qx qy)"
      if q: "visible fb qx qy" for qx qy
      using painted_cursor(1) [of "s2\<lparr>cursor_visible := True\<rparr>" qx qy] v2 [OF q] v1 [OF q] q fb(2) on s2 by (simp add: s3_def)
    moreover have "front_buffer s3 = fb" "con_cursor (con s3) = cur'" "shell_line s3 = take (length l - 2) l"
      using s2 line by (simp_all add: s3_def)
    moreover have "shell_handle_key 8 s = Some (Returns s3)" using hk s2(1) by (simp add: s3_def)
    ultimately show ?thesis using False by auto
  qed
qed

section \<open>The blinking cursor\<close>

lemma to_int_small: "unat v < 2 ^ 31 \<Longrightarrow> to_int v = int (unat v)" for v :: u64
proof -
  assume "unat v < 2 ^ 31"
  then have "v < 2 ^ 31" by (simp add: word_less_nat_alt)
  then show ?thesis by (simp add: to_int_def sint_low_half)
qed

lemma to_int_large:
  fixes v :: u64
  assumes "2 ^ 31 \<le> unat v" "unat v < 2 ^ 32"
  shows "to_int v = int (unat v) - 2 ^ 32"
proof -
  have n: "2 ^ 31 \<le> uint v" "uint v < 2 ^ 32"
    using assms by (metis of_nat_le_iff of_nat_less_iff of_nat_numeral of_nat_power uint_nat)+
  have tb: "take_bit 32 (uint v) = uint v" using n by (intro take_bit_int_eq_self) simp_all
  have u: "uint (ucast v :: u32) = uint v" unfolding unsigned_ucast_eq using tb by simp
  have "uint v div 2 ^ 31 = 1" by (rule int_div_pos_eq [where r = "uint v - 2 ^ 31"]) (use n in simp_all)
  then have "bit (uint v) 31" by (simp only: bit_iff_odd odd_one not_False_eq_True)
  then have "signed_take_bit 31 (uint v) = uint v - 2 ^ 32"
    by (simp only: signed_take_bit_eq_take_bit_minus of_bool_eq mult_1_right tb eval_nat_numeral(3) [of "num.One", symmetric] Suc_numeral semiring_norm)
  then show ?thesis unfolding to_int_def sint_uint u by simp
qed

text \<open>
  The cursor blinks at most every 20 ticks for the first \<open>2\<^sup>3\<^sup>1\<close> ticks (about 250 days); from then on, until
  tick \<open>2\<^sup>3\<^sup>2\<close>, it changes at every call, since the time of the last change is kept in an \<^verbatim>\<open>int\<close>.
\<close>

theorem cursor_blink_interval:
  assumes t: "t = tick_at s (tick_reads s)" and l: "last_blink_tick s = to_int l"
    and le: "unat l \<le> unat t" "unat t < 2 ^ 63" "unat l < 2 ^ 32"
  shows "cursor_visible (update_cursor_blink s) \<noteq> cursor_visible s \<longleftrightarrow> 2 ^ 31 \<le> unat l \<or> 20 \<le> unat t - unat l"
proof -
  have "(20 :: u64) \<le> t - of_int (to_int l) \<longleftrightarrow> 2 ^ 31 \<le> unat l \<or> 20 \<le> unat t - unat l"
  proof (cases "unat l < 2 ^ 31")
    case True
    then have "t - of_int (to_int l) = t - l" by (simp add: to_int_small)
    moreover have "unat (t - l) = unat t - unat l" using le(1) by (simp add: unat_sub word_le_nat_alt)
    ultimately show ?thesis using True by (simp add: word_le_nat_alt)
  next
    case False
    then have e: "t - of_int (to_int l) = t - l + 2 ^ 32" using le(3) by (simp add: to_int_large)
    have "unat (t - l) = unat t - unat l" using le(1) by (simp add: unat_sub word_le_nat_alt)
    then have "unat (t - l + 2 ^ 32) = unat t - unat l + 2 ^ 32" using le(2) by (subst unat_plus_small) simp_all
    then show ?thesis unfolding e word_le_nat_alt using False by simp
  qed
  moreover have "cursor_visible (update_cursor_blink s) \<noteq> cursor_visible s \<longleftrightarrow> 20 \<le> t - of_int (last_blink_tick s)"
    by (simp add: update_cursor_blink_def get_tick_count_def t Let_def render_cursor_def clear_cursor_def set_video_def)
  ultimately show ?thesis by (simp add: l)
qed

section \<open>Commands\<close>

text \<open>
  C33: \<^verbatim>\<open>ls\<close> never shows a directory: it returns only when there is nothing to list, and then prints nothing.
  The first entry makes \<^verbatim>\<open>kprintf\<close>, which knows no field widths, read the name as a number, and the
  error message is printed without its arguments; both are undefined.
\<close>

lemma kprintf_ls:
  "kprintf (bytes ''%-20s  size=%u'' @ f) (Va_Str n # args) s = None"
  "kprintf (bytes ''ls: error opening '' @ 39 # bytes ''%s'' @ f) [] s = None"
  by (simp_all add: bytes_def of_char_def kprintf_conv_def split: Option.bind_splits)

theorem shell_ls_lists_nothing:
  "shell_ls path s =
     (case fat_ls path (stack_dir s) (stack_info s) (disk s) of
        Some (r, infos, d) \<Rightarrow> if r = 0 \<and> infos = [] then Some (s\<lparr>disk := d\<rparr>) else None
      | None \<Rightarrow> None)"
proof -
  have "bytes ''%-20s  size=%u  attr=0x%02X\<newline>'' = bytes ''%-20s  size=%u'' @ bytes ''  attr=0x%02X\<newline>''"
    by (simp add: bytes_def)
  then have "print_infos infos k = (if infos = [] then Some k else None)" for infos k
    by (cases infos) (simp_all only: print_infos.simps kprintf_ls, simp_all)
  then show ?thesis
    by (auto simp: shell_ls_def on_con_def kprintf_ls(2) Let_def split: option.split Option.bind_splits prod.split)
qed

subsection \<open>The thread test\<close>

lemma itoa_signed_ascii: "\<forall>c \<in> set (itoa_signed n). c < 128"
proof -
  have d: "c < 128" if "is_digit Decimal c" for c
    using that le_less_trans [of c 57 128] by (auto simp: is_digit_def)
  have "\<forall>c \<in> set (itoa_unsigned v Decimal). c < 128" for v
    using itoa_unsigned_val(2) [of Decimal v] d by (simp add: list_all_iff)
  then show ?thesis by (auto simp: itoa_signed_def)
qed

lemma kprintf_plain:
  "\<forall>c \<in> set t. c < 128 \<and> c \<noteq> 0 \<and> c \<noteq> 37 \<Longrightarrow> \<exists>k'. kprintf (t @ f) args k = kprintf f args k'"
proof (induction t arbitrary: k)
  case (Cons c t)
  obtain k1 where "kprint [c] k = Some k1" using kprint_ascii [of "[c]" k] Cons.prems by auto
  then have "kprintf ((c # t) @ f) args k = kprintf (t @ f) args k1"
    using Cons.prems kprintf_char(1) [of c "t @ f" args k] by (simp add: of_char_def)
  then show ?case using Cons by auto
qed auto

lemma kprintf_created: "\<exists>k'. kprintf (bytes ''Created thread %d\<newline>'') [Va_Int v] k = Some k'"
proof -
  have f: "bytes ''Created thread %d\<newline>'' = bytes ''Created thread '' @ of_char CHR ''%'' # of_char CHR ''d'' # [10]"
    by (simp add: bytes_def of_char_def)
  have "\<forall>c \<in> set (bytes ''Created thread ''). c < 128 \<and> c \<noteq> 0 \<and> c \<noteq> 37" by (simp add: bytes_def of_char_def)
  then obtain k1 where k1: "kprintf (bytes ''Created thread %d\<newline>'') [Va_Int v] k
      = kprintf (of_char CHR ''%'' # of_char CHR ''d'' # [10]) [Va_Int v] k1"
    unfolding f using kprintf_plain by blast
  have "(of_char CHR ''d'' :: u8) \<noteq> 0" by (simp add: of_char_def)
  note p = kprintf_percent(1) [OF this, of "[10]" "[Va_Int v]" k1]
  obtain k2 where "kprint (itoa_signed (sint (ucast v :: u32))) k1 = Some k2"
    using kprint_ascii [OF itoa_signed_ascii] by blast
  then have "kprintf_conv (of_char CHR ''d'') [Va_Int v] k1 = Some ([], k2)" by (simp add: kprintf_conv_def)
  then show ?thesis using k1 p kprintf_plain [of "[10]" "[]" "[]" k2] by simp
qed

definition room_for_test :: "u64 \<Rightarrow> u64 \<Rightarrow> threads \<Rightarrow> bool" where
  "room_for_test e1 e2 t \<longleftrightarrow> room_for_thread t
     \<and> (case thread_create e1 t of
          None \<Rightarrow> False
        | Some t1 \<Rightarrow> room_for_thread t1
            \<and> (case thread_create e2 t1 of None \<Rightarrow> False | Some t2 \<Rightarrow> may_write t2 (cpu_rsp t2 - 8)))"

lemma create_message_returns:
  assumes "threads_inv live t" "room_for_thread t" "next_thread_id t < int MAX_THREADS"
  shows "\<exists>k'. create_message t k = Some k'"
proof -
  obtain p hs m where p: "kmalloc 40 (heap_st t) = Some (p, hs)" "p \<noteq> 0" "heap_inv (live(p \<mapsto> m)) hs"
    by (rule kmalloc_fresh [of live "heap_st t" 40]) (use assms in \<open>auto simp: threads_inv_def room_for_thread_def\<close>)
  then have "heap_room 8192 hs" using assms(2) by (simp add: room_for_thread_def)
  then obtain stk hs' where "kmalloc 8192 hs = Some (stk, hs')" "stk \<noteq> 0"
    by (rule kmalloc_fresh [OF p(3), rotated]) auto
  then show ?thesis using p assms(3) kprintf_created by (simp add: create_message_def)
qed

lemma create_thread_step:
  assumes t: "t = (thds s)\<lparr>heap_st := kheap (ram s)\<rparr>" and inv: "threads_inv live t" and room: "room_for_thread t"
    and few: "next_thread_id t < int MAX_THREADS" and run: "thread_create e t = Some t'"
  obtains k where "create_thread e s = Some (s\<lparr>thds := t', ram := (ram s)\<lparr>kheap := heap_st t'\<rparr>, con := k\<rparr>)"
proof -
  obtain k where "create_message t (con s) = Some k" using create_message_returns [OF inv room few] by blast
  then show thesis using that run by (simp add: create_thread_def on_threads_def on_con_def t [symmetric])
qed

text \<open>
  C13: The command \<^verbatim>\<open>thread_test\<close> gives the processor away for ever: with no threads yet and room for two, it creates
  threads 0 and 1 and switches to the entry of the first, and whatever the threads do from then on, one of the two
  is running.  The shell is not a thread; its stack pointer is saved in a local variable nobody reads.
\<close>

theorem thread_test_never_returns:
  assumes t0: "t0 = (thds s)\<lparr>heap_st := kheap (ram s)\<rparr>" and inv: "threads_inv live t0"
    and first: "current_thread_id t0 = - 1" "next_thread_id t0 = 0"
    and room: "room_for_test (thread1_entry s) (thread2_entry s) t0"
  shows "\<exists>s'. shell_thread_test s = Some (Switches s') \<and> cpu_rip (thds s') = thread1_entry s
    \<and> (\<forall>t. kstep\<^sup>*\<^sup>* (thds s') t \<longrightarrow> current_thread_id t \<in> {0, 1})"
proof -
  let ?e1 = "thread1_entry s" and ?e2 = "thread2_entry s"
  obtain t1 t2 where t1: "thread_create ?e1 t0 = Some t1" "room_for_thread t0" "room_for_thread t1"
      and t2: "thread_create ?e2 t1 = Some t2" and w: "may_write t2 (cpu_rsp t2 - 8)"
    using room by (auto simp: room_for_test_def split: option.splits)
  have few: "next_thread_id t0 < int MAX_THREADS" by (simp add: first MAX_THREADS_def)
  obtain a m b n hs where f1: "fresh_blocks live a m b n hs" "t1 = with_thread ?e1 a b hs t0"
    by (rule create_made [OF inv t1(2,1) few])
  define live1 where "live1 = live(a \<mapsto> m, b \<mapsto> n)"
  have inv1: "threads_inv live1 t1" unfolding live1_def by (rule with_thread_inv [OF inv few f1])
  have few1: "next_thread_id t1 < int MAX_THREADS" by (simp add: f1(2) with_thread_def first MAX_THREADS_def)
  obtain a' m' b' n' hs' where f2: "fresh_blocks live1 a' m' b' n' hs'" "t2 = with_thread ?e2 a' b' hs' t1"
    by (rule create_made [OF inv1 t1(3) t2 few1])
  have inv2: "threads_inv (live1(a' \<mapsto> m', b' \<mapsto> n')) t2" by (rule with_thread_inv [OF inv1 few1 f2])
  have len: "length (thread_list t0) = 16" using inv by (simp add: threads_inv_def MAX_THREADS_def)
  have l: "thread_list t2 ! 0 = a" "thread_list t2 ! 1 = a'" "a \<noteq> 0" "a' \<noteq> 0" "current_thread_id t2 = - 1"
    using f1 f2 len by (simp_all add: with_thread_def first fresh_blocks_def)
  have rsp: "resume_of t2 0 = resume_of t1 0"
    using with_thread_resume [OF inv1 few1 f2(1), where i = 0] l f1 len
    by (simp add: f2(2) with_thread_def first MAX_THREADS_def)
  have r1: "snd (resume_of t1 0) = ?e1" using f1 len by (simp add: resume_of_def with_thread_def first)
  have ready: "is_ready t2 0" using is_ready_iff [OF inv2, of 0] l by (simp add: MAX_THREADS_def)
  have y: "thread_yield (yield_return s) t2 = switched (yield_return s) 0 t2"
    using scheduler_switched [OF inv2 find_first(1) [of "is_ready t2", OF ready]] by (simp add: thread_yield_def)
  define t3 where "t3 = switched (yield_return s) 0 t2"
  have z: "(0 :: nat) < MAX_THREADS" by (simp add: MAX_THREADS_def)
  note sw = switched_fields [OF inv2 z ready t3_def] and rs = switched_resume(1) [OF inv2 z ready w t3_def]
  have c3: "current_thread_id t3 = 0" "thread_list t3 = thread_list t2" using sw(1,2) [OF z] l by simp_all
  have rip: "cpu_rip t3 = ?e1" using rs rsp r1 by (metis snd_conv)
  have "kstep t2 t3" using kstep.yield [OF w, of "yield_return s"] y t3_def by simp
  then obtain live3 where inv3: "threads_inv live3 t3" using kstep_keeps(1) [OF _ inv2] by blast
  have two: "current_thread_id t \<in> {0, 1}" if "kstep\<^sup>*\<^sup>* t3 t" for t
  proof -
    from that have "(\<exists>live. threads_inv live t) \<and> thread_list t ! 0 \<noteq> 0 \<and> thread_list t ! 1 \<noteq> 0 \<and> current_thread_id t \<in> {0, 1}"
    proof (induction rule: rtranclp_induct)
      case base
      show ?case using inv3 c3 l by auto
    next
      case (step t u)
      then show ?case using kstep_keeps(1) kstep_two by blast
    qed
    then show ?thesis by blast
  qed
  obtain k1 where s1: "create_thread ?e1 s = Some (s\<lparr>thds := t1, ram := (ram s)\<lparr>kheap := heap_st t1\<rparr>, con := k1\<rparr>)"
    by (rule create_thread_step [OF t0 inv t1(2) few t1(1)])
  define s1' where "s1' = s\<lparr>thds := t1, ram := (ram s)\<lparr>kheap := heap_st t1\<rparr>, con := k1\<rparr>"
  have h1: "t1 = (thds s1')\<lparr>heap_st := kheap (ram s1')\<rparr>" by (simp add: s1'_def)
  obtain k2 where s2: "create_thread ?e2 s1' = Some (s1'\<lparr>thds := t2, ram := (ram s1')\<lparr>kheap := heap_st t2\<rparr>, con := k2\<rparr>)"
    by (rule create_thread_step [OF h1 inv1 t1(3) few1 t2])
  define s3 where "s3 = s1'\<lparr>thds := t3, ram := (ram s1')\<lparr>kheap := heap_st t3\<rparr>, con := k2\<rparr>"
  have "shell_thread_test s = Some (Switches s3)"
    using s1 s2 y c3 l(5) by (simp add: shell_thread_test_def s1'_def [symmetric] shell_yield_def on_threads_def t3_def [symmetric] s3_def)
      (simp add: s1'_def)
  then show ?thesis using rip two by (intro exI [of _ s3]) (simp add: s3_def)
qed

section \<open>A sample shell\<close>

definition console0 :: console where
  "console0 = \<lparr>con_fb = fb_small, con_cursor = (init_cursor 16 16)\<lparr>cur_x := 8\<rparr>, con_color = COLOR_WHITE, video = (\<lambda>_. 0)\<rparr>"

definition info0 :: DirInfo where
  "info0 = (let t = \<lparr>ts_hour = 0, ts_min = 0, ts_sec = 0, ts_day = 1, ts_month = 1, ts_year = 1980\<rparr>
     in \<lparr>di_created = t, di_modified = t, di_size = 0, di_attr = 0, di_name = [], di_name_len = 0\<rparr>)"

definition shell_with :: "'d fs \<Rightarrow> 'd shell" where
  "shell_with fs = \<lparr>con = console0, fb0 = fb_small, front_buffer = fb_small, back_buffer = fb_small, fb_width = 16, fb_height = 13,
     input_buffer = replicate 128 0, input_len = 0, cursor_visible = True, last_blink_tick = 0,
     background = (\<lambda>_. 0), background_shell = (\<lambda>_. 0), BACKGROUND_WT = 0, BACKGROUND_HT = 0,
     tick_at = of_nat, tick_reads = 100, cpuid_of = (\<lambda>_ _. (0, 0, 0, 0)), ram = ramfs_sample, thds = thread_init threads_sample,
     thread1_entry = 0x111, thread2_entry = 0x222, yield_return = 0x10, speaker = quiet (\<lambda>_. 0),
     disk = fs, stack_dir = dir_root, stack_info = info0\<rparr>"

definition shell0 :: "unit shell" where
  "shell0 = shell_with fs_disk0"

lemma shell_with_fields:
  "line_inv (shell_with fs)" "shell_line (shell_with fs) = []" "one_screen (shell_with fs)"
  by (simp_all add: line_inv_def shell_line_def shell_with_def SHELL_MAX_INPUT_def one_screen_def console0_def)

lemmas shell0_fields = shell_with_fields [of fs_disk0, folded shell0_def]

theorem shell_edits_line_witness:
  "\<exists>s'. shell_handle_keys (bytes ''echo hi'') shell0 = Some (Returns s') \<and> shell_line s' = bytes ''echo hi''"
proof -
  have k: "10 \<notin> set (bytes ''echo hi'')" "8 \<notin> set (bytes ''echo hi'')" by (simp_all add: bytes_def of_char_def)
  have "fold edit (bytes ''echo hi'') [] = bytes ''echo hi''" by code_simp
  then show ?thesis using shell_edits_line [OF shell0_fields(1) k(1)] k(2) shell0_fields(2) by fastforce
qed

definition shell_hi :: "unit shell" where
  "shell_hi = shell0\<lparr>input_buffer := bytes ''echo hi'' @ replicate 121 7, input_len := 7\<rparr>"

lemma shell_hi_fields:
  "line_inv shell_hi" "shell_line shell_hi = bytes ''echo hi''" "one_screen shell_hi"
  by (simp_all add: line_inv_def shell_line_def shell0_def shell_with_def shell_hi_def SHELL_MAX_INPUT_def one_screen_def console0_def)
    (simp add: bytes_def of_char_def)

theorem shell_enter_replies_witness:
  "\<exists>k s'. kprint (10 # bytes ''hi'' @ [10] @ prompt) (con (clear_cursor shell_hi)) = Some k
     \<and> shell_handle_key 10 shell_hi = Some (Returns s') \<and> shell_line s' = []"
proof -
  have "reply (shell_line shell_hi) = Some (bytes ''hi'' @ [10])"
    unfolding shell_hi_fields by code_simp
  then show ?thesis using shell_enter_replies [OF shell_hi_fields(1,3) _ refl] by (fastforce simp: shell_hi_def shell0_def shell_with_def)
qed

theorem shell_backspace_key_witness:
  "\<exists>s'. shell_handle_key 8 shell_hi = Some (Returns s') \<and> shell_line s' = bytes ''echo ''
    \<and> cur_x (con_cursor (con s')) = 0 \<and> pixel fb_small (video (con s')) 3 4 = COLOR_WHITE
    \<and> pixel fb_small (video (con s')) 9 4 = COLOR_BLACK \<and> pixel fb_small (video (con s')) 3 12 = 0"
proof -
  let ?cur = "(init_cursor 16 16)\<lparr>cur_x := 8\<rparr>"
  have c: "?cur = con_cursor (con shell_hi)" "fb_small = back_buffer shell_hi" "fb_width shell_hi = uint (width fb_small)"
      "cursor_visible shell_hi" "pixel fb_small (video (con shell_hi)) 3 12 = 0"
    by (simp_all add: shell_hi_def shell0_def shell_with_def console0_def fb_small_def)
       (simp add: pixel_def load32_def le32_def load_bytes_def)
  have f: "fb_ok fb_small" "cell_on fb_small ?cur" "visible fb_small 3 4" "visible fb_small 9 4" "visible fb_small 3 12"
    by (simp_all add: fb_ok_def fb_small_def cell_on_def init_cursor_def visible_def)
  have l: "bytes ''echo hi'' = shell_line shell_hi" "bytes ''echo hi'' \<noteq> []" by (simp_all add: shell_hi_fields bytes_def)
  have k: "take (length (bytes ''echo hi'') - 2) (bytes ''echo hi'') = bytes ''echo ''" "length (bytes ''echo hi'') \<noteq> 1"
    by (simp_all add: take_bytes)
  have cur': "previous_cell fb_small ?cur = init_cursor 16 16" by (simp add: previous_cell_def init_cursor_def)
  obtain s' where "shell_handle_key 8 shell_hi = Some (Returns s')" "shell_line s' = bytes ''echo ''"
      "con_cursor (con s') = init_cursor 16 16"
      "\<And>qx qy. visible fb_small qx qy \<Longrightarrow> pixel fb_small (video (con s')) qx qy = (if in_cell (init_cursor 16 16) qx qy then COLOR_WHITE
         else if in_cell ?cur qx qy then COLOR_BLACK else pixel fb_small (video (con shell_hi)) qx qy)"
    using shell_backspace_key [OF shell_hi_fields(1) l c(2) f(1) c(3,1) f(2) refl] c(4) k unfolding cur'
    by (auto simp: init_cursor_def)
  then show ?thesis using f(3-) c(5) by (auto simp: in_cell_def init_cursor_def)
qed

theorem cursor_blink_interval_witness:
  "cursor_visible (update_cursor_blink shell0) = False \<and> cursor_visible (update_cursor_blink (shell0\<lparr>last_blink_tick := 81\<rparr>))"
proof -
  have t: "to_int 0 = 0" "to_int 81 = 81" by code_simp+
  have s: "tick_at shell0 = of_nat" "tick_reads shell0 = 100" "cursor_visible shell0" "last_blink_tick shell0 = 0"
    by (simp_all add: shell0_def shell_with_def)
  show ?thesis
    using cursor_blink_interval [of 100 shell0 0] cursor_blink_interval [of 100 "shell0\<lparr>last_blink_tick := 81\<rparr>" 81] t s by simp
qed

lemma sample_two:
  assumes "s1 = the (thread_create 0x111 (thread_init threads_sample))" "s2 = the (thread_create 0x222 s1)"
  shows "thread_create 0x222 s1 = Some s2" "may_write s2 (cpu_rsp s2 - 8)"
proof -
  note ev = thread_create_def thread_init_def threads_sample_def upd_thr_def MAX_THREADS_def kmalloc_bump heap_consts
    kmalloc_init_def heap_zero_def align8_def room_for_thread_def heap_room_def Let_def
  have two: "(replicate 16 x)[0 := p, Suc 0 := q] = p # q # replicate 14 x" for p q x :: u64 by (simp add: numeral_eq_Suc)
  show "thread_create 0x222 s1 = Some s2" unfolding assms by (simp add: ev)
  have f: "thread_list s2 = [0xFFFF800001000010, 0xFFFF800001002058] @ replicate 14 0" "current_thread_id s2 = - 1" "cpu_rsp s2 = 0x8000"
    "stack (thr s2 0xFFFF800001000010) = 0xFFFF800001000048" "stack (thr s2 0xFFFF800001002058) = 0xFFFF800001002090"
    unfolding assms by (simp_all add: ev two)
  have "i = 0 \<or> i = 1" if "i < MAX_THREADS" "thread_list s2 ! i \<noteq> 0" for i
    using that by (auto simp: f MAX_THREADS_def nth_append nth_Cons' split: if_splits)
  then show "may_write s2 (cpu_rsp s2 - 8)"
    by (fastforce simp: may_write_def f on_stack_def)
qed

theorem thread_test_never_returns_witness:
  "\<exists>s'. shell_thread_test shell0 = Some (Switches s') \<and> cpu_rip (thds s') = 0x111
     \<and> (\<forall>t. kstep\<^sup>*\<^sup>* (thds s') t \<longrightarrow> current_thread_id t \<in> {0, 1})"
proof -
  let ?t = "thread_init threads_sample"
  have t0: "?t = (thds shell0)\<lparr>heap_st := kheap (ram shell0)\<rparr>"
    by (simp add: shell0_def shell_with_def ramfs_sample_def thread_init_def threads_sample_def)
  have c: "current_thread_id ?t = - 1" "next_thread_id ?t = 0" by (simp_all add: thread_init_def threads_sample_def)
  have inv: "threads_inv Map.empty ?t" by (rule thread_init_inv [OF sample_boot])
  obtain s1 where s1: "thread_create 0x111 ?t = Some s1" "room_for_thread ?t" "room_for_thread s1" by (rule sample_run)
  obtain s2 where "thread_create 0x222 s1 = Some s2" "may_write s2 (cpu_rsp s2 - 8)"
    using sample_two [of s1 "the (thread_create 0x222 s1)"] s1(1) by auto
  with s1 have "room_for_test 0x111 0x222 ?t" by (simp add: room_for_test_def)
  then show ?thesis using thread_test_never_returns [OF t0 inv c] by (simp add: shell0_def shell_with_def)
qed

end
