(* ===== verification/Boot.thy ===== *)
theory Boot
  imports Shell_Facts Ps2_Input Elf
begin

text \<open>
  Start-up and main loop, the rest of \<^verbatim>\<open>main.c\<close>.  The record \<^verbatim>\<open>kernel\<close> adds to the shell the devices and
  tables that only start-up and the main loop touch, the addresses the linker chooses and what the boot loader hands
  over; \<^verbatim>\<open>modules\<close> is \<^const>\<open>None\<close> when there is no response.  Uninitialised local variables are fields named
  \<^verbatim>\<open>stack_\<dots>\<close>.  The main loop is a round function whose argument is the list of scancodes waiting in the
  controller.  The sources are in UTF-8, so that an arrow in a message is three bytes above 127.

  Shown: characters typed reach the line in order whatever the rounds in which their scancodes arrive; what the
  start-up test of the RAM file system leaves behind; loading user space is undefined unless the image is invalid.
\<close>

section \<open>State\<close>

record 'h kernel =
  sh :: "(ata_device_t \<times> 'h) shell"
  kbd :: keyboard
  irqs :: irq_state
  gdt_slots :: "gdt_entry list"
  gdtr :: gdt_ptr
  tss_st :: tss_entry
  idt_slots :: "idt_entry list"
  idtr :: idt_ptr
  interrupt_flag :: bool
  is_mouse_connected :: bool
  memmap :: "memmap_entry list"
  modules :: "u64 list option"
  ata_io :: "'h ports"
  usable_type :: u64
  gdt_addr :: u64
  tss_addr :: u64
  boot_rsp :: u64
  idt_addr :: u64
  isr_addr :: u64
  irq_stubs :: "u64 list"
  timer_addr :: u64
  fat_addr :: u64
  mouse_ready :: "nat \<Rightarrow> u8 option"
  stack_sector :: "u8 list"
  stack_loc :: Loc
  stack_char :: u8

definition on_sh :: "((ata_device_t \<times> 'h) shell \<Rightarrow> (ata_device_t \<times> 'h) shell option) \<Rightarrow> 'h kernel \<Rightarrow> 'h kernel option" where
  "on_sh f k = map_option (\<lambda>s. k\<lparr>sh := s\<rparr>) (f (sh k))"

abbreviation text_ok :: "string \<Rightarrow> (ata_device_t \<times> 'h) shell \<Rightarrow> (ata_device_t \<times> 'h) shell option" where
  "text_ok t \<equiv> on_con (kprint_ok (bytes t))"

abbreviation text_error :: "string \<Rightarrow> (ata_device_t \<times> 'h) shell \<Rightarrow> (ata_device_t \<times> 'h) shell option" where
  "text_error t \<equiv> on_con (kprint_error (bytes t))"

section \<open>The screen, memory and interrupts\<close>

definition init_fb :: "(ata_device_t \<times> 'h) shell \<Rightarrow> (ata_device_t \<times> 'h) shell option" where
  "init_fb s = (let fb = fb0 s;
       s = s\<lparr>front_buffer := fb, back_buffer := fb, shell.fb_width := as_int (unat (width fb)),
             shell.fb_height := as_int (unat (height fb)) - 3,
             BACKGROUND_HT := BACKGROUND_HEIGHT, BACKGROUND_WT := BACKGROUND_WIDTH, background_shell := background s\<rparr>;
       s = set_video (clear_screen_lim fb COLOR_BLACK (video (con s))) s;
       s = s\<lparr>con := init_kprint_global fb (init_cursor (shell.fb_width s) (shell.fb_height s)) COLOR_WHITE (con s)\<rparr>
     in text_ok ''Framebuffer init completed\<newline>'' s)"

text \<open>The messages of \<^verbatim>\<open>vmm_init\<close>; a failure inside it is undefined.\<close>

definition vmm_init_text :: string where
  "vmm_init_text = ''initing vmm/pmm\<newline>init pmm\<newline>pmm init comppletetd during pmm test\<newline>allocating 2 pages for test\<newline>pages were allocated succesfully freeing pages \<newline>pages freed from pmm making vmm page table for kernel\<newline>making memset for vmm \<newline>making page for kernel only\<newline>was succesfull contining vmm init\<newline>kernel addres init\<newline>''"

definition init_mem :: "'h kernel \<Rightarrow> 'h kernel option" where
  "init_mem k = do {
     k \<leftarrow> on_sh (text_ok ''initing mem '') k;
     let (h, v) = kheap (ram (sh k));
     (mm, v) \<leftarrow> vmm_init (usable_type k) (memmap k) v;
     let k = k\<lparr>memmap := mm, sh := (sh k)\<lparr>ram := (ram (sh k))\<lparr>kheap := (h, v)\<rparr>\<rparr>\<rparr>;
     k \<leftarrow> on_sh (say vmm_init_text) k;
     on_sh (text_ok ''mem init completed '') k }"

definition interrupts_disable :: "'h kernel \<Rightarrow> 'h kernel" where
  "interrupts_disable k = k\<lparr>interrupt_flag := False\<rparr>"

definition interrupts_enable :: "'h kernel \<Rightarrow> 'h kernel" where
  "interrupts_enable k = k\<lparr>interrupt_flag := True\<rparr>"

definition interrupts_are_enabled :: "'h kernel \<Rightarrow> bool" where
  "interrupts_are_enabled k = interrupt_flag k"

text \<open>The branch for interrupts that stay disabled ends with \<^verbatim>\<open>hlt\<close>, from which nothing wakes the processor.\<close>

definition interrupts_failed :: "'h kernel \<Rightarrow> 'h kernel option" where
  "interrupts_failed k =
     on_sh (\<lambda>s. do {
       let s = s\<lparr>con := init_kprint_global (back_buffer s) (init_cursor (shell.fb_width s) (shell.fb_height s)) COLOR_WHITE (con s)\<rparr>;
       s \<leftarrow> text_error ''interrupts are not enabled'' s;
       let s = set_video (clear_screen_lim (back_buffer s) COLOR_LIGHT_BLUE_SCREEN_BG (video (con s))) s;
       s \<leftarrow> say '':(\<newline>\<newline>'' s;
       text_error ''Critical Error: Interrupts failed to enable.\<newline>System Halted.'' s }) k"

definition init_tables :: "'h kernel \<Rightarrow> 'h kernel option" where
  "init_tables k = do {
     let k = interrupts_disable k;
     (gp, tss, slots) \<leftarrow> gdt_init (gdt_addr k) (tss_addr k) (boot_rsp k) (gdt_slots k);
     k \<leftarrow> on_sh (text_ok ''GDT init'') (k\<lparr>gdtr := gp, tss_st := tss, gdt_slots := slots\<rparr>);
     k \<leftarrow> on_sh (text_ok ''PIC init'') (k\<lparr>irqs := pic_init (irqs k)\<rparr>);
     let (ip, slots) = idt_init (idt_addr k) (isr_addr k) (irq_stubs k) (idt_slots k);
     k \<leftarrow> on_sh (text_ok ''Registered IRQ handlers in IDT'') (k\<lparr>idtr := ip, idt_slots := slots\<rparr>);
     k \<leftarrow> on_sh (text_ok ''IDT init'') k;
     q \<leftarrow> init_timer (timer_addr k) (irqs k);
     k \<leftarrow> on_sh (text_ok ''Timer initialized'') (k\<lparr>irqs := q\<rparr>);
     k \<leftarrow> on_sh (text_ok ''Timer init'') k;
     on_sh (text_ok ''Enabled interrupts'') (interrupts_enable k) }"

definition init_interrupts :: "'h kernel \<Rightarrow> 'h kernel flow option" where
  "init_interrupts k = do {
     k \<leftarrow> init_tables k;
     if interrupts_are_enabled k
     then map_option Returns (on_sh (text_ok ''interrupts are working and enabled'') k)
     else map_option Halts (interrupts_failed k) }"

definition init_cpu :: "(ata_device_t \<times> 'h) shell \<Rightarrow> (ata_device_t \<times> 'h) shell option" where
  "init_cpu s = text_ok ''Threading initialized.'' (s\<lparr>thds := thread_init (thds s)\<rparr>)"

definition init_drivers :: "'h kernel \<Rightarrow> 'h kernel option" where
  "init_drivers k = do {
     k \<leftarrow> on_sh (text_ok ''PS/2 keyboard found and initialized'') (k\<lparr>kbd := keyboard_init (kbd k)\<rparr>);
     let connected = snd (mouse_init (mouse_ready k));
     k \<leftarrow> (if connected then Some k else on_sh (say ''No PS/2 mouse detected!\<newline>'') k);
     k \<leftarrow> on_sh (text_ok ''PS/2 Mouse found and initialized'') (k\<lparr>is_mouse_connected := connected\<rparr>);
     k \<leftarrow> on_sh (text_ok ''PCI bus initialized'') k;
     on_sh (\<lambda>s. text_ok ''Audio initialized'' (s\<lparr>speaker := beep 440 5 (speaker s)\<rparr>)) k }"

section \<open>File systems\<close>

text \<open>Calls of the RAM file system with what they print.\<close>

definition ram_call :: "(ramfs \<Rightarrow> u8 list) \<Rightarrow> (ramfs \<Rightarrow> (u64 \<times> ramfs) option) \<Rightarrow> 'd shell \<Rightarrow> 'd shell option" where
  "ram_call txt f s = do {
     (_, r) \<leftarrow> f (ram s);
     s \<leftarrow> on_con (kprint (txt (ram s))) s;
     Some (s\<lparr>ram := r\<rparr>) }"

definition ram_init :: "'d shell \<Rightarrow> 'd shell option" where
  "ram_init s = ram_call init_text (\<lambda>r. map_option (Pair 0) (ramfs_init r)) s"

definition ram_mkdir :: "string \<Rightarrow> 'd shell \<Rightarrow> 'd shell option" where
  "ram_mkdir p s = ram_call (mkdir_text (bytes p)) (ramfs_mkdir (bytes p)) s"

definition ram_create :: "string \<Rightarrow> string \<Rightarrow> 'd shell \<Rightarrow> 'd shell option" where
  "ram_create p t s = ram_call (create_text (bytes p)) (ramfs_create_file (bytes p) (bytes t)) s"

definition ram_read :: "string \<Rightarrow> 'd shell \<Rightarrow> 'd shell option" where
  "ram_read p s = ram_call (read_text (bytes p)) (ramfs_read_file (bytes p)) s"

definition ram_delete :: "string \<Rightarrow> 'd shell \<Rightarrow> 'd shell option" where
  "ram_delete p s = ram_call (delete_text (bytes p)) (ramfs_delete_file (bytes p)) s"

definition ram_list :: "string \<Rightarrow> 'd shell \<Rightarrow> 'd shell option" where
  "ram_list p s = on_con (kprint (list_text (bytes p) (ram s))) s"

definition init_ramfs_test :: "'d shell \<Rightarrow> 'd shell option" where
  "init_ramfs_test s = do {
     s \<leftarrow> on_con (kprint_ok (bytes ''initing ramfs'')) s;
     s \<leftarrow> ram_init s;
     s \<leftarrow> say ''=== ROOT TEST ===\<newline>'' s;
     s \<leftarrow> say ''=== MKDIR /etc ===\<newline>'' s;
     s \<leftarrow> ram_mkdir ''/etc'' s;
     s \<leftarrow> say ''=== LIST ROOT ===\<newline>'' s;
     s \<leftarrow> ram_list ''/'' s;
     s \<leftarrow> say ''=== CREATE FILE ===\<newline>'' s;
     s \<leftarrow> ram_create ''/etc/hosts'' ''127.0.0.1 localhost'' s;
     s \<leftarrow> ram_create ''readme.txt'' ''This is a test file in RAMFS.'' s;
     s \<leftarrow> say ''=== LIST /etc ===\<newline>'' s;
     s \<leftarrow> ram_list ''/etc'' s;
     s \<leftarrow> say ''=== READ FILE ===\<newline>'' s;
     s \<leftarrow> ram_read ''/etc/hosts'' s;
     s \<leftarrow> ram_delete ''/etc/hosts'' s;
     s \<leftarrow> ram_delete ''/'' s;
     s \<leftarrow> say ''=== LIST /etc AFTER DELETE ===\<newline>'' s;
     ram_list ''/'' s }"

definition fat_test :: "'h kernel \<Rightarrow> 'h kernel option" where
  "fat_test k = do {
     k \<leftarrow> on_sh (say ''Running FAT32 startup test...\<newline>'') k;
     (e, info, d) \<leftarrow> fat_stat (bytes ''/disk0'') (stack_info (sh k)) (stack_dir (sh k)) (stack_loc k) (shell.disk (sh k));
     let k = k\<lparr>sh := (sh k)\<lparr>shell.disk := d\<rparr>\<rparr>;
     if e \<noteq> 0
     then do {
       k \<leftarrow> on_sh (text_error ''Cannot stat /disk0: '') k;
       k \<leftarrow> on_sh (text_error (fat_get_error e)) k;
       on_sh (say ''\<newline>'') k }
     else do {
       k \<leftarrow> on_sh (text_ok ''/disk0 is accessible\<newline>'') k;
       k \<leftarrow> on_sh (say ''Listing /disk0:\<newline>'') k;
       k \<leftarrow> on_sh (shell_ls (bytes ''/disk0'')) k;
       on_sh (text_ok ''FAT32 startup test completed\<newline>'') k } }"

definition disk_size_text :: "u64 \<Rightarrow> console \<Rightarrow> console option" where
  "disk_size_text n s = do {
     s \<leftarrow> kprint (bytes ''Disk detected:\<newline>'') s;
     s \<leftarrow> kprint (bytes '' - Size: '') s;
     s \<leftarrow> kprint_uint (ucast (n div (1024 * 1024 * 1024))) s;
     s \<leftarrow> kprint (bytes '' GiB\<newline>'') s;
     s \<leftarrow> kprint (bytes '' - Size (MB): '') s;
     s \<leftarrow> kprint_uint (ucast (n div (1024 * 1024))) s;
     s \<leftarrow> kprint (bytes '' MB\<newline>'') s;
     s \<leftarrow> kprint (bytes '' - Bytes: '') s;
     s \<leftarrow> kprint_uint (ucast n) s;
     s \<leftarrow> kprint (bytes ''\<newline>'') s;
     s \<leftarrow> kprint (bytes '' - Sectors: '') s;
     s \<leftarrow> kprint_uint (ucast (n div 512)) s;
     s \<leftarrow> kprint (bytes ''\<newline>'') s;
     kprint (bytes '' - Sector size: 512 bytes\<newline>'') s }"

text \<open>From the probe on; the volume is the static variable of \<^verbatim>\<open>init_fs\<close>.\<close>

definition init_fs_mount :: "(ata_device_t \<times> 'h) DiskOps \<Rightarrow> 'h kernel \<Rightarrow> 'h kernel option" where
  "init_fs_mount ops k = do {
     k \<leftarrow> on_sh (say ''Probing for FAT32 filesystem...\<newline>'') k;
     let (e, d) = fat_probe ops 0 (shell.disk (sh k));
     let k = k\<lparr>sh := (sh k)\<lparr>shell.disk := d\<rparr>\<rparr>;
     if e \<noteq> 0
     then do {
       k \<leftarrow> on_sh (text_error ''FAT32 probe failed: '') k;
       k \<leftarrow> on_sh (text_error (fat_get_error e)) k;
       on_sh (say ''\<newline>'') k }
     else do {
       k \<leftarrow> on_sh (text_ok ''FAT32 filesystem detected\<newline>'') k;
       let (e, d) = fat_mount ops 0 (fat_addr k) (bytes ''disk0'') (shell.disk (sh k));
       let k = k\<lparr>sh := (sh k)\<lparr>shell.disk := d\<rparr>\<rparr>;
       if e \<noteq> 0
       then do {
         k \<leftarrow> on_sh (text_error ''FAT32 mount failed: '') k;
         k \<leftarrow> on_sh (text_error (fat_get_error e)) k;
         on_sh (say ''\<newline>'') k }
       else do {
         k \<leftarrow> on_sh (text_ok ''FAT32 mounted successfully at /disk0\<newline>'') k;
         fat_test k } } }"

definition init_fs :: "'h kernel \<Rightarrow> 'h kernel option" where
  "init_fs k = do {
     let fs = shell.disk (sh k);
     let (ok, d) = ata_init (ata_io k) (dev fs);
     let k = k\<lparr>sh := (sh k)\<lparr>shell.disk := fs\<lparr>dev := d\<rparr>\<rparr>\<rparr>;
     if \<not> ok then on_sh (text_error ''No ATA device found\<newline>'') k
     else do {
       k \<leftarrow> on_sh (text_ok ''ATA device detected\<newline>'') k;
       k \<leftarrow> on_sh (on_con (disk_size_text (ata_get_total_space_bytes (fst d)))) k;
       case ata_get_disk_ops (ata_io k) (fst d) of
         None \<Rightarrow> on_sh (text_error ''Failed to load DiskOps\<newline>'') k
       | Some ops \<Rightarrow>
           let (ok, buf, d) = ops_read ops (stack_sector k) 0 d;
               k = k\<lparr>sh := (sh k)\<lparr>shell.disk := (shell.disk (sh k))\<lparr>dev := d\<rparr>\<rparr>\<rparr>
           in if \<not> ok then on_sh (text_error ''Failed to read MBR (sector 0)\<newline>'') k
              else do {
                k \<leftarrow> (if buf ! 510 = 0x55 \<and> buf ! 511 = 0xAA then on_sh (text_ok ''Valid MBR signature\<newline>'') k
                      else on_sh (text_error ''Invalid MBR signature\<newline>'') k);
                init_fs_mount ops k } } }"

section \<open>User space\<close>

definition arrow :: "u8 list" where "arrow = [0xE2, 0x86, 0x92]"
definition dash :: "u8 list" where "dash = [0xE2, 0x80, 0x93]"

text \<open>What \<^verbatim>\<open>elf64_load_and_prepare\<close> does and prints; \<^verbatim>\<open>kprintf\<close> does not know \<^verbatim>\<open>%lx\<close>.  The messages
  for the single segments, which contain an arrow, are left out.\<close>

definition load_elf :: "u64 \<Rightarrow> 'h kernel \<Rightarrow> (u64 \<times> 'h kernel) option" where
  "load_elf elf k = do {
     let (h, v) = kheap (ram (sh k));
     if \<not> elf64_check (ehdr_at (phys_mem v) elf)
     then do { k \<leftarrow> on_sh (on_con (kprintf (bytes ''[ELF] Invalid ELF header!\<newline>'') [])) k; Some (0, k) }
     else do {
       k \<leftarrow> on_sh (on_con (kprintf (bytes ''[ELF] Loading userspace ELF @ entry 0x%lx\<newline>'')
                      [Va_Int (e_entry (ehdr_at (phys_mem v) elf))])) k;
       (start, v) \<leftarrow> elf64_load_and_prepare elf v;
       let k = k\<lparr>sh := (sh k)\<lparr>ram := (ram (sh k))\<lparr>kheap := (h, v)\<rparr>\<rparr>\<rparr>;
       k \<leftarrow> on_sh (on_con (kprintf (bytes ''[ELF] Userspace ELF loaded '' @ dash @ bytes '' entry = 0x%lx\<newline>'') [Va_Int start])) k;
       Some (start, k) } }"

definition load_user_space :: "'h kernel \<Rightarrow> 'h kernel option" where
  "load_user_space k =
     (case modules k of
        None \<Rightarrow> on_sh (on_con (kprint (bytes ''[USERSPACE] Kein init.elf als Modul geladen '' @ arrow @ bytes '' bleibe im Kernel\<newline>''))) k
      | Some [] \<Rightarrow> on_sh (on_con (kprint (bytes ''[USERSPACE] Kein init.elf als Modul geladen '' @ arrow @ bytes '' bleibe im Kernel\<newline>''))) k
      | Some (init_elf # _) \<Rightarrow> do {
          k \<leftarrow> on_sh (text_ok ''[USERSPACE] Lade: '') k;
          (start, k) \<leftarrow> load_elf init_elf k;
          if start = 0 then on_sh (text_error ''[USERSPACE] ELF fehlerhaft oder kaputt!\<newline>'') k
          else do {
            k \<leftarrow> on_sh (text_ok ''[USERSPACE] Userspace bereit '') k;
            on_sh (say ''Wechsel in Ring 3...\<newline>'') k } })"

section \<open>The kernel\<close>

definition init_end :: "(ata_device_t \<times> 'h) shell \<Rightarrow> (ata_device_t \<times> 'h) shell option" where
  "init_end s = do {
     s \<leftarrow> on_con (kprint_ok (boolean_to_string TRUE)) s;
     s \<leftarrow> say ''\<newline>'' s;
     s \<leftarrow> on_con (kprint_ok (boolean_to_string FALSE)) s;
     s \<leftarrow> say ''\<newline>'' s;
     s \<leftarrow> say ''Sleeping for 3 seconds...\<newline>'' s;
     s \<leftarrow> wait_seconds 100 s;
     s \<leftarrow> text_ok ''Kernel initialized.'' s;
     Some (s\<lparr>speaker := play_startup_sound (speaker s)\<rparr>) }"

definition ret_k :: "'h kernel option \<Rightarrow> 'h kernel flow option" where
  "ret_k r = map_option Returns r"

definition init_kernel :: "'h kernel \<Rightarrow> 'h kernel flow option" where
  "init_kernel k =
     then_on (ret_k (on_sh init_fb k)) (\<lambda>k.
     then_on (init_interrupts k) (\<lambda>k. ret_k (do {
       k \<leftarrow> init_drivers k;
       k \<leftarrow> init_mem k;
       k \<leftarrow> on_sh init_ramfs_test k;
       k \<leftarrow> on_sh init_cpu k;
       k \<leftarrow> init_fs k;
       on_sh init_end k })))"

text \<open>\<^verbatim>\<open>kmain\<close> up to its loop.\<close>

definition kmain_start :: "'h kernel \<Rightarrow> 'h kernel flow option" where
  "kmain_start k =
     (let (t, s) = get_tick_count (sh k);
          k = k\<lparr>sh := s\<lparr>last_blink_tick := to_int t\<rparr>\<rparr>
      in then_on (init_kernel k) (\<lambda>k. ret_k (do {
           k \<leftarrow> on_sh (\<lambda>s. say ''Welcome to NTux-OS!\<newline>'' (shell_clear_screen s)) k;
           k \<leftarrow> load_user_space k;
           k \<leftarrow> on_sh (wait_seconds 1) k;
           k \<leftarrow> on_sh shell_print_prompt k;
           Some (k\<lparr>sh := update_cursor_blink (sh k)\<rparr>) })))"

definition kmain_key :: "u8 \<Rightarrow> 'h kernel \<Rightarrow> 'h kernel flow option" where
  "kmain_key c k =
     (case shell_handle_key c (sh k) of
        None \<Rightarrow> None
      | Some (Returns s) \<Rightarrow> Some (Returns (k\<lparr>sh := s\<rparr>))
      | Some (Halts s) \<Rightarrow> Some (Halts (k\<lparr>sh := s\<rparr>))
      | Some (Switches s) \<Rightarrow> Some (Switches (k\<lparr>sh := s\<rparr>)))"

text \<open>One round of the loop, up to and including its \<^verbatim>\<open>hlt\<close>.\<close>

definition kmain_round :: "u8 list \<Rightarrow> 'h kernel \<Rightarrow> 'h kernel flow option" where
  "kmain_round pending k = do {
     kb \<leftarrow> keyboard_poll pending (kbd k);
     (got, c, kb) \<leftarrow> keyboard_getchar (stack_char k) kb;
     then_on (if got then kmain_key c (k\<lparr>kbd := kb\<rparr>) else Some (Returns (k\<lparr>kbd := kb\<rparr>)))
       (\<lambda>k. Some (Returns (k\<lparr>sh := swap_buffers (update_cursor_blink (sh k))\<rparr>))) }"

fun kmain_rounds :: "u8 list list \<Rightarrow> 'h kernel \<Rightarrow> 'h kernel flow option" where
  "kmain_rounds [] k = Some (Returns k)"
| "kmain_rounds (p # ps) k = then_on (kmain_round p k) (kmain_rounds ps)"

section \<open>From the keyboard to the line\<close>

definition queue :: "'h kernel \<Rightarrow> u8 list" where
  "queue k = rb_contents (kb_buffer (kbd k))"

definition shift_of :: "'h kernel \<Rightarrow> bool" where
  "shift_of k \<longleftrightarrow> shift_pressed (kbd k) \<noteq> 0"

definition typing_ok :: "'h kernel \<Rightarrow> bool" where
  "typing_ok k \<longleftrightarrow> rb_inv (kb_buffer (kbd k)) \<and> line_inv (sh k)"

lemma typed_append: "typed b (xs @ ys) = typed b xs @ typed (fold shift_after xs b) ys"
  by (induction xs arbitrary: b) simp_all

lemma poll_types:
  assumes "rb_inv (kb_buffer kb)" and "length (rb_contents (kb_buffer kb) @ typed (shift_pressed kb \<noteq> 0) p) \<le> 255"
  shows "\<exists>kb'. keyboard_poll p kb = Some kb' \<and> rb_inv (kb_buffer kb')
    \<and> rb_contents (kb_buffer kb') = rb_contents (kb_buffer kb) @ typed (shift_pressed kb \<noteq> 0) p
    \<and> (shift_pressed kb' \<noteq> 0) = fold shift_after p (shift_pressed kb \<noteq> 0)"
  using assms
proof (induction p arbitrary: kb)
  case (Cons sc p)
  let ?b = "shift_pressed kb \<noteq> 0"
  let ?cs = "decode sc (shift_after sc ?b)"
  obtain q where q: "offer rb_put ?cs (kb_buffer kb) = Some q" "rb_inv q"
      "rb_contents q = rb_contents (kb_buffer kb) @ take (255 - length (rb_contents (kb_buffer kb))) ?cs"
    using rbq.offer_contents [OF Cons.prems(1), of ?cs] by blast
  define kb1 where "kb1 = (modifiers sc kb)\<lparr>kb_buffer := q\<rparr>"
  have c: "rb_contents (kb_buffer kb1) = rb_contents (kb_buffer kb) @ ?cs" using q(3) Cons.prems(2) by (simp add: kb1_def)
  have b: "(shift_pressed kb1 \<noteq> 0) = shift_after sc ?b" by (simp add: kb1_def)
  have "keyboard_scancode sc kb = Some kb1" using q(1) by (simp add: keyboard_scancode_offer kb1_def)
  moreover obtain kb' where "keyboard_poll p kb1 = Some kb'" "rb_inv (kb_buffer kb')"
      "rb_contents (kb_buffer kb') = rb_contents (kb_buffer kb1) @ typed (shift_pressed kb1 \<noteq> 0) p"
      "(shift_pressed kb' \<noteq> 0) = fold shift_after p (shift_pressed kb1 \<noteq> 0)"
    using Cons.IH [of kb1] Cons.prems(2) q(2) c b by (auto simp: kb1_def)
  ultimately show ?case using c unfolding b by simp
qed simp

lemma blink_line:
  "shell_line (update_cursor_blink s) = shell_line s" "line_inv (update_cursor_blink s) = line_inv s"
  by (simp_all add: update_cursor_blink_def get_tick_count_def Let_def shell_line_def line_inv_def render_cursor_def
      clear_cursor_def set_video_def)

lemma handle_key_types:
  assumes "line_inv s" "c \<notin> {8, 10}"
  shows "\<exists>s'. shell_handle_key c s = Some (Returns s') \<and> line_inv s' \<and> shell_line s' = edit c (shell_line s)"
proof -
  define s0 where "s0 = (if cursor_visible s then clear_cursor s else s)"
  have i: "line_inv s0" "shell_line s0 = shell_line s" using assms(1) by (simp_all add: s0_def)
  obtain s1 where s1: "shell_edit c s0 = Some s1" using edit_returns [of c s0] assms(2) by auto
  then show ?thesis using edit_line [OF i(1) s1] i(2) assms(2) by (simp add: handle_key_edit s0_def [symmetric])
qed

lemma round_types:
  assumes ok: "typing_ok k" and q: "q = queue k @ typed (shift_of k) p" and few: "length q \<le> 255" and keys: "set q \<inter> {8, 10} = {}"
  shows "\<exists>k'. kmain_round p k = Some (Returns k') \<and> typing_ok k' \<and> queue k' = tl q \<and> shift_of k' = fold shift_after p (shift_of k)
    \<and> shell_line (sh k') = (if q = [] then shell_line (sh k) else edit (hd q) (shell_line (sh k)))"
proof -
  obtain kb where kb: "keyboard_poll p (kbd k) = Some kb" "rb_inv (kb_buffer kb)" "rb_contents (kb_buffer kb) = q"
      "(shift_pressed kb \<noteq> 0) = fold shift_after p (shift_of k)"
    using poll_types [of "kbd k" p] ok few unfolding q queue_def shift_of_def typing_ok_def by blast
  have li: "line_inv (sh k)" using ok by (simp add: typing_ok_def)
  show ?thesis
  proof (cases q)
    case Nil
    then have "keyboard_getchar (stack_char k) kb = Some (False, stack_char k, kb)"
      using rb_get_empty [OF kb(2)] kb(3) by (simp add: keyboard_getchar_def)
    then show ?thesis using Nil kb li
      by (simp add: kmain_round_def typing_ok_def queue_def shift_of_def blink_line)
  next
    case (Cons c cs)
    obtain rb where rb: "rb_get (stack_char k) (kb_buffer kb) = Some (True, c, rb)" "rb_inv rb" "rb_contents rb = cs"
      using rb_get_next [OF kb(2), of c cs] kb(3) Cons by blast
    have "c \<notin> {8, 10}" using keys Cons by auto
    then obtain s where s: "shell_handle_key c (sh k) = Some (Returns s)" "line_inv s" "shell_line s = edit c (shell_line (sh k))"
      using handle_key_types [OF li] by blast
    then show ?thesis using Cons kb rb
      by (simp add: kmain_round_def keyboard_getchar_def kmain_key_def typing_ok_def queue_def shift_of_def blink_line)
  qed
qed

lemma then_on_assoc: "then_on (then_on m f) g = then_on m (\<lambda>s. then_on (f s) g)"
  by (induction m f rule: then_on.induct) simp_all

lemma rounds_append:
  fixes k :: "'h kernel"
  shows "kmain_rounds (ps @ qs) k = then_on (kmain_rounds ps k) (kmain_rounds qs)"
proof (induction ps arbitrary: k)
  case (Cons p ps)
  have "kmain_rounds (ps @ qs) = (\<lambda>k :: 'h kernel. then_on (kmain_rounds ps k) (kmain_rounds qs))" by (rule ext) (rule Cons)
  then show ?case by (simp add: then_on_assoc)
qed simp

lemma rounds_type:
  assumes "typing_ok k" and "q = queue k @ typed (shift_of k) (concat ps)" and "length q \<le> 255" and "set q \<inter> {8, 10} = {}"
  shows "\<exists>k' n. kmain_rounds ps k = Some (Returns k') \<and> typing_ok k' \<and> n \<le> length q \<and> queue k' = drop n q
    \<and> shell_line (sh k') = fold edit (take n q) (shell_line (sh k))"
  using assms
proof (induction ps arbitrary: k q)
  case Nil
  then show ?case by (auto intro!: exI [of _ "0 :: nat"])
next
  case (Cons p ps)
  define q1 where "q1 = queue k @ typed (shift_of k) p"
  have q: "q = q1 @ typed (fold shift_after p (shift_of k)) (concat ps)" using Cons.prems(2) by (simp add: q1_def typed_append)
  have f1: "length q1 \<le> 255" "set q1 \<inter> {8, 10} = {}" using Cons.prems(3,4) q by auto
  obtain k1 where k1: "kmain_round p k = Some (Returns k1)" "typing_ok k1" "queue k1 = tl q1"
      "shift_of k1 = fold shift_after p (shift_of k)"
      "shell_line (sh k1) = (if q1 = [] then shell_line (sh k) else edit (hd q1) (shell_line (sh k)))"
    using round_types [OF Cons.prems(1) q1_def f1] by blast
  define q' where "q' = tl q1 @ typed (shift_of k1) (concat ps)"
  have q': "q' = queue k1 @ typed (shift_of k1) (concat ps)" by (simp add: q'_def k1(3))
  have "set q' \<subseteq> set q" "length q' \<le> length q" unfolding q'_def q k1(4) by (cases q1; auto)+
  then obtain k' n where k': "kmain_rounds ps k1 = Some (Returns k')" "typing_ok k'" "n \<le> length q'" "queue k' = drop n q'"
      "shell_line (sh k') = fold edit (take n q') (shell_line (sh k1))"
    using Cons.IH [OF k1(2) q'] Cons.prems(3,4) by auto
  have "kmain_rounds (p # ps) k = Some (Returns k')" using k1(1) k'(1) by simp
  then show ?case
  proof (cases q1)
    case Nil
    then have "q' = q" by (simp add: q'_def q k1(4))
    then show ?thesis using \<open>kmain_rounds (p # ps) k = Some (Returns k')\<close> k' k1(5) Nil by auto
  next
    case (Cons c cs)
    then have "q = c # q'" by (simp add: q'_def q k1(4))
    then show ?thesis using \<open>kmain_rounds (p # ps) k = Some (Returns k')\<close> k' k1(5) Cons by (intro exI [of _ k'] exI [of _ "Suc n"]) simp
  qed
qed

lemma idle_rounds:
  assumes "typing_ok k" and "length (queue k) \<le> n" and "length (queue k) \<le> 255" and "set (queue k) \<inter> {8, 10} = {}"
  shows "\<exists>k'. kmain_rounds (replicate n []) k = Some (Returns k') \<and> queue k' = []
    \<and> shell_line (sh k') = fold edit (queue k) (shell_line (sh k))"
  using assms
proof (induction n arbitrary: k)
  case (Suc n)
  obtain k1 where k1: "kmain_round [] k = Some (Returns k1)" "typing_ok k1" "queue k1 = tl (queue k)"
      "shell_line (sh k1) = (if queue k = [] then shell_line (sh k) else edit (hd (queue k)) (shell_line (sh k)))"
    using round_types [OF Suc.prems(1), of "queue k" "[]"] Suc.prems by auto
  have "set (queue k1) \<subseteq> set (queue k)" "length (queue k1) \<le> n" "length (queue k1) \<le> 255"
    using Suc.prems k1(3) by (cases "queue k"; auto)+
  then obtain k' where "kmain_rounds (replicate n []) k1 = Some (Returns k')" "queue k' = []"
      "shell_line (sh k') = fold edit (queue k1) (shell_line (sh k1))"
    using Suc.IH [OF k1(2)] Suc.prems(4) by auto
  then show ?case using k1 by (cases "queue k") auto
qed simp

text \<open>
  C3: From the keyboard to the line: however the scancodes are spread over the rounds of the main loop, and with up to
  255 characters on their way, once the loop has had time to take them the input line is the one the reference
  editor makes of the characters the scancodes denote, in order; none is lost or doubled.
\<close>

theorem keyboard_reaches_line:
  assumes ok: "typing_ok k" and q: "q = queue k @ typed (shift_of k) (concat ps)" and few: "length q \<le> 255"
    and keys: "set q \<inter> {8, 10} = {}"
  shows "\<exists>k'. kmain_rounds (ps @ replicate 255 []) k = Some (Returns k') \<and> queue k' = []
    \<and> shell_line (sh k') = fold edit q (shell_line (sh k))"
proof -
  obtain k1 n where k1: "kmain_rounds ps k = Some (Returns k1)" "typing_ok k1" "n \<le> length q" "queue k1 = drop n q"
      "shell_line (sh k1) = fold edit (take n q) (shell_line (sh k))"
    using rounds_type [OF assms] by blast
  have l: "length (queue k1) \<le> 255" using few k1(4) by simp
  have s: "set (queue k1) \<inter> {8, 10} = {}" using keys k1(4) by (auto dest: in_set_dropD)
  obtain k' where "kmain_rounds (replicate 255 []) k1 = Some (Returns k')" "queue k' = []"
      "shell_line (sh k') = fold edit (queue k1) (shell_line (sh k1))"
    using idle_rounds [OF k1(2) l l s] by (elim exE conjE)
  moreover have "fold edit (drop n q) (fold edit (take n q) l) = fold edit q l" for l
    using fold_append [of edit "take n q" "drop n q"] by (simp add: fun_eq_iff)
  ultimately show ?thesis unfolding rounds_append k1(1) then_on.simps k1(4,5) by (intro exI [of _ k'] conjI) (simp_all only:)
qed

section \<open>User space\<close>

lemma kprint_high:
  fixes c :: u8
  shows "128 \<le> c \<Longrightarrow> 0 \<notin> set t \<Longrightarrow> kprint (t @ c # u) s = None"
proof (induction t arbitrary: s)
  case Nil
  then have "glyph (sint c) = None" using row_glyph [of "uint c"] uint_bounded [of c] by (simp add: word_le_def)
  moreover have "c \<noteq> 0" "c \<noteq> 10" using Nil by (auto simp: word_le_nat_alt)
  ultimately show ?case by (simp add: put_char_with_cursor_lim_def draw_char_lim_def)
qed (simp split: Option.bind_splits prod.splits)

lemma kprintf_high:
  fixes c :: u8
  assumes "128 \<le> c" "\<forall>x \<in> set t. x < 128 \<and> x \<noteq> 0 \<and> x \<noteq> 37"
  shows "kprintf (t @ c # u) args s = None"
proof -
  obtain k where k: "kprintf (t @ c # u) args s = kprintf (c # u) args k" using kprintf_plain [OF assms(2)] by blast
  have "c \<noteq> 0" "c \<noteq> 37" using assms(1) by (auto simp: word_le_nat_alt)
  then have "kprintf (c # u) args k = kprint [c] k \<bind> kprintf u args" using kprintf_char(1) [of c u args k] by (simp add: of_char_def)
  then show ?thesis using k kprint_high [OF assms(1), of "[]" "[]" k] by simp
qed

lemma kprint_ok_ascii: "\<forall>c \<in> set t. c < 128 \<Longrightarrow> \<exists>k'. kprint_ok t k = Some k'" "\<forall>c \<in> set t. c < 128 \<Longrightarrow> \<exists>k'. kprint_error t k = Some k'"
proof -
  have kc: "\<exists>k'. kprintcolor t c k = Some k'" if "\<forall>x \<in> set t. x < 128" for t c k
    using that
  proof (induction t arbitrary: k)
    case (Cons x t)
    obtain cur m where "put_char_with_cursor_lim (con_fb k) (con_cursor k) x c (video k) = Some (cur, m)"
      using put_char_ascii Cons.prems by fastforce
    with Cons show ?case by simp
  qed simp
  have lit: "\<forall>c \<in> set (bytes '' ''). c < 128" "\<forall>c \<in> set (bytes ''[''). c < 128" "\<forall>c \<in> set (bytes '']\<newline>''). c < 128"
    "\<forall>c \<in> set (bytes ''  OK  ''). c < 128" "\<forall>c \<in> set (bytes '' ERROR ''). c < 128" by (simp_all add: bytes_def of_char_def)
  show "\<exists>k'. kprint_ok t k = Some k'" if "\<forall>c \<in> set t. c < 128"
    using kprint_ascii [OF that] kprint_ascii [OF lit(1)] kprint_ascii [OF lit(2)] kprint_ascii [OF lit(3)] kc [OF lit(4)]
    unfolding kprint_ok_def by (metis Option.bind.bind_lunit)
  show "\<exists>k'. kprint_error t k = Some k'" if "\<forall>c \<in> set t. c < 128"
    using kprint_ascii [OF that] kprint_ascii [OF lit(1)] kprint_ascii [OF lit(2)] kprint_ascii [OF lit(3)] kc [OF lit(5)]
    unfolding kprint_error_def by (metis Option.bind.bind_lunit)
qed

lemma no_module_message:
  "kprint (bytes ''[USERSPACE] Kein init.elf als Modul geladen '' @ arrow @ u) s = None"
  by (simp add: arrow_def kprint_high bytes_no_nul)

lemma valid_elf_undefined: "elf64_check (ehdr_at (phys_mem (snd (kheap (ram (sh k))))) elf) \<Longrightarrow> load_elf elf k = None"
proof -
  assume a: "elf64_check (ehdr_at (phys_mem (snd (kheap (ram (sh k))))) elf)"
  have "\<forall>x \<in> set (bytes ''[ELF] Userspace ELF loaded ''). x < 128 \<and> x \<noteq> 0 \<and> x \<noteq> 37" by (simp add: bytes_def of_char_def)
  then have "kprintf (bytes ''[ELF] Userspace ELF loaded '' @ dash @ u) args s = None" for u args s
    unfolding dash_def append_Cons by (intro kprintf_high) simp_all
  moreover obtain h v where "kheap (ram (sh k)) = (h, v)" by fastforce
  ultimately show ?thesis using a
    by (simp add: load_elf_def on_sh_def on_con_def split: Option.bind_split)
qed

text \<open>
  C19: Loading user space is defined in one case only: there is a module and it is \<^emph>\<open>not\<close> a valid image.  Without a
  module, and after loading a valid one, the message printed has an arrow or a dash in it, and its bytes above 127
  index the font with a negative number.
\<close>

theorem load_user_space_defined:
  "load_user_space k \<noteq> None \<longleftrightarrow>
     (\<exists>m ms. modules k = Some (m # ms) \<and> \<not> elf64_check (ehdr_at (phys_mem (snd (kheap (ram (sh k))))) m))"
proof -
  have none: "load_user_space k = None" if "modules k = None \<or> modules k = Some []"
    using that no_module_message by (auto simp: load_user_space_def on_sh_def on_con_def)
  have some: "load_user_space k \<noteq> None \<longleftrightarrow> \<not> elf64_check (ehdr_at (phys_mem (snd (kheap (ram (sh k))))) m)"
    if m: "modules k = Some (m # ms)" for m ms
  proof -
    have lit: "\<forall>c \<in> set (bytes ''[USERSPACE] Lade: ''). c < 128" "\<forall>c \<in> set (bytes ''[USERSPACE] ELF fehlerhaft oder kaputt!\<newline>''). c < 128"
      "\<forall>c \<in> set (bytes ''[ELF] Invalid ELF header!\<newline>''). c < 128 \<and> c \<noteq> 0 \<and> c \<noteq> 37" by (simp_all add: bytes_def of_char_def)
    obtain k1 where k1: "kprint_ok (bytes ''[USERSPACE] Lade: '') (con (sh k)) = Some k1" using kprint_ok_ascii(1) [OF lit(1)] by blast
    obtain k2 where k2: "kprintf (bytes ''[ELF] Invalid ELF header!\<newline>'') [] k1 = Some k2"
      using kprintf_plain [OF lit(3), of "[]" "[]" k1] by auto
    obtain k3 where k3: "kprint_error (bytes ''[USERSPACE] ELF fehlerhaft oder kaputt!\<newline>'') k2 = Some k3"
      using kprint_ok_ascii(2) [OF lit(2)] by blast
    define ka where "ka = k\<lparr>sh := (sh k)\<lparr>con := k1\<rparr>\<rparr>"
    have ram: "ram (sh ka) = ram (sh k)" by (simp add: ka_def)
    have start: "load_user_space k = load_elf m ka \<bind> (\<lambda>(start, k). if start = 0 then on_sh (text_error ''[USERSPACE] ELF fehlerhaft oder kaputt!\<newline>'') k
          else do { k \<leftarrow> on_sh (text_ok ''[USERSPACE] Userspace bereit '') k; on_sh (say ''Wechsel in Ring 3...\<newline>'') k })"
      using m k1 by (simp add: load_user_space_def on_sh_def on_con_def ka_def)
    show ?thesis
    proof (cases "elf64_check (ehdr_at (phys_mem (snd (kheap (ram (sh k))))) m)")
      case True
      then show ?thesis using valid_elf_undefined [of ka m] start by (simp add: ram)
    next
      case False
      moreover obtain h v where "kheap (ram (sh k)) = (h, v)" by fastforce
      ultimately have "load_elf m ka = Some (0, k\<lparr>sh := (sh k)\<lparr>con := k2\<rparr>\<rparr>)"
        using k2 by (simp add: load_elf_def ram on_sh_def on_con_def) (simp add: ka_def)
      then show ?thesis using start False k3 by (simp add: on_sh_def on_con_def)
    qed
  qed
  show ?thesis
  proof (cases "modules k")
    case (Some l)
    then show ?thesis using none some by (cases l) auto
  qed (use none in simp)
qed

section \<open>The start-up test of the RAM file system\<close>

definition kp :: "u8 list \<Rightarrow> console \<Rightarrow> console" where
  "kp t k = the (kprint t k)"

definition plain :: "u8 list \<Rightarrow> bool" where
  "plain t \<longleftrightarrow> (\<forall>c \<in> set t. c < 128 \<and> c \<noteq> 0)"

lemma plain_kprint: "plain t \<Longrightarrow> kprint t k = Some (kp t k)"
  using kprint_ascii [of t k] by (auto simp: plain_def kp_def)

lemma plain_on_con: "plain t \<Longrightarrow> on_con (kprint t) s = Some (s\<lparr>con := kp t (con s)\<rparr>)"
  by (simp add: on_con_def plain_kprint)

lemma plain_concat: "\<forall>t \<in> set ts. plain t \<Longrightarrow> kprint (concat ts) k = Some (fold kp ts k)"
proof (induction ts arbitrary: k)
  case (Cons t ts)
  then have "0 \<notin> set t" by (auto simp: plain_def)
  then show ?case using Cons by (simp add: kprint_append plain_kprint)
qed simp

text \<open>What the test prints, call by call.\<close>

definition ramfs_log :: "string list" where
  "ramfs_log = [''[RAMFS] Initialized\<newline>'', ''=== ROOT TEST ===\<newline>'', ''=== MKDIR /etc ===\<newline>'', ''[RAMFS] mkdir: /etc\<newline>'',
     ''=== LIST ROOT ===\<newline>'', ''[RAMFS] ls /\<newline>  etc/\<newline>'', ''=== CREATE FILE ===\<newline>'', ''=== LIST /etc ===\<newline>'',
     ''0]: '' @ [CHR 0x27] @ ''etc'' @ [CHR 0x27] @ ''\<newline>[RAMFS] ls /etc\<newline>'', ''=== READ FILE ===\<newline>'',
     ''0]: '' @ [CHR 0x27] @ ''etc'' @ [CHR 0x27] @ ''\<newline>[RAMFS] Not found or not file: /etc/hosts\<newline>'',
     ''0]: '' @ [CHR 0x27] @ ''etc'' @ [CHR 0x27] @ ''\<newline>[RAMFS] Not found or not file: /etc/hosts\<newline>'',
     ''[RAMFS] Not found or not file: /\<newline>'', ''=== LIST /etc AFTER DELETE ===\<newline>'', ''[RAMFS] ls /\<newline>  etc/\<newline>'']"

lemma plain_log: "t \<in> set ramfs_log \<Longrightarrow> plain (bytes t)"
proof -
  have "\<forall>t \<in> set ramfs_log. plain (bytes t)" unfolding ramfs_log_def plain_def bytes_def by code_simp
  then show "t \<in> set ramfs_log \<Longrightarrow> plain (bytes t)" by blast
qed

lemma path_tokens:
  "next_token (bytes ''/etc'') = Some (bytes ''etc'', [])" "next_token (bytes ''/etc/hosts'') = Some (bytes ''etc'', bytes ''hosts'')"
  "next_token (bytes ''hosts'') = Some (bytes ''hosts'', [])" "next_token [] = None"
  by code_simp+

text \<open>The tree that is left: the root with one empty directory.\<close>

definition only_etc :: "u64 \<Rightarrow> u64 \<Rightarrow> ramfs \<Rightarrow> bool" where
  "only_etc r e s \<longleftrightarrow> ramfs_root s = r \<and> r \<noteq> 0 \<and> e \<noteq> 0 \<and> node_type (nodes s r) = RAMFS_DIR \<and> children (nodes s r) = [e]
     \<and> nodes s e = empty_node\<lparr>node_name := bytes ''etc'', node_type := RAMFS_DIR, node_parent := r\<rparr>"

lemma etc_paths:
  "bytes ''/etc'' \<noteq> []" "bytes ''/etc'' \<noteq> [slash]" "take 255 (bytes ''/etc'') = bytes ''/etc''"
  "bytes ''/etc/hosts'' \<noteq> []" "bytes ''/etc/hosts'' \<noteq> [slash]" "take 255 (bytes ''/etc/hosts'') = bytes ''/etc/hosts''"
  "bytes ''/'' = [slash]" "bytes ''etc'' \<noteq> []" "bytes ''hosts'' \<noteq> []" "take 31 (bytes ''etc'') = bytes ''etc''"
  by (simp_all add: bytes_def of_char_def)

lemma only_etc_calls:
  assumes "only_etc r e s"
  shows "ramfs_create_file (bytes ''/etc/hosts'') t s = Some (0, s)" "create_text (bytes ''/etc/hosts'') s = []"
    "ramfs_create_file (bytes ''readme.txt'') t s = Some (0, s)" "create_text (bytes ''readme.txt'') s = []"
    "ramfs_read_file (bytes ''/etc/hosts'') s = Some (0, s)" "ramfs_delete_file (bytes ''/etc/hosts'') s = Some (0, s)"
    "ramfs_delete_file (bytes ''/'') s = Some (0, s)"
    "list_text (bytes ''/'') s = bytes ''[RAMFS] ls /\<newline>  etc/\<newline>''"
    "list_text (bytes ''/etc'') s = bytes (''0]: '' @ [CHR 0x27] @ ''etc'' @ [CHR 0x27] @ ''\<newline>[RAMFS] ls /etc\<newline>'')"
    "read_text (bytes ''/etc/hosts'') s
       = bytes (''0]: '' @ [CHR 0x27] @ ''etc'' @ [CHR 0x27] @ ''\<newline>[RAMFS] Not found or not file: /etc/hosts\<newline>'')"
    "delete_text (bytes ''/etc/hosts'') s
       = bytes (''0]: '' @ [CHR 0x27] @ ''etc'' @ [CHR 0x27] @ ''\<newline>[RAMFS] Not found or not file: /etc/hosts\<newline>'')"
    "delete_text (bytes ''/'') s = bytes ''[RAMFS] Not found or not file: /\<newline>''"
proof -
  have f: "ramfs_root s = r" "r \<noteq> 0" "e \<noteq> 0" "node_type (nodes s r) = RAMFS_DIR" "children (nodes s r) = [e]"
      "node_name (nodes s e) = bytes ''etc''" "node_type (nodes s e) = RAMFS_DIR" "children (nodes s e) = []"
    using assms by (simp_all add: only_etc_def empty_node_def)
  have c: "find_child (bytes ''etc'') r s = Some e" "find_child (bytes ''hosts'') e s = None" by (simp_all add: find_child_def f)
  have l: "find_loop (bytes ''/etc'') False r s = Some (e, s)" "find_loop (bytes ''/etc/hosts'') False r s = Some (0, s)"
    by (subst find_loop.simps, simp add: path_tokens etc_paths c, (subst find_loop.simps, simp add: path_tokens etc_paths c)?)+
  have i: "itoa 0 Decimal = Some [48]" by (simp add: itoa_def)
  let ?tr = "bytes (''0]: '' @ [CHR 0x27] @ ''etc'' @ [CHR 0x27] @ ''\<newline>'')"
  have line: "child_line 0 (bytes ''etc'') = ?tr" by (simp add: child_line_def i bytes_def of_char_def)
  have x: "find_text (bytes ''/etc'') False r s = ?tr" "find_text (bytes ''/etc/hosts'') False r s = ?tr"
    by (subst find_text.simps, simp add: path_tokens etc_paths c f line, (subst find_text.simps, simp add: path_tokens etc_paths c f)?)+
  note n = ramfs_find_node_def find_node_text_def f(1,2) etc_paths l x
  have fs: "slash \<in> set (bytes ''/etc/hosts'')" "takeWhile (\<lambda>c. c \<noteq> slash) (bytes ''/etc/hosts'') = []"
    "slash \<notin> set (bytes ''readme.txt'')" by (simp_all add: bytes_def of_char_def)
  show "ramfs_create_file (bytes ''/etc/hosts'') t s = Some (0, s)" "create_text (bytes ''/etc/hosts'') s = []"
    by (simp_all add: ramfs_create_file_def create_text_def fs f etc_paths)
  show "ramfs_create_file (bytes ''readme.txt'') t s = Some (0, s)" "create_text (bytes ''readme.txt'') s = []"
    using fs(3) by (simp_all add: ramfs_create_file_def create_text_def f take_bytes)
  show "ramfs_read_file (bytes ''/etc/hosts'') s = Some (0, s)" by (simp add: ramfs_read_file_def n)
  show "ramfs_delete_file (bytes ''/etc/hosts'') s = Some (0, s)" by (simp add: ramfs_delete_file_def n)
  show "ramfs_delete_file (bytes ''/'') s = Some (0, s)" by (simp add: ramfs_delete_file_def n f)
  show "list_text (bytes ''/'') s = bytes ''[RAMFS] ls /\<newline>  etc/\<newline>''"
    by (simp add: list_text_def ramfs_list_dir_def n f) (simp add: bytes_def of_char_def)
  show "list_text (bytes ''/etc'') s = bytes (''0]: '' @ [CHR 0x27] @ ''etc'' @ [CHR 0x27] @ ''\<newline>[RAMFS] ls /etc\<newline>'')"
    by (simp add: list_text_def ramfs_list_dir_def n f) (simp add: bytes_def of_char_def)
  show "read_text (bytes ''/etc/hosts'') s
       = bytes (''0]: '' @ [CHR 0x27] @ ''etc'' @ [CHR 0x27] @ ''\<newline>[RAMFS] Not found or not file: /etc/hosts\<newline>'')"
    by (simp add: read_text_def n) (simp add: bytes_def of_char_def)
  show "delete_text (bytes ''/etc/hosts'') s
       = bytes (''0]: '' @ [CHR 0x27] @ ''etc'' @ [CHR 0x27] @ ''\<newline>[RAMFS] Not found or not file: /etc/hosts\<newline>'')"
    by (simp add: delete_text_def n f) (simp add: bytes_def of_char_def)
  show "delete_text (bytes ''/'') s = bytes ''[RAMFS] Not found or not file: /\<newline>''"
    by (simp add: delete_text_def n f) (simp add: bytes_def of_char_def)
qed

lemma ramfs_starts:
  assumes h: "kmalloc 200 (kheap s) = Some (r, h1)" "kmalloc 200 h1 = Some (e, h2)" and ne: "r \<noteq> 0" "e \<noteq> 0" "e \<noteq> r"
  obtains s1 s2 where "ramfs_init s = Some s1" "init_text s = bytes ''[RAMFS] Initialized\<newline>''"
    "ramfs_mkdir (bytes ''/etc'') s1 = Some (e, s2)" "mkdir_text (bytes ''/etc'') s1 = bytes ''[RAMFS] mkdir: /etc\<newline>''"
    "only_etc r e s2" "kheap s2 = h2"
proof -
  define s1 where "s1 = set_node r (empty_node\<lparr>node_type := RAMFS_DIR\<rparr>) (s\<lparr>kheap := h1, ramfs_root := r\<rparr>)"
  have i: "ramfs_init s = Some s1" using h(1) ne(1) by (simp add: ramfs_init_def ram_alloc_def s1_def)
  have f: "ramfs_root s1 = r" "kheap s1 = h1" "children (nodes s1 r) = []" "node_type (nodes s1 r) = RAMFS_DIR"
    by (simp_all add: s1_def set_node_def empty_node_def)
  define s2 where "s2 = set_node r ((nodes s1 r)\<lparr>children := [e]\<rparr>)
     (set_node e (empty_node\<lparr>node_name := bytes ''etc'', node_type := RAMFS_DIR, node_parent := r\<rparr>) (s1\<lparr>kheap := h2\<rparr>))"
  have a: "ram_alloc 200 s1 = Some (e, s1\<lparr>kheap := h2\<rparr>)" using h(2) f(2) by (simp add: ram_alloc_def)
  have add: "add_dir (bytes ''etc'') r s1 = Some (e, s2)"
    using ne f by (simp add: add_dir_def a set_node_def s2_def RAMFS_MAX_NAME_def RAMFS_MAX_CHILDREN_def etc_paths)
  have c: "find_child (bytes ''etc'') r s1 = None" by (simp add: find_child_def f)
  have l: "find_loop (bytes ''/etc'') True r s1 = Some (e, s2)"
    by (subst find_loop.simps, simp add: path_tokens etc_paths c add ne, subst find_loop.simps, simp add: path_tokens)
  have x: "find_text (bytes ''/etc'') True r s1 = []"
    by (subst find_text.simps, simp add: path_tokens etc_paths c add a ne f RAMFS_MAX_CHILDREN_def, subst find_text.simps, simp add: path_tokens)
  have o: "only_etc r e s2" using ne f by (simp add: only_etc_def s2_def set_node_def)
  then have d: "node_type (nodes s2 e) = RAMFS_DIR" by (simp add: only_etc_def empty_node_def)
  note n = ramfs_find_node_def find_node_text_def f(1) ne etc_paths l x
  have m: "ramfs_mkdir (bytes ''/etc'') s1 = Some (e, s2)" by (simp add: ramfs_mkdir_def n d)
  have t: "mkdir_text (bytes ''/etc'') s1 = bytes ''[RAMFS] mkdir: /etc\<newline>''"
    by (simp add: mkdir_text_def n d) (simp add: bytes_def of_char_def)
  have "init_text s = bytes ''[RAMFS] Initialized\<newline>''" using i f ne by (simp add: init_text_def)
  then show thesis using that i m t o by (simp add: s2_def set_node_def)
qed

text \<open>
  C23: The start-up test of the RAM file system, when two nodes can be allocated: its exact output after the first line.
  The two files it means to create are not created, reading and deleting them reports that they do not exist, and
  what is left of the test is the root with one empty directory.
\<close>

theorem init_ramfs_test_log:
  assumes h: "kmalloc 200 (kheap (ram s)) = Some (r, h1)" "kmalloc 200 h1 = Some (e, h2)" and ne: "r \<noteq> 0" "e \<noteq> 0" "e \<noteq> r"
  shows "\<exists>k s'. kprint_ok (bytes ''initing ramfs'') (con s) = Some k \<and> init_ramfs_test s = Some s'
    \<and> kprint (concat (map bytes ramfs_log)) k = Some (con s') \<and> only_etc r e (ram s') \<and> kheap (ram s') = h2"
proof -
  have "\<forall>c \<in> set (bytes ''initing ramfs''). c < 128" by (simp add: bytes_def of_char_def)
  then obtain k where k: "kprint_ok (bytes ''initing ramfs'') (con s) = Some k" using kprint_ok_ascii by blast
  obtain s1 s2 where st: "ramfs_init (ram s) = Some s1" "init_text (ram s) = bytes ''[RAMFS] Initialized\<newline>''"
    "ramfs_mkdir (bytes ''/etc'') s1 = Some (e, s2)" "mkdir_text (bytes ''/etc'') s1 = bytes ''[RAMFS] mkdir: /etc\<newline>''"
    "only_etc r e s2" "kheap s2 = h2" by (rule ramfs_starts [OF assms])
  have pl: "plain (bytes t)" if "t \<in> set ramfs_log" for t using plain_log [OF that] .
  have lit: "plain (bytes ''[RAMFS] Initialized\<newline>'')" "plain (bytes ''=== ROOT TEST ===\<newline>'')" "plain (bytes ''=== MKDIR /etc ===\<newline>'')"
    "plain (bytes ''[RAMFS] mkdir: /etc\<newline>'')" "plain (bytes ''=== LIST ROOT ===\<newline>'')" "plain (bytes ''[RAMFS] ls /\<newline>  etc/\<newline>'')"
    "plain (bytes ''=== CREATE FILE ===\<newline>'')" "plain (bytes ''=== LIST /etc ===\<newline>'')"
    "plain (bytes (''0]: '' @ [CHR 0x27] @ ''etc'' @ [CHR 0x27] @ ''\<newline>[RAMFS] ls /etc\<newline>''))" "plain (bytes ''=== READ FILE ===\<newline>'')"
    "plain (bytes (''0]: '' @ [CHR 0x27] @ ''etc'' @ [CHR 0x27] @ ''\<newline>[RAMFS] Not found or not file: /etc/hosts\<newline>''))"
    "plain (bytes ''[RAMFS] Not found or not file: /\<newline>'')" "plain (bytes ''=== LIST /etc AFTER DELETE ===\<newline>'')" "plain []"
    by (rule pl, simp add: ramfs_log_def)+ (simp add: plain_def)
  note calls = only_etc_calls [OF st(5)]
  define k' where "k' = fold kp (map bytes ramfs_log) k"
  define s' where "s' = s\<lparr>con := k', ram := s2\<rparr>"
  have nil: "kp [] k = k" for k by (simp add: kp_def)
  have "init_ramfs_test s = Some s'"
    unfolding init_ramfs_test_def ram_init_def ram_mkdir_def ram_list_def ram_create_def ram_read_def ram_delete_def
    by (simp only: on_con_def k option.map Option.bind.bind_lunit)
      (simp del: append_Cons append_Nil add: ram_call_def st calls on_con_def plain_kprint lit nil k'_def s'_def ramfs_log_def)
  moreover have "kprint (concat (map bytes ramfs_log)) k = Some (con s')"
    using plain_concat [of "map bytes ramfs_log" k] plain_log by (simp add: s'_def k'_def)
  moreover have "only_etc r e (ram s')" "kheap (ram s') = h2" using st(5,6) by (simp_all add: s'_def)
  ultimately show ?thesis using k by blast
qed

section \<open>A sample kernel\<close>

definition kernel0 :: "pio_drive kernel" where
  "kernel0 = \<lparr>sh = shell_with fs_sample, kbd = kb_fresh, irqs = timer_only_state, gdt_slots = replicate 7 (slot_of_u64 0),
     gdtr = \<lparr>gp_limit = 0, gp_base = 0\<rparr>, tss_st = new_tss 0, idt_slots = [], idtr = \<lparr>ip_limit = 0, ip_base = 0\<rparr>,
     interrupt_flag = True, is_mouse_connected = False, memmap = [], modules = None, ata_io = drive_io, usable_type = 0,
     gdt_addr = 0x1000, tss_addr = 0x2000, boot_rsp = 0x3000, idt_addr = 0x4000, isr_addr = 0x5000,
     irq_stubs = replicate 16 0x6000, timer_addr = 0x7000, fat_addr = 1, mouse_ready = (\<lambda>_. None),
     stack_sector = replicate 512 0, stack_loc = \<lparr>l_sect = 0, l_idx = 0\<rparr>, stack_char = 0\<rparr>"

theorem keyboard_reaches_line_witness:
  "\<exists>k'. kmain_rounds ([[0x23], [], [0x17, 0x97]] @ replicate 255 []) kernel0 = Some (Returns k') \<and> queue k' = []
     \<and> shell_line (sh k') = bytes ''hi''"
proof -
  have ok: "typing_ok kernel0" using shell_with_fields by (simp add: typing_ok_def kernel0_def kb_fresh_def)
  have "typed False [0x23, 0x17, 0x97] = [104, 105]"
    by (simp add: decode_def shift_after_def scancode_ascii_def scancode_ascii_shift_def Let_def)
  then have q: "[104, 105] = queue kernel0 @ typed (shift_of kernel0) (concat [[0x23], [], [0x17, 0x97]])"
    by (simp add: queue_def shift_of_def kernel0_def kb_fresh_def)
  have l: "length [104, 105 :: u8] \<le> 255" "set [104, 105 :: u8] \<inter> {8, 10} = {}" by simp_all
  have e: "fold edit [104, 105] (shell_line (sh kernel0)) = bytes ''hi''"
    by (simp add: kernel0_def shell_with_fields edit_def bytes_def of_char_def)
  show ?thesis using keyboard_reaches_line [OF ok q l] unfolding e .
qed

theorem init_ramfs_test_log_witness:
  "\<exists>k s'. init_ramfs_test shell0 = Some s' \<and> kprint (concat (map bytes ramfs_log)) k = Some (con s')
     \<and> only_etc 0xFFFF800001000010 0xFFFF8000010000E8 (ram s')"
proof -
  have "\<exists>h1 h2. kmalloc 200 (kheap (ram shell0)) = Some (0xFFFF800001000010, h1) \<and> kmalloc 200 h1 = Some (0xFFFF8000010000E8, h2)"
    by (simp add: shell0_def shell_with_def ramfs_sample_def kmalloc_bump heap_consts kmalloc_init_def heap_zero_def align8_def)
  then show ?thesis using init_ramfs_test_log [of shell0 "0xFFFF800001000010" _ "0xFFFF8000010000E8"] by fastforce
qed

end
