(* ===== verification/Traps.thy ===== *)
theory Traps
  imports Boot
begin

text \<open>
  What the processor does with the tables once they are loaded: \<^verbatim>\<open>interrupts/gdt.asm\<close> (the segment registers),
  \<^verbatim>\<open>interrupts/isr.asm\<close> and \<^verbatim>\<open>isr.c\<close> (exceptions).  The rules of the processor used here are the documented ones: a
  data segment register accepts a null selector or a present, readable code or data descriptor; an interrupt gate
  clears the interrupt flag; ten exceptions push an error code under which the return frame lies.

  Shown: the kernel's segments load, the selector with which \<^verbatim>\<open>elf64_enter_ring3\<close> begins does not; an exception prints
  its message and then sleeps for ever, since its gate keeps the timer out; were it to return, it would resume the
  interrupted code exactly if no error code was pushed.
\<close>

section \<open>Segment registers\<close>

record seg_regs =
  sr_gdtr :: gdt_ptr
  sr_cs :: u16
  sr_ds :: u16
  sr_es :: u16
  sr_fs :: u16
  sr_gs :: u16
  sr_ss :: u16

text \<open>The access byte: bit 4 tells code and data from system descriptors, bit 3 code from data, bit 1 is readable code or
  writable data.\<close>

definition data_segment :: "gdt_entry \<Rightarrow> bool" where
  "data_segment e \<longleftrightarrow> Interrupts.present e \<and> bit (access e) 4 \<and> (bit (access e) 3 \<longrightarrow> bit (access e) 1)"

definition code_segment :: "gdt_entry \<Rightarrow> bool" where
  "code_segment e \<longleftrightarrow> Interrupts.present e \<and> bit (access e) 4 \<and> bit (access e) 3"

text \<open>The selector a register holds after a move to it; \<^const>\<open>None\<close> is a protection fault.\<close>

definition load_data :: "gdt_entry list \<Rightarrow> seg_regs \<Rightarrow> u16 \<Rightarrow> u16 option" where
  "load_data gdt r sel =
     (if sel < 4 then Some sel
      else case descriptor (sr_gdtr r) gdt sel of
        None \<Rightarrow> None | Some e \<Rightarrow> if data_segment e then Some sel else None)"

definition load_code :: "gdt_entry list \<Rightarrow> seg_regs \<Rightarrow> u16 \<Rightarrow> u16 option" where
  "load_code gdt r sel =
     (case descriptor (sr_gdtr r) gdt sel of
        None \<Rightarrow> None | Some e \<Rightarrow> if code_segment e then Some sel else None)"

text \<open>The far return to \<^verbatim>\<open>.reload_cs\<close> takes the code segment from the selector pushed, then the others are loaded.\<close>

definition reload_segments :: "gdt_entry list \<Rightarrow> seg_regs \<Rightarrow> seg_regs option" where
  "reload_segments gdt r = do {
     c \<leftarrow> load_code gdt r 0x08;
     let r = r\<lparr>sr_cs := c\<rparr>;
     d \<leftarrow> load_data gdt r 0x10;
     let r = r\<lparr>sr_ds := d\<rparr>;
     let r = r\<lparr>sr_es := d\<rparr>;
     let r = r\<lparr>sr_fs := d\<rparr>;
     let r = r\<lparr>sr_gs := d\<rparr>;
     Some (r\<lparr>sr_ss := d\<rparr>) }"

definition gdt_load :: "gdt_ptr \<Rightarrow> gdt_entry list \<Rightarrow> seg_regs \<Rightarrow> seg_regs option" where
  "gdt_load ptr gdt r = reload_segments gdt (r\<lparr>sr_gdtr := ptr\<rparr>)"

text \<open>The first instructions of \<^verbatim>\<open>elf64_enter_ring3\<close>: the four data segment registers get the selector of its frame.\<close>

definition ring3_segments :: "gdt_entry list \<Rightarrow> iret_frame \<Rightarrow> seg_regs \<Rightarrow> seg_regs option" where
  "ring3_segments gdt f r = do {
     d \<leftarrow> load_data gdt r (ir_data_segments f);
     Some (r\<lparr>sr_ds := d, sr_es := d, sr_fs := d, sr_gs := d\<rparr>) }"

section \<open>Exceptions\<close>

record int_frame =
  fr_rip :: u64
  fr_cs :: u64
  fr_rflags :: u64
  fr_rsp :: u64
  fr_ss :: u64

definition pushes_error_code :: "nat \<Rightarrow> bool" where
  "pushes_error_code v \<longleftrightarrow> v \<in> {8, 10, 11, 12, 13, 14, 17, 21, 29, 30}"

text \<open>The stack at the first instruction of a handler, the top first.\<close>

definition exception_stack :: "nat \<Rightarrow> u64 \<Rightarrow> int_frame \<Rightarrow> u64 list" where
  "exception_stack v ec f =
     (if pushes_error_code v then [ec] else []) @ [fr_rip f, fr_cs f, fr_rflags f, fr_rsp f, fr_ss f]"

definition iretq :: "u64 list \<Rightarrow> int_frame" where
  "iretq stk = \<lparr>fr_rip = stk ! 0, fr_cs = stk ! 1, fr_rflags = stk ! 2, fr_rsp = stk ! 3, fr_ss = stk ! 4\<rparr>"

text \<open>\<^verbatim>\<open>isr_handler\<close> saves fourteen registers, all but \<^verbatim>\<open>rbp\<close>, which the C code keeps.\<close>

definition isr_pushes :: "regs \<Rightarrow> u64 list" where
  "isr_pushes r = [rax r, rbx r, rcx r, rdx r, rsi r, rdi r, r8 r, r9 r, r10 r, r11 r, r12 r, r13 r, r14 r, r15 r]"

definition isr_pops :: "u64 list \<Rightarrow> regs \<Rightarrow> regs \<times> u64 list" where
  "isr_pops stk r =
     (r\<lparr>r15 := stk ! 0, r14 := stk ! 1, r13 := stk ! 2, r12 := stk ! 3, r11 := stk ! 4, r10 := stk ! 5, r9 := stk ! 6,
        r8 := stk ! 7, rdi := stk ! 8, rsi := stk ! 9, rdx := stk ! 10, rcx := stk ! 11, rbx := stk ! 12,
        rax := stk ! 13\<rparr>, drop 14 stk)"

text \<open>\<^verbatim>\<open>isr_handle_error\<close> is the error screen with its last two calls, \<^verbatim>\<open>sleep_s(5)\<close> over the readings \<^term>\<open>t\<close> of the tick
  counter and the reboot; \<^const>\<open>None\<close> never returns.\<close>

definition isr_handle_error :: "(nat \<Rightarrow> u64) \<Rightarrow> sound \<Rightarrow> console \<Rightarrow> console option" where
  "isr_handle_error t io s =
     trigger_blue_screen (\<lambda>s. do {
       _ \<leftarrow> sleep_s t 5;
       case fst (power_reboot io) of Returned \<Rightarrow> Some s | Halted \<Rightarrow> None }) s"

text \<open>The C code may leave any values \<^term>\<open>rc\<close> in the registers; \<^verbatim>\<open>rbp\<close> is as it was.\<close>

definition isr_handler ::
  "(nat \<Rightarrow> u64) \<Rightarrow> sound \<Rightarrow> regs \<Rightarrow> u64 list \<Rightarrow> regs \<Rightarrow> console \<Rightarrow> (regs \<times> int_frame \<times> console) option" where
  "isr_handler t io rc stk r s = do {
     let stk = fold (#) (isr_pushes r) stk;
     s \<leftarrow> isr_handle_error t io s;
     let (r, stk) = isr_pops stk (rc\<lparr>rbp := rbp r\<rparr>);
     Some (r, iretq stk, s) }"

text \<open>An interrupt gate clears the interrupt flag, a trap gate keeps it; without the flag no interrupt is served and the
  tick counter stays as it is.\<close>

definition gate_flag :: "idt_entry \<Rightarrow> bool \<Rightarrow> bool" where
  "gate_flag e flag \<longleftrightarrow> flag \<and> type_attr e AND 0x0F \<noteq> 0x0E"

definition ticks_seen :: "(u64 \<Rightarrow> irq_state \<Rightarrow> irq_state) \<Rightarrow> (nat \<Rightarrow> nat \<times> regs) \<Rightarrow> irq_state \<Rightarrow> bool \<Rightarrow> nat \<Rightarrow> u64" where
  "ticks_seen jump d q flag k = (if flag then ticks_after jump d 0 q k else tick_count q)"

text \<open>Exception \<^term>\<open>v\<close> through gate \<^term>\<open>e\<close>.\<close>

definition take_exception ::
  "(u64 \<Rightarrow> irq_state \<Rightarrow> irq_state) \<Rightarrow> (nat \<Rightarrow> nat \<times> regs) \<Rightarrow> irq_state \<Rightarrow> bool \<Rightarrow> idt_entry \<Rightarrow> nat \<Rightarrow> u64 \<Rightarrow> int_frame
     \<Rightarrow> sound \<Rightarrow> regs \<Rightarrow> regs \<Rightarrow> console \<Rightarrow> (regs \<times> int_frame \<times> console) option" where
  "take_exception jump d q flag e v ec f io rc r s =
     isr_handler (ticks_seen jump d q (gate_flag e flag)) io rc (exception_stack v ec f) r s"

section \<open>Properties\<close>

text \<open>The error screen always reaches its last two calls.\<close>

lemma blue_screen_message: "\<exists>s'. \<forall>rest. trigger_blue_screen rest s = rest s'"
proof -
  have lit: "\<forall>c \<in> set (bytes '':(\<newline>''). c < 128" "\<forall>c \<in> set (bytes ''\<newline>\<newline>''). c < 128"
    "\<forall>c \<in> set (bytes ''A critical error has occurred. System halted.\<newline>s''). c < 128"
    "\<forall>c \<in> set (bytes ''System will not continue.''). c < 128"
    "\<forall>c \<in> set (bytes ''the system will reboot in 5 seconds...\<newline>''). c < 128" by (simp_all add: bytes_def of_char_def)
  define s0 where "s0 = (let s = s\<lparr>video := clear_screen_lim (con_fb s) COLOR_LIGHT_BLUE_SCREEN_BG (video s)\<rparr>
    in s\<lparr>con_cursor := (con_cursor s)\<lparr>cur_x := 3, cur_y := 10\<rparr>\<rparr>)"
  obtain s1 where s1: "kprint (bytes '':(\<newline>'') s0 = Some s1" using kprint_ascii [OF lit(1)] by blast
  obtain s2 where s2: "kprint (bytes ''\<newline>\<newline>'') s1 = Some s2" using kprint_ascii [OF lit(2)] by blast
  obtain s3 where s3: "kprint (bytes ''A critical error has occurred. System halted.\<newline>s'') s2 = Some s3"
    using kprint_ascii [OF lit(3)] by blast
  obtain s4 where s4: "kprint_error (bytes ''System will not continue.'') s3 = Some s4"
    using kprint_ok_ascii(2) [OF lit(4)] by blast
  obtain s5 where s5: "kprint (bytes ''the system will reboot in 5 seconds...\<newline>'') s4 = Some s5"
    using kprint_ascii [OF lit(5)] by blast
  have "trigger_blue_screen rest s = rest s5" for rest
    unfolding trigger_blue_screen_def Let_def s0_def [unfolded Let_def, symmetric] s1 bind.bind_lunit s2 s3 s4 s5 ..
  then show ?thesis by blast
qed

lemma isr_pops_pushes: "isr_pops (fold (#) (isr_pushes r) stk) (rc\<lparr>rbp := rbp r\<rparr>) = (r, stk)"
  by (simp add: isr_pops_def isr_pushes_def numeral_nat)

lemma iretq_exception:
  "iretq (exception_stack v ec f) =
     (if pushes_error_code v
      then \<lparr>fr_rip = ec, fr_cs = fr_rip f, fr_rflags = fr_cs f, fr_rsp = fr_rflags f, fr_ss = fr_rsp f\<rparr> else f)"
  by (simp add: iretq_def exception_stack_def numeral_nat)

lemma isr_handler_eq:
  "isr_handler t io rc (exception_stack v ec f) r s =
     map_option (\<lambda>s. (r, iretq (exception_stack v ec f), s)) (isr_handle_error t io s)"
  by (cases "isr_handle_error t io s") (simp_all add: isr_handler_def isr_pops_pushes)

lemma isr_handle_error_eq:
  "\<exists>s'. \<forall>t io. isr_handle_error t io s =
     (if sleep_s t 5 = None \<or> fst (power_reboot io) = Halted then None else Some s')"
proof -
  obtain s' where s': "\<And>rest. trigger_blue_screen rest s = rest s'" using blue_screen_message by blast
  have "isr_handle_error t io s = (if sleep_s t 5 = None \<or> fst (power_reboot io) = Halted then None else Some s')" for t io
    unfolding isr_handle_error_def s' by (cases "sleep_s t 5"; cases "fst (power_reboot io)") simp_all
  then show ?thesis by blast
qed

lemma sleep_frozen: "sleep_s (\<lambda>_. c) 5 = None"
  unfolding sleep_s_def by (rule sleep_never) (simp add: unat_ucast_32_64 word_less_nat_alt)

text \<open>
  C12: Every vector but those of the interrupt requests leads to \<^verbatim>\<open>isr_handler\<close> through an interrupt gate, so that the
  timer is off while an exception is handled: the error screen with its promise to reboot in five seconds is
  completed, and then the kernel waits for ever, whatever interrupts are pending.  The reboot is never tried.
\<close>

theorem exceptions_never_reboot:
  assumes "length idt = IDT_ENTRIES" and "length stubs = 16" and "v < IDT_ENTRIES" and "\<not> (32 \<le> v \<and> v < 48)"
    and e: "e = snd (idt_init ia isr stubs idt) ! v"
  shows "gate_target e = isr \<and> (\<exists>s'. \<forall>rest. trigger_blue_screen rest s = rest s')
     \<and> sleep_s (ticks_seen jump d q (gate_flag e flag)) 5 = None
     \<and> take_exception jump d q flag e v ec f io rc r s = None"
proof -
  have g: "leads_to e isr" unfolding e by (rule idt_init_gates(3) [OF assms(1-3)]) (use assms(4) in linarith)
  then have n: "\<not> gate_flag e flag" by (simp add: leads_to_def gate_flag_def)
  have z: "sleep_s (ticks_seen jump d q (gate_flag e flag)) 5 = None"
    unfolding ticks_seen_def if_not_P [OF n] by (rule sleep_frozen)
  obtain s' where "\<And>t io. isr_handle_error t io s =
     (if sleep_s t 5 = None \<or> fst (power_reboot io) = Halted then None else Some s')" using isr_handle_error_eq by meson
  then have "take_exception jump d q flag e v ec f io rc r s = None"
    using z by (simp add: take_exception_def isr_handler_eq)
  with z g blue_screen_message [of s] show ?thesis by (simp add: leads_to_def)
qed

text \<open>
  Were the timer running, as through a trap gate, and the keyboard controller busy, the reboot would be given up
  and \<^verbatim>\<open>isr_handler\<close> would return with every register of the interrupted code.  It resumes that code only for
  exceptions without an error code; otherwise it jumps to the error code, with the code segment taken from the
  interrupted address.
\<close>

theorem isr_handler_resumes:
  assumes "\<And>k. t k = c + of_nat k"
    and "\<And>k. k < 9 \<Longrightarrow> bit (answers (play_shutdown_sound io) (reads (play_shutdown_sound io) + k)) 1"
  shows "\<exists>s'. isr_handler t io rc (exception_stack v ec f) r s =
     Some (r, if pushes_error_code v
              then \<lparr>fr_rip = ec, fr_cs = fr_rip f, fr_rflags = fr_cs f, fr_rsp = fr_rflags f, fr_ss = fr_rsp f\<rparr> else f, s')"
proof -
  have sl: "sleep_s t 5 \<noteq> None" using sleep_uniform_ticks [of t 1] assms(1) by (simp add: sleep_s_def)
  let ?io = "play_shutdown_sound io"
  have "(ucast (answers ?io (reads ?io + k)) :: u8) AND 0x02 \<noteq> 0" if "k < 9" for k
  proof -
    have "bit ((ucast (answers ?io (reads ?io + k)) :: u8) AND 0x02) 1" using assms(2) [OF that] by (simp add: bit_simps bit_2_iff)
    then show ?thesis by (metis bit_0_eq bot_apply bot_bool_def)
  qed
  then have "fst (power_reboot io) \<noteq> Halted"
    using reboot_loop_outcome [of 9 ?io] by (auto simp: power_reboot_def eval_nat_numeral simp del: reboot_loop.simps)
  moreover obtain s' where "\<And>t io. isr_handle_error t io s =
     (if sleep_s t 5 = None \<or> fst (power_reboot io) = Halted then None else Some s')" using isr_handle_error_eq by meson
  ultimately show ?thesis using sl by (simp add: isr_handler_eq iretq_exception)
qed

text \<open>
  C29: With the table of \<^verbatim>\<open>gdt_init\<close>, \<^verbatim>\<open>gdt_load\<close> succeeds from any state of the segment registers and leaves the
  kernel's code selector, which the gates of \<^verbatim>\<open>idt_init\<close> name, and its data selector in them.  \<^verbatim>\<open>elf64_enter_ring3\<close>
  faults at its first move to a segment register, whatever the entry point: user mode is never reached.
\<close>

theorem segments_load:
  assumes "gdt_init ga tss_base sp gdt = Some (ptr, tss, gdt')"
  shows "gdt_load ptr gdt' r = Some \<lparr>sr_gdtr = ptr, sr_cs = 0x08, sr_ds = 0x10, sr_es = 0x10, sr_fs = 0x10,
            sr_gs = 0x10, sr_ss = 0x10\<rparr>
     \<and> (sr_gdtr r = ptr \<longrightarrow> ring3_segments gdt' (elf64_enter_ring3 en ursp uflags) r = None)"
proof -
  obtain hi where d: "descriptor ptr gdt' 0x08 = Some (flat_gate 0x9A)" "descriptor ptr gdt' 0x10 = Some (flat_gate 0x92)"
      "descriptor ptr gdt' 0x23 = Some hi" "\<not> Interrupts.present hi" using gdt_init_loads [OF assms] by blast
  have f: "code_segment (flat_gate 0x9A)" "data_segment (flat_gate 0x92)"
    by (simp_all add: code_segment_def data_segment_def Interrupts.present_def flat_gate_def bit_numeral_rec)
  have "\<not> data_segment hi" using d(4) by (simp add: data_segment_def)
  with d f show ?thesis
    by (simp add: gdt_load_def reload_segments_def load_code_def load_data_def ring3_segments_def elf64_enter_ring3_def)
qed

section \<open>Witnesses\<close>

lemma answers_beep [simp]: "answers (beep f d s) = answers s"
  by (simp add: beep_def io_defs Let_def)

lemma answers_shutdown: "answers (play_shutdown_sound s) = answers s"
  by (simp add: play_shutdown_sound_def)

definition frame0 :: int_frame where
  "frame0 = \<lparr>fr_rip = 0x1234, fr_cs = 0x08, fr_rflags = 0x202, fr_rsp = 0x9000, fr_ss = 0x10\<rparr>"

text \<open>A page fault.\<close>

theorem exceptions_never_reboot_witness:
  "let e = snd (idt_init 0 7 (replicate 16 8) (replicate IDT_ENTRIES undefined)) ! 14
   in gate_target e = 7 \<and> take_exception (\<lambda>_. timer_handler) (\<lambda>_. (0, regs0 0)) timer_only_state True e 14 2 frame0
        (quiet (\<lambda>_. 0)) (regs0 0) (regs0 1) console0 = None"
  unfolding Let_def
  using exceptions_never_reboot [of "replicate IDT_ENTRIES undefined" "replicate 16 8" 14
      "snd (idt_init 0 7 (replicate 16 8) (replicate IDT_ENTRIES undefined)) ! 14" 0 7]
  by (simp add: IDT_ENTRIES_def)

text \<open>A division by zero (vector 0) is resumed, a protection fault (vector 13) jumps to its error code.\<close>

theorem isr_handler_resumes_witness:
  "(\<exists>s'. isr_handler of_nat (quiet (\<lambda>_. 2)) (regs0 0) (exception_stack 0 0x23 frame0) (regs0 1) console0 = Some (regs0 1, frame0, s'))
   \<and> (\<exists>f s'. isr_handler of_nat (quiet (\<lambda>_. 2)) (regs0 0) (exception_stack 13 0x23 frame0) (regs0 1) console0
        = Some (regs0 1, f, s') \<and> fr_rip f = 0x23 \<and> fr_cs f = 0x1234)"
proof -
  have "bit (answers (play_shutdown_sound (quiet (\<lambda>_. 2))) k) 1" for k
    by (simp add: answers_shutdown quiet_def)
  then have "\<exists>s'. isr_handler of_nat (quiet (\<lambda>_. 2)) (regs0 0) (exception_stack v 0x23 frame0) (regs0 1) console0 =
     Some (regs0 1, if pushes_error_code v
              then \<lparr>fr_rip = 0x23, fr_cs = fr_rip frame0, fr_rflags = fr_cs frame0, fr_rsp = fr_rflags frame0, fr_ss = fr_rsp frame0\<rparr>
              else frame0, s')" for v
    by (intro isr_handler_resumes [where c = 0]) simp_all
  from this [of 0] this [of 13] show ?thesis by (auto simp: pushes_error_code_def frame0_def)
qed

definition seg_regs0 :: seg_regs where
  "seg_regs0 = \<lparr>sr_gdtr = \<lparr>gp_limit = 0, gp_base = 0\<rparr>, sr_cs = 0, sr_ds = 0, sr_es = 0, sr_fs = 0, sr_gs = 0, sr_ss = 0\<rparr>"

theorem segments_load_witness:
  "\<exists>ptr tss gdt r. gdt_init 0x1000 0x2000 0x8000 (replicate 8 (slot_of_u64 0)) = Some (ptr, tss, gdt)
     \<and> gdt_load ptr gdt seg_regs0 = Some r \<and> sr_cs r = 0x08 \<and> sr_ss r = 0x10
     \<and> ring3_segments gdt (elf64_enter_ring3 0x400000 0x9000 0x2) r = None"
proof -
  obtain ptr tss gdt where g: "gdt_init 0x1000 0x2000 0x8000 (replicate 8 (slot_of_u64 0)) = Some (ptr, tss, gdt)"
    by (simp add: gdt_init_eq GDT_ENTRIES_def)
  note segments_load [OF g]
  then show ?thesis using g by (metis seg_regs.select_convs(1,2,7))
qed

end
