(* ===== verification/Pointer.thy ===== *)
theory Pointer
  imports Ps2_Input Framebuffer
begin

text \<open>
  The pointer on the screen: \<^verbatim>\<open>draw_mouse_cursor\<close> of \<^verbatim>\<open>drivers/ps2/mouse.c\<close>, with the pixels of \<^verbatim>\<open>fb.c\<close>.  The size of the
  screen that \<^verbatim>\<open>mouse_poll\<close> clamps to is a variable of \<^verbatim>\<open>mouse.c\<close> of its own (\<^verbatim>\<open>mose.h\<close> declares it static) and is set
  only here.

  Shown: for a pointer on the screen a cross of five pixels is drawn, cut at the edges; a packet that arrives before
  the first drawing moves the pointer out of the screen.
\<close>

definition draw_mouse_cursor :: "limine_framebuffer \<Rightarrow> mouse \<Rightarrow> mem \<Rightarrow> mouse \<times> mem" where
  "draw_mouse_cursor fb m v =
     (let m = m\<lparr>fb_width := as_int (unat (width fb)), fb_height := as_int (unat (height fb))\<rparr>;
          v = put_pixel_lim fb (mouse_X m) (mouse_y m) 0xFFFFFF v;
          v = put_pixel_lim fb (mouse_X m + 1) (mouse_y m) 0xFFFFFF v;
          v = put_pixel_lim fb (mouse_X m - 1) (mouse_y m) 0xFFFFFF v;
          v = put_pixel_lim fb (mouse_X m) (mouse_y m + 1) 0xFFFFFF v;
          v = put_pixel_lim fb (mouse_X m) (mouse_y m - 1) 0xFFFFFF v
      in (m, v))"

text \<open>The size of a framebuffer, as the driver keeps it.\<close>

definition knows_screen :: "limine_framebuffer \<Rightarrow> mouse \<Rightarrow> bool" where
  "knows_screen fb m \<longleftrightarrow> fb_width m = uint (width fb) \<and> fb_height m = uint (height fb)"

lemma size_of_screen: "fb_ok fb \<Longrightarrow> as_int (unat (width fb)) = uint (width fb) \<and> as_int (unat (height fb)) = uint (height fb)"
  by (simp add: fb_ok_def as_int_small)

lemma draw_keeps: "fb_ok fb \<Longrightarrow> fst (draw_mouse_cursor fb m v) = m\<lparr>fb_width := uint (width fb), fb_height := uint (height fb)\<rparr>"
  by (simp add: draw_mouse_cursor_def Let_def size_of_screen)

lemma draw_cross:
  assumes "fb_ok fb" and "mouse_X m < 2 ^ 62" and "mouse_y m < 2 ^ 62" and "visible fb qx qy"
  shows "pixel fb (snd (draw_mouse_cursor fb m v)) qx qy
     = (if \<bar>qx - mouse_X m\<bar> + \<bar>qy - mouse_y m\<bar> \<le> 1 then 0xFFFFFF else pixel fb v qx qy)"
proof -
  have "mouse_X m < 2 ^ 63" "mouse_X m + 1 < 2 ^ 63" "mouse_X m - 1 < 2 ^ 63"
    "mouse_y m < 2 ^ 63" "mouse_y m + 1 < 2 ^ 63" "mouse_y m - 1 < 2 ^ 63" using assms(2,3) by simp_all
  then have "pixel fb (snd (draw_mouse_cursor fb m v)) qx qy =
     (if (qx = mouse_X m \<and> qy = mouse_y m) \<or> (qx = mouse_X m + 1 \<and> qy = mouse_y m) \<or> (qx = mouse_X m - 1 \<and> qy = mouse_y m)
        \<or> (qx = mouse_X m \<and> qy = mouse_y m + 1) \<or> (qx = mouse_X m \<and> qy = mouse_y m - 1)
      then 0xFFFFFF else pixel fb v qx qy)"
    using assms(1,4) by (auto simp: draw_mouse_cursor_def Let_def pixel_put)
  moreover have "\<bar>qx - mouse_X m\<bar> + \<bar>qy - mouse_y m\<bar> \<le> 1 \<longleftrightarrow>
     (qx = mouse_X m \<and> qy = mouse_y m) \<or> (qx = mouse_X m + 1 \<and> qy = mouse_y m) \<or> (qx = mouse_X m - 1 \<and> qy = mouse_y m)
        \<or> (qx = mouse_X m \<and> qy = mouse_y m + 1) \<or> (qx = mouse_X m \<and> qy = mouse_y m - 1)"
    by presburger
  ultimately show ?thesis by metis
qed

lemma run_keeps: "fb_width (mouse_run bs m) = fb_width m" "fb_height (mouse_run bs m) = fb_height m"
  unfolding mouse_run_def by (induction bs arbitrary: m) (simp_all add: mouse_byte_keeps)

text \<open>
  C36: A pointer on a screen whose size the driver knows stays visible whatever bytes the mouse sends: after any
  sequence of polls the drawing sets exactly the pixels of the screen at distance at most one from it, along the axes,
  and one of them is the pointer's own.
\<close>

theorem mouse_pointer_drawn:
  assumes ok: "fb_ok fb" and m: "on_screen m" "knows_screen fb m"
  shows "\<exists>m' v'. ((\<lambda>(p, m). mouse_poll p m) ^^ length bs) (bs, m) = ([], m')
     \<and> draw_mouse_cursor fb m' v = (m', v') \<and> visible fb (mouse_X m') (mouse_y m')
     \<and> (\<forall>qx qy. visible fb qx qy \<longrightarrow> pixel fb v' qx qy =
          (if \<bar>qx - mouse_X m'\<bar> + \<bar>qy - mouse_y m'\<bar> \<le> 1 then 0xFFFFFF else pixel fb v qx qy))"
proof -
  let ?m = "mouse_run bs m"
  have on: "on_screen ?m" using mouse_run_on_screen [OF m(1)] .
  have k: "fb_width ?m = uint (width fb)" "fb_height ?m = uint (height fb)" using m(2) by (simp_all add: run_keeps knows_screen_def)
  have lt: "uint (width fb) < 2 ^ 31" "uint (height fb) < 2 ^ 31"
    using ok unfolding fb_ok_def by (metis of_nat_less_iff of_nat_numeral of_nat_power uint_nat)+
  have vis: "visible fb (mouse_X ?m) (mouse_y ?m)" using on k by (simp add: on_screen_def visible_def)
  have "fst (draw_mouse_cursor fb ?m v) = ?m" unfolding draw_keeps [OF ok] k [symmetric] by simp
  then have d: "draw_mouse_cursor fb ?m v = (?m, snd (draw_mouse_cursor fb ?m v))" by (metis prod.collapse)
  have "mouse_X ?m < 2 ^ 62" "mouse_y ?m < 2 ^ 62" using vis lt by (simp_all add: visible_def)
  with draw_cross [OF ok] d vis polls_run [of bs m] show ?thesis by metis
qed

text \<open>
  The driver starts with a screen of size 0.  Every packet that arrives before the first drawing therefore
  puts the pointer at (-1, -1), where the drawing sets no pixel of the screen.  It sets the size, and the next
  packet brings the pointer back to the edge of the screen.
\<close>

theorem mouse_pointer_lost:
  assumes "fb_ok fb" and "0 < uint (width fb)" and "0 < uint (height fb)" and "ps \<noteq> []"
  defines "m \<equiv> fold mouse_packet ps mouse_reset"
  shows "mouse_X m = -1 \<and> mouse_y m = -1
     \<and> (\<forall>qx qy. visible fb qx qy \<longrightarrow> pixel fb (snd (draw_mouse_cursor fb m v)) qx qy = pixel fb v qx qy)
     \<and> on_screen (mouse_packet p (fst (draw_mouse_cursor fb m v)))"
proof -
  have "fb_width (fold mouse_packet qs mouse_reset) = 0 \<and> fb_height (fold mouse_packet qs mouse_reset) = 0" for qs
    by (induction qs rule: rev_induct) (simp_all add: mouse_reset_def)
  moreover obtain qs q where "ps = qs @ [q]" using assms(4) by (metis append_butlast_last_id)
  moreover have "mouse_X (mouse_packet q u) = -1 \<and> mouse_y (mouse_packet q u) = -1" if "fb_width u = 0" "fb_height u = 0" for u
    using that by (cases q) (simp add: mouse_packet_def clamp_def)
  ultimately have at: "mouse_X m = -1" "mouse_y m = -1" by (simp_all add: m_def)
  have "pixel fb (snd (draw_mouse_cursor fb m v)) qx qy = pixel fb v qx qy" if "visible fb qx qy" for qx qy
    using draw_cross [OF assms(1) _ _ that, of m v] at that by (simp add: visible_def)
  moreover have "on_screen (mouse_packet p (fst (draw_mouse_cursor fb m v)))"
    using assms(2,3) by (cases p) (simp add: draw_keeps [OF assms(1)] on_screen_def mouse_packet_def clamp_def, linarith)
  ultimately show ?thesis using at by blast
qed

text \<open>The pointer in the corner of a small screen.\<close>

definition corner_packet :: "u8 list" where
  "corner_packet = [8, 0xFF, 1, 0]"

theorem mouse_pointer_drawn_witness:
  "\<exists>m' v'. ((\<lambda>(p, m). mouse_poll p m) ^^ length corner_packet) (corner_packet, mouse_reset\<lparr>mouse_X := 1, mouse_y := 1, fb_width := 16, fb_height := 16\<rparr>) = ([], m')
     \<and> draw_mouse_cursor fb_small m' (\<lambda>_. 0) = (m', v') \<and> visible fb_small (mouse_X m') (mouse_y m')"
proof -
  let ?m = "mouse_reset\<lparr>mouse_X := 1, mouse_y := 1, fb_width := 16, fb_height := 16\<rparr>"
  have "fb_ok fb_small" "on_screen ?m" "knows_screen fb_small ?m"
    by (simp_all add: fb_small_def fb_ok_def on_screen_def knows_screen_def)
  from mouse_pointer_drawn [OF this, of corner_packet "\<lambda>_. 0"] show ?thesis by blast
qed

theorem mouse_pointer_lost_witness:
  "mouse_X (fold mouse_packet [(8, 5, 5, 0)] mouse_reset) = -1
     \<and> on_screen (mouse_packet (8, 5, 5, 0) (fst (draw_mouse_cursor fb_small (fold mouse_packet [(8, 5, 5, 0)] mouse_reset) (\<lambda>_. 0))))"
  using mouse_pointer_lost [of fb_small "[(8, 5, 5, 0)]" "\<lambda>_. 0" "(8, 5, 5, 0)"] by (simp add: fb_small_def fb_ok_def)

end
