(* ===== verification/Virtio.thy ===== *)
theory Virtio
  imports Framebuffer "HOL-Library.Signed_Division"
begin

text \<open>
  Drawing for a VirtIO display, \<^verbatim>\<open>drivers/gpu/virtio/virtio.c\<close>.  \<^verbatim>\<open>pci_get_bar\<close> and the types of its arguments are not part of
  the repository: the base address it returns is a parameter.  Pixels are 32-bit words of the memory of \<^theory_text>\<open>Framebuffer\<close>.
  \<^const>\<open>None\<close> is an overflow of an \<^verbatim>\<open>int\<close> or a division by zero.

  Shown: a pixel is the framebuffer's pixel; a line from a point to itself divides by zero, other lines
  start where they should and may end several pixels short; a character is drawn mirrored, one column to the right,
  with the first row of the next character of the font under it.
\<close>

section \<open>Pixels\<close>

record virtio_gpu_t =
  base_address :: u64
  vg_width :: u32
  vg_height :: u32
  stride :: u32

definition virtio_gpu_init :: "u64 \<Rightarrow> virtio_gpu_t" where
  "virtio_gpu_init bar = \<lparr>base_address = bar, vg_width = 1920, vg_height = 1080, stride = 1920 * 4\<rparr>"

text \<open>The pointer is to 32-bit words; the product is taken in 32 bits.\<close>

definition virtio_gpu_draw_pixel :: "virtio_gpu_t \<Rightarrow> u32 \<Rightarrow> u32 \<Rightarrow> u32 \<Rightarrow> mem \<Rightarrow> mem" where
  "virtio_gpu_draw_pixel g px py color m =
     (if vg_width g \<le> px \<or> vg_height g \<le> py then m
      else store32 (base_address g + 4 * ucast (py * stride g div 4) + 4 * ucast px) color m)"

section \<open>Lines\<close>

definition to_int32 :: "int \<Rightarrow> int option" where
  "to_int32 v = (if - (2 ^ 31) \<le> v \<and> v < 2 ^ 31 then Some v else None)"

definition abs_int :: "int \<Rightarrow> int option" where
  "abs_int v = (if v < 0 then to_int32 (- v) else Some v)"

text \<open>The loop, with the number of rounds left.\<close>

fun line_loop :: "virtio_gpu_t \<Rightarrow> nat \<Rightarrow> int \<Rightarrow> int \<Rightarrow> int \<Rightarrow> int \<Rightarrow> u32 \<Rightarrow> mem \<Rightarrow> mem option" where
  "line_loop g 0 vx vy xi yi color m = Some m"
| "line_loop g (Suc n) vx vy xi yi color m = do {
     let m = virtio_gpu_draw_pixel g (of_int (vx sdiv 256)) (of_int (vy sdiv 256)) color m;
     vx \<leftarrow> to_int32 (vx + xi);
     vy \<leftarrow> to_int32 (vy + yi);
     line_loop g n vx vy xi yi color m }"

definition virtio_gpu_draw_line :: "virtio_gpu_t \<Rightarrow> u32 \<Rightarrow> u32 \<Rightarrow> u32 \<Rightarrow> u32 \<Rightarrow> u32 \<Rightarrow> mem \<Rightarrow> mem option" where
  "virtio_gpu_draw_line g x1 y1 x2 y2 color m = do {
     let dx = sint (x2 - x1);
     let dy = sint (y2 - y1);
     ax \<leftarrow> abs_int dx;
     ay \<leftarrow> abs_int dy;
     let steps = (if ay < ax then ax else ay);
     px \<leftarrow> to_int32 (dx * 256);
     py \<leftarrow> to_int32 (dy * 256);
     if steps = 0 then None
     else line_loop g (nat steps + 1) (sint (x1 * 256)) (sint (y1 * 256)) (px sdiv steps) (py sdiv steps) color m }"

section \<open>Text\<close>

text \<open>Row \<^term>\<open>i\<close> of a glyph as an address into the table: row 8 is row 0 of the next character.\<close>

definition font_row :: "nat \<Rightarrow> nat \<Rightarrow> u8" where
  "font_row ch i = font8x8_basic ! (ch + i div 8) ! (i mod 8)"

definition virtio_char :: "virtio_gpu_t \<Rightarrow> u32 \<Rightarrow> u32 \<Rightarrow> u8 \<Rightarrow> u32 \<Rightarrow> mem \<Rightarrow> mem" where
  "virtio_char g px py ch color m =
     fold (\<lambda>i. fold (\<lambda>j m. if bit (ucast (font_row (unat ch) i) :: u32) (8 - j)
                          then virtio_gpu_draw_pixel g (px + of_nat j) (py + of_nat i) color m else m) [0..<9]) [0..<9] m"

fun virtio_gpu_draw_text :: "virtio_gpu_t \<Rightarrow> u32 \<Rightarrow> u32 \<Rightarrow> u8 list \<Rightarrow> u32 \<Rightarrow> mem \<Rightarrow> mem" where
  "virtio_gpu_draw_text g px py [] color m = m"
| "virtio_gpu_draw_text g px py (ch # text) color m =
     (if ch = 0 then m
      else if ch < 32 \<or> 126 < ch then virtio_gpu_draw_text g px py text color m
      else virtio_gpu_draw_text g (px + 9) py text color (virtio_char g px py ch color m))"

section \<open>The display as a framebuffer\<close>

definition as_fb :: "virtio_gpu_t \<Rightarrow> limine_framebuffer" where
  "as_fb g = \<lparr>address = base_address g, width = 1920, height = 1080, pitch = 7680, bpp = 32\<rparr>"

definition gpu_ready :: "virtio_gpu_t \<Rightarrow> bool" where
  "gpu_ready g \<longleftrightarrow> g = virtio_gpu_init (base_address g) \<and> unat (base_address g) + 1080 * 7680 < 2 ^ 64"

lemma as_fb_ok: "gpu_ready g \<Longrightarrow> fb_ok (as_fb g)"
  by (simp add: gpu_ready_def fb_ok_def as_fb_def)

lemma row_index:
  fixes py :: u32
  assumes "py < 1080"
  shows "(ucast (py * 7680 div 4) :: u64) = 1920 * ucast py"
proof -
  have b: "unat py < 1080" using assms by (simp add: word_less_nat_alt)
  then have "unat (py * 7680) = unat py * 7680" by (simp add: unat_word_ariths)
  then have "unat (py * 7680 div 4) = unat py * 1920" by (simp add: unat_div)
  moreover have "unat (1920 * ucast py :: u64) = 1920 * unat py"
    using b by (simp add: unat_word_ariths unat_ucast_32_64)
  ultimately show ?thesis by (simp add: word_unat_eq_iff unat_ucast_32_64)
qed

lemma draw_pixel_fb:
  assumes "gpu_ready g"
  shows "virtio_gpu_draw_pixel g px py color m = put_pixel_lim (as_fb g) (uint px) (uint py) color m"
proof -
  have g: "g = virtio_gpu_init (base_address g)" using assms by (simp add: gpu_ready_def)
  have le: "(1920 :: u64) \<le> ucast px \<longleftrightarrow> 1920 \<le> px" "(1080 :: u64) \<le> ucast py \<longleftrightarrow> 1080 \<le> py"
    by (simp_all add: word_le_nat_alt unat_ucast_32_64)
  have c: "of_int (uint v) = (ucast v :: u64)" for v :: u32 by (simp flip: unsigned_of_int)
  have b: "uint (bpp (as_fb g)) div 8 = 4" by (simp add: as_fb_def)
  have f: "address (as_fb g) = base_address g" "width (as_fb g) = 1920" "height (as_fb g) = 1080" "pitch (as_fb g) = 7680"
    by (simp_all add: as_fb_def)
  have v: "vg_width g = 1920" "vg_height g = 1080" "stride g = 7680" by (subst g, simp add: virtio_gpu_init_def)+
  show ?thesis
    unfolding put_pixel_lim_def b virtio_gpu_draw_pixel_def f v
    by (cases "py < 1080") (auto simp: c le row_index not_less algebra_simps)
qed

lemma gpu_pixel:
  assumes "gpu_ready g" and "visible (as_fb g) qx qy"
  shows "pixel (as_fb g) (virtio_gpu_draw_pixel g px py v m) qx qy =
    (if uint px = qx \<and> uint py = qy then v else pixel (as_fb g) m qx qy)"
proof -
  have "uint px < 2 ^ 63" "uint py < 2 ^ 63" using uint_bounded [of px] uint_bounded [of py] by simp_all
  then show ?thesis unfolding draw_pixel_fb [OF assms(1)] by (rule pixel_put [OF as_fb_ok [OF assms(1)] _ _ assms(2)])
qed

section \<open>Lines in terms of points\<close>

definition dist :: "nat \<Rightarrow> nat \<Rightarrow> nat" where
  "dist a b = (if a \<le> b then b - a else a - b)"

text \<open>A coordinate after \<^term>\<open>i\<close> of \<^term>\<open>n\<close> steps, with 8 binary places.\<close>

definition line_coord :: "nat \<Rightarrow> nat \<Rightarrow> nat \<Rightarrow> nat \<Rightarrow> nat" where
  "line_coord a b n i =
     (if a \<le> b then (a * 256 + i * (dist a b * 256 div n)) div 256 else (a * 256 - i * (dist a b * 256 div n)) div 256)"

lemma fold_upt_Suc: "fold f [0..<Suc k] = fold (\<lambda>i. f (Suc i)) [0..<k] \<circ> f 0"
  by (simp only: upt_conv_Cons [OF zero_less_Suc] list.simps fold_simps map_Suc_upt [symmetric] fold_map comp_def fun_eq_iff) simp

lemma line_loop_fold:
  assumes "\<And>i. i \<le> k \<Longrightarrow> \<bar>vx + int i * xi\<bar> < 2 ^ 31 \<and> \<bar>vy + int i * yi\<bar> < 2 ^ 31"
  shows "line_loop g k vx vy xi yi color m = Some (fold (\<lambda>i. virtio_gpu_draw_pixel g
     (of_int ((vx + int i * xi) sdiv 256)) (of_int ((vy + int i * yi) sdiv 256)) color) [0..<k] m)"
  using assms
proof (induction k arbitrary: vx vy m)
  case (Suc k)
  have "\<bar>vx + xi\<bar> < 2 ^ 31" "\<bar>vy + yi\<bar> < 2 ^ 31" using Suc.prems [of 1] by simp_all
  then have r: "to_int32 (vx + xi) = Some (vx + xi)" "to_int32 (vy + yi) = Some (vy + yi)" by (auto simp: to_int32_def abs_less_iff)
  have e: "vx + xi + int i * xi = vx + int (Suc i) * xi" "vy + yi + int i * yi = vy + int (Suc i) * yi" for i
    by (simp_all add: algebra_simps)
  have "\<bar>vx + xi + int i * xi\<bar> < 2 ^ 31 \<and> \<bar>vy + yi + int i * yi\<bar> < 2 ^ 31" if "i \<le> k" for i
    using Suc.prems [of "Suc i"] that unfolding e by simp
  from Suc.IH [OF this] show ?case by (simp add: r e fold_upt_Suc del: upt_Suc)
qed simp

lemma increment:
  "(int b - int a) * 256 sdiv int n = (if a \<le> b then int (dist a b * 256 div n) else - int (dist a b * 256 div n))"
  by (auto simp: signed_divide_int_def dist_def sgn_if zdiv_int of_nat_diff abs_mult)

lemma step_bound: "dist a b \<le> n \<Longrightarrow> i \<le> n \<Longrightarrow> i * (dist a b * 256 div n) \<le> dist a b * 256"
  by (metis (no_types, lifting) div_times_less_eq_dividend le_trans mult.commute mult_le_mono1)

lemma sdiv_nat: "int k sdiv 256 = int (k div 256)"
  by (cases "k = 0") (simp_all add: signed_divide_int_def zdiv_int)

lemma coord_at:
  assumes "dist a b \<le> n" "i \<le> n"
  shows "(int a * 256 + int i * ((int b - int a) * 256 sdiv int n)) sdiv 256 = int (line_coord a b n i)"
proof (cases "a \<le> b")
  case True
  have nn: "int a * 256 + int i * ((int b - int a) * 256 sdiv int n) = int (a * 256 + i * (dist a b * 256 div n))"
    unfolding increment using True by simp
  show ?thesis unfolding nn line_coord_def sdiv_nat using True by simp
next
  case False
  have "i * (dist a b * 256 div n) \<le> a * 256" using step_bound [OF assms] False by (simp add: dist_def)
  then have nn: "int a * 256 + int i * ((int b - int a) * 256 sdiv int n) = int (a * 256 - i * (dist a b * 256 div n))"
    unfolding increment using False by (simp add: of_nat_diff)
  show ?thesis unfolding nn line_coord_def sdiv_nat using False by simp
qed

lemma coord_ends:
  assumes "dist a b \<le> n" "0 < n"
  shows "line_coord a b n 0 = a" and "dist a b = n \<Longrightarrow> line_coord a b n i = (if a \<le> b then a + i else a - i)"
    and "i \<le> n \<Longrightarrow> min a b \<le> line_coord a b n i \<and> line_coord a b n i \<le> max a b"
    and "dist (line_coord a b n n) b \<le> 1 + n div 256"
proof -
  let ?q = "dist a b * 256 div n"
  show "line_coord a b n 0 = a" by (simp add: line_coord_def)
  show "line_coord a b n i = (if a \<le> b then a + i else a - i)" if "dist a b = n"
  proof -
    have "?q = 256" using that assms(2) by simp
    then show ?thesis by (simp add: line_coord_def flip: diff_mult_distrib)
  qed
  show "min a b \<le> line_coord a b n i \<and> line_coord a b n i \<le> max a b" if "i \<le> n"
    using step_bound [OF assms(1) that] by (auto simp: line_coord_def dist_def min_def max_def)
  have "n * ?q \<le> dist a b * 256" "dist a b * 256 < n * ?q + n"
    using assms(2) div_times_less_eq_dividend [of "dist a b * 256" n] dividend_less_div_times [of n "dist a b * 256"]
    by (simp_all add: mult.commute)
  moreover have fl: "256 * (v div 256) \<le> v \<and> v < 256 * (v div 256) + 256" for v :: nat by simp
  ultimately obtain p where p: "n * ?q = p" "p \<le> dist a b * 256" "dist a b * 256 < p + n" by blast
  show "dist (line_coord a b n n) b \<le> 1 + n div 256"
  proof (cases "a \<le> b")
    case True
    then have "p \<le> (b - a) * 256" "(b - a) * 256 < p + n" using p by (simp_all add: dist_def)
    with True fl [of "a * 256 + p"] fl [of n]
    have "(a * 256 + p) div 256 \<le> b" "b \<le> (a * 256 + p) div 256 + (1 + n div 256)" by linarith+
    with True show ?thesis unfolding line_coord_def p(1) by (simp add: dist_def)
  next
    case False
    then have "p \<le> (a - b) * 256" "(a - b) * 256 < p + n" using p by (simp_all add: dist_def)
    with False fl [of "a * 256 - p"] fl [of n]
    have "b \<le> (a * 256 - p) div 256" "(a * 256 - p) div 256 \<le> b + (1 + n div 256)" by linarith+
    with False show ?thesis unfolding line_coord_def p(1) by (auto simp: dist_def le_diff_conv)
  qed
qed

lemma word_coord:
  fixes a :: u32
  assumes "a < 1920"
  shows "sint a = int (unat a)" "sint (a * 256) = int (unat a) * 256"
proof -
  have b: "unat a < 1920" using assms by (simp add: word_less_nat_alt)
  have s: "sint v = int (unat v)" if "unat v < 2 ^ 31" for v :: u32
  proof -
    have "uint v < 2 ^ 31" using that by (metis of_nat_less_iff of_nat_numeral of_nat_power uint_nat)
    moreover have "- (2 ^ 31) \<le> uint v" by (rule order_trans [OF _ uint_ge_0]) simp
    ultimately show ?thesis by (simp add: sint_uint signed_take_bit_int_eq_self_iff)
  qed
  show "sint a = int (unat a)" using s [of a] b by simp
  have "unat (a * 256) = unat a * 256" using b by (simp add: unat_word_ariths)
  with s [of "a * 256"] b show "sint (a * 256) = int (unat a) * 256" by simp
qed

lemma word_diff:
  fixes a b :: u32
  assumes "a < 1920" and "b < 1920"
  shows "sint (b - a) = int (unat b) - int (unat a)"
proof -
  have l: "unat a < 1920" "unat b < 1920" using assms by (simp_all add: word_less_nat_alt)
  have "sint (b - a) = signed_take_bit 31 (sint b - sint a)" by (simp add: sint_word_ariths)
  moreover have "\<bar>int (unat b) - int (unat a)\<bar> < 1920" using l by linarith
  then have "signed_take_bit 31 (int (unat b) - int (unat a)) = int (unat b) - int (unat a)"
    by (intro signed_take_bit_int_eq_self) (auto simp: abs_less_iff)
  ultimately show ?thesis unfolding word_coord(1) [OF assms(1)] word_coord(1) [OF assms(2)] by metis
qed

lemma coords_in_range:
  assumes "a < 1920" "b < 1920" "dist a b \<le> n" "n < 1920" "i \<le> n + 1"
  shows "\<bar>int a * 256 + int i * ((int b - int a) * 256 sdiv int n)\<bar> < 2 ^ 31"
proof -
  have "dist a b * 256 div n \<le> 256"
  proof (cases "n = 0")
    case False
    then show ?thesis using assms(3) by (metis div_le_mono mult.commute mult_le_mono2 nonzero_mult_div_cancel_left)
  qed simp
  then have "i * (dist a b * 256 div n) \<le> 1920 * 256" using assms(4,5) by (intro mult_le_mono) simp_all
  then have "int i * int (dist a b * 256 div n) \<le> 1920 * 256" by (metis of_nat_le_iff of_nat_mult of_nat_numeral)
  moreover have "0 \<le> int i * int (dist a b * 256 div n)" by simp
  ultimately obtain z where z: "int i * int (dist a b * 256 div n) = z" "0 \<le> z" "z \<le> 1920 * 256" by blast
  show ?thesis
  proof (cases "a \<le> b")
    case True
    show ?thesis unfolding increment if_P [OF True] z(1) using z assms(1) by simp
  next
    case False
    show ?thesis unfolding increment if_not_P [OF False] mult_minus_right z(1) using z assms(1) by (simp add: abs_less_iff)
  qed
qed

text \<open>
  C37: Between two points of the screen, \<^verbatim>\<open>virtio_gpu_draw_line\<close> divides by zero exactly if they are the same.
  Otherwise it colours one pixel for each step of the longer axis, starting at the first point and staying between
  the two; the longer axis reaches its end, the other may end short of it by \<open>1 + n div 256\<close> pixels.
\<close>

theorem gpu_line_pixels:
  assumes g: "gpu_ready g" and p: "x1 < 1920" "y1 < 1080" "x2 < 1920" "y2 < 1080"
    and n: "n = max (dist (unat x1) (unat x2)) (dist (unat y1) (unat y2))"
  shows "if n = 0 then virtio_gpu_draw_line g x1 y1 x2 y2 color m = None
    else (\<exists>m'. virtio_gpu_draw_line g x1 y1 x2 y2 color m = Some m'
       \<and> (\<forall>qx qy. visible (as_fb g) qx qy \<longrightarrow> pixel (as_fb g) m' qx qy =
            (if \<exists>i \<le> n. int (line_coord (unat x1) (unat x2) n i) = qx \<and> int (line_coord (unat y1) (unat y2) n i) = qy
             then color else pixel (as_fb g) m qx qy)))
     \<and> line_coord (unat x1) (unat x2) n 0 = unat x1 \<and> line_coord (unat y1) (unat y2) n 0 = unat y1
     \<and> (dist (unat x1) (unat x2) = n \<longrightarrow> line_coord (unat x1) (unat x2) n n = unat x2)
     \<and> dist (line_coord (unat x1) (unat x2) n n) (unat x2) \<le> 1 + n div 256
     \<and> dist (line_coord (unat y1) (unat y2) n n) (unat y2) \<le> 1 + n div 256"
proof -
  have y: "y1 < 1920" "y2 < 1920" using p(2,4) by (simp_all add: word_less_nat_alt)
  have l: "unat x1 < 1920" "unat x2 < 1920" "unat y1 < 1920" "unat y2 < 1920" using p y by (simp_all add: word_less_nat_alt)
  define a b c d where abcd: "a = unat x1" "b = unat x2" "c = unat y1" "d = unat y2"
  have lt: "a < 1920" "b < 1920" "c < 1920" "d < 1920" using l by (simp_all add: abcd)
  have dn: "dist a b \<le> n" "dist c d \<le> n" "n < 1920" using n lt by (simp_all add: abcd [symmetric]) (auto simp: dist_def)
  let ?dx = "int b - int a" and ?dy = "int d - int c"
  have s: "sint (x2 - x1) = ?dx" "sint (y2 - y1) = ?dy" "sint (x1 * 256) = int a * 256" "sint (y1 * 256) = int c * 256"
    using word_diff [OF p(1,3)] word_diff [OF y] word_coord(2) [OF p(1)] word_coord(2) [OF y(1)] by (simp_all add: abcd)
  have ab: "abs_int ?dx = Some (int (dist a b))" "abs_int ?dy = Some (int (dist c d))"
    using lt by (auto simp: abs_int_def to_int32_def dist_def of_nat_diff)
  have ti: "to_int32 (?dx * 256) = Some (?dx * 256)" "to_int32 (?dy * 256) = Some (?dy * 256)"
    using lt by (auto simp: to_int32_def)
  have st: "(if int (dist c d) < int (dist a b) then int (dist a b) else int (dist c d)) = int n" using n by (simp add: abcd max_def)
  have draw: "virtio_gpu_draw_line g x1 y1 x2 y2 color m = (if n = 0 then None
      else line_loop g (n + 1) (int a * 256) (int c * 256) (?dx * 256 sdiv int n) (?dy * 256 sdiv int n) color m)"
    unfolding virtio_gpu_draw_line_def Let_def s ab ti bind.bind_lunit st by simp
  show ?thesis
  proof (cases "n = 0")
    case True
    then show ?thesis using draw by simp
  next
    case False
    let ?f = "\<lambda>i. virtio_gpu_draw_pixel g (of_int ((int a * 256 + int i * (?dx * 256 sdiv int n)) sdiv 256))
       (of_int ((int c * 256 + int i * (?dy * 256 sdiv int n)) sdiv 256)) color"
    have run: "virtio_gpu_draw_line g x1 y1 x2 y2 color m = Some (fold ?f [0..<n + 1] m)"
      unfolding draw if_not_P [OF False]
      by (intro line_loop_fold conjI coords_in_range lt dn)
    have u: "uint (of_nat k :: u32) = int k" if "k < 1920" for k using that by (simp add: unsigned_of_nat take_bit_nat_eq_self)
    have "pixel (as_fb g) (?f i w) qx qy = (if int (line_coord a b n i) = qx \<and> int (line_coord c d n i) = qy then color
        else pixel (as_fb g) w qx qy)" if "i \<in> set [0..<n + 1]" "visible (as_fb g) qx qy" for i w qx qy
    proof -
      have i: "i \<le> n" using that(1) by auto
      have "line_coord a b n i < 1920" "line_coord c d n i < 1920"
        using coord_ends(3) [OF dn(1) _ i] coord_ends(3) [OF dn(2) _ i] False lt by fastforce+
      then show ?thesis
        unfolding coord_at [OF dn(1) i] coord_at [OF dn(2) i] gpu_pixel [OF g that(2)] of_int_of_nat_eq by (simp add: u)
    qed
    then have px: "pixel (as_fb g) (fold ?f [0..<n + 1] m) qx qy =
        (if \<exists>i\<in>set [0..<n + 1]. int (line_coord a b n i) = qx \<and> int (line_coord c d n i) = qy then color
         else pixel (as_fb g) m qx qy)" if "visible (as_fb g) qx qy" for qx qy
      using that by (intro fold_pixel) blast
    have ends: "line_coord a b n 0 = a" "line_coord c d n 0 = c" "dist (line_coord a b n n) b \<le> 1 + n div 256"
        "dist (line_coord c d n n) d \<le> 1 + n div 256" "dist a b = n \<longrightarrow> line_coord a b n n = b"
      using coord_ends [OF dn(1)] coord_ends [OF dn(2)] False by (auto simp: dist_def)
    have ex: "(\<exists>i\<in>set [0..<n + 1]. P i) \<longleftrightarrow> (\<exists>i \<le> n. P i)" for P unfolding set_upt by (auto simp: less_Suc_eq_le)
    show ?thesis
      using run px ends False unfolding ex abcd by auto
  qed
qed

definition gpu0 :: virtio_gpu_t where
  "gpu0 = virtio_gpu_init 0xE0000000"

lemma gpu0_ready: "gpu_ready gpu0"
  by (simp add: gpu_ready_def gpu0_def virtio_gpu_init_def)

text \<open>A line over the whole width that should fall by seven rows stays flat.\<close>

theorem gpu_line_pixels_witness:
  "virtio_gpu_draw_line gpu0 3 3 3 3 0 (\<lambda>_. 0) = None
   \<and> (\<exists>m'. virtio_gpu_draw_line gpu0 0 0 1919 7 0xFF (\<lambda>_. 0) = Some m' \<and> pixel (as_fb gpu0) m' 1919 0 = 0xFF
        \<and> pixel (as_fb gpu0) m' 1919 7 = pixel (as_fb gpu0) (\<lambda>_. 0) 1919 7)"
proof (rule conjI)
  have "dist 3 3 = 0" by (simp add: dist_def)
  then show "virtio_gpu_draw_line gpu0 3 3 3 3 0 (\<lambda>_. 0) = None"
    using gpu_line_pixels [OF gpu0_ready, of 3 3 3 3 0 0 "\<lambda>_. 0"] by simp
  have d: "dist 0 1919 = 1919" "dist 0 7 = 7" by (simp_all add: dist_def)
  have flat: "line_coord 0 7 1919 i = 0" "line_coord 0 1919 1919 i = i" for i by (simp_all add: line_coord_def d)
  have v: "visible (as_fb gpu0) 1919 0" "visible (as_fb gpu0) 1919 7" by (simp_all add: visible_def as_fb_def)
  obtain m' where m': "virtio_gpu_draw_line gpu0 0 0 1919 7 0xFF (\<lambda>_. 0) = Some m'"
      "\<And>qx qy. visible (as_fb gpu0) qx qy \<Longrightarrow> pixel (as_fb gpu0) m' qx qy =
            (if \<exists>i \<le> 1919. int (line_coord 0 1919 1919 i) = qx \<and> int (line_coord 0 7 1919 i) = qy
             then 0xFF else pixel (as_fb gpu0) (\<lambda>_. 0) qx qy)"
    using gpu_line_pixels [OF gpu0_ready, of 0 0 1919 7 1919 "0xFF" "\<lambda>_. 0"] by (auto simp: d)
  have "\<exists>i \<le> 1919. int i = 1919 \<and> int 0 = 0" by (rule exI [of _ 1919]) simp
  then have "pixel (as_fb gpu0) m' 1919 0 = 0xFF" unfolding m'(2) [OF v(1)] flat by (rule if_P)
  moreover have "pixel (as_fb gpu0) m' 1919 7 = pixel (as_fb gpu0) (\<lambda>_. 0) 1919 7" unfolding m'(2) [OF v(2)] flat by simp
  ultimately show "\<exists>m'. virtio_gpu_draw_line gpu0 0 0 1919 7 0xFF (\<lambda>_. 0) = Some m' \<and> pixel (as_fb gpu0) m' 1919 0 = 0xFF
        \<and> pixel (as_fb gpu0) m' 1919 7 = pixel (as_fb gpu0) (\<lambda>_. 0) 1919 7" using m'(1) by blast
qed

section \<open>Characters\<close>

lemma char_pixels:
  assumes g: "gpu_ready g" and p: "px \<le> 1911" "py \<le> 1071" and q: "visible (as_fb g) qx qy"
  shows "pixel (as_fb g) (virtio_char g px py ch color m) qx qy =
    (if \<exists>i\<in>set [0..<9]. \<exists>j\<in>set [0..<9]. bit (font_row (unat ch) i) (8 - j) \<and> uint px + int j = qx \<and> uint py + int i = qy
     then color else pixel (as_fb g) m qx qy)"
proof -
  have u: "uint (v + of_nat k) = uint v + int k" if "v \<le> 1911" "k < 9" for v :: u32 and k
  proof -
    have "unat v \<le> 1911" using that(1) by (simp add: word_le_nat_alt)
    then have "unat (v + of_nat k) = unat v + k" using that(2) by (subst unat_plus_small) (simp_all add: unat_of_nat)
    then show ?thesis by (metis of_nat_add uint_nat)
  qed
  have py: "py \<le> 1911" using p(2) by (simp add: word_le_nat_alt)
  have bt: "bit (ucast r :: u32) (8 - j) = bit r (8 - j)" for r :: u8 and j
    by (auto simp: bit_simps dest: bit_imp_le_length)
  show ?thesis
    unfolding virtio_char_def
  proof (intro fold_pixel)
    fix i j :: nat and w :: mem
    assume "i \<in> set [0..<9]" "j \<in> set [0..<9]"
    then have "i < 9" "j < 9" by simp_all
    then show "pixel (as_fb g) (if bit (ucast (font_row (unat ch) i) :: u32) (8 - j)
        then virtio_gpu_draw_pixel g (px + of_nat j) (py + of_nat i) color w else w) qx qy =
      (if bit (font_row (unat ch) i) (8 - j) \<and> uint px + int j = qx \<and> uint py + int i = qy then color else pixel (as_fb g) w qx qy)"
      unfolding bt using gpu_pixel [OF g q] by (simp add: u [OF p(1)] u [OF py])
  qed
qed

text \<open>
  A printable character is drawn as the mirror image of its glyph, one column to the right, and under its eight rows
  comes the first row of the glyph of the next character; the rest of the screen keeps its colour.
\<close>

theorem gpu_text_mirrored:
  assumes g: "gpu_ready g" and p: "px \<le> 1911" "py \<le> 1071" and ch: "32 \<le> ch" "ch \<le> 126" and q: "visible (as_fb g) qx qy"
  shows "pixel (as_fb g) (virtio_gpu_draw_text g px py [ch] color m) qx qy =
    (if glyph_at ch (8 - (qx - uint px)) (qy - uint py) \<or> (qy = uint py + 8 \<and> glyph_at (ch + 1) (8 - (qx - uint px)) 0)
     then color else pixel (as_fb g) m qx qy)"
proof -
  have c: "unat (ch + 1) = unat ch + 1" using ch(2) by (subst unat_plus_small) (simp_all add: word_le_nat_alt)
  have one: "virtio_gpu_draw_text g px py [ch] color m = virtio_char g px py ch color m"
    using ch by (auto simp: word_le_nat_alt word_less_nat_alt)
  let ?P = "\<lambda>i j. bit (font_row (unat ch) i) (8 - j) \<and> uint px + int j = qx \<and> uint py + int i = qy"
  let ?G = "glyph_at ch (8 - (qx - uint px)) (qy - uint py) \<or> (qy = uint py + 8 \<and> glyph_at (ch + 1) (8 - (qx - uint px)) 0)"
  have "(\<exists>i\<in>set [0..<9]. \<exists>j\<in>set [0..<9]. ?P i j) \<longleftrightarrow> ?G"
  proof
    assume "\<exists>i\<in>set [0..<9]. \<exists>j\<in>set [0..<9]. ?P i j"
    then obtain i j where ij: "i < 9" "j < 9" "bit (font_row (unat ch) i) (8 - j)" "qx - uint px = int j" "qy = uint py + int i" by auto
    then have "8 - j < 8" using bit_imp_le_length [OF ij(3)] by simp
    then have d: "nat (8 - int j) = 8 - j" "0 \<le> 8 - int j" "8 - int j < 8" using ij(2) by simp_all
    show ?G
    proof (cases "i = 8")
      case True
      then show ?thesis using ij(3) d unfolding ij(4,5) by (simp add: glyph_at_def font_row_def c)
    next
      case False
      then have "i < 8" using ij(1) by simp
      then show ?thesis using ij(3) d unfolding ij(4,5) by (simp add: glyph_at_def font_row_def)
    qed
  next
    assume ?G
    then obtain i where i: "i < 9" "qy = uint py + int i" "0 \<le> 8 - (qx - uint px)" "8 - (qx - uint px) < 8"
        "bit (font_row (unat ch) i) (nat (8 - (qx - uint px)))"
    proof
      assume a: "glyph_at ch (8 - (qx - uint px)) (qy - uint py)"
      show thesis by (rule that [of "nat (qy - uint py)"]) (use a in \<open>auto simp: glyph_at_def font_row_def nat_less_iff\<close>)
    next
      assume a: "qy = uint py + 8 \<and> glyph_at (ch + 1) (8 - (qx - uint px)) 0"
      show thesis by (rule that [of 8]) (use a in \<open>auto simp: glyph_at_def font_row_def c\<close>)
    qed
    obtain j where "qx - uint px = int j" using i(4) zero_le_imp_eq_int [of "qx - uint px"] by auto
    then have "j < 9" "uint px + int j = qx" "nat (8 - (qx - uint px)) = 8 - j" using i(3) by simp_all
    then show "\<exists>i\<in>set [0..<9]. \<exists>j\<in>set [0..<9]. ?P i j"
      using i by (intro bexI [of _ i] bexI [of _ j]) simp_all
  qed
  then show ?thesis unfolding one char_pixels [OF g p q] by (rule if_cong) simp_all
qed

text \<open>The letter L at the origin: its stem, at the left in the font, is at the right.\<close>

theorem gpu_text_mirrored_witness:
  "pixel (as_fb gpu0) (virtio_gpu_draw_text gpu0 0 0 [76] 0xFF (\<lambda>_. 0)) 7 0 = 0xFF
   \<and> pixel (as_fb gpu0) (virtio_gpu_draw_text gpu0 0 0 [76] 0xFF (\<lambda>_. 0)) 1 0 = pixel (as_fb gpu0) (\<lambda>_. 0) 1 0"
proof -
  have v: "visible (as_fb gpu0) 7 0" "visible (as_fb gpu0) 1 0" by (simp_all add: visible_def as_fb_def)
  have f: "font8x8_basic ! 76 ! 0 = 0x0F" by (simp add: font8x8_basic_def)
  have gl: "glyph_at 76 1 0" "\<not> glyph_at 76 7 0" using f by (simp_all add: glyph_at_def bit_numeral_rec)
  then show ?thesis
    using gpu_text_mirrored [OF gpu0_ready _ _ _ _ v(1), of 0 0 76 "0xFF" "\<lambda>_. 0"]
      gpu_text_mirrored [OF gpu0_ready _ _ _ _ v(2), of 0 0 76 "0xFF" "\<lambda>_. 0"] by simp
qed

end
