(* ===== verification/Vector.thy ===== *)
theory Vector
  imports Heap Libc_String
begin

text \<open>
  The growing array of \<^verbatim>\<open>kernel_lib/vector.h\<close>, a set of macros over a structure of length, capacity and data pointer.  An
  element is its list of bytes, \<^term>\<open>s\<close> their number; the array lies in byte memory and its blocks come from the
  kernel heap.  \<^verbatim>\<open>kmfree\<close> is declared nowhere in the repository and is a parameter.

  Shown: pushing appends and keeps the other elements as long as the capacity suffices; when it does not, the
  new block is not filled with the old elements, and all but the last are lost; erasing removes exactly one element.
\<close>

section \<open>The macros\<close>

record vec_struct =
  v_len :: u64
  v_capacity :: u64
  v_data :: u64

definition VECTOR_RESIZE_FACTOR :: u64 where "VECTOR_RESIZE_FACTOR = 4"

definition vec_new :: vec_struct where
  "vec_new = \<lparr>v_len = 0, v_capacity = 0, v_data = 0\<rparr>"

definition vec_length :: "vec_struct \<Rightarrow> u64" where
  "vec_length v = v_len v"

definition vec_at :: "nat \<Rightarrow> vec_struct \<Rightarrow> mem \<Rightarrow> u64 \<Rightarrow> u8 list" where
  "vec_at s v m i = load_bytes m (v_data v + i * of_nat s) s"

definition vec_push_back ::
  "u8 list \<Rightarrow> vec_struct \<Rightarrow> mem \<Rightarrow> heap \<times> vmm \<Rightarrow> (vec_struct \<times> mem \<times> heap \<times> vmm) option" where
  "vec_push_back elem v m h = do {
     let s = of_nat (length elem);
     let v = v\<lparr>v_len := v_len v + 1\<rparr>;
     (v, h) \<leftarrow> (if v_capacity v < v_len v * s
               then let v = v\<lparr>v_capacity := v_len v * s * VECTOR_RESIZE_FACTOR\<rparr>
                    in do { (p, h) \<leftarrow> kmalloc (v_capacity v * s) h; Some (v\<lparr>v_data := p\<rparr>, h) }
               else Some (v, h));
     Some (v, store_bytes m (v_data v + (v_len v - 1) * s) elem, h) }"

definition vec_free :: "(u64 \<Rightarrow> heap \<times> vmm \<Rightarrow> heap \<times> vmm) \<Rightarrow> vec_struct \<Rightarrow> heap \<times> vmm \<Rightarrow> vec_struct \<times> heap \<times> vmm" where
  "vec_free kmfree v h =
     (let v = v\<lparr>v_capacity := 0\<rparr>; h = (if v_data v \<noteq> 0 then kmfree (v_data v) h else h) in (v\<lparr>v_data := 0\<rparr>, h))"

definition vec_erase ::
  "(u64 \<Rightarrow> heap \<times> vmm \<Rightarrow> heap \<times> vmm) \<Rightarrow> nat \<Rightarrow> u64 \<Rightarrow> vec_struct \<Rightarrow> mem \<Rightarrow> heap \<times> vmm \<Rightarrow> vec_struct \<times> mem \<times> heap \<times> vmm" where
  "vec_erase kmfree s i v m h =
     (let (m, _) = memcpy (v_data v + i * of_nat s) (v_data v + (i + 1) * of_nat s) (of_nat s * (v_len v - i - 1)) m;
          m = memset (v_data v + (v_len v - 1) * of_nat s) 0 (of_nat s) m;
          v = v\<lparr>v_len := v_len v - 1\<rparr>
      in if v_len v = 0 then let (v, h) = vec_free kmfree v h in (v, m, h) else (v, m, h))"

definition vec_erase_all ::
  "(u64 \<Rightarrow> heap \<times> vmm \<Rightarrow> heap \<times> vmm) \<Rightarrow> nat \<Rightarrow> vec_struct \<Rightarrow> mem \<Rightarrow> heap \<times> vmm \<Rightarrow> vec_struct \<times> mem \<times> heap \<times> vmm" where
  "vec_erase_all kmfree s v m h =
     (let m = (if 0 < v_len v then memset (v_data v) 0 (of_nat s * v_len v) m else m);
          (v, h) = vec_free kmfree (v\<lparr>v_len := 0\<rparr>) h
      in (v, m, h))"

text \<open>The search of \<^verbatim>\<open>vec_erase_val\<close>: the signed counter is compared with the unsigned length.\<close>

function erase_val_loop :: "nat \<Rightarrow> u8 list \<Rightarrow> u64 \<Rightarrow> vec_struct \<Rightarrow> mem \<Rightarrow> u64 option" where
  "erase_val_loop s val i v m =
     (if i < v_len v then if vec_at s v m i = val then Some i else erase_val_loop s val (i + 1) v m else None)"
  by pat_completeness auto
termination
proof (relation "measure (\<lambda>(s, val, i, v, m). unat (v_len v) - unat i)")
  fix i :: u64 and v :: vec_struct and s :: nat and val :: "u8 list" and m :: mem
  assume a: "i < v_len v"
  then have "unat i + 1 < 2 ^ 64" using unat_less_pow [of "v_len v"] by (simp add: word_less_nat_alt)
  then have "unat (i + 1) = unat i + 1" by (subst unat_plus_small) simp_all
  then show "((s, val, i + 1, v, m), s, val, i, v, m) \<in> measure (\<lambda>(s, val, i, v, m). unat (v_len v) - unat i)"
    using a by (simp add: word_less_nat_alt)
qed simp

declare erase_val_loop.simps [simp del]

definition vec_erase_val ::
  "(u64 \<Rightarrow> heap \<times> vmm \<Rightarrow> heap \<times> vmm) \<Rightarrow> u8 list \<Rightarrow> vec_struct \<Rightarrow> mem \<Rightarrow> heap \<times> vmm \<Rightarrow> vec_struct \<times> mem \<times> heap \<times> vmm" where
  "vec_erase_val kmfree val v m h =
     (case erase_val_loop (length val) val 0 v m of
        None \<Rightarrow> (v, m, h) | Some i \<Rightarrow> vec_erase kmfree (length val) i v m h)"

section \<open>Blocks at offsets\<close>

lemma load_store_offset:
  assumes "p + k \<le> q \<or> q + length bs \<le> p" and "p + k \<le> 2 ^ 64" and "q + length bs \<le> 2 ^ 64"
  shows "load_bytes (store_bytes m (a + of_nat q) bs) (a + of_nat p) k = load_bytes m (a + of_nat p) k"
proof (rule nth_equalityI)
  fix i
  assume "i < length (load_bytes (store_bytes m (a + of_nat q) bs) (a + of_nat p) k)"
  then have i: "i < k" by simp
  let ?x = "a + of_nat p + of_nat i"
  have d: "?x - (a + of_nat q) = of_nat (p + i) - of_nat q" by simp
  have "unat (of_nat (p + i) :: u64) = p + i" using i assms(2) by (intro unat_of_nat_small) simp
  moreover have "unat (of_nat q :: u64) = q" if "0 < length bs" 
  proof -
    have "q < 2 ^ 64" using that assms(3) by linarith
    then show ?thesis by (intro unat_of_nat_small) simp
  qed
  ultimately have "\<not> unat (?x - (a + of_nat q)) < length bs"
    unfolding d using assms i by (cases bs) (auto simp: unat_sub_if')
  then show "load_bytes (store_bytes m (a + of_nat q) bs) (a + of_nat p) k ! i = load_bytes m (a + of_nat p) k ! i"
    using i by (simp add: nth_load_bytes store_bytes_def)
qed simp

lemma load_store_same: "length bs \<le> 2 ^ 64 \<Longrightarrow> load_bytes (store_bytes m a bs) a (length bs) = bs"
  by (rule nth_equalityI) (auto simp: nth_load_bytes store_bytes_def unat_of_nat take_bit_nat_eq_self)

section \<open>Vectors as lists\<close>

text \<open>The elements, and a vector whose elements have addresses that do not wrap around.\<close>

definition vec_list :: "nat \<Rightarrow> vec_struct \<Rightarrow> mem \<Rightarrow> u8 list list" where
  "vec_list s v m = map (\<lambda>i. vec_at s v m (of_nat i)) [0..<unat (v_len v)]"

definition vec_fits :: "nat \<Rightarrow> vec_struct \<Rightarrow> bool" where
  "vec_fits s v \<longleftrightarrow> 0 < s \<and> (unat (v_len v) + 1) * s * 4 * s < 2 ^ 64"

lemma at_offset: "vec_at s v m (of_nat i) = load_bytes m (v_data v + of_nat (i * s)) s"
  by (simp add: vec_at_def)

lemma word_prod: "unat a * k < 2 ^ 64 \<Longrightarrow> unat (a * of_nat k) = unat a * k" for a :: u64
proof -
  assume "unat a * k < 2 ^ 64"
  then show ?thesis using unat_of_nat_small [where 'a = 64, of "unat a * k"] by simp
qed

lemma fits_elem:
  assumes "vec_fits s v"
  shows "(unat (v_len v) + 1) * s < 2 ^ 64" "unat (v_len v) + 1 < 2 ^ 64" "s < 2 ^ 64" "(unat (v_len v) + 1) * s * 4 < 2 ^ 64"
proof -
  have s: "0 < s" "(unat (v_len v) + 1) * s * 4 * s < 2 ^ 64" using assms by (simp_all add: vec_fits_def)
  have g: "a \<le> a * s" for a :: nat using s(1) by simp
  show f: "(unat (v_len v) + 1) * s * 4 < 2 ^ 64" using s(2) g [of "(unat (v_len v) + 1) * s * 4"] by (rule le_less_trans [rotated])
  then show "(unat (v_len v) + 1) * s < 2 ^ 64" by simp
  then show "unat (v_len v) + 1 < 2 ^ 64" using g [of "unat (v_len v) + 1"] by (rule le_less_trans [rotated])
  show "s < 2 ^ 64" using \<open>(unat (v_len v) + 1) * s < 2 ^ 64\<close> by (simp add: add_mult_distrib)
qed

text \<open>
  Pushing an element makes it the last one and leaves room for it.  If the capacity sufficed, the others are kept.
  If not, the elements before it are whatever the new block contained: nothing is copied.
\<close>

theorem vec_push_back_list:
  assumes f: "vec_fits s v" and s: "length elem = s" and r: "vec_push_back elem v m h = Some (v', m', h')"
  shows "unat (v_len v') = unat (v_len v) + 1 \<and> unat (v_len v') * s \<le> unat (v_capacity v')
     \<and> (if unat (v_len v') * s \<le> unat (v_capacity v)
        then v' = v\<lparr>v_len := v_len v'\<rparr> \<and> h' = h \<and> vec_list s v' m' = vec_list s v m @ [elem]
        else unat (v_capacity v') = 4 * unat (v_len v') * s \<and> kmalloc (v_capacity v' * of_nat s) h = Some (v_data v', h')
           \<and> vec_list s v' m' = map (\<lambda>i. load_bytes m (v_data v' + of_nat (i * s)) s) [0..<unat (v_len v)] @ [elem])"
proof -
  let ?n = "unat (v_len v)" and ?l = "v_len v + 1"
  note b = fits_elem [OF f]
  have l: "unat ?l = ?n + 1" using b(2) by (subst unat_plus_small) simp_all
  have ls: "unat (?l * of_nat s) = (?n + 1) * s" using word_prod [of ?l s] b(1) unfolding l by simp
  have l4: "unat (?l * of_nat s * 4) = (?n + 1) * s * 4" using word_prod [of "?l * of_nat s" 4] b(4) unfolding ls by simp
  have nx: "(?l - 1) * of_nat s = of_nat (?n * s)" by simp
  have at: "load_bytes (store_bytes m (a + of_nat (?n * s)) elem) (a + of_nat (i * s)) s =
      (if i = ?n then elem else load_bytes m (a + of_nat (i * s)) s)" if "i \<le> ?n" for i and a :: u64
  proof (cases "i = ?n")
    case True
    have "length elem \<le> 2 ^ 64" using b(3) s by simp
    from load_store_same [OF this, of m "a + of_nat (?n * s)"] True s show ?thesis by simp
  next
    case False
    then have "Suc i * s \<le> ?n * s" using that by (intro mult_le_mono1) simp
    then have "i * s + s \<le> ?n * s" "?n * s + s < 2 ^ 64" using b(1) by (simp_all add: add.commute)
    then show ?thesis using False s load_store_offset [of "i * s" s "?n * s" elem m a] by simp
  qed
  have list: "vec_list s w (store_bytes m (v_data w + (?l - 1) * of_nat s) elem) =
      map (\<lambda>i. load_bytes m (v_data w + of_nat (i * s)) s) [0..<?n] @ [elem]" if "v_len w = ?l" for w
  proof -
    have "map (\<lambda>i. load_bytes (store_bytes m (v_data w + of_nat (?n * s)) elem) (v_data w + of_nat (i * s)) s) [0..<?n]
        = map (\<lambda>i. load_bytes m (v_data w + of_nat (i * s)) s) [0..<?n]" by (intro map_cong refl, subst at) auto
    then show ?thesis unfolding vec_list_def at_offset that l nx using at [of ?n "v_data w"] by simp
  qed
  show ?thesis
  proof (cases "v_capacity v < ?l * of_nat s")
    case False
    then have "v' = v\<lparr>v_len := ?l\<rparr>" "h' = h" "m' = store_bytes m (v_data v + (?l - 1) * of_nat s) elem"
      using r s by (simp_all add: vec_push_back_def Let_def)
    moreover have "(?n + 1) * s \<le> unat (v_capacity v)" using False ls by (simp add: word_less_nat_alt)
    moreover have "vec_list s v m = map (\<lambda>i. load_bytes m (v_data v + of_nat (i * s)) s) [0..<?n]"
      unfolding vec_list_def at_offset ..
    ultimately show ?thesis using l list [of "v\<lparr>v_len := ?l\<rparr>"] by simp
  next
    case True
    then obtain p where p: "kmalloc (?l * of_nat s * 4 * of_nat s) h = Some (p, h')"
        "v' = v\<lparr>v_len := ?l, v_capacity := ?l * of_nat s * 4, v_data := p\<rparr>"
        "m' = store_bytes m (p + (?l - 1) * of_nat s) elem"
      using r s by (auto simp: vec_push_back_def Let_def VECTOR_RESIZE_FACTOR_def split: Option.bind_splits)
    moreover have "\<not> (?n + 1) * s \<le> unat (v_capacity v)" using True ls by (simp add: word_less_nat_alt)
    ultimately show ?thesis using l l4 list [of v'] by (simp add: algebra_simps)
  qed
qed

text \<open>Moving the elements after \<^term>\<open>i\<close> down by one place and clearing the last one.\<close>

lemma shift_below:
  assumes "i < n" "n * s + s < 2 ^ 64" "j < i"
  shows "load_bytes (store_bytes m (d + of_nat (i * s)) (load_bytes m q ((n - i - 1) * s))) (d + of_nat (j * s)) s
     = load_bytes m (d + of_nat (j * s)) s"
proof (rule load_store_offset)
  have "(j + 1) * s \<le> i * s" "(i + (n - i - 1)) * s \<le> n * s" by (rule mult_le_mono1, use assms in linarith)+
  then have a: "j * s + s \<le> i * s" "i * s + (n - i - 1) * s \<le> n * s" by (simp_all only: add_mult_distrib mult_1)
  then show "j * s + s \<le> i * s \<or> i * s + length (load_bytes m q ((n - i - 1) * s)) \<le> j * s" by simp
  show "j * s + s \<le> 2 ^ 64" "i * s + length (load_bytes m q ((n - i - 1) * s)) \<le> 2 ^ 64"
    using a assms(2) unfolding length_load_bytes by linarith+
qed

lemma shift_above:
  assumes "i < n" "n * s + s < 2 ^ 64" "i + k < n - 1"
  shows "load_bytes (store_bytes m (d + of_nat (i * s)) (load_bytes m (d + of_nat ((i + 1) * s)) ((n - i - 1) * s)))
       (d + of_nat ((i + k) * s)) s
     = load_bytes m (d + of_nat ((i + k + 1) * s)) s"
proof (rule nth_equalityI)
  let ?bs = "load_bytes m (d + of_nat ((i + 1) * s)) ((n - i - 1) * s)"
  let ?m = "store_bytes m (d + of_nat (i * s)) ?bs"
  fix x
  assume "x < length (load_bytes ?m (d + of_nat ((i + k) * s)) s)"
  then have x: "x < s" by simp
  have "(k + 1) * s \<le> (n - i - 1) * s" "(n - i - 1) * s \<le> n * s" by (rule mult_le_mono1, use assms in linarith)+
  then have kx: "k * s + x < (n - i - 1) * s" "k * s + x < 2 ^ 64"
    using x assms(2) unfolding add_mult_distrib mult_1 by linarith+
  have "d + of_nat ((i + k) * s) + of_nat x - (d + of_nat (i * s)) = of_nat (k * s + x)"
    by (simp add: algebra_simps)
  moreover have "unat (of_nat (k * s + x) :: u64) = k * s + x" by (rule unat_of_nat_small) (use kx in simp)
  ultimately have "?m (d + of_nat ((i + k) * s) + of_nat x) = ?bs ! (k * s + x)"
    using kx(1) by (simp only: store_bytes_def length_load_bytes if_True)
  also have "\<dots> = m (d + of_nat ((i + k + 1) * s) + of_nat x)"
    unfolding nth_load_bytes [OF kx(1)] by (rule arg_cong [where f = m]) (simp add: algebra_simps)
  finally show "load_bytes ?m (d + of_nat ((i + k) * s)) s ! x = load_bytes m (d + of_nat ((i + k + 1) * s)) s ! x"
    using x by (simp only: nth_load_bytes)
qed simp

lemma shift_elements:
  assumes "i < n" "n * s + s < 2 ^ 64" "j < n - 1"
  shows "load_bytes (store_bytes (store_bytes m (d + of_nat (i * s)) (load_bytes m (d + of_nat ((i + 1) * s)) ((n - i - 1) * s)))
       (d + of_nat ((n - 1) * s)) (replicate s 0)) (d + of_nat (j * s)) s
     = load_bytes m (d + of_nat ((if j < i then j else j + 1) * s)) s"
proof -
  let ?m = "store_bytes m (d + of_nat (i * s)) (load_bytes m (d + of_nat ((i + 1) * s)) ((n - i - 1) * s))"
  have "(j + 1) * s \<le> (n - 1) * s" "(n - 1 + 1) * s \<le> n * s" by (rule mult_le_mono1, use assms in linarith)+
  then have "j * s + s \<le> (n - 1) * s" "(n - 1) * s + s \<le> n * s" by (simp_all only: add_mult_distrib mult_1)
  then have "load_bytes (store_bytes ?m (d + of_nat ((n - 1) * s)) (replicate s 0)) (d + of_nat (j * s)) s
      = load_bytes ?m (d + of_nat (j * s)) s"
    using assms(2) by (intro load_store_offset) simp_all
  also have "\<dots> = load_bytes m (d + of_nat ((if j < i then j else j + 1) * s)) s"
  proof (cases "j < i")
    case True
    with shift_below [OF assms(1,2) True] show ?thesis by simp
  next
    case False
    then obtain k where "j = i + k" using le_Suc_ex not_less by blast
    with False shift_above [OF assms(1,2), of k m d] assms(3) show ?thesis by simp
  qed
  finally show ?thesis .
qed

text \<open>
  Erasing removes the element at the index and moves the ones after it down by one place.  When the last one goes, the
  block is given back and the vector is new again.
\<close>

theorem vec_erase_list:
  assumes f: "vec_fits s v" and i: "i < v_len v" and r: "vec_erase kmfree s i v m h = (v', m', h')"
  shows "if v_len v = 1
    then v' = vec_new \<and> h' = (if v_data v \<noteq> 0 then kmfree (v_data v) h else h)
    else v' = v\<lparr>v_len := v_len v - 1\<rparr> \<and> h' = h
       \<and> vec_list s v' m' = take (unat i) (vec_list s v m) @ drop (unat i + 1) (vec_list s v m)"
proof (cases "v_len v = 1")
  case True
  then show ?thesis using r by (auto simp: vec_erase_def vec_free_def vec_new_def Let_def split: prod.splits)
next
  case False
  let ?n = "unat (v_len v)" and ?i = "unat i" and ?d = "v_data v"
  note b = fits_elem [OF f]
  have il: "?i < ?n" using i by (simp add: word_less_nat_alt)
  have n1: "v_len v - 1 \<noteq> 0" using False by simp
  have un: "unat (v_len v - 1) = ?n - 1" using il by (subst unat_sub) (simp_all add: word_le_nat_alt)
  have uk: "unat (v_len v - i - 1) = ?n - ?i - 1"
  proof -
    have "unat (v_len v - i) = ?n - ?i" using il by (subst unat_sub) (simp_all add: word_le_nat_alt)
    then show ?thesis using il by (subst unat_sub) (simp_all add: word_le_nat_alt)
  qed
  have us: "unat (of_nat s :: u64) = s" using b(3) by (intro unat_of_nat_small) simp
  have small: "(?n - ?i - 1) * s + s \<le> ?n * s" "?n * s + s < 2 ^ 64"
  proof -
    have "(?n - ?i - 1 + 1) * s \<le> ?n * s" by (intro mult_le_mono1) (use il in simp)
    then show "(?n - ?i - 1) * s + s \<le> ?n * s" by (simp add: add.commute)
    show "?n * s + s < 2 ^ 64" using b(1) by (simp add: add.commute)
  qed
  have len: "unat (of_nat s * (v_len v - i - 1)) = (?n - ?i - 1) * s"
    using word_prod [of "v_len v - i - 1" s] small unfolding uk by (simp add: mult.commute)
  have gap: "?d + (i + 1) * of_nat s - (?d + i * of_nat s) = of_nat s" by (simp add: algebra_simps)
  have cp: "fst (memcpy (?d + i * of_nat s) (?d + (i + 1) * of_nat s) (of_nat s * (v_len v - i - 1)) m)
      = store_bytes m (?d + i * of_nat s) (load_bytes m (?d + (i + 1) * of_nat s) ((?n - ?i - 1) * s))"
    using memcpy_block_copy [of "?d + (i + 1) * of_nat s" "?d + i * of_nat s" "of_nat s * (v_len v - i - 1)" m] small
    unfolding gap us len by simp
  let ?m1 = "store_bytes m (?d + of_nat (?i * s)) (load_bytes m (?d + of_nat ((?i + 1) * s)) ((?n - ?i - 1) * s))"
  let ?m2 = "store_bytes ?m1 (?d + of_nat ((?n - 1) * s)) (replicate s 0)"
  have off: "i * of_nat s = of_nat (?i * s)" "(i + 1) * of_nat s = of_nat ((?i + 1) * s)"
    "(v_len v - 1) * of_nat s = of_nat ((?n - 1) * s)" 
  proof -
    have "v_len v - 1 = of_nat (?n - 1)" unfolding un [symmetric] by simp
    then show "(v_len v - 1) * of_nat s = of_nat ((?n - 1) * s)" by (simp only: of_nat_mult)
  qed (simp_all add: algebra_simps)
  have v': "v' = v\<lparr>v_len := v_len v - 1\<rparr>" "h' = h" "m' = ?m2"
    using r n1 cp unfolding vec_erase_def memset_block us off by (auto simp: Let_def split: prod.splits)
  have at: "load_bytes ?m2 (?d + of_nat (j * s)) s = load_bytes m (?d + of_nat ((if j < ?i then j else j + 1) * s)) s"
    if "j < ?n - 1" for j using shift_elements [OF il small(2) that] .
  have "vec_list s v' m' = take ?i (vec_list s v m) @ drop (?i + 1) (vec_list s v m)"
  proof (rule nth_equalityI)
    show "length (vec_list s v' m') = length (take ?i (vec_list s v m) @ drop (?i + 1) (vec_list s v m))"
      using il by (simp add: vec_list_def v' un)
    fix j
    assume "j < length (vec_list s v' m')"
    then have j: "j < ?n - 1" by (simp add: vec_list_def v' un)
    then have "Suc j < ?n" "j < ?n" by linarith+
    then show "vec_list s v' m' ! j = (take ?i (vec_list s v m) @ drop (?i + 1) (vec_list s v m)) ! j"
      using at [OF j] il j unfolding vec_list_def at_offset v' by (simp add: un nth_append)
  qed
  with False v' show ?thesis by simp
qed

text \<open>Four elements of one byte fill the first block; the fifth finds a block of zeros.\<close>

definition vec4 :: vec_struct where
  "vec4 = \<lparr>v_len = 4, v_capacity = 4, v_data = 0x1000\<rparr>"

definition mem4 :: mem where
  "mem4 = store_bytes (\<lambda>_. 0) 0x1000 [1, 2, 3, 4]"

theorem vec_push_back_list_witness:
  "\<exists>v' m' h'. vec_push_back [9] vec4 mem4 (kmalloc_init heap_zero, vmm_small) = Some (v', m', h')
     \<and> vec_list 1 vec4 mem4 = [[1], [2], [3], [4]] \<and> vec_list 1 v' m' = [[0], [0], [0], [0], [9]]"
proof -
  let ?h = "(kmalloc_init heap_zero, vmm_small)"
  obtain h' where k: "kmalloc 20 ?h = Some (0xFFFF800001000010, h')"
    by (simp add: kmalloc_bump heap_consts kmalloc_init_def heap_zero_def align8_def)
  have "\<exists>v' m'. vec_push_back [9] vec4 mem4 ?h = Some (v', m', h') \<and> v_data v' = 0xFFFF800001000010"
    by (simp add: vec_push_back_def vec4_def Let_def VECTOR_RESIZE_FACTOR_def k)
  then obtain v' m' where r: "vec_push_back [9] vec4 mem4 ?h = Some (v', m', h')" and d: "v_data v' = 0xFFFF800001000010" by blast
  have f: "vec_fits 1 vec4" by (simp add: vec_fits_def vec4_def)
  have u: "[0..<4] = [0, 1, 2, 3 :: nat]" by (simp add: upt_rec)
  have n: "unat (v_len vec4) = 4" "unat (v_capacity vec4) = 4" "length [9 :: u8] = 1" by (simp_all add: vec4_def)
  note l = vec_push_back_list [OF f n(3) r]
  have g: "\<not> unat (v_len v') * 1 \<le> unat (v_capacity vec4)" using conjunct1 [OF l] n by simp
  have "vec_list 1 v' m' = map (\<lambda>i. load_bytes mem4 (v_data v' + of_nat (i * 1)) 1) [0..<4] @ [[9]]"
    using conjunct2 [OF conjunct2 [OF l], unfolded if_not_P [OF g] n(1)] by blast
  then have "vec_list 1 v' m' = [[0], [0], [0], [0], [9]]"
    unfolding d u by (simp add: mem4_def store_bytes_def load_bytes_def)
  moreover have "vec_list 1 vec4 mem4 = [[1], [2], [3], [4]]"
    by (simp add: vec_list_def vec4_def u vec_at_def mem4_def store_bytes_def load_bytes_def)
  ultimately show ?thesis using r by blast
qed

theorem vec_erase_list_witness:
  "\<exists>m'. vec_erase (\<lambda>_ h. h) 1 1 vec4 mem4 (kmalloc_init heap_zero, vmm_small)
     = (vec4\<lparr>v_len := 3\<rparr>, m', kmalloc_init heap_zero, vmm_small) \<and> vec_list 1 (vec4\<lparr>v_len := 3\<rparr>) m' = [[1], [3], [4]]"
proof -
  obtain v' m' h' where r: "vec_erase (\<lambda>_ h. h) 1 1 vec4 mem4 (kmalloc_init heap_zero, vmm_small) = (v', m', h')" by (metis prod_cases3)
  have f: "vec_fits 1 vec4" "1 < v_len vec4" by (simp_all add: vec_fits_def vec4_def)
  have u: "[0..<4] = [0, 1, 2, 3 :: nat]" by (simp add: upt_rec)
  have "vec_list 1 vec4 mem4 = [[1], [2], [3], [4]]"
    by (simp add: vec_list_def vec4_def u vec_at_def mem4_def store_bytes_def load_bytes_def)
  with vec_erase_list [OF f r] r show ?thesis by (auto simp: vec4_def)
qed

end
