(* ===== verification/Spec2Isabelle.thy ===== *)
theory Spec2Isabelle
  imports Threads Ramfs Ps2_Input Fat_On_Ata Fat32_Layout Kprint Rng Elf Info Pci Boot Traps Pointer Virtio Vector
begin

text \<open>
  NTux-OS is a 64-bit kernel of one address space, written in C with some assembly and started by the Limine boot
  loader.  This development models its C code under \<^verbatim>\<open>src/kernel/src\<close> and \<^verbatim>\<open>src/libc\<close>; paths below are relative to
  \<^verbatim>\<open>src/kernel/src\<close>.  Each theory opens with the details of its own part.

  \<^bold>\<open>How the program is put together.\<close>  \<^verbatim>\<open>main.c\<close> initialises the parts in a fixed order (screen, memory, interrupts,
  drivers, processor, file systems), runs two tests and then loops: fetch the scancodes of the keyboard into a ring
  buffer, take one character, give it to the line editor, blink the cursor.  A finished line is a command, and the
  commands call everything else.  The layers are
  \<^item> memory: a bitmap of physical pages, one page table, and two heaps on top of both;
  \<^item> processor: descriptor tables, interrupt requests, the timer, cooperative threads with stacks on the kernel heap;
  \<^item> files: a FAT32 driver with a one-sector cache over an ATA disk, and a tree of nodes on the kernel heap;
  \<^item> people: keyboard and mouse, the linear framebuffer with a font and a text cursor, formatted output, the shell;
  \<^item> the rest: the ELF loader, random numbers, PCI, the speaker, ACPI, reports about the machine.

  \<^bold>\<open>Common conventions.\<close>  Machine integers are words of their width, so that arithmetic wraps where the code's does;
  an \<^verbatim>\<open>int\<close> that cannot overflow is an integer, and an \<^verbatim>\<open>int\<close> argument (the offset of \<^verbatim>\<open>fat_file_seek\<close>) is one
  too, meant for the values of the C type.  A C structure is a record, an enumeration a datatype, static variables
  are one record per file, passed along.  An address is a 64-bit word with 0 for NULL; heap objects and volumes are
  functions of their address, memory is a function from addresses to bytes.  A result that the C standard leaves
  undefined, a fault, or a loop that never ends is \<^const>\<open>None\<close>; error codes are values.  Loops that always end are
  \<^theory_text>\<open>fun\<close> with a measure where the recursion is not structural, so that nothing runs on fuel; loops over links that
  may be cyclic, on disk or in memory, are \<^theory_text>\<open>partial_function (option)\<close>, and what is said about them includes that
  they return.  The answers of devices are parameters: a stream indexed by the number of reads, a list of delivered
  bytes, or, for the disk, a machine with its own state.

  \<^bold>\<open>Theories and what they show.\<close>
  \<^descr> \<^theory_text>\<open>Prelude\<close>: words, little-endian fields, the collections \<^theory_text>\<open>buf_simps\<close> and \<^theory_text>\<open>len_simps\<close>, linked lists in a store.
  \<^descr> \<^theory_text>\<open>Libc_String\<close> (\<^verbatim>\<open>libc/string.c\<close>, \<^verbatim>\<open>libc/ctype.c\<close>): block and string functions; each equals a list function.
    \<^verbatim>\<open>memcmp\<close> answers true for \<^emph>\<open>equal\<close> blocks, which the FAT32 driver relies on the other way round.
  \<^descr> \<^theory_text>\<open>Pmm\<close> (\<^verbatim>\<open>mem/pmm.c\<close>): the free counter is the number of clear bits of the bitmap; the locale
    \<^theory_text>\<open>page_allocator\<close> states what callers rely on (successive pages are distinct and were free) and the bitmap is its
    interpretation.
  \<^descr> \<^theory_text>\<open>Vmm\<close> (\<^verbatim>\<open>mem/vmm.c\<close>): page table entries, the identity map of the first 2 MiB, mapping and freeing; every address
    from 2 MiB on is refused.
  \<^descr> \<^theory_text>\<open>Heap\<close> (\<^verbatim>\<open>mem/kmalloc.c\<close>, \<^verbatim>\<open>mem/umalloc.c\<close>): the locale \<^theory_text>\<open>allocator\<close> is the contract of a heap, with the
    disjointness of live blocks over any sequence of calls proved inside; both heaps are interpretations.  Besides:
    exhaustion of physical memory past the limit, double frees.
  \<^descr> \<^theory_text>\<open>Threads\<close> (\<^verbatim>\<open>cpu/thread.c\<close>, \<^verbatim>\<open>cpu/switch_context.asm\<close>): a step relation of creations and yields; the invariant of
    reachable states, resumption at the saved stack pointer, starvation of every thread but the first two.
  \<^descr> \<^theory_text>\<open>Ramfs\<close>, \<^theory_text>\<open>Ramfs_Log\<close> (\<^verbatim>\<open>fs/ramfs.c\<close>): nodes on the modelled heap; the operations keep a tree whose nodes are
    live blocks, files read back; the texts printed by each operation.
  \<^descr> \<^theory_text>\<open>Ps2_Input\<close> (\<^verbatim>\<open>drivers/ps2\<close>): the locale \<^theory_text>\<open>fifo\<close> with the ring buffer as its interpretation; decoding of
    scancodes; the mouse's byte-wise state machine refines a packet-wise one.
  \<^descr> \<^theory_text>\<open>Fat32_Base\<close>, \<^theory_text>\<open>Fat32_Table\<close>, \<^theory_text>\<open>Fat32_Dir\<close>, \<^theory_text>\<open>Fat32_File\<close>: the code of \<^verbatim>\<open>drivers/fs/FAT/fat32.c\<close> from top to
    bottom.  The locale \<^theory_text>\<open>block_dev\<close> in \<^theory_text>\<open>Fat32_Table\<close> is the contract of a disk, under which the cache is
    transparent.  Directory entries with long names parse back; the consequences of the inverted \<^verbatim>\<open>memcmp\<close>.
  \<^descr> \<^theory_text>\<open>Fat32_Chain\<close>, \<^theory_text>\<open>Fat32_Content\<close>: the allocation table as a map, cluster chains as lists, an open file as a byte
    array with a position; the locale \<^theory_text>\<open>reliable_dev\<close> extends \<^theory_text>\<open>block_dev\<close> by transfers that succeed.
  \<^descr> \<^theory_text>\<open>Fat32_Layout\<close>: the packed structures as lists of members; \<^verbatim>\<open>fat_mount\<close> computes tables, clusters and their sectors from
    the members of the boot sector, and the result has the layout that the theorems about the table assume.
  \<^descr> \<^theory_text>\<open>Ata\<close>, \<^theory_text>\<open>Fat_On_Ata\<close> (\<^verbatim>\<open>drivers/sata/ata.c\<close>): the driver on a machine that answers programmed transfers with
    28-bit addresses satisfies both contracts, as interpretations; the file theorems hold through all layers.
  \<^descr> \<^theory_text>\<open>Framebuffer\<close> (\<^verbatim>\<open>drivers/framebuffer/fb.c\<close>, \<^verbatim>\<open>cursor.c\<close>, the basic font): pixels, glyphs, cursor and scrolling.
    \<^theory_text>\<open>Pointer\<close> draws the mouse pointer, \<^theory_text>\<open>Virtio\<close> (\<^verbatim>\<open>drivers/gpu/virtio\<close>) is the same screen for a VirtIO display, with lines
    and text.
  \<^descr> \<^theory_text>\<open>Kprint\<close> (\<^verbatim>\<open>drivers/framebuffer/kprint.c\<close>): number conversion and \<^verbatim>\<open>kprintf\<close> against the text a format denotes.
  \<^descr> \<^theory_text>\<open>Rng\<close> (\<^verbatim>\<open>kernel_lib/random.c\<close>): seeding, rejection sampling, bounds of the ranges, shuffling.
  \<^descr> \<^theory_text>\<open>Interrupts\<close> (\<^verbatim>\<open>interrupts\<close>): what each selector and vector names after initialisation; which handler a
    request reaches; the number of interrupts after which \<^verbatim>\<open>sleep\<close> returns.
  \<^descr> \<^theory_text>\<open>Traps\<close> (\<^verbatim>\<open>interrupts/gdt.asm\<close>, \<^verbatim>\<open>isr.asm\<close>, \<^verbatim>\<open>isr.c\<close>): loading the segment registers, and the way of an exception
    through its gate, the error screen and the reboot.
  \<^descr> \<^theory_text>\<open>Elf\<close> (\<^verbatim>\<open>drivers/elf/elf.c\<close>): loading refines copying each segment to the start of its page.
  \<^descr> \<^theory_text>\<open>Vector\<close> (\<^verbatim>\<open>kernel_lib/vector.h\<close>): the growing array on the kernel heap, against lists.
  \<^descr> \<^theory_text>\<open>Port_Io\<close> (\<^verbatim>\<open>kernel_lib/io.asm\<close>), \<^theory_text>\<open>Audio\<close>, \<^theory_text>\<open>Acpi_Power\<close>, \<^theory_text>\<open>Info\<close>, \<^theory_text>\<open>Pci\<close> (\<^verbatim>\<open>drivers/audio\<close>, \<^verbatim>\<open>operators/power.c\<close>,
    \<^verbatim>\<open>kernel_lib/info.c\<close>, \<^verbatim>\<open>util/partutil.c\<close>, \<^verbatim>\<open>drivers/pci\<close>): the exact accesses each function makes and the values it
    computes from the answers.
  \<^descr> \<^theory_text>\<open>Shell\<close>, \<^theory_text>\<open>Shell_Facts\<close>, \<^theory_text>\<open>Boot\<close> (\<^verbatim>\<open>main.c\<close>): the line editor against a list editor, every command over the
    modelled parts it calls, start-up in the order of the code, and the main loop from scancodes to the input line.

  \<^bold>\<open>Reading the properties.\<close>  Each numbered property is the theorem after its text block; the witness next to it applies
  it to a concrete state.  Several say what the code does where this is not what it means to do; the reports that follow
  from them name the theorem.  The properties of files and cluster
  chains are stated over the disk of \<^theory_text>\<open>Ata\<close>, so that no contract is left assumed.

  \<^bold>\<open>Not modelled.\<close>  Console messages of the memory, thread, disk and loader code (those of the shell, of \<^verbatim>\<open>ramfs.c\<close> and of
  start-up are); the boot loader's protocol; timing; real concurrency, since interrupts change only the tick counter,
  which is a stream of its readings, and the acknowledged requests; aliasing between structures that the code keeps apart: the
  page bitmap is not part of the memory it describes, and the slot behind the descriptor table that \<^verbatim>\<open>gdt_init\<close> writes to is
  no other variable; a disk drive that is slow or defective (\<^theory_text>\<open>pio_drive\<close> is an ideal one); code the repository does not contain
  (\<^verbatim>\<open>outportl\<close> and \<^verbatim>\<open>inportl\<close> of the PCI driver, \<^verbatim>\<open>pci_get_bar\<close>, \<^verbatim>\<open>kmfree\<close>, \<^verbatim>\<open>cpuid\<close>, the
  time-stamp counter), which are parameters; fonts other
  than the basic one and the background image, which are data no modelled code reads.
\<close>

end
